(* ===== verification/Go_Prelude.thy ===== *)
theory Go_Prelude
  imports Main "HOL-Library.Word"
begin

text \<open>
  Shared vocabulary of the development: what the model uses of the Go language and of its
  packages \<^verbatim>\<open>time\<close> and \<^verbatim>\<open>sync/atomic\<close>.

  \<^item> Fixed width integers. A Go \<^verbatim>\<open>int64\<close> (and \<^verbatim>\<open>int\<close>, on a 64 bit platform) is an \<open>int\<close>;
    every arithmetic operation whose result can leave the 64 bit range goes through \<open>wrap64\<close>,
    the two's complement reading of the low 64 bits.
  \<^item> Time. An instant \<^verbatim>\<open>time.Time\<close> is the number of nanoseconds since Go's zero time. A
    \<^verbatim>\<open>time.Duration\<close> is an \<^verbatim>\<open>int64\<close> number of nanoseconds, and \<^verbatim>\<open>Time.Sub\<close> saturates.
  \<^item> Control. A Go call returns, panics, or never returns; \<open>('a, 's) go\<close> is a computation
    over a state \<open>'s\<close> with one of these outcomes, and \<open>gdefer\<close> is the \<^verbatim>\<open>defer\<close> statement,
    which also runs while a panic unwinds the stack.
\<close>

named_theorems go_simps \<open>unfolding rules for computations\<close>
named_theorems i64_simps \<open>simplification of 64 bit arithmetic that does not overflow\<close>

subsection \<open>Integers\<close>

type_synonym int64 = int
type_synonym duration = int
type_synonym gotime = int

definition max_int64 :: int64 where
  "max_int64 = 9223372036854775807"

definition min_int64 :: int64 where
  "min_int64 = -9223372036854775808"

definition in_int64 :: "int \<Rightarrow> bool" where
  "in_int64 x \<longleftrightarrow> min_int64 \<le> x \<and> x \<le> max_int64"

definition wrap64 :: "int \<Rightarrow> int64" where
  "wrap64 x = sint (word_of_int x :: 64 word)"

definition add64 :: "int64 \<Rightarrow> int64 \<Rightarrow> int64" where
  "add64 a b = wrap64 (a + b)"

definition sub64 :: "int64 \<Rightarrow> int64 \<Rightarrow> int64" where
  "sub64 a b = wrap64 (a - b)"

definition mul64 :: "int64 \<Rightarrow> int64 \<Rightarrow> int64" where
  "mul64 a b = wrap64 (a * b)"

text \<open>
  Go's \<open>/\<close> and \<open>%\<close> truncate towards zero. The divisor is non-zero here: a computation that may
  divide by zero uses \<open>gquo\<close> and \<open>grem\<close> below, which panic.
\<close>

definition quo64 :: "int64 \<Rightarrow> int64 \<Rightarrow> int64" where
  "quo64 a b = wrap64 (sgn a * sgn b * (\<bar>a\<bar> div \<bar>b\<bar>))"

definition rem64 :: "int64 \<Rightarrow> int64 \<Rightarrow> int64" where
  "rem64 a b = sgn a * (\<bar>a\<bar> mod \<bar>b\<bar>)"

subsection \<open>Instants and durations\<close>

definition zero_time :: gotime where
  "zero_time = 0"

definition time_IsZero :: "gotime \<Rightarrow> bool" where
  "time_IsZero t \<longleftrightarrow> t = zero_time"

definition time_Add :: "gotime \<Rightarrow> duration \<Rightarrow> gotime" where
  "time_Add t d = t + d"

definition time_Sub :: "gotime \<Rightarrow> gotime \<Rightarrow> duration" where
  "time_Sub t u =
     (if t - u > max_int64 then max_int64
      else if t - u < min_int64 then min_int64
      else t - u)"

definition time_After :: "gotime \<Rightarrow> gotime \<Rightarrow> bool" where
  "time_After t u \<longleftrightarrow> u < t"

definition time_Before :: "gotime \<Rightarrow> gotime \<Rightarrow> bool" where
  "time_Before t u \<longleftrightarrow> t < u"

abbreviation (input) millisecond :: duration where "millisecond \<equiv> 1000000"
abbreviation (input) second :: duration where "second \<equiv> 1000000000"

lemmas time_defs = zero_time_def time_IsZero_def time_Add_def time_Sub_def time_After_def
  time_Before_def

subsection \<open>Computations\<close>

datatype panic_value =
    DivideByZero
  | IndexOutOfRange
  | NegativeLength
  | NilDereference
  | UserPanic string

datatype 'a outcome =
    Returns 'a
  | Panics panic_value
  | Blocks

type_synonym ('a, 's) go = "'s \<Rightarrow> 'a outcome \<times> 's"

definition greturn :: "'a \<Rightarrow> ('a, 's) go" where
  "greturn a = (\<lambda>s. (Returns a, s))"

definition gpanic :: "panic_value \<Rightarrow> ('a, 's) go" where
  "gpanic p = (\<lambda>s. (Panics p, s))"

definition gblock :: "('a, 's) go" where
  "gblock = (\<lambda>s. (Blocks, s))"

definition gbind :: "('a, 's) go \<Rightarrow> ('a \<Rightarrow> ('b, 's) go) \<Rightarrow> ('b, 's) go" where
  "gbind m f = (\<lambda>s. case m s of
       (Returns a, s') \<Rightarrow> f a s'
     | (Panics p, s') \<Rightarrow> (Panics p, s')
     | (Blocks, s') \<Rightarrow> (Blocks, s'))"

definition gseq :: "('a, 's) go \<Rightarrow> ('b, 's) go \<Rightarrow> ('b, 's) go" where
  "gseq m k = gbind m (\<lambda>_. k)"

definition gget :: "('s \<Rightarrow> 'a) \<Rightarrow> ('a, 's) go" where
  "gget f = (\<lambda>s. (Returns (f s), s))"

definition gmodify :: "('s \<Rightarrow> 's) \<Rightarrow> (unit, 's) go" where
  "gmodify f = (\<lambda>s. (Returns (), f s))"

text \<open>A method that cannot panic, given as a function of the state.\<close>

definition gstate :: "('s \<Rightarrow> 'a \<times> 's) \<Rightarrow> ('a, 's) go" where
  "gstate f = (\<lambda>s. case f s of (a, s') \<Rightarrow> (Returns a, s'))"

definition gwhen :: "bool \<Rightarrow> (unit, 's) go \<Rightarrow> (unit, 's) go" where
  "gwhen b m = (if b then m else greturn ())"

text \<open>
  \<^verbatim>\<open>defer d()\<close> followed by the body \<open>m\<close>: the deferred call runs when the body returns and when
  it panics, and a panic of the deferred call replaces the outcome. It does not run when the body
  never returns.
\<close>

definition gdefer :: "(unit, 's) go \<Rightarrow> ('a, 's) go \<Rightarrow> ('a, 's) go" where
  "gdefer d m = (\<lambda>s. case m s of
       (Blocks, s') \<Rightarrow> (Blocks, s')
     | (r, s') \<Rightarrow> (case d s' of
           (Returns _, s'') \<Rightarrow> (r, s'')
         | (Panics p, s'') \<Rightarrow> (Panics p, s'')
         | (Blocks, s'') \<Rightarrow> (Blocks, s'')))"

text \<open>Runs a computation on a component of the state, read by \<open>get\<close> and written back by \<open>put\<close>.\<close>

definition gzoom :: "('s \<Rightarrow> 'c) \<Rightarrow> ('c \<Rightarrow> 's \<Rightarrow> 's) \<Rightarrow> ('a, 'c) go \<Rightarrow> ('a, 's) go" where
  "gzoom get put m = (\<lambda>s. case m (get s) of (r, c') \<Rightarrow> (r, put c' s))"

text \<open>\<^verbatim>\<open>for _, x := range xs { f(x) }\<close>.\<close>

fun gforeach :: "('x \<Rightarrow> (unit, 's) go) \<Rightarrow> 'x list \<Rightarrow> (unit, 's) go" where
  "gforeach f [] = greturn ()"
| "gforeach f (x # xs) = gseq (f x) (gforeach f xs)"

text \<open>Division and remainder as run time operations, and slices indexed by a Go \<^verbatim>\<open>int\<close>.\<close>

definition gquo :: "int64 \<Rightarrow> int64 \<Rightarrow> (int64, 's) go" where
  "gquo a b = (if b = 0 then gpanic DivideByZero else greturn (quo64 a b))"

definition grem :: "int64 \<Rightarrow> int64 \<Rightarrow> (int64, 's) go" where
  "grem a b = (if b = 0 then gpanic DivideByZero else greturn (rem64 a b))"

definition gindex :: "'x list \<Rightarrow> int \<Rightarrow> ('x, 's) go" where
  "gindex xs i = (if 0 \<le> i \<and> i < int (length xs) then greturn (xs ! nat i)
                  else gpanic IndexOutOfRange)"

definition gstore :: "int \<Rightarrow> ('x \<Rightarrow> 'x) \<Rightarrow> (unit, 'x list) go" where
  "gstore i f = (\<lambda>xs. if 0 \<le> i \<and> i < int (length xs)
                      then (Returns (), xs[nat i := f (xs ! nat i)])
                      else (Panics IndexOutOfRange, xs))"

text \<open>A call of a method of the element \<open>i\<close>, which mutates it in place.\<close>

definition gat :: "int \<Rightarrow> ('a, 'x) go \<Rightarrow> ('a, 'x list) go" where
  "gat i m = (\<lambda>xs. if 0 \<le> i \<and> i < int (length xs)
                   then (case m (xs ! nat i) of (r, x) \<Rightarrow> (r, xs[nat i := x]))
                   else (Panics IndexOutOfRange, xs))"

text \<open>\<^verbatim>\<open>make([]T, n)\<close>, whose elements are the zero value.\<close>

definition gmake :: "'x \<Rightarrow> int \<Rightarrow> ('x list, 's) go" where
  "gmake z n = (if n < 0 then gpanic NegativeLength else greturn (replicate (nat n) z))"

subsection \<open>Facts on integers\<close>

lemma int64_bounds_nums: "min_int64 = - (2 ^ 63)" "max_int64 = 2 ^ 63 - 1"
  by (simp_all add: min_int64_def max_int64_def)

lemma wrap64_mod: "wrap64 x = (x + 2 ^ 63) mod 2 ^ 64 - 2 ^ 63"
  by (simp add: wrap64_def sint_uint uint_word_of_int signed_take_bit_eq_take_bit_shift
      take_bit_eq_mod mod_simps)

lemma in_int64_wrap64 [simp]: "in_int64 (wrap64 x)"
  using pos_mod_bound [of "2 ^ 64" "x + 2 ^ 63"] pos_mod_sign [of "2 ^ 64" "x + 2 ^ 63"]
  by (simp add: wrap64_mod in_int64_def min_int64_def max_int64_def)

lemma wrap64_id [simp, i64_simps]: "in_int64 x \<Longrightarrow> wrap64 x = x"
  by (simp add: wrap64_mod in_int64_def min_int64_def max_int64_def)

lemma in_int64_iff: "in_int64 x \<longleftrightarrow> - (2 ^ 63) \<le> x \<and> x < 2 ^ 63"
  by (auto simp: in_int64_def min_int64_def max_int64_def)

lemma wrap64_cong_mod: "wrap64 x = wrap64 y \<longleftrightarrow> x mod 2 ^ 64 = y mod 2 ^ 64"
proof -
  have "x mod 2 ^ 64 = y mod 2 ^ 64 \<longleftrightarrow> (x + 2 ^ 63) mod 2 ^ 64 = (y + 2 ^ 63) mod 2 ^ 64"
    by (simp add: mod_add_cong mod_eq_dvd_iff)
  then show ?thesis by (simp add: wrap64_mod)
qed

lemma wrap64_mod_eq: "wrap64 x mod 2 ^ 64 = x mod 2 ^ 64"
  by (simp add: wrap64_mod mod_diff_left_eq)

lemma wrap64_add_left [simp]: "wrap64 (wrap64 x + y) = wrap64 (x + y)"
  by (metis wrap64_cong_mod wrap64_mod_eq mod_add_left_eq)

lemma wrap64_add_right [simp]: "wrap64 (x + wrap64 y) = wrap64 (x + y)"
  by (metis add.commute wrap64_add_left)

lemma wrap64_diff_left [simp]: "wrap64 (wrap64 x - y) = wrap64 (x - y)"
  using wrap64_add_left [of x "- y"] by simp

lemma in_int64_0 [simp]: "in_int64 0" and in_int64_1 [simp]: "in_int64 1"
  by (simp_all add: in_int64_def min_int64_def max_int64_def)

lemma wrap64_0 [simp]: "wrap64 0 = 0" and wrap64_1 [simp]: "wrap64 1 = 1"
  by simp_all

lemma add64_exact [i64_simps]: "in_int64 (a + b) \<Longrightarrow> add64 a b = a + b"
  and sub64_exact [i64_simps]: "in_int64 (a - b) \<Longrightarrow> sub64 a b = a - b"
  and mul64_exact [i64_simps]: "in_int64 (a * b) \<Longrightarrow> mul64 a b = a * b"
  by (simp_all add: add64_def sub64_def mul64_def)

lemma in_int64_arith [simp]: "in_int64 (add64 a b)" "in_int64 (sub64 a b)" "in_int64 (mul64 a b)"
  "in_int64 (quo64 a b)"
  by (simp_all add: add64_def sub64_def mul64_def quo64_def)

lemma fold_add64: "in_int64 a \<Longrightarrow> fold (\<lambda>v ret. add64 ret v) vs a = wrap64 (a + sum_list vs)"
proof (induction vs arbitrary: a)
  case Nil
  then show ?case by simp
next
  case (Cons v vs)
  then show ?case by (simp add: add64_def add.assoc)
qed

lemma quo64_nonneg [i64_simps]:
  assumes "0 \<le> a" "a \<le> max_int64" "0 < b"
  shows "quo64 a b = a div b"
proof -
  have "0 \<le> a div b" "a div b \<le> a"
    using assms zdiv_mono2 [of a 1 b] by (simp_all add: pos_imp_zdiv_nonneg_iff)
  then have "in_int64 (a div b)"
    using assms by (simp add: in_int64_def min_int64_def)
  then show ?thesis
    using assms by (cases "a = 0") (simp_all add: quo64_def)
qed

lemma rem64_nonneg [i64_simps]: "0 \<le> a \<Longrightarrow> 0 < b \<Longrightarrow> rem64 a b = a mod b"
  by (cases "a = 0") (simp_all add: rem64_def)

lemma time_Sub_in_int64 [simp]: "in_int64 (time_Sub t u)"
  by (simp add: time_Sub_def in_int64_def min_int64_def max_int64_def)

lemma time_Sub_exact: "in_int64 (t - u) \<Longrightarrow> time_Sub t u = t - u"
  by (simp add: time_Sub_def in_int64_def)

lemma time_Sub_less_0 [simp]: "time_Sub t u < 0 \<longleftrightarrow> t < u"
  by (auto simp: time_Sub_def min_int64_def max_int64_def)

lemma time_Sub_nonneg [simp]: "0 \<le> time_Sub t u \<longleftrightarrow> u \<le> t"
  using time_Sub_less_0 [of t u] by linarith

lemma time_Sub_mono: "t \<le> t' \<Longrightarrow> time_Sub t u \<le> time_Sub t' u"
  by (auto simp: time_Sub_def min_int64_def max_int64_def)

lemma time_Sub_le_max: "time_Sub t u \<le> max_int64"
  using time_Sub_in_int64 [of t u] by (simp add: in_int64_def)

subsection \<open>Facts on computations\<close>

lemma go_run [go_simps]:
  "greturn a s = (Returns a, s)"
  "gpanic p s = (Panics p, s)"
  "gblock s = (Blocks, s)"
  "gget f s = (Returns (f s), s)"
  "gmodify h s = (Returns (), h s)"
  by (simp_all add: greturn_def gpanic_def gblock_def gget_def gmodify_def)

lemma gbind_run [go_simps]:
  "gbind m f s = (case m s of
       (Returns a, s') \<Rightarrow> f a s'
     | (Panics p, s') \<Rightarrow> (Panics p, s')
     | (Blocks, s') \<Rightarrow> (Blocks, s'))"
  by (simp add: gbind_def)

lemma gseq_run [go_simps]:
  "gseq m k s = (case m s of
       (Returns a, s') \<Rightarrow> k s'
     | (Panics p, s') \<Rightarrow> (Panics p, s')
     | (Blocks, s') \<Rightarrow> (Blocks, s'))"
  by (simp add: gseq_def gbind_def)

lemma gstate_run [go_simps]: "gstate f s = (Returns (fst (f s)), snd (f s))"
  by (simp add: gstate_def split: prod.split)

lemma gwhen_run [go_simps]: "gwhen b m s = (if b then m s else (Returns (), s))"
  by (simp add: gwhen_def greturn_def)

lemma gzoom_run [go_simps]: "gzoom get put m s = (case m (get s) of (r, c') \<Rightarrow> (r, put c' s))"
  by (simp add: gzoom_def)

lemma gquo_run [go_simps]:
  "gquo a b s = (if b = 0 then (Panics DivideByZero, s) else (Returns (quo64 a b), s))"
  by (simp add: gquo_def go_simps)

lemma grem_run [go_simps]:
  "grem a b s = (if b = 0 then (Panics DivideByZero, s) else (Returns (rem64 a b), s))"
  by (simp add: grem_def go_simps)

lemma gindex_run [go_simps]:
  "gindex xs i s = (if 0 \<le> i \<and> i < int (length xs) then (Returns (xs ! nat i), s)
                    else (Panics IndexOutOfRange, s))"
  by (simp add: gindex_def go_simps)

lemma gmake_run [go_simps]:
  "gmake z n s = (if n < 0 then (Panics NegativeLength, s)
                  else (Returns (replicate (nat n) z), s))"
  by (simp add: gmake_def go_simps)

text \<open>A deferred call that always returns runs exactly once, whatever the body's outcome is.\<close>

lemma gdefer_run [go_simps]:
  assumes "\<And>s. d s = (Returns (), h s)"
  shows "gdefer d m s = (case m s of (Blocks, s') \<Rightarrow> (Blocks, s') | (r, s') \<Rightarrow> (r, h s'))"
  by (simp add: gdefer_def assms split: outcome.splits prod.splits)

lemma gseq_Returns: "m s = (Returns a, s') \<Longrightarrow> gseq m k s = k s'"
  and gbind_Returns: "m s = (Returns a, s') \<Longrightarrow> gbind m f s = f a s'"
  by (simp_all add: go_simps)

lemma gforeach_append: "gforeach f (xs @ ys) = gseq (gforeach f xs) (gforeach f ys)"
  by (induction xs) (auto simp: go_simps fun_eq_iff split: outcome.splits prod.splits)

text \<open>A loop whose body always returns is a fold.\<close>

lemma gforeach_fold:
  assumes "\<And>x s. f x s = (Returns (), h x s)"
  shows "gforeach f xs s = (Returns (), fold h xs s)"
  by (induction xs arbitrary: s) (simp_all add: go_simps assms)

text \<open>An invariant of the state kept by every iteration is kept by the loop, and the loop returns.\<close>

lemma gforeach_invariant:
  assumes "\<And>x s. x \<in> set xs \<Longrightarrow> P s \<Longrightarrow> \<exists>s'. f x s = (Returns (), s') \<and> P s'" and "P s"
  shows "\<exists>s'. gforeach f xs s = (Returns (), s') \<and> P s'"
  using assms
proof (induction xs arbitrary: s)
  case Nil
  then show ?case by (simp add: go_simps)
next
  case (Cons x xs)
  from Cons.prems obtain s1 where "f x s = (Returns (), s1)" "P s1"
    by force
  with Cons show ?case by (simp add: go_simps)
qed

subsection \<open>Computations that return\<close>

text \<open>\<open>safe ok m\<close>: from a state with the invariant \<open>ok\<close>, the call returns and keeps it.\<close>

definition safe :: "('s \<Rightarrow> bool) \<Rightarrow> ('a, 's) go \<Rightarrow> bool" where
  "safe ok m \<longleftrightarrow> (\<forall>s. ok s \<longrightarrow> (\<exists>a s'. m s = (Returns a, s') \<and> ok s'))"

lemma safeI: "(\<And>s. ok s \<Longrightarrow> \<exists>a s'. m s = (Returns a, s') \<and> ok s') \<Longrightarrow> safe ok m"
  by (simp add: safe_def)

lemma safeD: "safe ok m \<Longrightarrow> ok s \<Longrightarrow> \<exists>a s'. m s = (Returns a, s') \<and> ok s'"
  by (simp add: safe_def)

lemma safe_gforeach: "(\<And>x. x \<in> set xs \<Longrightarrow> safe ok (f x)) \<Longrightarrow> safe ok (gforeach f xs)"
  by (rule safeI) (use gforeach_invariant [of xs ok f] in \<open>auto simp: safe_def\<close>)

lemma safe_greturn [simp, intro]: "safe ok (greturn a)"
  by (simp add: safe_def go_simps)

lemma safe_gbind [intro]: "safe ok m \<Longrightarrow> (\<And>a. safe ok (f a)) \<Longrightarrow> safe ok (gbind m f)"
  by (fastforce simp: safe_def go_simps)

lemma safe_gseq [intro]: "safe ok m \<Longrightarrow> safe ok k \<Longrightarrow> safe ok (gseq m k)"
  by (fastforce simp: safe_def go_simps)

lemma safe_gmodify: "(\<And>s. ok s \<Longrightarrow> ok (h s)) \<Longrightarrow> safe ok (gmodify h)"
  by (simp add: safe_def go_simps)

lemma safe_gstate: "(\<And>s. ok s \<Longrightarrow> ok (snd (f s))) \<Longrightarrow> safe ok (gstate f)"
  by (simp add: safe_def go_simps)

lemma safe_gdefer: "safe ok d \<Longrightarrow> safe ok m \<Longrightarrow> safe ok (gdefer d m)"
  unfolding safe_def gdefer_def by (fastforce split: outcome.splits prod.splits)

lemma safe_gget [simp, intro]: "safe ok (gget f)"
  by (simp add: safe_def go_simps)

lemma safe_gwhen [intro]: "(b \<Longrightarrow> safe ok m) \<Longrightarrow> safe ok (gwhen b m)"
  by (auto simp: gwhen_def)

lemma safe_gzoom:
  assumes "safe ok' m" "\<And>s. ok s \<Longrightarrow> ok' (get s)" "\<And>c s. ok' c \<Longrightarrow> ok s \<Longrightarrow> ok (put c s)"
  shows "safe ok (gzoom get put m)"
  using assms by (fastforce simp: safe_def go_simps)

subsection \<open>What a computation keeps\<close>

text \<open>\<open>keeps I m\<close>: the call keeps \<open>I\<close>, whether it returns, panics or does not return.\<close>

named_theorems keeps_intros \<open>composition rules for what a computation keeps\<close>

definition keeps :: "('s \<Rightarrow> bool) \<Rightarrow> ('a, 's) go \<Rightarrow> bool" where
  "keeps I m \<longleftrightarrow> (\<forall>s. I s \<longrightarrow> I (snd (m s)))"

lemma keepsI: "(\<And>s. I s \<Longrightarrow> I (snd (m s))) \<Longrightarrow> keeps I m"
  by (simp add: keeps_def)

lemma keepsD: "keeps I m \<Longrightarrow> I s \<Longrightarrow> m s = (r, s') \<Longrightarrow> I s'"
  by (metis keeps_def snd_conv)

lemma keeps_basic [keeps_intros]:
  "keeps I (greturn a)" "keeps I (gpanic p)" "keeps I gblock" "keeps I (gget g)"
  by (simp_all add: keeps_def go_simps)

lemma keeps_gbind [keeps_intros]: "keeps I m \<Longrightarrow> (\<And>a. keeps I (k a)) \<Longrightarrow> keeps I (gbind m k)"
proof (rule keepsI)
  fix s
  assume m: "keeps I m" and k: "\<And>a. keeps I (k a)" and s: "I s"
  obtain r s1 where r: "m s = (r, s1)" by fastforce
  then have "I s1" using keepsD [OF m s] by simp
  then show "I (snd (gbind m k s))" using r k by (cases r) (simp_all add: gbind_def keeps_def)
qed

lemma keeps_gseq [keeps_intros]: "keeps I m \<Longrightarrow> keeps I k \<Longrightarrow> keeps I (gseq m k)"
  by (simp add: gseq_def keeps_gbind)

text \<open>A read tells the rest of the computation what it has read.\<close>

lemma keeps_gget_bind: "(\<And>s. I s \<Longrightarrow> keeps I (k (f s))) \<Longrightarrow> keeps I (gbind (gget f) k)"
  by (auto simp: keeps_def go_simps)

lemma keeps_gmodify: "(\<And>s. I s \<Longrightarrow> I (h s)) \<Longrightarrow> keeps I (gmodify h)"
  by (simp add: keeps_def go_simps)

lemma keeps_gwhen [keeps_intros]: "(b \<Longrightarrow> keeps I m) \<Longrightarrow> keeps I (gwhen b m)"
  by (auto simp: gwhen_def keeps_basic)

lemma keeps_if [keeps_intros]: "(b \<Longrightarrow> keeps I m) \<Longrightarrow> (\<not> b \<Longrightarrow> keeps I k) \<Longrightarrow> keeps I (if b then m else k)"
  by simp

lemma keeps_gforeach [keeps_intros]: "(\<And>x. x \<in> set xs \<Longrightarrow> keeps I (g x)) \<Longrightarrow> keeps I (gforeach g xs)"
  by (induction xs) (auto intro: keeps_gseq keeps_basic)

lemma keeps_gzoom: "(\<And>c s. I s \<Longrightarrow> I (put c s)) \<Longrightarrow> keeps I (gzoom get put m)"
  by (simp add: keeps_def gzoom_def split: prod.split)

lemma keeps_gdefer [keeps_intros]: "keeps I d \<Longrightarrow> keeps I m \<Longrightarrow> keeps I (gdefer d m)"
proof (rule keepsI)
  fix s
  assume d: "keeps I d" and m: "keeps I m" and s: "I s"
  obtain r s1 where r: "m s = (r, s1)" by fastforce
  then have s1: "I s1" using keepsD [OF m s] by simp
  obtain r' s2 where "d s1 = (r', s2)" "I s2" using keepsD [OF d s1] by (metis surj_pair)
  then show "I (snd (gdefer d m s))"
    using r s1 by (cases r; cases r') (simp_all add: gdefer_def)
qed

text \<open>A loop whose body returns for the elements of the list is a fold.\<close>

lemma gforeach_returns:
  assumes "\<And>x s. x \<in> set xs \<Longrightarrow> f x s = (Returns (), h x s)"
  shows "gforeach f xs s = (Returns (), fold h xs s)"
  using assms by (induction xs arbitrary: s) (simp_all add: go_simps)

end
