(* ===== verification/Errors.thy ===== *)
theory Errors
  imports Go_Prelude
begin

text \<open>
  Model of \<^verbatim>\<open>errors.go\<close>: the errors the library makes itself, the bad request marker, and the
  classification \<^verbatim>\<open>IsBadRequest\<close> with its fast paths in front of \<^verbatim>\<open>errors.As\<close>.

  A Go error value is modelled by what the code can ask of its dynamic type. \<open>CircuitErr\<close> is
  \<^verbatim>\<open>*circuitError\<close> and \<open>SimpleBadRequest\<close> the exported wrapper. Every other dynamic type is
  \<open>OtherErr msg br as unw\<close>: \<open>br\<close> is \<open>Some b\<close> when the type has a method \<^verbatim>\<open>BadRequest() bool\<close>,
  which answers \<open>b\<close>; \<open>as\<close> is the behaviour of a method \<^verbatim>\<open>As(interface{}) bool\<close> asked for a
  \<^verbatim>\<open>BadRequest\<close>; \<open>unw\<close> says which \<^verbatim>\<open>Unwrap\<close> method there is. The absent \<^verbatim>\<open>error\<close> (\<^verbatim>\<open>nil\<close>) is
  \<open>None\<close> of type \<open>err option\<close>.
\<close>

record circuitError =
  ce_concurrencyLimitReached :: bool
  ce_circuitOpen :: bool
  ce_msg :: string

text \<open>
  \<open>NoAs\<close>: no method \<^verbatim>\<open>As\<close>; \<open>AsRefuses\<close>: it answers false; \<open>AsGives b\<close>: it answers true and
  stores a \<^verbatim>\<open>BadRequest\<close> whose method answers \<open>b\<close>.
\<close>

datatype as_method = NoAs | AsRefuses | AsGives bool

datatype err =
    CircuitErr circuitError
  | SimpleBadRequest "err option"
  | OtherErr string "bool option" as_method unwrap_method
and unwrap_method =
    NoUnwrap
  | UnwrapOne "err option"
  | UnwrapMany "err option list"

definition bool_str :: "bool \<Rightarrow> string" where
  "bool_str b = (if b then ''true'' else ''false'')"

definition withMsg :: "string \<Rightarrow> circuitError \<Rightarrow> circuitError" where
  "withMsg msg m = m\<lparr>ce_msg := msg @ '': concurrencyReached='' @ bool_str (ce_concurrencyLimitReached m)
     @ '' circuitOpen='' @ bool_str (ce_circuitOpen m)\<rparr>"

definition errThrottledConcurrentCommands :: err where
  "errThrottledConcurrentCommands = CircuitErr (withMsg ''throttling connections to command''
     \<lparr>ce_concurrencyLimitReached = True, ce_circuitOpen = False, ce_msg = []\<rparr>)"

definition errThrottledConcurrentFallbacks :: err where
  "errThrottledConcurrentFallbacks = CircuitErr (withMsg ''throttling concurrency to fallbacks''
     \<lparr>ce_concurrencyLimitReached = True, ce_circuitOpen = False, ce_msg = []\<rparr>)"

definition errCircuitOpen :: err where
  "errCircuitOpen = CircuitErr (withMsg ''circuit is open''
     \<lparr>ce_concurrencyLimitReached = False, ce_circuitOpen = True, ce_msg = []\<rparr>)"

text \<open>
  The method \<^verbatim>\<open>Error\<close> of each dynamic type. \<^verbatim>\<open>SimpleBadRequest.Error\<close> forwards to the wrapped
  error, or says \<^verbatim>\<open>bad request\<close> when there is none.
\<close>

fun Error :: "err \<Rightarrow> string" where
  "Error (CircuitErr m) = ce_msg m"
| "Error (SimpleBadRequest None) = ''bad request''"
| "Error (SimpleBadRequest (Some e)) = Error e"
| "Error (OtherErr msg br asm unw) = msg"

text \<open>
  \<^verbatim>\<open>errors.As(err, &br)\<close> for a target of type \<^verbatim>\<open>BadRequest\<close>: a depth first walk of the chain. The
  result is what \<^verbatim>\<open>br.BadRequest()\<close> answers for the error found, or \<open>None\<close> when none is.
\<close>

fun errors_As :: "err \<Rightarrow> bool option"
  and errors_As_unwrap :: "unwrap_method \<Rightarrow> bool option"
  and errors_As_opt :: "err option \<Rightarrow> bool option"
  and errors_As_list :: "err option list \<Rightarrow> bool option" where
  "errors_As (CircuitErr m) = None"
| "errors_As (SimpleBadRequest e) = Some True"
| "errors_As (OtherErr msg br asm unw) = (case br of
       Some b \<Rightarrow> Some b
     | None \<Rightarrow> (case asm of
           AsGives b \<Rightarrow> Some b
         | _ \<Rightarrow> errors_As_unwrap unw))"
| "errors_As_unwrap NoUnwrap = None"
| "errors_As_unwrap (UnwrapOne e) = errors_As_opt e"
| "errors_As_unwrap (UnwrapMany es) = errors_As_list es"
| "errors_As_opt None = None"
| "errors_As_opt (Some e) = errors_As e"
| "errors_As_list [] = None"
| "errors_As_list (e # es) = (case errors_As_opt e of
       Some b \<Rightarrow> Some b
     | None \<Rightarrow> errors_As_list es)"

text \<open>
  \<^verbatim>\<open>IsBadRequest\<close>: the nil test, then the type switch in the order of its cases. The third case
  matches a type with any of the methods \<^verbatim>\<open>Unwrap() error\<close>, \<^verbatim>\<open>Unwrap() []error\<close> and
  \<^verbatim>\<open>As(interface{}) bool\<close>.
\<close>

fun IsBadRequest :: "err option \<Rightarrow> bool" where
  "IsBadRequest None = False"
| "IsBadRequest (Some (CircuitErr m)) = False"
| "IsBadRequest (Some (SimpleBadRequest e)) = True"
| "IsBadRequest (Some (OtherErr msg (Some b) asm unw)) = b"
| "IsBadRequest (Some (OtherErr msg None asm unw)) =
     (if unw \<noteq> NoUnwrap \<or> asm \<noteq> NoAs
      then errors_As (OtherErr msg None asm unw) = Some True
      else False)"

text \<open>\<^verbatim>\<open>ConcurrencyLimitReached\<close> and \<^verbatim>\<open>CircuitOpen\<close> of an error that matches the interface \<^verbatim>\<open>Error\<close>.\<close>

fun ConcurrencyLimitReached :: "err \<Rightarrow> bool option" where
  "ConcurrencyLimitReached (CircuitErr m) = Some (ce_concurrencyLimitReached m)"
| "ConcurrencyLimitReached _ = None"

fun CircuitOpen :: "err \<Rightarrow> bool option" where
  "CircuitOpen (CircuitErr m) = Some (ce_circuitOpen m)"
| "CircuitOpen _ = None"

subsection \<open>Properties\<close>

lemmas library_error_defs = errThrottledConcurrentCommands_def errThrottledConcurrentFallbacks_def
  errCircuitOpen_def

lemma library_errors_not_bad_request [simp]:
  "\<not> IsBadRequest (Some errCircuitOpen)"
  "\<not> IsBadRequest (Some errThrottledConcurrentCommands)"
  "\<not> IsBadRequest (Some errThrottledConcurrentFallbacks)"
  by (simp_all add: library_error_defs)

lemma library_errors_distinct:
  "distinct [errCircuitOpen, errThrottledConcurrentCommands, errThrottledConcurrentFallbacks]"
  by (simp add: library_error_defs withMsg_def bool_str_def)

text \<open>A wrapper error, with \<^verbatim>\<open>Unwrap() error\<close> and neither of the other methods.\<close>

definition wrap_err :: "string \<Rightarrow> err \<Rightarrow> err" where
  "wrap_err msg e = OtherErr msg None NoAs (UnwrapOne (Some e))"

lemma IsBadRequest_errors_As: "IsBadRequest (Some e) \<longleftrightarrow> errors_As e = Some True"
proof (cases e)
  case (OtherErr msg br asm unw)
  then show ?thesis
    by (cases br; cases asm; cases unw) simp_all
qed simp_all

lemma IsBadRequest_wrap_err: "IsBadRequest (Some (wrap_err msg e)) \<longleftrightarrow> IsBadRequest (Some e)"
  by (simp add: IsBadRequest_errors_As) (simp add: wrap_err_def)

lemma IsBadRequest_wrap_depth:
  "IsBadRequest (Some (((wrap_err msg) ^^ n) e)) \<longleftrightarrow> IsBadRequest (Some e)"
  by (induction n) (simp_all add: IsBadRequest_wrap_err)

text \<open>C40: \<^verbatim>\<open>IsBadRequest\<close>, with its fast paths on the dynamic type, answers exactly what the
  plain \<^verbatim>\<open>errors.As(err, &br) && br.BadRequest()\<close> would answer for every non-nil error, and false
  for nil.\<close>

theorem IsBadRequest_is_errors_As:
  "IsBadRequest eo \<longleftrightarrow> (case eo of None \<Rightarrow> False | Some e \<Rightarrow> errors_As e = Some True)"
  by (cases eo) (simp_all only: IsBadRequest_errors_As IsBadRequest.simps(1) option.case)

text \<open>The classification sees through any number of wrappers: a \<^verbatim>\<open>SimpleBadRequest\<close> wrapped
  \<open>n\<close> times is still a bad request, and none of the library's own errors becomes one.\<close>

theorem bad_request_through_wrappers:
  "IsBadRequest (Some ((wrap_err msg ^^ n) (SimpleBadRequest e)))
   \<and> \<not> IsBadRequest (Some ((wrap_err msg ^^ n) errCircuitOpen))
   \<and> \<not> IsBadRequest (Some ((wrap_err msg ^^ n) errThrottledConcurrentCommands))
   \<and> \<not> IsBadRequest (Some ((wrap_err msg ^^ n) errThrottledConcurrentFallbacks))"
  by (simp add: IsBadRequest_wrap_depth)

end
