(* ===== verification/Go_Context.thy ===== *)
theory Go_Context
  imports Errors
begin

text \<open>
  What the code uses of Go's clocks and of the package \<^verbatim>\<open>context\<close>.

  Readings are counted: the world's clock counter says how many readings have been taken, and a
  \<open>clock\<close> gives the instant each reading shows, so that two readings of one clock may differ. A
  context's \<^verbatim>\<open>Err()\<close> depends on the moment it is asked, which is counted the same way.
\<close>

type_synonym clock = "nat \<Rightarrow> gotime"

definition read_clock :: "clock \<Rightarrow> (gotime, nat) go" where
  "read_clock clk = (\<lambda>n. (Returns (clk n), Suc n))"

record ctx =
  ctx_Err :: "nat \<Rightarrow> err option"
  ctx_Deadline :: "gotime option"

definition err_Canceled :: err where
  "err_Canceled = OtherErr ''context canceled'' None NoAs NoUnwrap"

definition err_DeadlineExceeded :: err where
  "err_DeadlineExceeded = OtherErr ''context deadline exceeded'' None NoAs NoUnwrap"

definition ctx_Background :: ctx where
  "ctx_Background = \<lparr>ctx_Err = (\<lambda>_. None), ctx_Deadline = None\<rparr>"

text \<open>
  \<^verbatim>\<open>context.WithDeadline(parent, d)\<close>: the derived context ends when the parent ends or when the
  clock reaches \<open>d\<close>, and its deadline is the earlier of the two.
\<close>

definition WithDeadline :: "clock \<Rightarrow> ctx \<Rightarrow> gotime \<Rightarrow> ctx" where
  "WithDeadline clk parent d =
     \<lparr>ctx_Err = (\<lambda>n. case ctx_Err parent n of
          Some e \<Rightarrow> Some e
        | None \<Rightarrow> if d \<le> clk n then Some err_DeadlineExceeded else None),
      ctx_Deadline = Some (case ctx_Deadline parent of None \<Rightarrow> d | Some d' \<Rightarrow> min d d')\<rparr>"

lemma read_clock_run [go_simps]: "read_clock clk n = (Returns (clk n), Suc n)"
  by (simp add: read_clock_def)

lemma WithDeadline_parent: "ctx_Err parent n = Some e \<Longrightarrow> ctx_Err (WithDeadline clk parent d) n = Some e"
  by (simp add: WithDeadline_def)

end
