(* ===== verification/Interfaces.thy ===== *)
theory Interfaces
  imports Go_Context
begin

text \<open>
  Model of the interfaces of \<^verbatim>\<open>metrics.go\<close> and \<^verbatim>\<open>closers.go\<close>, and of the default logic
  \<^verbatim>\<open>neverOpens\<close> / \<^verbatim>\<open>neverCloses\<close>.

  A Go interface value is a table of methods together with a receiver. The tables are records of
  functions over the receiver's state \<open>'s\<close>, extended the way the Go interfaces embed one another:
  \<^verbatim>\<open>RunMetrics\<close>, then \<^verbatim>\<open>Opened\<close>/\<^verbatim>\<open>Closed\<close> of \<^verbatim>\<open>Metrics\<close>, then the methods of \<^verbatim>\<open>ClosedToOpen\<close> or
  \<^verbatim>\<open>OpenToClosed\<close>. Methods are computations: an implementation may panic.

  The configuration a live implementation is handed through \<^verbatim>\<open>Configurable\<close> is a \<open>ConfigView\<close>: the
  configuration without its function valued fields.
\<close>

record ExecutionConfig =
  ec_Timeout :: duration
  ec_MaxConcurrentRequests :: int64
  ec_IgnoreInterrupts :: bool
  ec_IsErrInterrupt :: "(err option \<Rightarrow> bool) option"

record FallbackConfig =
  fc_Disabled :: bool
  fc_MaxConcurrentRequests :: int64

record ConfigView =
  cv_Disabled :: bool
  cv_ForceOpen :: bool
  cv_ForcedClosed :: bool
  cv_Execution :: ExecutionConfig
  cv_Fallback :: FallbackConfig

record 's RunMetrics =
  rm_Success :: "ctx \<Rightarrow> gotime \<Rightarrow> duration \<Rightarrow> (unit, 's) go"
  rm_ErrFailure :: "ctx \<Rightarrow> gotime \<Rightarrow> duration \<Rightarrow> (unit, 's) go"
  rm_ErrTimeout :: "ctx \<Rightarrow> gotime \<Rightarrow> duration \<Rightarrow> (unit, 's) go"
  rm_ErrBadRequest :: "ctx \<Rightarrow> gotime \<Rightarrow> duration \<Rightarrow> (unit, 's) go"
  rm_ErrInterrupt :: "ctx \<Rightarrow> gotime \<Rightarrow> duration \<Rightarrow> (unit, 's) go"
  rm_ErrConcurrencyLimitReject :: "ctx \<Rightarrow> gotime \<Rightarrow> (unit, 's) go"
  rm_ErrShortCircuit :: "ctx \<Rightarrow> gotime \<Rightarrow> (unit, 's) go"

record 's StateMachine = "'s RunMetrics" +
  sm_Closed :: "ctx \<Rightarrow> gotime \<Rightarrow> (unit, 's) go"
  sm_Opened :: "ctx \<Rightarrow> gotime \<Rightarrow> (unit, 's) go"
  sm_SetConfigThreadSafe :: "(ConfigView \<Rightarrow> (unit, 's) go) option"
  sm_SetConfigNotThreadSafe :: "(ConfigView \<Rightarrow> (unit, 's) go) option"

record 's ClosedToOpen = "'s StateMachine" +
  co_ShouldOpen :: "ctx \<Rightarrow> gotime \<Rightarrow> (bool, 's) go"
  co_Prevent :: "ctx \<Rightarrow> gotime \<Rightarrow> (bool, 's) go"

record 's OpenToClosed = "'s StateMachine" +
  oc_ShouldClose :: "ctx \<Rightarrow> gotime \<Rightarrow> (bool, 's) go"
  oc_Allow :: "ctx \<Rightarrow> gotime \<Rightarrow> (bool, 's) go"

text \<open>One call of a method of \<^verbatim>\<open>RunMetrics\<close>, and of \<^verbatim>\<open>FallbackMetrics\<close>, as data.\<close>

datatype run_event =
    EvSuccess duration
  | EvErrFailure duration
  | EvErrTimeout duration
  | EvErrBadRequest duration
  | EvErrInterrupt duration
  | EvErrConcurrencyLimitReject
  | EvErrShortCircuit

datatype fallback_event =
    FbSuccess duration
  | FbErrFailure duration
  | FbErrConcurrencyLimitReject

fun rm_send :: "run_event \<Rightarrow> ctx \<Rightarrow> gotime \<Rightarrow> ('s, 'z) RunMetrics_scheme \<Rightarrow> (unit, 's) go" where
  "rm_send (EvSuccess d) ctx now vt = rm_Success vt ctx now d"
| "rm_send (EvErrFailure d) ctx now vt = rm_ErrFailure vt ctx now d"
| "rm_send (EvErrTimeout d) ctx now vt = rm_ErrTimeout vt ctx now d"
| "rm_send (EvErrBadRequest d) ctx now vt = rm_ErrBadRequest vt ctx now d"
| "rm_send (EvErrInterrupt d) ctx now vt = rm_ErrInterrupt vt ctx now d"
| "rm_send EvErrConcurrencyLimitReject ctx now vt = rm_ErrConcurrencyLimitReject vt ctx now"
| "rm_send EvErrShortCircuit ctx now vt = rm_ErrShortCircuit vt ctx now"

text \<open>A call that reports something to the open/close logic, and a sequence of such calls.\<close>

datatype sm_event = SmRun run_event | SmOpened | SmClosed

fun sm_send :: "sm_event \<Rightarrow> ctx \<Rightarrow> gotime \<Rightarrow> ('s, 'z) StateMachine_scheme \<Rightarrow> (unit, 's) go" where
  "sm_send (SmRun ev) ctx now vt = rm_send ev ctx now vt"
| "sm_send SmOpened ctx now vt = sm_Opened vt ctx now"
| "sm_send SmClosed ctx now vt = sm_Closed vt ctx now"

definition sm_history :: "('s, 'z) StateMachine_scheme \<Rightarrow> (sm_event \<times> ctx \<times> gotime) list \<Rightarrow> (unit, 's) go" where
  "sm_history vt = gforeach (\<lambda>(ev, ctx, now). sm_send ev ctx now vt)"

text \<open>The reports that say the backend failed, and those that say it was tried.\<close>

fun counts_error :: "sm_event \<Rightarrow> bool" where
  "counts_error (SmRun (EvErrFailure d)) = True"
| "counts_error (SmRun (EvErrTimeout d)) = True"
| "counts_error _ = False"

fun counts_attempt :: "sm_event \<Rightarrow> bool" where
  "counts_attempt (SmRun (EvSuccess d)) = True"
| "counts_attempt (SmRun (EvErrFailure d)) = True"
| "counts_attempt (SmRun (EvErrTimeout d)) = True"
| "counts_attempt _ = False"

fun is_transition :: "sm_event \<Rightarrow> bool" where
  "is_transition SmOpened = True"
| "is_transition SmClosed = True"
| "is_transition _ = False"

subsection \<open>The default logic\<close>

definition neverOpens :: "'s ClosedToOpen" where
  "neverOpens = \<lparr>rm_Success = (\<lambda>_ _ _. greturn ()), rm_ErrFailure = (\<lambda>_ _ _. greturn ()),
     rm_ErrTimeout = (\<lambda>_ _ _. greturn ()), rm_ErrBadRequest = (\<lambda>_ _ _. greturn ()),
     rm_ErrInterrupt = (\<lambda>_ _ _. greturn ()), rm_ErrConcurrencyLimitReject = (\<lambda>_ _. greturn ()),
     rm_ErrShortCircuit = (\<lambda>_ _. greturn ()),
     sm_Closed = (\<lambda>_ _. greturn ()), sm_Opened = (\<lambda>_ _. greturn ()),
     sm_SetConfigThreadSafe = None, sm_SetConfigNotThreadSafe = None,
     co_ShouldOpen = (\<lambda>_ _. greturn False), co_Prevent = (\<lambda>_ _. greturn False)\<rparr>"

definition neverCloses :: "'s OpenToClosed" where
  "neverCloses = \<lparr>rm_Success = (\<lambda>_ _ _. greturn ()), rm_ErrFailure = (\<lambda>_ _ _. greturn ()),
     rm_ErrTimeout = (\<lambda>_ _ _. greturn ()), rm_ErrBadRequest = (\<lambda>_ _ _. greturn ()),
     rm_ErrInterrupt = (\<lambda>_ _ _. greturn ()), rm_ErrConcurrencyLimitReject = (\<lambda>_ _. greturn ()),
     rm_ErrShortCircuit = (\<lambda>_ _. greturn ()),
     sm_Closed = (\<lambda>_ _. greturn ()), sm_Opened = (\<lambda>_ _. greturn ()),
     sm_SetConfigThreadSafe = None, sm_SetConfigNotThreadSafe = None,
     oc_ShouldClose = (\<lambda>_ _. greturn False), oc_Allow = (\<lambda>_ _. greturn False)\<rparr>"

text \<open>
  \<^verbatim>\<open>neverOpensFactory\<close> and \<^verbatim>\<open>neverClosesFactory\<close>. The structs have no fields and their methods do not
  look at the receiver, which is any value \<open>u\<close> of the type of receivers at hand.
\<close>

definition neverOpensFactory :: "'s \<Rightarrow> ('s ClosedToOpen \<times> 's, nat) go" where
  "neverOpensFactory u = greturn (neverOpens, u)"

definition neverClosesFactory :: "'s \<Rightarrow> ('s OpenToClosed \<times> 's, nat) go" where
  "neverClosesFactory u = greturn (neverCloses, u)"

subsection \<open>What the circuit relies on\<close>

text \<open>
  The contract of the pluggable logic towards the circuit: with an invariant \<open>ok\<close> of the
  receiver, every method returns, never panics, and keeps the invariant.
\<close>

locale state_machine =
  fixes vt :: "('s, 'z) StateMachine_scheme" and ok :: "'s \<Rightarrow> bool"
  assumes send_safe: "safe ok (rm_send ev ctx now vt)"
    and Closed_safe: "safe ok (sm_Closed vt ctx now)"
    and Opened_safe: "safe ok (sm_Opened vt ctx now)"
    and config_safe: "sm_SetConfigThreadSafe vt = Some f \<Longrightarrow> safe ok (f cv)"
    and config'_safe: "sm_SetConfigNotThreadSafe vt = Some f \<Longrightarrow> safe ok (f cv)"

locale closed_to_open = state_machine vt ok
  for vt :: "'s ClosedToOpen" and ok :: "'s \<Rightarrow> bool" +
  assumes ShouldOpen_safe: "safe ok (co_ShouldOpen vt ctx now)"
    and Prevent_safe: "safe ok (co_Prevent vt ctx now)"

locale open_to_closed = state_machine vt ok
  for vt :: "'s OpenToClosed" and ok :: "'s \<Rightarrow> bool" +
  assumes ShouldClose_safe: "safe ok (oc_ShouldClose vt ctx now)"
    and Allow_safe: "safe ok (oc_Allow vt ctx now)"

interpretation never_opens: closed_to_open neverOpens ok
proof (unfold_locales)
  fix ev ctx now
  show "safe ok (rm_send ev ctx now neverOpens)"
    by (cases ev) (simp_all add: neverOpens_def)
qed (simp_all add: neverOpens_def)

interpretation never_closes: open_to_closed neverCloses ok
proof (unfold_locales)
  fix ev ctx now
  show "safe ok (rm_send ev ctx now neverCloses)"
    by (cases ev) (simp_all add: neverCloses_def)
qed (simp_all add: neverCloses_def)

end
