(* ===== verification/TimedCheck.thy ===== *)
theory TimedCheck
  imports Go_Prelude
begin

text \<open>
  Model of \<^verbatim>\<open>faststats/timedcheck.go\<close>: a check that lets a number of events happen once every
  sleep duration.

  The timer is the environment. A function of the type of \<^verbatim>\<open>time.AfterFunc\<close> is described by what
  the code can observe of it (\<open>after_func\<close>): whether it runs the callback before it returns, and
  whether stopping its timer prevents a callback that has not run. \<open>tc_armed\<close> lists the callbacks
  scheduled and neither run nor stopped, each by the version it captured; the event \<open>TcFire v\<close> is the
  environment running one of them. Calls are atomic: each is under the mutex, but for the first load
  of \<^verbatim>\<open>isFastFail\<close>, whose answer false is final. \<open>TimedCheckRace\<close> has the steps of calls at the same time.
\<close>

record after_func =
  af_immediate :: "duration \<Rightarrow> bool"
  af_stops :: bool

record TimedCheck =
  tc_sleepDuration :: int64
  tc_eventCountToAllow :: int64
  tc_isFastFail :: bool
  tc_isFailFastVersion :: int64
  tc_TimeAfterFunc :: "after_func option"
  tc_nextOpenTime :: gotime
  tc_currentlyAllowedEventCount :: int64
  tc_lastSetTimer :: "int64 option"
  tc_armed :: "int64 list"

record marshalStruct =
  ms_SleepDuration :: int64
  ms_EventCountToAllow :: int64
  ms_NextOpenTime :: gotime
  ms_CurrentlyAllowedEventCount :: int64

definition zero_TimedCheck :: TimedCheck where
  "zero_TimedCheck = \<lparr>tc_sleepDuration = 0, tc_eventCountToAllow = 0, tc_isFastFail = False,
     tc_isFailFastVersion = 0, tc_TimeAfterFunc = None, tc_nextOpenTime = zero_time,
     tc_currentlyAllowedEventCount = 0, tc_lastSetTimer = None, tc_armed = []\<rparr>"

definition tc_MarshalJSON :: "TimedCheck \<Rightarrow> marshalStruct" where
  "tc_MarshalJSON c = \<lparr>ms_SleepDuration = tc_sleepDuration c,
     ms_EventCountToAllow = tc_eventCountToAllow c, ms_NextOpenTime = tc_nextOpenTime c,
     ms_CurrentlyAllowedEventCount = tc_currentlyAllowedEventCount c\<rparr>"

text \<open>\<open>decoded\<close> is what \<^verbatim>\<open>json.Unmarshal\<close> gave; the result says whether an error is returned.\<close>

definition tc_UnmarshalJSON :: "marshalStruct option \<Rightarrow> TimedCheck \<Rightarrow> bool \<times> TimedCheck" where
  "tc_UnmarshalJSON decoded c = (case decoded of
     None \<Rightarrow> (True, c)
   | Some into \<Rightarrow> (False, c\<lparr>tc_sleepDuration := ms_SleepDuration into,
       tc_eventCountToAllow := ms_EventCountToAllow into,
       tc_nextOpenTime := ms_NextOpenTime into,
       tc_currentlyAllowedEventCount := ms_CurrentlyAllowedEventCount into\<rparr>))"

definition tc_SetSleepDuration :: "duration \<Rightarrow> TimedCheck \<Rightarrow> TimedCheck" where
  "tc_SetSleepDuration newDuration c = c\<lparr>tc_sleepDuration := newDuration\<rparr>"

definition tc_SetEventCountToAllow :: "int64 \<Rightarrow> TimedCheck \<Rightarrow> TimedCheck" where
  "tc_SetEventCountToAllow newCount c = c\<lparr>tc_eventCountToAllow := newCount\<rparr>"

text \<open>\<^verbatim>\<open>afterFunc\<close>: \<^verbatim>\<open>time.AfterFunc\<close> unless \<^verbatim>\<open>TimeAfterFunc\<close> is set.\<close>

definition runtime_AfterFunc :: after_func where
  "runtime_AfterFunc = \<lparr>af_immediate = (\<lambda>_. False), af_stops = True\<rparr>"

definition tc_afterFunc :: "TimedCheck \<Rightarrow> after_func" where
  "tc_afterFunc c = (case tc_TimeAfterFunc c of None \<Rightarrow> runtime_AfterFunc | Some f \<Rightarrow> f)"

text \<open>The callback made by \<^verbatim>\<open>resetOpenTimeWithLock\<close>, which captured \<open>currentVersion\<close>.\<close>

definition tc_callback :: "int64 \<Rightarrow> TimedCheck \<Rightarrow> TimedCheck" where
  "tc_callback currentVersion c =
     (if currentVersion = tc_isFailFastVersion c then c\<lparr>tc_isFastFail := False\<rparr> else c)"

definition tc_stopTimer :: "TimedCheck \<Rightarrow> TimedCheck" where
  "tc_stopTimer c = (case tc_lastSetTimer c of
     None \<Rightarrow> c
   | Some v \<Rightarrow> c\<lparr>tc_lastSetTimer := None,
       tc_armed := (if af_stops (tc_afterFunc c) then remove1 v (tc_armed c) else tc_armed c)\<rparr>)"

definition tc_resetOpenTimeWithLock :: "gotime \<Rightarrow> TimedCheck \<Rightarrow> TimedCheck" where
  "tc_resetOpenTimeWithLock now c =
     (let c1 = tc_stopTimer c;
          sleepDuration = tc_sleepDuration c1;
          currentVersion = add64 (tc_isFailFastVersion c1) 1;
          c2 = c1\<lparr>tc_nextOpenTime := time_Add now sleepDuration,
                  tc_currentlyAllowedEventCount := 0,
                  tc_isFastFail := True,
                  tc_isFailFastVersion := currentVersion\<rparr>;
          c3 = (if af_immediate (tc_afterFunc c2) sleepDuration then tc_callback currentVersion c2
                else c2\<lparr>tc_armed := tc_armed c2 @ [currentVersion]\<rparr>)
      in c3\<lparr>tc_lastSetTimer := Some currentVersion\<rparr>)"

definition tc_SleepStart :: "gotime \<Rightarrow> TimedCheck \<Rightarrow> TimedCheck" where
  "tc_SleepStart now c = tc_resetOpenTimeWithLock now c"

definition tc_Check :: "gotime \<Rightarrow> TimedCheck \<Rightarrow> bool \<times> TimedCheck" where
  "tc_Check now c =
     (if tc_isFastFail c then (False, c)
      else if time_After (tc_nextOpenTime c) now then (False, c)
      else if time_After (tc_nextOpenTime c) now then (False, c)
      else
        let c1 = c\<lparr>tc_currentlyAllowedEventCount := add64 (tc_currentlyAllowedEventCount c) 1\<rparr> in
        (True, if tc_currentlyAllowedEventCount c1 \<ge> tc_eventCountToAllow c1
               then tc_resetOpenTimeWithLock now c1 else c1))"

text \<open>The environment runs a scheduled callback.\<close>

definition tc_fire :: "int64 \<Rightarrow> TimedCheck \<Rightarrow> TimedCheck" where
  "tc_fire v c = (if v \<in> set (tc_armed c) then tc_callback v (c\<lparr>tc_armed := remove1 v (tc_armed c)\<rparr>) else c)"

subsection \<open>Runs\<close>

datatype tc_op =
    TcSleepStart gotime
  | TcCheck gotime
  | TcSetSleepDuration duration
  | TcSetEventCountToAllow int64
  | TcFire int64

text \<open>One call, with the time of the event when it is a check that is granted.\<close>

fun tc_step :: "tc_op \<Rightarrow> TimedCheck \<Rightarrow> gotime list \<times> TimedCheck" where
  "tc_step (TcSleepStart now) c = ([], tc_SleepStart now c)"
| "tc_step (TcCheck now) c = (case tc_Check now c of (b, c') \<Rightarrow> (if b then [now] else [], c'))"
| "tc_step (TcSetSleepDuration d) c = ([], tc_SetSleepDuration d c)"
| "tc_step (TcSetEventCountToAllow k) c = ([], tc_SetEventCountToAllow k c)"
| "tc_step (TcFire v) c = ([], tc_fire v c)"

fun tc_run :: "tc_op list \<Rightarrow> TimedCheck \<Rightarrow> gotime list \<times> TimedCheck" where
  "tc_run [] c = ([], c)"
| "tc_run (op # ops) c =
     (case tc_step op c of (g, c1) \<Rightarrow> case tc_run ops c1 of (gs, c2) \<Rightarrow> (g @ gs, c2))"

fun op_time :: "tc_op \<Rightarrow> gotime option" where
  "op_time (TcSleepStart now) = Some now"
| "op_time (TcCheck now) = Some now"
| "op_time _ = None"

fun is_config :: "tc_op \<Rightarrow> bool" where
  "is_config (TcSetSleepDuration d) = True"
| "is_config (TcSetEventCountToAllow k) = True"
| "is_config _ = False"

fun keeps_window :: "tc_op \<Rightarrow> bool" where
  "keeps_window (TcSleepStart now) = False"
| "keeps_window (TcSetSleepDuration d) = (0 \<le> d)"
| "keeps_window _ = True"

subsection \<open>One call at a time\<close>

lemma reset_simps [simp]:
  "tc_nextOpenTime (tc_resetOpenTimeWithLock now c) = now + tc_sleepDuration c"
  "tc_currentlyAllowedEventCount (tc_resetOpenTimeWithLock now c) = 0"
  "tc_sleepDuration (tc_resetOpenTimeWithLock now c) = tc_sleepDuration c"
  "tc_eventCountToAllow (tc_resetOpenTimeWithLock now c) = tc_eventCountToAllow c"
  "tc_isFailFastVersion (tc_resetOpenTimeWithLock now c) = add64 (tc_isFailFastVersion c) 1"
  "tc_TimeAfterFunc (tc_resetOpenTimeWithLock now c) = tc_TimeAfterFunc c"
  by (simp_all add: tc_resetOpenTimeWithLock_def Let_def tc_stopTimer_def tc_callback_def time_Add_def
      split: option.split)

lemma fire_simps [simp]:
  "tc_nextOpenTime (tc_fire v c) = tc_nextOpenTime c"
  "tc_currentlyAllowedEventCount (tc_fire v c) = tc_currentlyAllowedEventCount c"
  "tc_sleepDuration (tc_fire v c) = tc_sleepDuration c"
  "tc_eventCountToAllow (tc_fire v c) = tc_eventCountToAllow c"
  "tc_isFailFastVersion (tc_fire v c) = tc_isFailFastVersion c"
  by (simp_all add: tc_fire_def tc_callback_def)

lemma set_simps [simp]:
  "tc_nextOpenTime (tc_SetSleepDuration d c) = tc_nextOpenTime c"
  "tc_sleepDuration (tc_SetSleepDuration d c) = d"
  "tc_nextOpenTime (tc_SetEventCountToAllow k c) = tc_nextOpenTime c"
  "tc_sleepDuration (tc_SetEventCountToAllow k c) = tc_sleepDuration c"
  by (simp_all add: tc_SetSleepDuration_def tc_SetEventCountToAllow_def)

lemma Check_granted_iff:
  "fst (tc_Check now c) \<longleftrightarrow> \<not> tc_isFastFail c \<and> tc_nextOpenTime c \<le> now"
  by (auto simp: tc_Check_def time_After_def Let_def)

lemma Check_denied: "\<not> fst (tc_Check now c) \<Longrightarrow> snd (tc_Check now c) = c"
  by (auto simp: tc_Check_def Let_def split: if_splits)

lemma Check_granted:
  assumes "fst (tc_Check now c)"
  shows "snd (tc_Check now c) =
    (let c1 = c\<lparr>tc_currentlyAllowedEventCount := add64 (tc_currentlyAllowedEventCount c) 1\<rparr> in
     if tc_eventCountToAllow c \<le> add64 (tc_currentlyAllowedEventCount c) 1
     then tc_resetOpenTimeWithLock now c1 else c1)"
  using assms by (simp add: tc_Check_def Let_def time_After_def split: if_splits)

lemma Check_sleepDuration [simp]: "tc_sleepDuration (snd (tc_Check now c)) = tc_sleepDuration c"
  and Check_eventCount [simp]: "tc_eventCountToAllow (snd (tc_Check now c)) = tc_eventCountToAllow c"
  by (simp_all add: tc_Check_def Let_def)

lemma tc_run_append:
  "tc_run (xs @ ys) c = (case tc_run xs c of (g, c1) \<Rightarrow> case tc_run ys c1 of (h, c2) \<Rightarrow> (g @ h, c2))"
  by (induction xs arbitrary: c) (simp_all split: prod.splits)


lemma fst_tc_run_Cons: "fst (tc_run (op # ops) c) = fst (tc_step op c) @ fst (tc_run ops (snd (tc_step op c)))"
  and snd_tc_run_Cons: "snd (tc_run (op # ops) c) = snd (tc_run ops (snd (tc_step op c)))"
  by (simp_all split: prod.splits)

lemma fst_tc_run_append: "fst (tc_run (xs @ ys) c) = fst (tc_run xs c) @ fst (tc_run ys (snd (tc_run xs c)))"
  and snd_tc_run_append: "snd (tc_run (xs @ ys) c) = snd (tc_run ys (snd (tc_run xs c)))"
  by (simp_all add: tc_run_append split: prod.splits)

lemma snd_step_Check [simp]: "snd (tc_step (TcCheck now) c) = snd (tc_Check now c)"
  and fst_step_Check [simp]: "fst (tc_step (TcCheck now) c) = (if fst (tc_Check now c) then [now] else [])"
  by (simp_all split: prod.splits)

subsection \<open>No event before the sleep is over\<close>

definition sleeps_until :: "gotime \<Rightarrow> TimedCheck \<Rightarrow> bool" where
  "sleeps_until t c \<longleftrightarrow> t \<le> tc_nextOpenTime c \<and> 0 \<le> tc_sleepDuration c"

lemma Check_sleeps_until:
  assumes "sleeps_until t c" "fst (tc_Check now c)"
  shows "t \<le> now" "sleeps_until t (snd (tc_Check now c))"
  using assms by (auto simp: Check_granted_iff Check_granted sleeps_until_def Let_def)

lemma step_sleeps_until:
  assumes "sleeps_until t c" "keeps_window op"
  shows "(\<forall>g \<in> set (fst (tc_step op c)). t \<le> g) \<and> sleeps_until t (snd (tc_step op c))"
proof (cases op)
  case (TcCheck now)
  then show ?thesis
    using assms Check_sleeps_until [OF assms(1), of now]
    by (cases "fst (tc_Check now c)") (simp_all add: Check_denied del: tc_step.simps(2))
qed (use assms in \<open>auto simp: sleeps_until_def\<close>)

lemma run_sleeps_until:
  "sleeps_until t c \<Longrightarrow> list_all keeps_window ops \<Longrightarrow> \<forall>g \<in> set (fst (tc_run ops c)). t \<le> g"
proof (induction ops arbitrary: c)
  case (Cons op ops)
  then show ?case
    using step_sleeps_until [of t c op] unfolding fst_tc_run_Cons by auto
qed simp

subsection \<open>The number of events per sleep duration\<close>

text \<open>
  The invariant of a run whose granted events so far are \<open>gs\<close> and whose last call was at \<open>now\<close>: the
  events since the last reset are the last \<open>currentlyAllowedEventCount\<close> ones, and every earlier
  event is a sleep duration or more before the time the check opened again.
\<close>

definition rate_inv :: "nat \<Rightarrow> duration \<Rightarrow> gotime list \<Rightarrow> gotime \<Rightarrow> TimedCheck \<Rightarrow> bool" where
  "rate_inv k d gs now c \<longleftrightarrow>
     tc_sleepDuration c = d \<and> tc_eventCountToAllow c = int k \<and> sorted gs \<and>
     (\<forall>g \<in> set gs. g \<le> now) \<and>
     (\<exists>m. tc_currentlyAllowedEventCount c = int m \<and> m < k \<and> m \<le> length gs \<and>
        (\<forall>g \<in> set (take (length gs - m) gs). g + d \<le> tc_nextOpenTime c)) \<and>
     (\<forall>i. i + k < length gs \<longrightarrow> gs ! i + d \<le> gs ! (i + k))"

lemma rate_inv_reset:
  assumes "rate_inv k d gs now c" "now \<le> now'"
  shows "rate_inv k d gs now' (tc_resetOpenTimeWithLock now' c)"
  using assms by (fastforce simp: rate_inv_def intro!: exI [of _ 0])

lemma rate_inv_later: "rate_inv k d gs now c \<Longrightarrow> now \<le> now' \<Longrightarrow> rate_inv k d gs now' c"
  by (fastforce simp: rate_inv_def)

lemma spaced_snoc:
  assumes "\<forall>i. i + k < length gs \<longrightarrow> gs ! i + d \<le> gs ! (i + k)"
    and "\<forall>g \<in> set (take (length gs - m) gs). g + d \<le> x" and "m < k" "m \<le> length gs"
  shows "\<forall>i. i + k < length (gs @ [x]) \<longrightarrow> (gs @ [x]) ! i + d \<le> (gs @ [x]) ! (i + k)"
proof (intro allI impI)
  fix i
  assume i: "i + k < length (gs @ [x])"
  show "(gs @ [x]) ! i + d \<le> (gs @ [x]) ! (i + k)"
  proof (cases "i + k < length gs")
    case False
    then have "i < length gs - m" using i assms by simp
    then have "gs ! i \<in> set (take (length gs - m) gs)"
      by (auto simp: in_set_conv_nth intro!: exI [of _ i])
    then show ?thesis using False i assms by (auto simp: nth_append)
  qed (use i assms in \<open>auto simp: nth_append\<close>)
qed

lemma rate_inv_grant:
  assumes inv: "rate_inv k d gs now c" and "now \<le> now'" "fst (tc_Check now' c)" "int k \<le> max_int64" "0 \<le> d"
  shows "rate_inv k d (gs @ [now']) now' (snd (tc_Check now' c))"
proof -
  obtain m where m: "tc_currentlyAllowedEventCount c = int m" "m < k" "m \<le> length gs"
    and old: "\<forall>g \<in> set (take (length gs - m) gs). g + d \<le> tc_nextOpenTime c"
    using inv by (auto simp: rate_inv_def)
  have open': "tc_nextOpenTime c \<le> now'" using assms(3) by (simp add: Check_granted_iff)
  have add: "add64 (int m) 1 = int (Suc m)"
    using m assms(4) by (simp add: add64_exact in_int64_def min_int64_def)
  have sp: "\<forall>i. i + k < length (gs @ [now']) \<longrightarrow> (gs @ [now']) ! i + d \<le> (gs @ [now']) ! (i + k)"
    using inv old open' m by (intro spaced_snoc [of k gs d m]) (auto simp: rate_inv_def)
  have srt: "sorted (gs @ [now'])" using inv assms(2) by (fastforce simp: rate_inv_def sorted_append)
  let ?c1 = "c\<lparr>tc_currentlyAllowedEventCount := int (Suc m)\<rparr>"
  have cfg: "tc_sleepDuration c = d" "tc_eventCountToAllow c = int k" and le: "\<forall>g \<in> set gs. g \<le> now"
    using inv by (auto simp: rate_inv_def)
  show ?thesis
  proof (cases "Suc m = k")
    case True
    then have "snd (tc_Check now' c) = tc_resetOpenTimeWithLock now' ?c1"
      using Check_granted [OF assms(3)] m cfg add by (simp add: Let_def)
    moreover have "\<forall>g \<in> set (gs @ [now']). g + d \<le> now' + d" using le assms(2) by auto
    ultimately show ?thesis
      using sp srt le assms(2) m cfg
      by (auto simp: rate_inv_def intro!: exI [of _ 0])
  next
    case False
    then have "snd (tc_Check now' c) = ?c1"
      using Check_granted [OF assms(3)] m cfg add by (simp add: Let_def)
    then show ?thesis
      using sp srt le assms(2) m cfg old False
      by (auto simp: rate_inv_def intro!: exI [of _ "Suc m"])
  qed
qed


fun times_from :: "gotime \<Rightarrow> tc_op list \<Rightarrow> bool" where
  "times_from t [] = True"
| "times_from t (op # ops) = (case op_time op of
     None \<Rightarrow> times_from t ops
   | Some now \<Rightarrow> t \<le> now \<and> times_from now ops)"

lemma rate_inv_run:
  assumes "rate_inv k d gs t c" "times_from t ops" "\<forall>op \<in> set ops. \<not> is_config op"
    and kd: "int k \<le> max_int64" "0 \<le> d"
  shows "\<exists>t'. rate_inv k d (gs @ fst (tc_run ops c)) t' (snd (tc_run ops c))"
  using assms
proof (induction ops arbitrary: c gs t)
  case (Cons op ops)
  have step: "\<exists>t'. rate_inv k d (gs @ fst (tc_step op c)) t' (snd (tc_step op c)) \<and> times_from t' ops"
  proof (cases op)
    case (TcSleepStart now)
    then show ?thesis
      using Cons.prems rate_inv_reset [of k d gs t c now] by (auto simp: tc_SleepStart_def)
  next
    case (TcCheck now)
    then show ?thesis
      using Cons.prems rate_inv_grant [of k d gs t c now] rate_inv_later [of k d gs t c now]
      by (cases "fst (tc_Check now c)") (auto simp: Check_denied simp del: tc_step.simps(2))
  next
    case (TcFire v)
    then have "rate_inv k d gs t (tc_fire v c)" using Cons.prems(1) by (simp add: rate_inv_def)
    then show ?thesis using TcFire Cons.prems by auto
  qed (use Cons.prems in auto)
  then obtain t' where "rate_inv k d (gs @ fst (tc_step op c)) t' (snd (tc_step op c))" "times_from t' ops"
    by blast
  then have "\<exists>t'. rate_inv k d ((gs @ fst (tc_step op c)) @ fst (tc_run ops (snd (tc_step op c)))) t'
      (snd (tc_run ops (snd (tc_step op c))))"
    using Cons.prems by (intro Cons.IH) auto
  then show ?case unfolding fst_tc_run_Cons snd_tc_run_Cons by simp
qed auto

subsection \<open>Failing fast never gets stuck\<close>

text \<open>
  Whenever the check fails fast, the callback of its current version is scheduled, so that the
  environment running the scheduled callbacks ends it. A callback of an older version does nothing.
\<close>

definition wakes_up :: "TimedCheck \<Rightarrow> bool" where
  "wakes_up c \<longleftrightarrow> (tc_isFastFail c \<longrightarrow> tc_isFailFastVersion c \<in> set (tc_armed c))"

lemma wakes_up_reset: "wakes_up (tc_resetOpenTimeWithLock now c)"
  by (simp add: tc_resetOpenTimeWithLock_def Let_def wakes_up_def tc_callback_def)

lemma wakes_up_fire: "wakes_up c \<Longrightarrow> wakes_up (tc_fire v c)"
  by (auto simp: wakes_up_def tc_fire_def tc_callback_def in_set_remove1)

lemma wakes_up_Check: "wakes_up c \<Longrightarrow> wakes_up (snd (tc_Check now c))"
proof (cases "fst (tc_Check now c)")
  case True
  then have "\<not> tc_isFastFail c" by (simp add: Check_granted_iff)
  then show ?thesis
    by (simp add: Check_granted [OF True] Let_def wakes_up_reset) (simp add: wakes_up_def)
qed (simp add: Check_denied)

lemma wakes_up_set: "wakes_up c \<Longrightarrow> wakes_up (tc_SetSleepDuration d c) \<and> wakes_up (tc_SetEventCountToAllow k c)"
  by (simp add: wakes_up_def tc_SetSleepDuration_def tc_SetEventCountToAllow_def)

lemma wakes_up_step: "wakes_up c \<Longrightarrow> wakes_up (snd (tc_step op c))"
  by (cases op) (simp_all add: tc_SleepStart_def wakes_up_reset wakes_up_fire wakes_up_Check wakes_up_set
      del: tc_step.simps(2))

lemma wakes_up_run: "wakes_up c \<Longrightarrow> wakes_up (snd (tc_run ops c))"
  by (induction ops arbitrary: c) (simp_all add: snd_tc_run_Cons wakes_up_step del: tc_run.simps(2))

lemma fire_current: "tc_isFailFastVersion c \<in> set (tc_armed c) \<Longrightarrow> \<not> tc_isFastFail (tc_fire (tc_isFailFastVersion c) c)"
  by (simp add: tc_fire_def tc_callback_def)

subsection \<open>Properties\<close>

text \<open>After \<^verbatim>\<open>SleepStart(t)\<close> with a sleep duration \<open>d\<close>, no \<^verbatim>\<open>Check\<close> at a time before \<open>t + d\<close>
  answers true: not after any number of other calls, of changes to the configuration with a
  non-negative duration, of timers that run early, late or from an older version.\<close>

theorem no_event_before_sleep_is_over:
  assumes "0 \<le> tc_sleepDuration c" "list_all keeps_window ops"
  shows "\<forall>g \<in> set (fst (tc_run (TcSleepStart t # ops) c)). t + tc_sleepDuration c \<le> g"
proof -
  have "sleeps_until (t + tc_sleepDuration c) (tc_SleepStart t c)"
    using assms(1) by (simp add: tc_SleepStart_def sleeps_until_def)
  from run_sleeps_until [OF this assms(2)] show ?thesis
    by (simp add: fst_tc_run_Cons del: tc_run.simps(2))
qed

theorem no_event_before_sleep_is_over_witness:
  "let gs = fst (tc_run (TcSleepStart 3 # [TcCheck 5, TcFire 1, TcCheck 12, TcCheck 14])
     (zero_TimedCheck\<lparr>tc_sleepDuration := 10, tc_eventCountToAllow := 1\<rparr>))
   in gs = [14] \<and> list_all (\<lambda>g. 13 \<le> g) gs"
proof -
  let ?c = "zero_TimedCheck\<lparr>tc_sleepDuration := 10, tc_eventCountToAllow := 1\<rparr>"
  let ?ops = "[TcCheck 5, TcFire 1, TcCheck 12, TcCheck 14]"
  have "fst (tc_run (TcSleepStart 3 # ?ops) ?c) = [14]"
    by (simp add: zero_TimedCheck_def tc_Check_def tc_SleepStart_def tc_fire_def tc_callback_def
        tc_resetOpenTimeWithLock_def tc_stopTimer_def tc_afterFunc_def runtime_AfterFunc_def time_defs Let_def
        add64_exact in_int64_def min_int64_def max_int64_def)
  moreover have "\<forall>g \<in> set (fst (tc_run (TcSleepStart 3 # ?ops) ?c)). 13 \<le> g"
    using no_event_before_sleep_is_over [of ?c ?ops 3] by (simp add: zero_TimedCheck_def del: tc_run.simps)
  ultimately show ?thesis by (simp add: Let_def del: tc_run.simps)
qed

text \<open>The rate. With \<open>k\<close> events to allow and a sleep duration \<open>d\<close>, in any run of calls at times
  that do not go backwards, any \<open>k + 1\<close> events in a row span at least \<open>d\<close>: no stretch of time
  shorter than the sleep duration sees more than \<open>k\<close> events.\<close>

theorem at_most_k_events_per_sleep:
  assumes "tc_eventCountToAllow c = int k" "0 < k" "int k \<le> max_int64" "0 \<le> tc_sleepDuration c"
    and "tc_currentlyAllowedEventCount c = 0" "times_from t ops" "\<forall>op \<in> set ops. \<not> is_config op"
    and "gs = fst (tc_run ops c)" "i + k < length gs"
  shows "gs ! i + tc_sleepDuration c \<le> gs ! (i + k)"
proof -
  have "rate_inv k (tc_sleepDuration c) [] t c" using assms by (simp add: rate_inv_def)
  then obtain t' where "rate_inv k (tc_sleepDuration c) ([] @ gs) t' (snd (tc_run ops c))"
    using rate_inv_run [of k "tc_sleepDuration c" "[]" t c ops] assms by auto
  then show ?thesis using assms(9) by (simp add: rate_inv_def)
qed

theorem at_most_k_events_per_sleep_witness:
  "let c = zero_TimedCheck\<lparr>tc_sleepDuration := 10, tc_eventCountToAllow := 2\<rparr>;
       gs = fst (tc_run [TcCheck 20, TcCheck 21, TcCheck 25, TcFire 1, TcCheck 31, TcCheck 33] c)
   in gs = [20, 21, 31, 33] \<and> gs ! 1 + 10 \<le> gs ! 3"
proof -
  let ?c = "zero_TimedCheck\<lparr>tc_sleepDuration := 10, tc_eventCountToAllow := 2\<rparr>"
  let ?ops = "[TcCheck 20, TcCheck 21, TcCheck 25, TcFire 1, TcCheck 31, TcCheck 33]"
  have gs: "fst (tc_run ?ops ?c) = [20, 21, 31, 33]"
    by (simp add: zero_TimedCheck_def tc_Check_def tc_fire_def tc_callback_def tc_resetOpenTimeWithLock_def
        tc_stopTimer_def tc_afterFunc_def runtime_AfterFunc_def time_defs Let_def add64_exact in_int64_def
        min_int64_def max_int64_def)
  show ?thesis
    using at_most_k_events_per_sleep [of ?c 2 0 ?ops "[20, 21, 31, 33]" 1] gs
    by (simp add: Let_def zero_TimedCheck_def max_int64_def del: tc_run.simps)
qed

text \<open>Failing fast always ends. From a new check, whatever calls were made and whatever timers have
  run or were stopped, a check that fails fast has the callback of its current version scheduled;
  once it runs, a \<^verbatim>\<open>Check\<close> at or after the opening time answers true. A callback of any other version
  leaves the state of failing fast as it is.\<close>

theorem failing_fast_always_ends:
  assumes "c = snd (tc_run ops (zero_TimedCheck\<lparr>tc_TimeAfterFunc := af\<rparr>))" "tc_isFastFail c"
  shows "tc_isFailFastVersion c \<in> set (tc_armed c) \<and>
    (\<forall>now. tc_nextOpenTime c \<le> now \<longrightarrow> fst (tc_Check now (tc_fire (tc_isFailFastVersion c) c))) \<and>
    (\<forall>v. v \<noteq> tc_isFailFastVersion c \<longrightarrow> tc_isFastFail (tc_fire v c))"
proof -
  have "wakes_up c"
    unfolding assms(1) by (rule wakes_up_run) (simp add: wakes_up_def zero_TimedCheck_def)
  then have "tc_isFailFastVersion c \<in> set (tc_armed c)" using assms(2) by (simp add: wakes_up_def)
  then show ?thesis
    using fire_current assms(2) by (auto simp: Check_granted_iff) (simp add: tc_fire_def tc_callback_def)
qed

theorem failing_fast_always_ends_witness:
  "let c = snd (tc_run [TcSetSleepDuration 5, TcSleepStart 7]
       (zero_TimedCheck\<lparr>tc_TimeAfterFunc := Some \<lparr>af_immediate = (\<lambda>d. d \<le> 0), af_stops = False\<rparr>\<rparr>))
   in tc_isFastFail c \<and> fst (tc_Check 12 (tc_fire 1 c)) \<and> tc_isFastFail (tc_fire 0 c)"
proof -
  let ?af = "Some \<lparr>af_immediate = (\<lambda>d. d \<le> 0), af_stops = False\<rparr>"
  let ?c = "snd (tc_run [TcSetSleepDuration 5, TcSleepStart 7] (zero_TimedCheck\<lparr>tc_TimeAfterFunc := ?af\<rparr>))"
  have "tc_isFastFail ?c \<and> tc_nextOpenTime ?c = 12 \<and> tc_isFailFastVersion ?c = 1"
    by (simp add: zero_TimedCheck_def tc_SleepStart_def tc_SetSleepDuration_def
        tc_resetOpenTimeWithLock_def tc_stopTimer_def tc_afterFunc_def time_defs Let_def add64_exact)
  then show ?thesis
    using failing_fast_always_ends [of ?c "[TcSetSleepDuration 5, TcSleepStart 7]" ?af]
    by (auto simp: Let_def simp del: tc_run.simps)
qed

end
