(* ===== verification/CircuitConfig.thy ===== *)
theory CircuitConfig
  imports Interfaces TimedCheck
begin

text \<open>
  Model of \<^verbatim>\<open>config.go\<close>: the configuration of a circuit, how configurations are merged, the defaults,
  and the atomic copy the circuit reads while it runs.

  Fields of function type: a factory is a computation over the clock counter of the world that gives an
  interface value (a table of methods and a receiver, of type \<open>'p\<close> for the opening and \<open>'q\<close> for the
  closing logic); \<^verbatim>\<open>Now\<close> is a \<open>clock\<close>; the receiver of lost errors and the user's metric collectors are
  named by a number, their behaviour is that of the environment of \<open>Circuit\<close>. A nil function is \<open>None\<close>.
\<close>

record TimeKeeper =
  tk_Now :: "clock option"
  tk_AfterFunc :: "after_func option"

record ('p, 'q) GeneralConfig =
  gc_Disabled :: bool
  gc_ForceOpen :: bool
  gc_ForcedClosed :: bool
  gc_GoLostErrors :: "nat option"
  gc_ClosedToOpenFactory :: "('p ClosedToOpen \<times> 'p, nat) go option"
  gc_OpenToClosedFactory :: "('q OpenToClosed \<times> 'q, nat) go option"
  gc_CustomConfig :: "(string \<rightharpoonup> string) option"
  gc_TimeKeeper :: TimeKeeper

record MetricsCollectors =
  mc_Run :: "nat list"
  mc_Fallback :: "nat list"
  mc_Circuit :: "nat list"

record ('p, 'q) Config =
  cf_General :: "('p, 'q) GeneralConfig"
  cf_Execution :: ExecutionConfig
  cf_Fallback :: FallbackConfig
  cf_Metrics :: MetricsCollectors

text \<open>
  Each \<^verbatim>\<open>merge\<close> is a sequence of statements \<^verbatim>\<open>if f is unset { f = other.f }\<close>, one per field; each reads and
  writes its own field only, and the update below makes them all.
\<close>

definition tk_merge :: "TimeKeeper \<Rightarrow> TimeKeeper \<Rightarrow> TimeKeeper" where
  "tk_merge t other = t\<lparr>
     tk_Now := (if tk_Now t = None then tk_Now other else tk_Now t),
     tk_AfterFunc := (if tk_AfterFunc t = None then tk_AfterFunc other else tk_AfterFunc t)\<rparr>"

definition ec_merge :: "ExecutionConfig \<Rightarrow> ExecutionConfig \<Rightarrow> ExecutionConfig" where
  "ec_merge c other = c\<lparr>
     ec_IgnoreInterrupts := (if \<not> ec_IgnoreInterrupts c then ec_IgnoreInterrupts other else ec_IgnoreInterrupts c),
     ec_IsErrInterrupt := (if ec_IsErrInterrupt c = None then ec_IsErrInterrupt other else ec_IsErrInterrupt c),
     ec_MaxConcurrentRequests := (if ec_MaxConcurrentRequests c = 0 then ec_MaxConcurrentRequests other else ec_MaxConcurrentRequests c),
     ec_Timeout := (if ec_Timeout c = 0 then ec_Timeout other else ec_Timeout c)\<rparr>"

definition fc_merge :: "FallbackConfig \<Rightarrow> FallbackConfig \<Rightarrow> FallbackConfig" where
  "fc_merge c other = c\<lparr>
     fc_MaxConcurrentRequests := (if fc_MaxConcurrentRequests c = 0 then fc_MaxConcurrentRequests other else fc_MaxConcurrentRequests c),
     fc_Disabled := (if \<not> fc_Disabled c then fc_Disabled other else fc_Disabled c)\<rparr>"

text \<open>
  \<^verbatim>\<open>mergeCustomConfig\<close>: \<open>m ++ g\<close> is \<open>m\<close> overridden by \<open>g\<close>, the result of inserting the keys of \<open>m\<close> that
  \<open>g\<close> lacks, in whatever order the range loop takes them.
\<close>

definition mergeCustomConfig :: "('p, 'q) GeneralConfig \<Rightarrow> ('p, 'q) GeneralConfig \<Rightarrow> ('p, 'q) GeneralConfig" where
  "mergeCustomConfig g other = (case gc_CustomConfig other of
     None \<Rightarrow> g
   | Some m \<Rightarrow> if dom m = {} then g
       else g\<lparr>gc_CustomConfig := Some (m ++ (case gc_CustomConfig g of None \<Rightarrow> Map.empty | Some h \<Rightarrow> h))\<rparr>)"

definition gc_merge :: "('p, 'q) GeneralConfig \<Rightarrow> ('p, 'q) GeneralConfig \<Rightarrow> ('p, 'q) GeneralConfig" where
  "gc_merge g other = (mergeCustomConfig g other)\<lparr>
     gc_ClosedToOpenFactory := (if gc_ClosedToOpenFactory g = None then gc_ClosedToOpenFactory other else gc_ClosedToOpenFactory g),
     gc_OpenToClosedFactory := (if gc_OpenToClosedFactory g = None then gc_OpenToClosedFactory other else gc_OpenToClosedFactory g),
     gc_ForceOpen := (if \<not> gc_ForceOpen g then gc_ForceOpen other else gc_ForceOpen g),
     gc_ForcedClosed := (if \<not> gc_ForcedClosed g then gc_ForcedClosed other else gc_ForcedClosed g),
     gc_Disabled := (if \<not> gc_Disabled g then gc_Disabled other else gc_Disabled g),
     gc_GoLostErrors := (if gc_GoLostErrors g = None then gc_GoLostErrors other else gc_GoLostErrors g),
     gc_TimeKeeper := tk_merge (gc_TimeKeeper g) (gc_TimeKeeper other)\<rparr>"

definition mc_merge :: "MetricsCollectors \<Rightarrow> MetricsCollectors \<Rightarrow> MetricsCollectors" where
  "mc_merge m other = \<lparr>mc_Run = mc_Run m @ mc_Run other, mc_Fallback = mc_Fallback m @ mc_Fallback other,
     mc_Circuit = mc_Circuit m @ mc_Circuit other\<rparr>"

definition Config_Merge :: "('p, 'q) Config \<Rightarrow> ('p, 'q) Config \<Rightarrow> ('p, 'q) Config" where
  "Config_Merge c other =
     \<lparr>cf_General = gc_merge (cf_General c) (cf_General other),
      cf_Execution = ec_merge (cf_Execution c) (cf_Execution other),
      cf_Fallback = fc_merge (cf_Fallback c) (cf_Fallback other),
      cf_Metrics = mc_merge (cf_Metrics c) (cf_Metrics other)\<rparr>"

subsection \<open>The atomic copy\<close>

record atomicCircuitConfig =
  ac_ExecutionTimeout :: int64
  ac_MaxConcurrentRequests :: int64
  ac_FallbackDisabled :: bool
  ac_FallbackMaxConcurrentRequests :: int64
  ac_ForceOpen :: bool
  ac_ForcedClosed :: bool
  ac_Disabled :: bool
  ac_IgnoreInterrupts :: bool

definition zero_atomicCircuitConfig :: atomicCircuitConfig where
  "zero_atomicCircuitConfig = \<lparr>ac_ExecutionTimeout = 0, ac_MaxConcurrentRequests = 0,
     ac_FallbackDisabled = False, ac_FallbackMaxConcurrentRequests = 0, ac_ForceOpen = False,
     ac_ForcedClosed = False, ac_Disabled = False, ac_IgnoreInterrupts = False\<rparr>"

definition ac_reset :: "('p, 'q) Config \<Rightarrow> atomicCircuitConfig \<Rightarrow> atomicCircuitConfig" where
  "ac_reset config a =
     (let a = a\<lparr>ac_ForcedClosed := gc_ForcedClosed (cf_General config)\<rparr>;
          a = a\<lparr>ac_ForceOpen := gc_ForceOpen (cf_General config)\<rparr>;
          a = a\<lparr>ac_Disabled := gc_Disabled (cf_General config)\<rparr>;
          a = a\<lparr>ac_ExecutionTimeout := ec_Timeout (cf_Execution config)\<rparr>;
          a = a\<lparr>ac_MaxConcurrentRequests := ec_MaxConcurrentRequests (cf_Execution config)\<rparr>;
          a = a\<lparr>ac_IgnoreInterrupts := ec_IgnoreInterrupts (cf_Execution config)\<rparr>;
          a = a\<lparr>ac_FallbackDisabled := fc_Disabled (cf_Fallback config)\<rparr>
      in a\<lparr>ac_FallbackMaxConcurrentRequests := fc_MaxConcurrentRequests (cf_Fallback config)\<rparr>)"

text \<open>What an implementation of \<^verbatim>\<open>Configurable\<close> is shown.\<close>

definition config_view :: "('p, 'q) Config \<Rightarrow> ConfigView" where
  "config_view c = \<lparr>cv_Disabled = gc_Disabled (cf_General c), cv_ForceOpen = gc_ForceOpen (cf_General c),
     cv_ForcedClosed = gc_ForcedClosed (cf_General c), cv_Execution = cf_Execution c,
     cv_Fallback = cf_Fallback c\<rparr>"

subsection \<open>Zero values and defaults\<close>

definition zero_ExecutionConfig :: ExecutionConfig where
  "zero_ExecutionConfig = \<lparr>ec_Timeout = 0, ec_MaxConcurrentRequests = 0, ec_IgnoreInterrupts = False,
     ec_IsErrInterrupt = None\<rparr>"

definition zero_FallbackConfig :: FallbackConfig where
  "zero_FallbackConfig = \<lparr>fc_Disabled = False, fc_MaxConcurrentRequests = 0\<rparr>"

definition zero_GeneralConfig :: "('p, 'q) GeneralConfig" where
  "zero_GeneralConfig = \<lparr>gc_Disabled = False, gc_ForceOpen = False, gc_ForcedClosed = False,
     gc_GoLostErrors = None, gc_ClosedToOpenFactory = None, gc_OpenToClosedFactory = None,
     gc_CustomConfig = None, gc_TimeKeeper = \<lparr>tk_Now = None, tk_AfterFunc = None\<rparr>\<rparr>"

definition zero_Config :: "('p, 'q) Config" where
  "zero_Config = \<lparr>cf_General = zero_GeneralConfig, cf_Execution = zero_ExecutionConfig,
     cf_Fallback = zero_FallbackConfig, cf_Metrics = \<lparr>mc_Run = [], mc_Fallback = [], mc_Circuit = []\<rparr>\<rparr>"

definition defaultExecutionConfig :: ExecutionConfig where
  "defaultExecutionConfig = zero_ExecutionConfig\<lparr>ec_Timeout := second, ec_MaxConcurrentRequests := 10\<rparr>"

definition defaultFallbackConfig :: FallbackConfig where
  "defaultFallbackConfig = zero_FallbackConfig\<lparr>fc_MaxConcurrentRequests := 10\<rparr>"

text \<open>\<open>wall\<close> is \<^verbatim>\<open>time.Now\<close>; \<open>u\<close> and \<open>v\<close> are the receivers of the default logic.\<close>

definition defaultGoSpecificConfig :: "clock \<Rightarrow> 'p \<Rightarrow> 'q \<Rightarrow> ('p, 'q) GeneralConfig" where
  "defaultGoSpecificConfig wall u v = zero_GeneralConfig\<lparr>
     gc_ClosedToOpenFactory := Some (neverOpensFactory u),
     gc_OpenToClosedFactory := Some (neverClosesFactory v),
     gc_TimeKeeper := \<lparr>tk_Now = Some wall, tk_AfterFunc = Some runtime_AfterFunc\<rparr>\<rparr>"

definition defaultCommandProperties :: "clock \<Rightarrow> 'p \<Rightarrow> 'q \<Rightarrow> ('p, 'q) Config" where
  "defaultCommandProperties wall u v = zero_Config\<lparr>cf_Execution := defaultExecutionConfig,
     cf_Fallback := defaultFallbackConfig, cf_General := defaultGoSpecificConfig wall u v\<rparr>"

subsection \<open>The value of a merged configuration\<close>

text \<open>\<open>first_set z xs\<close>: the first element other than the zero value \<open>z\<close>, which stands for unset.\<close>

fun first_set :: "'a \<Rightarrow> 'a list \<Rightarrow> 'a" where
  "first_set z [] = z"
| "first_set z (x # xs) = (if x = z then first_set z xs else x)"

definition custom_value :: "string \<Rightarrow> ('p, 'q) Config \<Rightarrow> string option" where
  "custom_value k c = (case gc_CustomConfig (cf_General c) of None \<Rightarrow> None | Some m \<Rightarrow> m k)"

text \<open>A setting read by \<open>f\<close> that a merge takes from the left unless it is \<open>z\<close> there.\<close>

definition takes_first :: "(('p, 'q) Config \<Rightarrow> 'a) \<Rightarrow> 'a \<Rightarrow> bool" where
  "takes_first f z \<longleftrightarrow> (\<forall>a b. f (Config_Merge a b) = (if f a = z then f b else f a))"

lemma takes_first_foldl:
  "takes_first f z \<Longrightarrow> f (foldl Config_Merge c cs) = first_set z (map f (c # cs))"
proof (induction cs arbitrary: c)
  case (Cons d cs)
  then have "f (foldl Config_Merge (Config_Merge c d) cs) = first_set z (map f (Config_Merge c d # cs))"
    by blast
  then show ?case using Cons.prems by (simp add: takes_first_def)
qed simp

lemmas merge_defs = Config_Merge_def ec_merge_def fc_merge_def gc_merge_def tk_merge_def

named_theorems takes_first_rules \<open>the settings a merge takes from the first that has them\<close>

lemma takes_first_execution [takes_first_rules]:
  "takes_first (ec_Timeout \<circ> cf_Execution) 0"
  "takes_first (ec_MaxConcurrentRequests \<circ> cf_Execution) 0"
  "takes_first (ec_IgnoreInterrupts \<circ> cf_Execution) False"
  "takes_first (ec_IsErrInterrupt \<circ> cf_Execution) None"
  "takes_first (fc_MaxConcurrentRequests \<circ> cf_Fallback) 0"
  "takes_first (fc_Disabled \<circ> cf_Fallback) False"
  by (auto simp: takes_first_def merge_defs)

lemma takes_first_general [takes_first_rules]:
  "takes_first (gc_Disabled \<circ> cf_General) False"
  "takes_first (gc_ForceOpen \<circ> cf_General) False"
  "takes_first (gc_ForcedClosed \<circ> cf_General) False"
  "takes_first (gc_GoLostErrors \<circ> cf_General) None"
  "takes_first (gc_ClosedToOpenFactory \<circ> cf_General) None"
  "takes_first (gc_OpenToClosedFactory \<circ> cf_General) None"
  "takes_first (tk_Now \<circ> gc_TimeKeeper \<circ> cf_General) None"
  "takes_first (tk_AfterFunc \<circ> gc_TimeKeeper \<circ> cf_General) None"
  by (auto simp: takes_first_def merge_defs)

lemma takes_first_custom [takes_first_rules]: "takes_first (custom_value k) None"
  by (auto simp: takes_first_def custom_value_def merge_defs mergeCustomConfig_def
      map_add_def split: option.splits)

lemma metrics_foldl:
  "cf_Metrics (foldl Config_Merge c cs) =
    \<lparr>mc_Run = concat (map (mc_Run \<circ> cf_Metrics) (c # cs)),
     mc_Fallback = concat (map (mc_Fallback \<circ> cf_Metrics) (c # cs)),
     mc_Circuit = concat (map (mc_Circuit \<circ> cf_Metrics) (c # cs))\<rparr>"
  by (induction cs arbitrary: c) (simp_all add: Config_Merge_def mc_merge_def)

subsection \<open>Properties\<close>

text \<open>C38: Merging configurations one after another onto \<open>c\<close>: every setting (times, limits, flags, factories,
  clocks, each key of the custom map) has the value of the first configuration that sets it, and the
  metric collectors are those of all configurations, in order and without loss.\<close>

theorem merged_config_is_first_set:
  "let m = foldl Config_Merge c cs in
    ec_Timeout (cf_Execution m) = first_set 0 (map (ec_Timeout \<circ> cf_Execution) (c # cs))
    \<and> ec_MaxConcurrentRequests (cf_Execution m) = first_set 0 (map (ec_MaxConcurrentRequests \<circ> cf_Execution) (c # cs))
    \<and> ec_IgnoreInterrupts (cf_Execution m) = first_set False (map (ec_IgnoreInterrupts \<circ> cf_Execution) (c # cs))
    \<and> ec_IsErrInterrupt (cf_Execution m) = first_set None (map (ec_IsErrInterrupt \<circ> cf_Execution) (c # cs))
    \<and> fc_MaxConcurrentRequests (cf_Fallback m) = first_set 0 (map (fc_MaxConcurrentRequests \<circ> cf_Fallback) (c # cs))
    \<and> fc_Disabled (cf_Fallback m) = first_set False (map (fc_Disabled \<circ> cf_Fallback) (c # cs))
    \<and> gc_Disabled (cf_General m) = first_set False (map (gc_Disabled \<circ> cf_General) (c # cs))
    \<and> gc_ForceOpen (cf_General m) = first_set False (map (gc_ForceOpen \<circ> cf_General) (c # cs))
    \<and> gc_ForcedClosed (cf_General m) = first_set False (map (gc_ForcedClosed \<circ> cf_General) (c # cs))
    \<and> gc_GoLostErrors (cf_General m) = first_set None (map (gc_GoLostErrors \<circ> cf_General) (c # cs))
    \<and> gc_ClosedToOpenFactory (cf_General m) = first_set None (map (gc_ClosedToOpenFactory \<circ> cf_General) (c # cs))
    \<and> gc_OpenToClosedFactory (cf_General m) = first_set None (map (gc_OpenToClosedFactory \<circ> cf_General) (c # cs))
    \<and> tk_Now (gc_TimeKeeper (cf_General m)) = first_set None (map (tk_Now \<circ> gc_TimeKeeper \<circ> cf_General) (c # cs))
    \<and> tk_AfterFunc (gc_TimeKeeper (cf_General m)) =
        first_set None (map (tk_AfterFunc \<circ> gc_TimeKeeper \<circ> cf_General) (c # cs))
    \<and> custom_value k m = first_set None (map (custom_value k) (c # cs))
    \<and> cf_Metrics m = \<lparr>mc_Run = concat (map (mc_Run \<circ> cf_Metrics) (c # cs)),
        mc_Fallback = concat (map (mc_Fallback \<circ> cf_Metrics) (c # cs)),
        mc_Circuit = concat (map (mc_Circuit \<circ> cf_Metrics) (c # cs))\<rparr>"
  using takes_first_rules [THEN takes_first_foldl, where c = c and cs = cs] metrics_foldl [of c cs]
  unfolding Let_def o_apply by (intro conjI) assumption+

end
