(* ===== verification/Circuit.thy ===== *)
theory Circuit
  imports CircuitConfig
begin

text \<open>
  Model of \<^verbatim>\<open>circuit.go\<close> and of the collections of \<^verbatim>\<open>metrics.go\<close>: the circuit breaker, one call at a time.

  The record mirrors the struct. \<open>c_OpenToClose\<close> and \<open>c_ClosedToOpen\<close> are interface values (a table of
  methods and a receiver), or \<open>None\<close> for nil; \<open>c_transitionMu\<close> says whether the mutex is held, and locking a held mutex
  blocks for ever. The last two fields are the world: \<open>c_readings\<close> counts readings of clocks and
  contexts, \<open>c_log\<close> records the calls made to the user's listeners.

  User code is a parameter. A run function, a fallback and the behaviour of a listener (\<open>Env\<close>) are
  arbitrary computations over the circuit: what other goroutines and nested calls do while user code
  runs is part of its effect. The pluggable logic acts on its own receiver, which is what its
  documentation requires of it.
\<close>

record transition =
  tr_open :: bool
  tr_ctx :: ctx
  tr_now :: gotime

text \<open>A member of \<^verbatim>\<open>CmdMetricCollector\<close>: the circuit's own logic, or a listener of the user.\<close>

datatype run_collector = RcOpenToClose | RcClosedToOpen | RcUser nat

datatype listener_call =
    LgRun nat run_event ctx gotime
  | LgFallback nat fallback_event ctx gotime
  | LgTransition nat bool ctx gotime

record ('p, 'q) Circuit =
  c_CmdMetricCollector :: "run_collector list"
  c_FallbackMetricCollector :: "nat list"
  c_CircuitMetricsCollector :: "nat list"
  c_lostErrors :: "nat option"
  c_name :: string
  c_notThreadSafeConfig :: "('p, 'q) Config"
  c_threadSafeConfig :: atomicCircuitConfig
  c_isOpen :: bool
  c_ClosedToOpen :: "('p ClosedToOpen \<times> 'p) option"
  c_OpenToClose :: "('q OpenToClosed \<times> 'q) option"
  c_timeNow :: "clock option"
  c_transitionMu :: bool
  c_pendingTransitions :: "transition list"
  c_deliveringTransitions :: bool
  c_concurrentCommands :: int64
  c_concurrentFallbacks :: int64
  c_readings :: nat
  c_log :: "listener_call list"

type_synonym ('a, 'p, 'q) cgo = "('a, ('p, 'q) Circuit) go"

record ('p, 'q) Env =
  env_run :: "nat \<Rightarrow> run_event \<Rightarrow> ctx \<Rightarrow> gotime \<Rightarrow> (unit, 'p, 'q) cgo"
  env_fallback :: "nat \<Rightarrow> fallback_event \<Rightarrow> ctx \<Rightarrow> gotime \<Rightarrow> (unit, 'p, 'q) cgo"
  env_wall :: clock
  env_transition :: "nat \<Rightarrow> bool \<Rightarrow> ctx \<Rightarrow> gotime \<Rightarrow> (unit, 'p, 'q) cgo"

type_synonym ('p, 'q) runFunc = "ctx \<Rightarrow> (err option, 'p, 'q) cgo"
type_synonym ('p, 'q) fallbackFunc = "ctx \<Rightarrow> err option \<Rightarrow> (err option, 'p, 'q) cgo"

subsection \<open>Calls on the parts of a circuit\<close>

definition call_OpenToClose ::
  "('q OpenToClosed \<Rightarrow> ('a, 'q) go) \<Rightarrow> ('a, 'p, 'q) cgo" where
  "call_OpenToClose f = (\<lambda>c. case c_OpenToClose c of
     None \<Rightarrow> (Panics NilDereference, c)
   | Some (vt, q) \<Rightarrow> (case f vt q of (r, q') \<Rightarrow> (r, c\<lparr>c_OpenToClose := Some (vt, q')\<rparr>)))"

definition call_ClosedToOpen ::
  "('p ClosedToOpen \<Rightarrow> ('a, 'p) go) \<Rightarrow> ('a, 'p, 'q) cgo" where
  "call_ClosedToOpen f = (\<lambda>c. case c_ClosedToOpen c of
     None \<Rightarrow> (Panics NilDereference, c)
   | Some (vt, p) \<Rightarrow> (case f vt p of (r, p') \<Rightarrow> (r, c\<lparr>c_ClosedToOpen := Some (vt, p')\<rparr>)))"

definition c_now :: "(gotime, 'p, 'q) cgo" where
  "c_now = (\<lambda>c. case c_timeNow c of
     None \<Rightarrow> (Panics NilDereference, c)
   | Some clk \<Rightarrow> (Returns (clk (c_readings c)), c\<lparr>c_readings := Suc (c_readings c)\<rparr>))"

text \<open>\<^verbatim>\<open>ctx.Err()\<close>\<close>

definition ask_Err :: "ctx \<Rightarrow> (err option, 'p, 'q) cgo" where
  "ask_Err ctx = (\<lambda>c. (Returns (ctx_Err ctx (c_readings c)), c\<lparr>c_readings := Suc (c_readings c)\<rparr>))"

definition lock_transition :: "(unit, 'p, 'q) cgo" where
  "lock_transition = (\<lambda>c. if c_transitionMu c then (Blocks, c) else (Returns (), c\<lparr>c_transitionMu := True\<rparr>))"

definition unlock_transition :: "(unit, 'p, 'q) cgo" where
  "unlock_transition = (\<lambda>c. if c_transitionMu c then (Returns (), c\<lparr>c_transitionMu := False\<rparr>)
     else (Panics (UserPanic ''sync: unlock of unlocked mutex''), c))"

text \<open>
  The methods of \<^verbatim>\<open>RunMetricsCollection\<close>, \<^verbatim>\<open>FallbackMetricsCollection\<close> and \<^verbatim>\<open>MetricsCollection\<close>: a loop
  over the collectors, in order. A panic of one leaves the later ones uncalled.
\<close>

fun collect_run :: "('p, 'q) Env \<Rightarrow> run_event \<Rightarrow> ctx \<Rightarrow> gotime \<Rightarrow> run_collector \<Rightarrow> (unit, 'p, 'q) cgo" where
  "collect_run env ev ctx now RcOpenToClose = call_OpenToClose (rm_send ev ctx now)"
| "collect_run env ev ctx now RcClosedToOpen = call_ClosedToOpen (rm_send ev ctx now)"
| "collect_run env ev ctx now (RcUser k) =
     gseq (gmodify (\<lambda>c. c\<lparr>c_log := c_log c @ [LgRun k ev ctx now]\<rparr>)) (env_run env k ev ctx now)"

definition RunMetricsCollection_send ::
  "('p, 'q) Env \<Rightarrow> run_event \<Rightarrow> ctx \<Rightarrow> gotime \<Rightarrow> (unit, 'p, 'q) cgo" where
  "RunMetricsCollection_send env ev ctx now =
     gbind (gget c_CmdMetricCollector) (gforeach (collect_run env ev ctx now))"

definition FallbackMetricsCollection_send ::
  "('p, 'q) Env \<Rightarrow> fallback_event \<Rightarrow> ctx \<Rightarrow> gotime \<Rightarrow> (unit, 'p, 'q) cgo" where
  "FallbackMetricsCollection_send env ev ctx now =
     gbind (gget c_FallbackMetricCollector) (gforeach (\<lambda>k.
       gseq (gmodify (\<lambda>c. c\<lparr>c_log := c_log c @ [LgFallback k ev ctx now]\<rparr>)) (env_fallback env k ev ctx now)))"

definition MetricsCollection_send ::
  "('p, 'q) Env \<Rightarrow> bool \<Rightarrow> ctx \<Rightarrow> gotime \<Rightarrow> (unit, 'p, 'q) cgo" where
  "MetricsCollection_send env opn ctx now =
     gbind (gget c_CircuitMetricsCollector) (gforeach (\<lambda>k.
       gseq (gmodify (\<lambda>c. c\<lparr>c_log := c_log c @ [LgTransition k opn ctx now]\<rparr>)) (env_transition env k opn ctx now)))"

subsection \<open>Transitions\<close>

definition notifyStateMachines :: "ctx \<Rightarrow> gotime \<Rightarrow> bool \<Rightarrow> (unit, 'p, 'q) cgo" where
  "notifyStateMachines ctx now opn =
     (if opn
      then gseq (call_OpenToClose (\<lambda>vt. sm_Opened vt ctx now)) (call_ClosedToOpen (\<lambda>vt. sm_Opened vt ctx now))
      else gseq (call_OpenToClose (\<lambda>vt. sm_Closed vt ctx now)) (call_ClosedToOpen (\<lambda>vt. sm_Closed vt ctx now)))"

definition notifyListeners :: "('p, 'q) Env \<Rightarrow> transition \<Rightarrow> (unit, 'p, 'q) cgo" where
  "notifyListeners env t =
     (if tr_open t then MetricsCollection_send env True (tr_ctx t) (tr_now t)
      else MetricsCollection_send env False (tr_ctx t) (tr_now t))"

text \<open>\<open>recheck\<close> is \<open>None\<close> for a nil function.\<close>

definition commitTransition ::
  "ctx \<Rightarrow> gotime \<Rightarrow> bool \<Rightarrow> (ctx \<Rightarrow> gotime \<Rightarrow> (bool, 'p, 'q) cgo) option \<Rightarrow> (bool, 'p, 'q) cgo" where
  "commitTransition ctx now opn recheck =
     gseq lock_transition (gdefer unlock_transition (
       gbind (gget c_isOpen) (\<lambda>cur.
       if cur = opn then greturn False
       else gbind (case recheck of None \<Rightarrow> greturn True | Some f \<Rightarrow> f ctx now) (\<lambda>ok.
         if \<not> ok then greturn False
         else
           gseq (gmodify (\<lambda>c. c\<lparr>c_isOpen := opn\<rparr>))
          (gbind c_now (\<lambda>flipped.
           let now = (if time_After flipped now then flipped else now) in
           gseq (notifyStateMachines ctx now opn)
          (gseq (gmodify (\<lambda>c. c\<lparr>c_pendingTransitions := c_pendingTransitions c @
                   [\<lparr>tr_open = opn, tr_ctx = ctx, tr_now = now\<rparr>]\<rparr>))
          (greturn True))))))))"

text \<open>
  \<^verbatim>\<open>deliverPendingTransitions\<close>. The loop ends when the queue is empty, and a listener may keep it from
  ever being so: the recursion has fuel, and a computation out of fuel does not return.
  \<open>on_abnormal_exit\<close> is the deferred function: it does nothing once \<^verbatim>\<open>finished\<close> is set, that is unless
  the body panicked.
\<close>

definition on_abnormal_exit :: "(unit, 's) go \<Rightarrow> (unit, 's) go \<Rightarrow> (unit, 's) go" where
  "on_abnormal_exit d m = (\<lambda>s. case m s of
     (Panics p, s') \<Rightarrow> (case d s' of
         (Returns _, s'') \<Rightarrow> (Panics p, s'')
       | (Panics p', s'') \<Rightarrow> (Panics p', s'')
       | (Blocks, s'') \<Rightarrow> (Blocks, s''))
   | r \<Rightarrow> r)"

fun deliver_loop :: "nat \<Rightarrow> ('p, 'q) Env \<Rightarrow> (unit, 'p, 'q) cgo" where
  "deliver_loop 0 env = gblock"
| "deliver_loop (Suc fuel) env =
     gbind (gget c_pendingTransitions) (\<lambda>pending. case pending of
       [] \<Rightarrow> greturn ()
     | next # rest \<Rightarrow>
         gseq (gmodify (\<lambda>c. c\<lparr>c_pendingTransitions := rest\<rparr>))
        (gseq unlock_transition
        (gseq (notifyListeners env next)
        (gseq lock_transition
        (deliver_loop fuel env)))))"

fun deliverPendingTransitions :: "nat \<Rightarrow> ('p, 'q) Env \<Rightarrow> (unit, 'p, 'q) cgo" where
  "deliverPendingTransitions 0 env = gblock"
| "deliverPendingTransitions (Suc fuel) env =
     gseq lock_transition
    (gbind (gget c_deliveringTransitions) (\<lambda>delivering.
     if delivering then unlock_transition
     else
       gseq (gmodify (\<lambda>c. c\<lparr>c_deliveringTransitions := True\<rparr>))
      (on_abnormal_exit
        (gseq lock_transition
        (gseq (gmodify (\<lambda>c. c\<lparr>c_deliveringTransitions := False\<rparr>))
        (gseq unlock_transition
        (deliverPendingTransitions fuel env))))
        (gseq (deliver_loop fuel env)
        (gseq (gmodify (\<lambda>c. c\<lparr>c_deliveringTransitions := False\<rparr>))
        unlock_transition)))))"

definition transitionTo ::
  "nat \<Rightarrow> ('p, 'q) Env \<Rightarrow> ctx \<Rightarrow> gotime \<Rightarrow> bool \<Rightarrow> (ctx \<Rightarrow> gotime \<Rightarrow> (bool, 'p, 'q) cgo) option \<Rightarrow> (unit, 'p, 'q) cgo" where
  "transitionTo fuel env ctx now opn recheck =
     gbind (gget c_isOpen) (\<lambda>cur.
     if cur = opn then greturn ()
     else gbind (commitTransition ctx now opn recheck) (\<lambda>done.
       gwhen done (deliverPendingTransitions fuel env)))"

definition CloseCircuit :: "nat \<Rightarrow> ('p, 'q) Env \<Rightarrow> ctx \<Rightarrow> (unit, 'p, 'q) cgo" where
  "CloseCircuit fuel env ctx = gbind c_now (\<lambda>now. transitionTo fuel env ctx now False None)"

definition OpenCircuit :: "nat \<Rightarrow> ('p, 'q) Env \<Rightarrow> ctx \<Rightarrow> (unit, 'p, 'q) cgo" where
  "OpenCircuit fuel env ctx = gbind c_now (\<lambda>now. transitionTo fuel env ctx now True None)"

definition IsOpen :: "('p, 'q) Circuit \<Rightarrow> bool" where
  "IsOpen c = (if ac_ForceOpen (c_threadSafeConfig c) then True
               else if ac_ForcedClosed (c_threadSafeConfig c) then False
               else c_isOpen c)"

subsection \<open>Admission\<close>

definition allowNewRun :: "ctx \<Rightarrow> gotime \<Rightarrow> int64 \<Rightarrow> (bool, 'p, 'q) cgo" where
  "allowNewRun ctx now maxConcurrent =
     gbind (gget id) (\<lambda>c.
     if ac_ForceOpen (c_threadSafeConfig c) then greturn False
     else if ac_ForcedClosed (c_threadSafeConfig c) \<or> \<not> c_isOpen c then greturn True
     else if maxConcurrent \<ge> 0 \<and> c_concurrentCommands c \<ge> maxConcurrent then greturn False
     else call_OpenToClose (\<lambda>vt. oc_Allow vt ctx now))"

definition ask_ShouldOpen :: "ctx \<Rightarrow> gotime \<Rightarrow> (bool, 'p, 'q) cgo" where
  "ask_ShouldOpen ctx now = call_ClosedToOpen (\<lambda>vt. co_ShouldOpen vt ctx now)"

definition ask_ShouldClose :: "ctx \<Rightarrow> gotime \<Rightarrow> (bool, 'p, 'q) cgo" where
  "ask_ShouldClose ctx now = call_OpenToClose (\<lambda>vt. oc_ShouldClose vt ctx now)"

definition attemptToOpen :: "nat \<Rightarrow> ('p, 'q) Env \<Rightarrow> ctx \<Rightarrow> gotime \<Rightarrow> (unit, 'p, 'q) cgo" where
  "attemptToOpen fuel env ctx now =
     gbind (gget id) (\<lambda>c.
     if ac_ForcedClosed (c_threadSafeConfig c) then greturn ()
     else if c_isOpen c then greturn ()
     else gbind (ask_ShouldOpen ctx now) (\<lambda>should.
       gwhen should (transitionTo fuel env ctx now True (Some ask_ShouldOpen))))"

subsection \<open>Classification of what a run function did\<close>

definition checkSuccess :: "nat \<Rightarrow> ('p, 'q) Env \<Rightarrow> ctx \<Rightarrow> gotime \<Rightarrow> duration \<Rightarrow> (unit, 'p, 'q) cgo" where
  "checkSuccess fuel env ctx runFuncDoneTime totalCmdTime =
     gseq (RunMetricsCollection_send env (EvSuccess totalCmdTime) ctx runFuncDoneTime)
    (gbind (gget id) (\<lambda>c.
     if \<not> c_isOpen c \<or> ac_ForceOpen (c_threadSafeConfig c) then greturn ()
     else gbind (ask_ShouldClose ctx runFuncDoneTime) (\<lambda>should.
       gwhen should (transitionTo fuel env ctx runFuncDoneTime False (Some ask_ShouldClose)))))"

definition checkErrInterrupt ::
  "('p, 'q) Env \<Rightarrow> ctx \<Rightarrow> ctx \<Rightarrow> err option \<Rightarrow> gotime \<Rightarrow> duration \<Rightarrow> (bool, 'p, 'q) cgo" where
  "checkErrInterrupt env ctx originalContext ret runFuncDoneTime totalCmdTime =
     (if ret = None then greturn False
      else gbind (ask_Err originalContext) (\<lambda>e1.
        if e1 = None then greturn False
        else gbind (gget (ec_IsErrInterrupt \<circ> cf_Execution \<circ> c_notThreadSafeConfig)) (\<lambda>fo.
          let isErrInterrupt = (case fo of None \<Rightarrow> (\<lambda>_. True) | Some f \<Rightarrow> f) in
          gbind (gget (ac_IgnoreInterrupts \<circ> c_threadSafeConfig)) (\<lambda>ignore.
          if ignore then greturn False
          else gbind (ask_Err originalContext) (\<lambda>e2.
            if isErrInterrupt e2
            then gseq (RunMetricsCollection_send env (EvErrInterrupt totalCmdTime) ctx runFuncDoneTime) (greturn True)
            else greturn False)))))"

definition checkErrBadRequest ::
  "('p, 'q) Env \<Rightarrow> ctx \<Rightarrow> err option \<Rightarrow> gotime \<Rightarrow> duration \<Rightarrow> (bool, 'p, 'q) cgo" where
  "checkErrBadRequest env ctx ret runFuncDoneTime totalCmdTime =
     (if IsBadRequest ret
      then gseq (RunMetricsCollection_send env (EvErrBadRequest totalCmdTime) ctx runFuncDoneTime) (greturn True)
      else greturn False)"

definition checkErrFailure ::
  "nat \<Rightarrow> ('p, 'q) Env \<Rightarrow> ctx \<Rightarrow> err option \<Rightarrow> gotime \<Rightarrow> duration \<Rightarrow> (bool, 'p, 'q) cgo" where
  "checkErrFailure fuel env ctx ret runFuncDoneTime totalCmdTime =
     (if ret \<noteq> None
      then gseq (RunMetricsCollection_send env (EvErrFailure totalCmdTime) ctx runFuncDoneTime)
          (gbind (gget c_isOpen) (\<lambda>opn.
           gseq (gwhen (\<not> opn) (attemptToOpen fuel env ctx runFuncDoneTime)) (greturn True)))
      else greturn False)"

definition checkErrTimeout ::
  "nat \<Rightarrow> ('p, 'q) Env \<Rightarrow> ctx \<Rightarrow> gotime \<Rightarrow> gotime \<Rightarrow> duration \<Rightarrow> (bool, 'p, 'q) cgo" where
  "checkErrTimeout fuel env ctx expectedDoneBy runFuncDoneTime totalCmdTime =
     (if \<not> time_IsZero expectedDoneBy \<and> time_Before expectedDoneBy runFuncDoneTime
      then gseq (RunMetricsCollection_send env (EvErrTimeout totalCmdTime) ctx runFuncDoneTime)
          (gbind (gget c_isOpen) (\<lambda>opn.
           gseq (gwhen (\<not> opn) (attemptToOpen fuel env ctx runFuncDoneTime)) (greturn True)))
      else greturn False)"

subsection \<open>Executing\<close>

text \<open>The atomic additions give the new value.\<close>

definition add_commands :: "int64 \<Rightarrow> (int64, 'p, 'q) cgo" where
  "add_commands d = (\<lambda>c. let v = add64 (c_concurrentCommands c) d
     in (Returns v, c\<lparr>c_concurrentCommands := v\<rparr>))"

definition add_fallbacks :: "int64 \<Rightarrow> (int64, 'p, 'q) cgo" where
  "add_fallbacks d = (\<lambda>c. let v = add64 (c_concurrentFallbacks c) d
     in (Returns v, c\<lparr>c_concurrentFallbacks := v\<rparr>))"

text \<open>The part of \<^verbatim>\<open>run\<close> after the run function gave \<open>ret\<close>.\<close>

definition run_finish ::
  "nat \<Rightarrow> ('p, 'q) Env \<Rightarrow> ctx \<Rightarrow> ctx \<Rightarrow> gotime \<Rightarrow> gotime \<Rightarrow> err option \<Rightarrow> (err option, 'p, 'q) cgo" where
  "run_finish fuel env ctx originalContext startTime expectedDoneBy ret =
     gbind c_now (\<lambda>runFuncDoneTime.
     let totalCmdTime = time_Sub runFuncDoneTime startTime in
     gbind (checkErrBadRequest env ctx ret runFuncDoneTime totalCmdTime) (\<lambda>bad.
     if bad then greturn ret
     else gbind (checkErrTimeout fuel env ctx expectedDoneBy runFuncDoneTime totalCmdTime) (\<lambda>late.
     if late then greturn ret
     else gbind (checkErrInterrupt env ctx originalContext ret runFuncDoneTime totalCmdTime) (\<lambda>interrupted.
     if interrupted then greturn ret
     else gbind (checkErrFailure fuel env ctx ret runFuncDoneTime totalCmdTime) (\<lambda>failed.
     if failed then greturn ret
     else gseq (checkSuccess fuel env ctx runFuncDoneTime totalCmdTime) (greturn None))))))"

text \<open>The part of \<^verbatim>\<open>run\<close> between the two updates of the counter of running commands.\<close>

definition run_admitted ::
  "nat \<Rightarrow> ('p, 'q) Env \<Rightarrow> ctx \<Rightarrow> gotime \<Rightarrow> int64 \<Rightarrow> int64 \<Rightarrow> ('p, 'q) runFunc \<Rightarrow> (err option, 'p, 'q) cgo" where
  "run_admitted fuel env ctx startTime maxConcurrent currentCommandCount runFunc =
     (if maxConcurrent \<ge> 0 \<and> currentCommandCount > maxConcurrent
      then gseq (RunMetricsCollection_send env EvErrConcurrencyLimitReject ctx startTime)
             (greturn (Some errThrottledConcurrentCommands))
      else
        gbind (gget (ac_ExecutionTimeout \<circ> c_threadSafeConfig)) (\<lambda>timeout.
        let expectedDoneBy = (if timeout > 0 then time_Add startTime timeout else zero_time);
            ctx' = (if timeout > 0 then WithDeadline (env_wall env) ctx expectedDoneBy else ctx) in
        gbind (runFunc ctx') (\<lambda>ret.
        run_finish fuel env ctx' ctx startTime expectedDoneBy ret)))"

definition run :: "nat \<Rightarrow> ('p, 'q) Env \<Rightarrow> ctx \<Rightarrow> ('p, 'q) runFunc \<Rightarrow> (err option, 'p, 'q) cgo" where
  "run fuel env ctx runFunc =
     gbind c_now (\<lambda>startTime.
     gbind (gget (ac_MaxConcurrentRequests \<circ> c_threadSafeConfig)) (\<lambda>maxConcurrent.
     gbind (allowNewRun ctx startTime maxConcurrent) (\<lambda>allowed.
     if \<not> allowed
     then gseq (RunMetricsCollection_send env EvErrShortCircuit ctx startTime) (greturn (Some errCircuitOpen))
     else gbind (call_ClosedToOpen (\<lambda>vt. co_Prevent vt ctx startTime)) (\<lambda>prevented.
       if prevented then greturn (Some errCircuitOpen)
       else gbind (add_commands 1) (\<lambda>currentCommandCount.
         gdefer (gseq (add_commands (-1)) (greturn ()))
           (run_admitted fuel env ctx startTime maxConcurrent currentCommandCount runFunc))))))"

text \<open>The part of \<^verbatim>\<open>fallback\<close> between the two updates of the counter of running fallbacks.\<close>

definition fallback_admitted ::
  "('p, 'q) Env \<Rightarrow> ctx \<Rightarrow> err option \<Rightarrow> int64 \<Rightarrow> ('p, 'q) fallbackFunc \<Rightarrow> (err option, 'p, 'q) cgo" where
  "fallback_admitted env ctx e currentFallbackCount f =
     gbind (gget (ac_FallbackMaxConcurrentRequests \<circ> c_threadSafeConfig)) (\<lambda>maxFallback.
     gbind c_now (\<lambda>startTime.
     if maxFallback \<ge> 0 \<and> currentFallbackCount > maxFallback
     then gseq (FallbackMetricsCollection_send env FbErrConcurrencyLimitReject ctx startTime)
            (greturn (Some errThrottledConcurrentFallbacks))
     else gbind (f ctx e) (\<lambda>retErr.
       gbind c_now (\<lambda>t.
       let totalCmdTime = time_Sub t startTime in
       if retErr \<noteq> None
       then gseq (FallbackMetricsCollection_send env (FbErrFailure totalCmdTime) ctx startTime) (greturn retErr)
       else gseq (FallbackMetricsCollection_send env (FbSuccess totalCmdTime) ctx startTime) (greturn None)))))"

definition fallback ::
  "('p, 'q) Env \<Rightarrow> ctx \<Rightarrow> err option \<Rightarrow> ('p, 'q) fallbackFunc option \<Rightarrow> (err option, 'p, 'q) cgo" where
  "fallback env ctx e fallbackFunc = (case fallbackFunc of
     None \<Rightarrow> greturn e
   | Some f \<Rightarrow>
       gbind (gget (ac_FallbackDisabled \<circ> c_threadSafeConfig)) (\<lambda>disabled.
       if disabled then greturn e
       else gbind (add_fallbacks 1) (\<lambda>currentFallbackCount.
         gdefer (gseq (add_fallbacks (-1)) (greturn ()))
           (fallback_admitted env ctx e currentFallbackCount f))))"

definition isEmptyOrNil :: "('p, 'q) Circuit \<Rightarrow> bool" where
  "isEmptyOrNil c \<longleftrightarrow> c_OpenToClose c = None"

definition Execute ::
  "nat \<Rightarrow> ('p, 'q) Env \<Rightarrow> ctx \<Rightarrow> ('p, 'q) runFunc option \<Rightarrow> ('p, 'q) fallbackFunc option \<Rightarrow> (err option, 'p, 'q) cgo" where
  "Execute fuel env ctx runFunc fallbackFunc = (case runFunc of
     None \<Rightarrow> greturn None
   | Some rf \<Rightarrow>
       gbind (gget (\<lambda>c. isEmptyOrNil c \<or> ac_Disabled (c_threadSafeConfig c))) (\<lambda>passthrough.
       if passthrough then rf ctx
       else gbind (run fuel env ctx rf) (\<lambda>e.
         if e = None then greturn None
         else if IsBadRequest e then greturn e
         else fallback env ctx e fallbackFunc)))"

definition Run :: "nat \<Rightarrow> ('p, 'q) Env \<Rightarrow> ctx \<Rightarrow> ('p, 'q) runFunc option \<Rightarrow> (err option, 'p, 'q) cgo" where
  "Run fuel env ctx runFunc = Execute fuel env ctx runFunc None"

subsection \<open>Configuration\<close>

text \<open>
  \<^verbatim>\<open>if cfg, ok := c.OpenToClose.(Configurable); ok\<close>: the dynamic type must have both methods. The
  mutex of the configuration is not modelled: nothing that runs under it can take it again.
\<close>

definition configurable :: "('s, 'z) StateMachine_scheme \<Rightarrow> bool" where
  "configurable vt \<longleftrightarrow> sm_SetConfigThreadSafe vt \<noteq> None \<and> sm_SetConfigNotThreadSafe vt \<noteq> None"

definition configure_OpenToClose ::
  "('q OpenToClosed \<Rightarrow> (ConfigView \<Rightarrow> (unit, 'q) go) option) \<Rightarrow> ConfigView \<Rightarrow> (unit, 'p, 'q) cgo" where
  "configure_OpenToClose sel cv = (\<lambda>c. case c_OpenToClose c of
     None \<Rightarrow> (Returns (), c)
   | Some (vt, q) \<Rightarrow> (case sel vt of
       Some f \<Rightarrow> if configurable vt then call_OpenToClose (\<lambda>_. f cv) c else (Returns (), c)
     | None \<Rightarrow> (Returns (), c)))"

definition configure_ClosedToOpen ::
  "('p ClosedToOpen \<Rightarrow> (ConfigView \<Rightarrow> (unit, 'p) go) option) \<Rightarrow> ConfigView \<Rightarrow> (unit, 'p, 'q) cgo" where
  "configure_ClosedToOpen sel cv = (\<lambda>c. case c_ClosedToOpen c of
     None \<Rightarrow> (Returns (), c)
   | Some (vt, p) \<Rightarrow> (case sel vt of
       Some f \<Rightarrow> if configurable vt then call_ClosedToOpen (\<lambda>_. f cv) c else (Returns (), c)
     | None \<Rightarrow> (Returns (), c)))"

definition SetConfigThreadSafe :: "('p, 'q) Config \<Rightarrow> (unit, 'p, 'q) cgo" where
  "SetConfigThreadSafe config =
     gseq (gmodify (\<lambda>c. c\<lparr>c_notThreadSafeConfig := config,
             c_threadSafeConfig := ac_reset config (c_threadSafeConfig c)\<rparr>))
    (gseq (configure_OpenToClose sm_SetConfigThreadSafe (config_view config))
    (configure_ClosedToOpen sm_SetConfigThreadSafe (config_view config)))"

definition c_Config :: "('p, 'q) Circuit \<Rightarrow> ('p, 'q) Config" where
  "c_Config c = c_notThreadSafeConfig c"

definition call_factory :: "('v, nat) go option \<Rightarrow> ('v, 'p, 'q) cgo" where
  "call_factory f = (case f of
     None \<Rightarrow> gpanic NilDereference
   | Some m \<Rightarrow> gzoom c_readings (\<lambda>n c. c\<lparr>c_readings := n\<rparr>) m)"

definition SetConfigNotThreadSafe :: "('p, 'q) Config \<Rightarrow> (unit, 'p, 'q) cgo" where
  "SetConfigNotThreadSafe config =
     gseq (gmodify (\<lambda>c. c\<lparr>c_notThreadSafeConfig := config,
             c_lostErrors := gc_GoLostErrors (cf_General config),
             c_timeNow := tk_Now (gc_TimeKeeper (cf_General config))\<rparr>))
    (gbind (call_factory (gc_OpenToClosedFactory (cf_General config))) (\<lambda>otc.
     gseq (gmodify (\<lambda>c. c\<lparr>c_OpenToClose := Some otc\<rparr>))
    (gbind (call_factory (gc_ClosedToOpenFactory (cf_General config))) (\<lambda>cto.
     gseq (gmodify (\<lambda>c. c\<lparr>c_ClosedToOpen := Some cto\<rparr>))
    (gseq (configure_OpenToClose sm_SetConfigNotThreadSafe (config_view config))
    (gseq (configure_ClosedToOpen sm_SetConfigNotThreadSafe (config_view config))
    (gseq (gmodify (\<lambda>c. c\<lparr>
             c_CmdMetricCollector := [RcOpenToClose, RcClosedToOpen] @ map RcUser (mc_Run (cf_Metrics config)),
             c_FallbackMetricCollector := mc_Fallback (cf_Metrics config),
             c_CircuitMetricsCollector := mc_Circuit (cf_Metrics config)\<rparr>))
    (gseq (SetConfigThreadSafe config)
    (gbind (gget c_isOpen) (\<lambda>opn.
     gwhen opn (gbind c_now (\<lambda>now. notifyStateMachines ctx_Background now True))))))))))))"

definition zero_Circuit :: "('p, 'q) Circuit" where
  "zero_Circuit = \<lparr>c_CmdMetricCollector = [], c_FallbackMetricCollector = [], c_CircuitMetricsCollector = [],
     c_lostErrors = None, c_name = [], c_notThreadSafeConfig = zero_Config,
     c_threadSafeConfig = zero_atomicCircuitConfig, c_isOpen = False, c_ClosedToOpen = None,
     c_OpenToClose = None, c_timeNow = None, c_transitionMu = False, c_pendingTransitions = [],
     c_deliveringTransitions = False, c_concurrentCommands = 0, c_concurrentFallbacks = 0,
     c_readings = 0, c_log = []\<rparr>"

text \<open>\<open>wall\<close>, \<open>u\<close>, \<open>v\<close> are those of \<open>defaultCommandProperties\<close>; the state is the clock counter.\<close>

definition NewCircuitFromConfig ::
  "clock \<Rightarrow> 'p \<Rightarrow> 'q \<Rightarrow> string \<Rightarrow> ('p, 'q) Config \<Rightarrow> (('p, 'q) Circuit, nat) go" where
  "NewCircuitFromConfig wall u v nm config n =
     (let config = Config_Merge config (defaultCommandProperties wall u v);
          ret = zero_Circuit\<lparr>c_name := nm, c_notThreadSafeConfig := config, c_readings := n\<rparr>
      in case SetConfigNotThreadSafe config ret of
        (Returns _, c) \<Rightarrow> (Returns c, c_readings c)
      | (Panics p, c) \<Rightarrow> (Panics p, c_readings c)
      | (Blocks, c) \<Rightarrow> (Blocks, c_readings c))"

end
