(* ===== verification/CircuitLaws.thy ===== *)
theory CircuitLaws
  imports Circuit
begin

text \<open>
  The lemmas about \<open>Circuit\<close> that its properties share.

  \<^item> \<open>circuit_logic\<close>: the contract of the pluggable logic as the circuit uses it. Under it, and with
    listeners that return (\<open>quiet\<close>), every step of the circuit returns; \<open>core\<close> is a circuit with the
    receivers of its logic hidden, so that an equation between cores says what a step changes.
  \<^item> What each step leaves alone, for any user code whatever (\<open>unchanged\<close>).
\<close>

subsection \<open>Quiet listeners and a working logic\<close>

definition quiet :: "('p, 'q) Env \<Rightarrow> bool" where
  "quiet env \<longleftrightarrow> (\<forall>k ev ctx now. env_run env k ev ctx now = greturn ()) \<and>
     (\<forall>k ev ctx now. env_fallback env k ev ctx now = greturn ()) \<and>
     (\<forall>k opn ctx now. env_transition env k opn ctx now = greturn ())"

definition quiet_env :: "clock \<Rightarrow> ('p, 'q) Env" where
  "quiet_env wall = \<lparr>env_run = (\<lambda>_ _ _ _. greturn ()), env_fallback = (\<lambda>_ _ _ _. greturn ()), env_wall = wall,
     env_transition = (\<lambda>_ _ _ _. greturn ())\<rparr>"

lemma quiet_quiet_env [simp]: "quiet (quiet_env wall)"
  by (simp add: quiet_def quiet_env_def)

definition logic_ready ::
  "'p ClosedToOpen \<Rightarrow> ('p \<Rightarrow> bool) \<Rightarrow> 'q OpenToClosed \<Rightarrow> ('q \<Rightarrow> bool) \<Rightarrow> ('p, 'q) Circuit \<Rightarrow> bool" where
  "logic_ready cvt cok ovt ook c \<longleftrightarrow>
     (\<exists>p. c_ClosedToOpen c = Some (cvt, p) \<and> cok p) \<and> (\<exists>q. c_OpenToClose c = Some (ovt, q) \<and> ook q) \<and>
     c_timeNow c \<noteq> None"

definition core :: "('p, 'q) Circuit \<Rightarrow> ('p, 'q) Circuit" where
  "core c = c\<lparr>c_ClosedToOpen := None, c_OpenToClose := None\<rparr>"

lemma core_core [simp]: "core (core c) = core c"
  by (simp add: core_def)

lemma core_select [simp]:
  "c_CmdMetricCollector (core c) = c_CmdMetricCollector c"
  "c_FallbackMetricCollector (core c) = c_FallbackMetricCollector c"
  "c_CircuitMetricsCollector (core c) = c_CircuitMetricsCollector c"
  "c_lostErrors (core c) = c_lostErrors c"
  "c_name (core c) = c_name c"
  "c_notThreadSafeConfig (core c) = c_notThreadSafeConfig c"
  "c_threadSafeConfig (core c) = c_threadSafeConfig c"
  "c_isOpen (core c) = c_isOpen c"
  "c_timeNow (core c) = c_timeNow c"
  "c_transitionMu (core c) = c_transitionMu c"
  "c_pendingTransitions (core c) = c_pendingTransitions c"
  "c_deliveringTransitions (core c) = c_deliveringTransitions c"
  "c_concurrentCommands (core c) = c_concurrentCommands c"
  "c_concurrentFallbacks (core c) = c_concurrentFallbacks c"
  "c_readings (core c) = c_readings c"
  "c_log (core c) = c_log c"
  by (simp_all add: core_def)

lemma core_fields:
  assumes "core c = core d"
  shows "c_CmdMetricCollector c = c_CmdMetricCollector d"
    "c_FallbackMetricCollector c = c_FallbackMetricCollector d"
    "c_CircuitMetricsCollector c = c_CircuitMetricsCollector d"
    "c_lostErrors c = c_lostErrors d"
    "c_name c = c_name d"
    "c_notThreadSafeConfig c = c_notThreadSafeConfig d"
    "c_threadSafeConfig c = c_threadSafeConfig d"
    "c_isOpen c = c_isOpen d"
    "c_timeNow c = c_timeNow d"
    "c_transitionMu c = c_transitionMu d"
    "c_pendingTransitions c = c_pendingTransitions d"
    "c_deliveringTransitions c = c_deliveringTransitions d"
    "c_concurrentCommands c = c_concurrentCommands d"
    "c_concurrentFallbacks c = c_concurrentFallbacks d"
    "c_readings c = c_readings d"
    "c_log c = c_log d"
  by (metis assms core_select)+

text \<open>An update of the logic is hidden; every other update commutes with hiding.\<close>

lemma core_update [simp]:
  "core (c\<lparr>c_ClosedToOpen := x\<rparr>) = core c" "core (c\<lparr>c_OpenToClose := y\<rparr>) = core c"
  "core (c\<lparr>c_log := l\<rparr>) = (core c)\<lparr>c_log := l\<rparr>"
  "core (c\<lparr>c_isOpen := b\<rparr>) = (core c)\<lparr>c_isOpen := b\<rparr>"
  "core (c\<lparr>c_pendingTransitions := ts\<rparr>) = (core c)\<lparr>c_pendingTransitions := ts\<rparr>"
  "core (c\<lparr>c_transitionMu := b\<rparr>) = (core c)\<lparr>c_transitionMu := b\<rparr>"
  "core (c\<lparr>c_deliveringTransitions := b\<rparr>) = (core c)\<lparr>c_deliveringTransitions := b\<rparr>"
  "core (c\<lparr>c_readings := n\<rparr>) = (core c)\<lparr>c_readings := n\<rparr>"
  "core (c\<lparr>c_concurrentCommands := k\<rparr>) = (core c)\<lparr>c_concurrentCommands := k\<rparr>"
  "core (c\<lparr>c_concurrentFallbacks := k\<rparr>) = (core c)\<lparr>c_concurrentFallbacks := k\<rparr>"
  by (simp_all add: core_def)

fun user_collectors :: "run_collector list \<Rightarrow> nat list" where
  "user_collectors [] = []"
| "user_collectors (RcUser k # cs) = k # user_collectors cs"
| "user_collectors (_ # cs) = user_collectors cs"

lemma core_logD: "core d = c\<lparr>c_log := l\<rparr> \<Longrightarrow> c_log d = l"
  using core_select(16) [of d] by simp

lemma add64_back: "in_int64 a \<Longrightarrow> add64 (add64 a 1) (-1) = a"
  by (simp add: add64_def)

lemma mu_same: "c_transitionMu c = b \<Longrightarrow> c\<lparr>c_transitionMu := b\<rparr> = c"
  by (cases c) simp

text \<open>What the listeners of a queue of transitions are told, in order.\<close>

definition told :: "nat list \<Rightarrow> transition \<Rightarrow> listener_call list" where
  "told ks t = map (\<lambda>k. LgTransition k (tr_open t) (tr_ctx t) (tr_now t)) ks"

lemma foreach_log:
  assumes "\<And>k s. f k s = (Returns (), s\<lparr>c_log := c_log s @ [g k]\<rparr>)"
  shows "gforeach f ks c = (Returns (), c\<lparr>c_log := c_log c @ map g ks\<rparr>)"
  by (induction ks arbitrary: c) (simp_all add: go_simps assms)

lemma quiet_notifyListeners:
  "quiet env \<Longrightarrow> notifyListeners env t c =
    (Returns (), c\<lparr>c_log := c_log c @ told (c_CircuitMetricsCollector c) t\<rparr>)"
  by (auto simp: notifyListeners_def MetricsCollection_send_def go_run gbind_run told_def quiet_def gseq_run
      intro!: foreach_log)

lemma quiet_fallback_send:
  "quiet env \<Longrightarrow> FallbackMetricsCollection_send env ev ctx now c =
    (Returns (), c\<lparr>c_log := c_log c @ map (\<lambda>k. LgFallback k ev ctx now) (c_FallbackMetricCollector c)\<rparr>)"
  by (auto simp: FallbackMetricsCollection_send_def go_run gbind_run quiet_def gseq_run intro!: foreach_log)

subsection \<open>The delivery of transitions to quiet listeners\<close>

lemma lock_run: "\<not> c_transitionMu c \<Longrightarrow> lock_transition c = (Returns (), c\<lparr>c_transitionMu := True\<rparr>)"
  and unlock_run: "c_transitionMu c \<Longrightarrow> unlock_transition c = (Returns (), c\<lparr>c_transitionMu := False\<rparr>)"
  by (simp_all add: lock_transition_def unlock_transition_def)

lemma quiet_deliver_loop:
  assumes "quiet env" "length (c_pendingTransitions c) < fuel" "c_transitionMu c"
  shows "deliver_loop fuel env c = (Returns (), c\<lparr>c_pendingTransitions := [],
    c_log := c_log c @ concat (map (told (c_CircuitMetricsCollector c)) (c_pendingTransitions c))\<rparr>)"
  using assms
proof (induction fuel arbitrary: c)
  case (Suc fuel)
  show ?case
  proof (cases "c_pendingTransitions c")
    case (Cons t ts)
    let ?c = "c\<lparr>c_pendingTransitions := ts, c_log := c_log c @ told (c_CircuitMetricsCollector c) t\<rparr>"
    have "deliver_loop (Suc fuel) env c = deliver_loop fuel env ?c"
      using Suc.prems Cons
      by (simp add: go_simps unlock_run lock_run quiet_notifyListeners mu_same [where b = True])
    also have "\<dots> = (Returns (), ?c\<lparr>c_pendingTransitions := [],
        c_log := c_log ?c @ concat (map (told (c_CircuitMetricsCollector ?c)) (c_pendingTransitions ?c))\<rparr>)"
      using Suc.prems Cons by (intro Suc.IH) simp_all
    finally show ?thesis using Cons by simp
  qed (simp add: go_simps)
qed simp

lemma quiet_deliver:
  assumes "quiet env" "Suc (length (c_pendingTransitions c)) < fuel" "\<not> c_transitionMu c"
  shows "deliverPendingTransitions fuel env c = (Returns (), if c_deliveringTransitions c then c
    else c\<lparr>c_pendingTransitions := [],
      c_log := c_log c @ concat (map (told (c_CircuitMetricsCollector c)) (c_pendingTransitions c))\<rparr>)"
proof -
  obtain fuel' where f: "fuel = Suc fuel'" "length (c_pendingTransitions c) < fuel'"
    using assms(2) by (cases fuel) auto
  show ?thesis
    using assms f
    by (simp add: go_simps lock_run unlock_run on_abnormal_exit_def quiet_deliver_loop [OF assms(1)])
qed

subsection \<open>Steps that report to the run collectors\<close>

fun is_run_call :: "listener_call \<Rightarrow> bool" where
  "is_run_call (LgRun k ev ctx now) = True"
| "is_run_call _ = False"

definition run_log :: "('p, 'q) Circuit \<Rightarrow> listener_call list" where
  "run_log c = filter is_run_call (c_log c)"

text \<open>
  \<open>advances c d evs\<close>: from \<open>c\<close> to \<open>d\<close> the user's run collectors were told \<open>evs\<close>, and nothing but the
  logic, the open flag, the queue of transitions, the clock counter and the log may have changed.
\<close>

definition rest :: "('p, 'q) Circuit \<Rightarrow> ('p, 'q) Circuit" where
  "rest c = (core c)\<lparr>c_isOpen := False, c_pendingTransitions := [], c_readings := 0, c_log := []\<rparr>"

definition advances :: "('p, 'q) Circuit \<Rightarrow> ('p, 'q) Circuit \<Rightarrow> listener_call list \<Rightarrow> bool" where
  "advances c d evs \<longleftrightarrow> rest d = rest c \<and> run_log d = run_log c @ evs"

lemma rest_core: "rest (core c) = rest c"
  by (simp add: rest_def)

lemma rest_update [simp]:
  "rest (c\<lparr>c_ClosedToOpen := x\<rparr>) = rest c" "rest (c\<lparr>c_OpenToClose := y\<rparr>) = rest c"
  "rest (c\<lparr>c_isOpen := b\<rparr>) = rest c" "rest (c\<lparr>c_pendingTransitions := ts\<rparr>) = rest c"
  "rest (c\<lparr>c_readings := n\<rparr>) = rest c" "rest (c\<lparr>c_log := l\<rparr>) = rest c"
  by (simp_all add: rest_def)

lemma rest_core_eq: "core d = c' \<Longrightarrow> rest c' = rest c \<Longrightarrow> rest d = rest c"
  using rest_core [of d] by simp

lemma rest_select [simp]:
  "c_CmdMetricCollector (rest c) = c_CmdMetricCollector c"
  "c_FallbackMetricCollector (rest c) = c_FallbackMetricCollector c"
  "c_CircuitMetricsCollector (rest c) = c_CircuitMetricsCollector c"
  "c_notThreadSafeConfig (rest c) = c_notThreadSafeConfig c"
  "c_threadSafeConfig (rest c) = c_threadSafeConfig c"
  "c_timeNow (rest c) = c_timeNow c"
  "c_transitionMu (rest c) = c_transitionMu c"
  "c_deliveringTransitions (rest c) = c_deliveringTransitions c"
  "c_concurrentCommands (rest c) = c_concurrentCommands c"
  "c_concurrentFallbacks (rest c) = c_concurrentFallbacks c"
  by (simp_all add: rest_def)

lemma rest_fields:
  assumes "rest d = rest c"
  shows "c_CmdMetricCollector d = c_CmdMetricCollector c"
    "c_FallbackMetricCollector d = c_FallbackMetricCollector c"
    "c_CircuitMetricsCollector d = c_CircuitMetricsCollector c"
    "c_notThreadSafeConfig d = c_notThreadSafeConfig c"
    "c_threadSafeConfig d = c_threadSafeConfig c"
    "c_timeNow d = c_timeNow c"
    "c_transitionMu d = c_transitionMu c"
    "c_deliveringTransitions d = c_deliveringTransitions c"
    "c_concurrentCommands d = c_concurrentCommands c"
    "c_concurrentFallbacks d = c_concurrentFallbacks c"
  by (metis assms rest_select)+

lemma advances_trans: "advances c d evs \<Longrightarrow> advances d e evs' \<Longrightarrow> advances c e (evs @ evs')"
  by (simp add: advances_def)

lemma advances_refl [simp]: "advances c c []"
  by (simp add: advances_def)

lemma advances_core: "core d = core c \<Longrightarrow> advances c d []"
  using rest_core_eq [of d "core c" c] core_fields(16) [of d c] by (simp add: advances_def run_log_def rest_core)

lemma advances_fields: "advances c d evs \<Longrightarrow> rest d = rest c"
  by (simp add: advances_def)

lemma run_log_told [simp]: "filter is_run_call (told ks t) = []"
  "filter is_run_call (concat (map (told ks) ts)) = []"
  by (auto simp: told_def filter_concat filter_empty_conv)

subsection \<open>The verdict on a run\<close>

text \<open>
  The classification, as a specification: a bad request first, then lateness, then an interrupt, then the
  error. An interrupt is an error returned while the original context has ended, unless the
  configuration ignores interrupts or its callback says otherwise; the context is asked at the moments \<open>n\<close>
  and \<open>n + 1\<close>.
\<close>

fun verdict :: "err option \<Rightarrow> bool \<Rightarrow> bool \<Rightarrow> duration \<Rightarrow> run_event" where
  "verdict ret late interrupted d =
     (if IsBadRequest ret then EvErrBadRequest d
      else if late then EvErrTimeout d
      else if ret \<noteq> None \<and> interrupted then EvErrInterrupt d
      else if ret \<noteq> None then EvErrFailure d
      else EvSuccess d)"

declare verdict.simps [simp del]

definition is_interrupt :: "('p, 'q) Circuit \<Rightarrow> ctx \<Rightarrow> nat \<Rightarrow> bool" where
  "is_interrupt c octx n \<longleftrightarrow> ctx_Err octx n \<noteq> None \<and> \<not> ac_IgnoreInterrupts (c_threadSafeConfig c) \<and>
     (case ec_IsErrInterrupt (cf_Execution (c_notThreadSafeConfig c)) of
        None \<Rightarrow> True
      | Some f \<Rightarrow> f (ctx_Err octx (Suc n)))"

definition is_late :: "gotime \<Rightarrow> gotime \<Rightarrow> bool" where
  "is_late expectedDoneBy fin \<longleftrightarrow> expectedDoneBy \<noteq> zero_time \<and> expectedDoneBy < fin"

text \<open>What a broadcast tells the user's run collectors.\<close>

definition heard :: "('p, 'q) Circuit \<Rightarrow> run_event \<Rightarrow> ctx \<Rightarrow> gotime \<Rightarrow> listener_call list" where
  "heard c ev ctx now = map (\<lambda>k. LgRun k ev ctx now) (user_collectors (c_CmdMetricCollector c))"

lemma heard_rest: "rest d = rest c \<Longrightarrow> heard d ev ctx now = heard c ev ctx now"
  using rest_fields(1) [of d c] by (simp add: heard_def)

lemma run_log_heard [simp]: "filter is_run_call (heard c ev ctx now) = heard c ev ctx now"
  by (simp add: heard_def)

definition enough :: "nat \<Rightarrow> ('p, 'q) Circuit \<Rightarrow> bool" where
  "enough fuel c \<longleftrightarrow> length (c_pendingTransitions c) + 2 < fuel"

text \<open>
  Admission, as a specification: a request at \<open>now\<close> is denied while the circuit is forced open, or is open
  (and not forced closed) and there is no room for a probe or the closing logic allows none. A request
  that is not denied may still be prevented by the opening logic, or be over the limit of commands.
\<close>

definition denies :: "ctx \<Rightarrow> gotime \<Rightarrow> ('p, 'q) Circuit \<Rightarrow> bool" where
  "denies ctx now c \<longleftrightarrow> ac_ForceOpen (c_threadSafeConfig c) \<or>
     \<not> ac_ForcedClosed (c_threadSafeConfig c) \<and> c_isOpen c \<and>
     (0 \<le> ac_MaxConcurrentRequests (c_threadSafeConfig c) \<and>
        ac_MaxConcurrentRequests (c_threadSafeConfig c) \<le> c_concurrentCommands c \<or>
      fst (call_OpenToClose (\<lambda>vt. oc_Allow vt ctx now) c) = Returns False)"

definition prevents :: "ctx \<Rightarrow> gotime \<Rightarrow> ('p, 'q) Circuit \<Rightarrow> bool" where
  "prevents ctx now c \<longleftrightarrow> fst (call_ClosedToOpen (\<lambda>vt. co_Prevent vt ctx now) c) = Returns True"

definition over_limit :: "('p, 'q) Circuit \<Rightarrow> bool" where
  "over_limit c \<longleftrightarrow> 0 \<le> ac_MaxConcurrentRequests (c_threadSafeConfig c) \<and>
     ac_MaxConcurrentRequests (c_threadSafeConfig c) < add64 (c_concurrentCommands c) 1"

text \<open>The context and the deadline a run function is given by a run that starts at \<open>start\<close>.\<close>

definition run_deadline :: "gotime \<Rightarrow> ('p, 'q) Circuit \<Rightarrow> gotime" where
  "run_deadline start c = (if ac_ExecutionTimeout (c_threadSafeConfig c) > 0
     then time_Add start (ac_ExecutionTimeout (c_threadSafeConfig c)) else zero_time)"

definition run_ctx :: "('p, 'q) Env \<Rightarrow> ctx \<Rightarrow> gotime \<Rightarrow> ('p, 'q) Circuit \<Rightarrow> ctx" where
  "run_ctx env ctx start c = (if ac_ExecutionTimeout (c_threadSafeConfig c) > 0
     then WithDeadline (env_wall env) ctx (run_deadline start c) else ctx)"

subsection \<open>The circuit as a client of its logic\<close>

text \<open>
  The interface between the circuit and its pluggable logic: two implementations of the contracts of
  \<open>Interfaces\<close>. The lemmas hold of every pair of them.
\<close>

locale circuit_logic = co: closed_to_open cvt cok + oc: open_to_closed ovt ook
  for cvt :: "'p ClosedToOpen" and cok :: "'p \<Rightarrow> bool" and ovt :: "'q OpenToClosed" and ook :: "'q \<Rightarrow> bool"
begin

abbreviation ready :: "('p, 'q) Circuit \<Rightarrow> bool" where
  "ready \<equiv> logic_ready cvt cok ovt ook"

lemma call_closed_ready:
  assumes "ready c" "safe cok (f cvt)"
  shows "\<exists>a c'. call_ClosedToOpen f c = (Returns a, c') \<and> ready c' \<and> core c' = core c"
proof -
  obtain p where p: "c_ClosedToOpen c = Some (cvt, p)" "cok p" using assms(1) by (auto simp: logic_ready_def)
  obtain a p' where "f cvt p = (Returns a, p')" "cok p'" using safeD [OF assms(2) p(2)] by auto
  then show ?thesis using p assms(1) by (auto simp: call_ClosedToOpen_def logic_ready_def)
qed

lemma call_open_ready:
  assumes "ready c" "safe ook (f ovt)"
  shows "\<exists>a c'. call_OpenToClose f c = (Returns a, c') \<and> ready c' \<and> core c' = core c"
proof -
  obtain q where q: "c_OpenToClose c = Some (ovt, q)" "ook q" using assms(1) by (auto simp: logic_ready_def)
  obtain a q' where "f ovt q = (Returns a, q')" "ook q'" using safeD [OF assms(2) q(2)] by auto
  then show ?thesis using q assms(1) by (auto simp: call_OpenToClose_def logic_ready_def)
qed

text \<open>A broadcast of one event: every user collector is told once, the logic too, nothing else changes.\<close>

lemma collect_run_ready:
  assumes "quiet env" "ready c"
  shows "\<exists>c'. gforeach (collect_run env ev ctx now) cs c = (Returns (), c') \<and> ready c' \<and>
    core c' = (core c)\<lparr>c_log := c_log c @ map (\<lambda>k. LgRun k ev ctx now) (user_collectors cs)\<rparr>"
  using assms(2)
proof (induction cs arbitrary: c)
  case (Cons x cs)
  have "\<exists>c1. collect_run env ev ctx now x c = (Returns (), c1) \<and> ready c1 \<and>
      core c1 = (core c)\<lparr>c_log := c_log c @ map (\<lambda>k. LgRun k ev ctx now) (user_collectors [x])\<rparr>"
    using call_closed_ready [where f = "rm_send ev ctx now", OF Cons.prems co.send_safe]
      call_open_ready [where f = "rm_send ev ctx now", OF Cons.prems oc.send_safe] assms(1) Cons.prems
    by (cases x) (auto simp: go_simps quiet_def logic_ready_def core_def)
  then obtain c1 where c1: "collect_run env ev ctx now x c = (Returns (), c1)" "ready c1"
      "core c1 = (core c)\<lparr>c_log := c_log c @ map (\<lambda>k. LgRun k ev ctx now) (user_collectors [x])\<rparr>" by blast
  have "c_log c1 = c_log c @ map (\<lambda>k. LgRun k ev ctx now) (user_collectors [x])"
    using core_logD [OF c1(3)] .
  then show ?case using Cons.IH [OF c1(2)] c1 by (cases x) (auto simp: go_simps)
qed (simp add: go_simps)

lemma send_ready:
  assumes "quiet env" "ready c"
  shows "\<exists>c'. RunMetricsCollection_send env ev ctx now c = (Returns (), c') \<and> ready c' \<and>
    core c' = (core c)\<lparr>c_log := c_log c @ map (\<lambda>k. LgRun k ev ctx now) (user_collectors (c_CmdMetricCollector c))\<rparr>"
  using collect_run_ready [OF assms, of ev ctx now "c_CmdMetricCollector c"]
  by (simp add: RunMetricsCollection_send_def go_run gbind_run)

lemma now_ready:
  assumes "ready c"
  shows "\<exists>clk. c_timeNow c = Some clk \<and>
    c_now c = (Returns (clk (c_readings c)), c\<lparr>c_readings := Suc (c_readings c)\<rparr>) \<and>
    ready (c\<lparr>c_readings := Suc (c_readings c)\<rparr>)"
  using assms by (auto simp: logic_ready_def c_now_def)

lemma notify_ready:
  assumes "ready c"
  shows "\<exists>c'. notifyStateMachines ctx now opn c = (Returns (), c') \<and> ready c' \<and> core c' = core c"
proof -
  have st: "safe ook (if opn then sm_Opened ovt ctx now else sm_Closed ovt ctx now)"
    "safe cok (if opn then sm_Opened cvt ctx now else sm_Closed cvt ctx now)"
    using oc.Opened_safe oc.Closed_safe co.Opened_safe co.Closed_safe by simp_all
  obtain c1 where c1: "call_OpenToClose (\<lambda>vt. if opn then sm_Opened vt ctx now else sm_Closed vt ctx now) c =
      (Returns (), c1)" "ready c1" "core c1 = core c"
    using call_open_ready [where f = "\<lambda>vt. if opn then sm_Opened vt ctx now else sm_Closed vt ctx now", OF assms st(1)]
    by auto
  obtain c2 where "call_ClosedToOpen (\<lambda>vt. if opn then sm_Opened vt ctx now else sm_Closed vt ctx now) c1 =
      (Returns (), c2)" "ready c2" "core c2 = core c1"
    using call_closed_ready [where f = "\<lambda>vt. if opn then sm_Opened vt ctx now else sm_Closed vt ctx now", OF c1(2) st(2)]
    by auto
  then show ?thesis using c1 by (cases opn) (auto simp: notifyStateMachines_def go_simps)
qed

text \<open>A predicate the circuit may re-ask under the lock.\<close>

definition asks :: "(ctx \<Rightarrow> gotime \<Rightarrow> (bool, 'p, 'q) cgo) \<Rightarrow> bool" where
  "asks f \<longleftrightarrow> (\<forall>ctx now c. ready c \<longrightarrow> (\<exists>b c'. f ctx now c = (Returns b, c') \<and> ready c' \<and> core c' = core c))"

lemma asksD: "asks f \<Longrightarrow> ready c \<Longrightarrow> \<exists>b c'. f ctx now c = (Returns b, c') \<and> ready c' \<and> core c' = core c"
  by (simp add: asks_def)

lemma asks_logic: "asks ask_ShouldOpen" "asks ask_ShouldClose"
  unfolding asks_def ask_ShouldOpen_def ask_ShouldClose_def
  by (auto intro!: call_closed_ready call_open_ready co.ShouldOpen_safe oc.ShouldClose_safe)

lemma ready_mu [simp]: "ready (c\<lparr>c_transitionMu := b\<rparr>) = ready c"
  by (simp add: logic_ready_def)

lemma ready_others [simp]:
  "ready (c\<lparr>c_isOpen := b\<rparr>) = ready c" "ready (c\<lparr>c_pendingTransitions := ts\<rparr>) = ready c"
  "ready (c\<lparr>c_log := l\<rparr>) = ready c" "ready (c\<lparr>c_readings := n\<rparr>) = ready c"
  "ready (c\<lparr>c_concurrentCommands := k\<rparr>) = ready c" "ready (c\<lparr>c_concurrentFallbacks := k\<rparr>) = ready c"
  by (simp_all add: logic_ready_def)

lemma commit_ready:
  assumes c: "ready c" "\<not> c_transitionMu c" and re: "case recheck of None \<Rightarrow> True | Some f \<Rightarrow> asks f"
  shows "\<exists>fin c'. commitTransition ctx now opn recheck c = (Returns fin, c') \<and> ready c' \<and>
    (recheck = None \<longrightarrow> fin = (c_isOpen c \<noteq> opn)) \<and>
    (if fin then c_isOpen c \<noteq> opn \<and> (\<exists>clk. c_timeNow c = Some clk \<and>
        core c' = (core c)\<lparr>c_isOpen := opn, c_readings := Suc (c_readings c),
          c_pendingTransitions := c_pendingTransitions c @
            [\<lparr>tr_open = opn, tr_ctx = ctx, tr_now = max now (clk (c_readings c))\<rparr>]\<rparr>)
     else core c' = core c)"
proof (cases "c_isOpen c = opn")
  case True
  then show ?thesis
    using c
    by (intro exI [of _ False])
      (simp add: commitTransition_def gseq_run gdefer_def gbind_run go_run lock_run unlock_run mu_same)
next
  case False
  let ?c0 = "c\<lparr>c_transitionMu := True\<rparr>"
  have "ready ?c0" using c(1) by simp
  then have "\<exists>b c1. (case recheck of None \<Rightarrow> greturn True | Some f \<Rightarrow> f ctx now) ?c0 = (Returns b, c1) \<and>
    ready c1 \<and> core c1 = core ?c0"
    using re asksD [of _ ?c0 ctx now] by (cases recheck) (auto simp: go_run simp del: core_update)
  then obtain b c1 where c1: "(case recheck of None \<Rightarrow> greturn True | Some f \<Rightarrow> f ctx now) ?c0 = (Returns b, c1)"
    "ready c1" "core c1 = core ?c0" by blast
  note f1 = core_fields [OF c1(3)]
  have none: "recheck = None \<longrightarrow> b" using c1(1) by (auto simp: go_run)
  show ?thesis
  proof (cases b)
    case False
    then show ?thesis
      using c1 f1 none \<open>c_isOpen c \<noteq> opn\<close> c
      by (auto simp: commitTransition_def gseq_run gdefer_def gbind_run go_run lock_run unlock_run)
  next
    case True
    obtain clk where clk: "c_timeNow c1 = Some clk" using now_ready [OF c1(2)] by auto
    let ?t = "max now (clk (c_readings c))"
    let ?c2 = "c1\<lparr>c_isOpen := opn, c_readings := Suc (c_readings c1)\<rparr>"
    obtain c3 where c3: "notifyStateMachines ctx ?t opn ?c2 = (Returns (), c3)" "ready c3" "core c3 = core ?c2"
      using notify_ready [of ?c2 ctx ?t opn] c1(2) by auto
    let ?tr = "\<lparr>tr_open = opn, tr_ctx = ctx, tr_now = ?t\<rparr>"
    let ?c4 = "c3\<lparr>c_pendingTransitions := c_pendingTransitions c3 @ [?tr]\<rparr>"
    have t: "(if time_After (clk (c_readings c1)) now then clk (c_readings c1) else now) = ?t"
      using f1 by (simp add: time_After_def max_def)
    have now: "c_now (c1\<lparr>c_isOpen := opn\<rparr>) = (Returns (clk (c_readings c1)), ?c2)"
      using clk by (simp add: c_now_def)
    note f3 = core_fields [OF c3(3)]
    have mu: "c_transitionMu ?c4" using f3 f1 by simp
    have "c_isOpen ?c0 \<noteq> opn" using \<open>c_isOpen c \<noteq> opn\<close> by simp
    then have "commitTransition ctx now opn recheck c = (Returns True, ?c4\<lparr>c_transitionMu := False\<rparr>)"
      using c1(1) c(2) True mu c3(1)
      by (simp add: commitTransition_def gseq_run gdefer_def gbind_run go_run lock_run unlock_run now t Let_def
          split del: if_split)
    moreover have "core (?c4\<lparr>c_transitionMu := False\<rparr>) = (core c)\<lparr>c_isOpen := opn, c_readings := Suc (c_readings c),
        c_pendingTransitions := c_pendingTransitions c @ [?tr]\<rparr>"
      using c3(3) c1(3) f3 f1 c(2) mu_same [of "core c" False] by simp
    moreover have "ready (?c4\<lparr>c_transitionMu := False\<rparr>)" "c_timeNow c = Some clk"
      using c3(2) clk f1 by simp_all
    ultimately show ?thesis
      using \<open>c_isOpen c \<noteq> opn\<close>
      by (intro exI [of _ True] exI [of _ "?c4\<lparr>c_transitionMu := False\<rparr>"]) (simp only: if_True, blast)
  qed
qed

lemma transition_ready:
  assumes q: "quiet env" and c: "ready c" "\<not> c_transitionMu c"
    and re: "case recheck of None \<Rightarrow> True | Some f \<Rightarrow> asks f" and fuel: "length (c_pendingTransitions c) + 2 < fuel"
  shows "\<exists>c'. transitionTo fuel env ctx now opn recheck c = (Returns (), c') \<and> ready c' \<and> advances c c' []"
proof (cases "c_isOpen c = opn")
  case True
  then show ?thesis using c advances_core [of c c] by (simp add: transitionTo_def gbind_run go_run)
next
  case False
  obtain fin c1 where c1: "commitTransition ctx now opn recheck c = (Returns fin, c1)" "ready c1"
    "if fin then c_isOpen c \<noteq> opn \<and> (\<exists>clk. c_timeNow c = Some clk \<and>
        core c1 = (core c)\<lparr>c_isOpen := opn, c_readings := Suc (c_readings c),
          c_pendingTransitions := c_pendingTransitions c @
            [\<lparr>tr_open = opn, tr_ctx = ctx, tr_now = max now (clk (c_readings c))\<rparr>]\<rparr>)
     else core c1 = core c"
    using commit_ready [OF c re] by blast
  show ?thesis
  proof (cases fin)
    case False
    then show ?thesis
      using c1 advances_core [of c1 c] \<open>c_isOpen c \<noteq> opn\<close>
      by (simp add: transitionTo_def gbind_run go_run gwhen_run)
  next
    case True
    then obtain clk where k: "core c1 = (core c)\<lparr>c_isOpen := opn, c_readings := Suc (c_readings c),
          c_pendingTransitions := c_pendingTransitions c @
            [\<lparr>tr_open = opn, tr_ctx = ctx, tr_now = max now (clk (c_readings c))\<rparr>]\<rparr>"
      using c1(3) by auto
    note eq = arg_cong [OF k]
    have f: "\<not> c_transitionMu c1" "length (c_pendingTransitions c1) = Suc (length (c_pendingTransitions c))"
      "c_log c1 = c_log c" "c_readings c1 = Suc (c_readings c)" "c_isOpen c1 = opn"
      using eq [of c_transitionMu] eq [of c_pendingTransitions] eq [of c_log] eq [of c_readings] eq [of c_isOpen]
        c(2) by simp_all
    let ?c2 = "if c_deliveringTransitions c1 then c1 else c1\<lparr>c_pendingTransitions := [],
      c_log := c_log c1 @ concat (map (told (c_CircuitMetricsCollector c1)) (c_pendingTransitions c1))\<rparr>"
    have "deliverPendingTransitions fuel env c1 = (Returns (), ?c2)"
      using quiet_deliver [OF q, of c1 fuel] f fuel by simp
    moreover have "ready ?c2" using c1(2) by simp
    moreover have "rest c1 = rest c" using rest_core_eq [OF k, of c] by (simp add: rest_core)
    then have "advances c ?c2 []" using f by (simp add: advances_def run_log_def)
    ultimately show ?thesis
      using c1(1) True \<open>c_isOpen c \<noteq> opn\<close> by (simp add: transitionTo_def gbind_run go_run gwhen_run)
  qed
qed

text \<open>Steps of the circuit that return, with what they report.\<close>

definition steps :: "('a, 'p, 'q) cgo \<Rightarrow> ('p, 'q) Circuit \<Rightarrow> 'a \<Rightarrow> listener_call list \<Rightarrow> bool" where
  "steps m c a evs \<longleftrightarrow> (\<exists>c'. m c = (Returns a, c') \<and> ready c' \<and> \<not> c_transitionMu c' \<and> advances c c' evs)"

lemma steps_greturn: "ready c \<Longrightarrow> \<not> c_transitionMu c \<Longrightarrow> steps (greturn a) c a []"
  by (simp add: steps_def go_run)

lemma send_steps:
  assumes "quiet env" "ready c"
  shows "\<exists>c'. RunMetricsCollection_send env ev ctx now c = (Returns (), c') \<and> ready c' \<and>
    advances c c' (heard c ev ctx now) \<and> c_isOpen c' = c_isOpen c \<and> c_readings c' = c_readings c \<and>
    c_pendingTransitions c' = c_pendingTransitions c"
proof -
  obtain c' where c': "RunMetricsCollection_send env ev ctx now c = (Returns (), c')" "ready c'"
    "core c' = (core c)\<lparr>c_log := c_log c @ heard c ev ctx now\<rparr>"
    using send_ready [OF assms, of ev ctx now] by (auto simp: heard_def)
  have "rest c' = rest c" using rest_core_eq [OF c'(3), of c] by (simp add: rest_core)
  moreover note core_logD [OF c'(3)]
  moreover have "c_isOpen c' = c_isOpen c" "c_readings c' = c_readings c"
    "c_pendingTransitions c' = c_pendingTransitions c"
    using arg_cong [OF c'(3), of c_isOpen] arg_cong [OF c'(3), of c_readings]
      arg_cong [OF c'(3), of c_pendingTransitions] by simp_all
  ultimately show ?thesis using c' by (simp add: advances_def run_log_def)
qed

lemma attemptToOpen_steps:
  assumes q: "quiet env" and c: "ready c" "\<not> c_transitionMu c" and fuel: "enough fuel c"
  shows "steps (attemptToOpen fuel env ctx now) c () []"
proof (cases "ac_ForcedClosed (c_threadSafeConfig c) \<or> c_isOpen c")
  case True
  then show ?thesis using c by (auto simp: steps_def attemptToOpen_def gbind_run go_run)
next
  case False
  obtain b c1 where c1: "ask_ShouldOpen ctx now c = (Returns b, c1)" "ready c1" "core c1 = core c"
    using asksD [OF asks_logic(1) c(1), of ctx now] by auto
  note f = core_fields [OF c1(3)]
  have a1: "advances c c1 []" using advances_core [OF c1(3)] .
  obtain c2 where "transitionTo fuel env ctx now True (Some ask_ShouldOpen) c1 = (Returns (), c2)" "ready c2"
    "advances c1 c2 []"
    using transition_ready [OF q c1(2), of "Some ask_ShouldOpen" fuel ctx now True] asks_logic(1) f c(2) fuel
    by (auto simp: enough_def)
  then show ?thesis
    using False c1 a1 advances_trans [OF a1, of c2 "[]"] rest_fields [of c2 c1] f c(2)
    by (auto simp: steps_def attemptToOpen_def gbind_run go_run gwhen_run advances_def)
qed

lemma steps_then_attempt:
  assumes q: "quiet env" and c: "ready c" "\<not> c_transitionMu c" "enough fuel c"
  shows "steps (gseq (RunMetricsCollection_send env ev ctx now) (gbind (gget c_isOpen) (\<lambda>opn.
      gseq (gwhen (\<not> opn) (attemptToOpen fuel env ctx now)) (greturn True)))) c True (heard c ev ctx now)"
proof -
  obtain c1 where c1: "RunMetricsCollection_send env ev ctx now c = (Returns (), c1)" "ready c1"
    "advances c c1 (heard c ev ctx now)" "c_pendingTransitions c1 = c_pendingTransitions c"
    using send_steps [OF q c(1), of ev ctx now] by auto
  have m: "\<not> c_transitionMu c1" using rest_fields(7) [of c1 c] c1(3) c(2) by (simp add: advances_def)
  have "steps (gwhen (\<not> c_isOpen c1) (attemptToOpen fuel env ctx now)) c1 () []"
    using attemptToOpen_steps [OF q c1(2) m] c1 c(3) m
    by (cases "c_isOpen c1") (auto simp: gwhen_def enough_def intro: steps_greturn)
  then obtain c2 where "gwhen (\<not> c_isOpen c1) (attemptToOpen fuel env ctx now) c1 = (Returns (), c2)" "ready c2"
    "\<not> c_transitionMu c2" "advances c1 c2 []"
    by (auto simp: steps_def)
  then show ?thesis
    using c1 advances_trans [OF c1(3), of c2 "[]"] by (auto simp: steps_def gseq_run gbind_run go_run)
qed

lemma checkErrTimeout_steps:
  assumes "quiet env" "ready c" "\<not> c_transitionMu c" "enough fuel c"
  shows "steps (checkErrTimeout fuel env ctx expectedDoneBy fin d) c (is_late expectedDoneBy fin)
    (if is_late expectedDoneBy fin then heard c (EvErrTimeout d) ctx fin else [])"
  using steps_then_attempt [OF assms, of "EvErrTimeout d" ctx fin] steps_greturn [OF assms(2,3), of False]
  by (auto simp: checkErrTimeout_def is_late_def time_IsZero_def time_Before_def)

lemma checkErrFailure_steps:
  assumes "quiet env" "ready c" "\<not> c_transitionMu c" "enough fuel c"
  shows "steps (checkErrFailure fuel env ctx ret fin d) c (ret \<noteq> None)
    (if ret \<noteq> None then heard c (EvErrFailure d) ctx fin else [])"
  using steps_then_attempt [OF assms, of "EvErrFailure d" ctx fin] steps_greturn [OF assms(2,3), of False]
  by (auto simp: checkErrFailure_def)

lemma steps_send_greturn:
  assumes "quiet env" "ready c" "\<not> c_transitionMu c"
  shows "steps (gseq (RunMetricsCollection_send env ev ctx now) (greturn a)) c a (heard c ev ctx now)"
proof -
  obtain c' where "RunMetricsCollection_send env ev ctx now c = (Returns (), c')" "ready c'"
    "advances c c' (heard c ev ctx now)"
    using send_steps [OF assms(1,2), of ev ctx now] by auto
  then show ?thesis
    using rest_fields(7) [of c' c] assms(3) by (auto simp: steps_def gseq_run go_run advances_def)
qed

lemma checkErrBadRequest_steps:
  assumes "quiet env" "ready c" "\<not> c_transitionMu c"
  shows "steps (checkErrBadRequest env ctx ret fin d) c (IsBadRequest ret)
    (if IsBadRequest ret then heard c (EvErrBadRequest d) ctx fin else [])"
  using steps_send_greturn [OF assms, of "EvErrBadRequest d" ctx fin True] steps_greturn [OF assms(2,3), of False]
  by (auto simp: checkErrBadRequest_def)

lemma not_interrupt_run:
  assumes "\<not> (ret \<noteq> None \<and> is_interrupt c octx (c_readings c))"
  shows "\<exists>n. checkErrInterrupt env ctx octx ret fin d c = (Returns False, c\<lparr>c_readings := n\<rparr>)"
proof -
  let ?n = "c_readings c"
  have same: "c\<lparr>c_readings := ?n\<rparr> = c" by (cases c) simp
  consider "ret = None" | r where "ret = Some r" "ctx_Err octx ?n = None"
    | r e where "ret = Some r" "ctx_Err octx ?n = Some e" "ac_IgnoreInterrupts (c_threadSafeConfig c)"
    | r e f where "ret = Some r" "ctx_Err octx ?n = Some e" "\<not> ac_IgnoreInterrupts (c_threadSafeConfig c)"
        "ec_IsErrInterrupt (cf_Execution (c_notThreadSafeConfig c)) = Some f" "\<not> f (ctx_Err octx (Suc ?n))"
    using assms by (fastforce simp: is_interrupt_def split: option.splits)
  then show ?thesis
  proof cases
    case 1
    then have "checkErrInterrupt env ctx octx ret fin d c = (Returns False, c\<lparr>c_readings := ?n\<rparr>)"
      by (simp add: checkErrInterrupt_def go_run same)
    then show ?thesis by blast
  next
    case 2
    then have "checkErrInterrupt env ctx octx ret fin d c = (Returns False, c\<lparr>c_readings := Suc ?n\<rparr>)"
      by (simp add: checkErrInterrupt_def gbind_run go_run ask_Err_def)
    then show ?thesis by blast
  next
    case 3
    then have "checkErrInterrupt env ctx octx ret fin d c = (Returns False, c\<lparr>c_readings := Suc ?n\<rparr>)"
      by (simp add: checkErrInterrupt_def gbind_run go_run ask_Err_def Let_def)
    then show ?thesis by blast
  next
    case 4
    then have "checkErrInterrupt env ctx octx ret fin d c = (Returns False, c\<lparr>c_readings := Suc (Suc ?n)\<rparr>)"
      by (simp add: checkErrInterrupt_def gbind_run go_run ask_Err_def Let_def)
    then show ?thesis by blast
  qed
qed

lemma interrupt_run:
  assumes "ret \<noteq> None" "is_interrupt c octx (c_readings c)"
  shows "checkErrInterrupt env ctx octx ret fin d c =
    gseq (RunMetricsCollection_send env (EvErrInterrupt d) ctx fin) (greturn True)
      (c\<lparr>c_readings := Suc (Suc (c_readings c))\<rparr>)"
  using assms
  by (auto simp: checkErrInterrupt_def gbind_run go_run ask_Err_def is_interrupt_def Let_def split: option.splits)

lemma checkSuccess_steps:
  assumes q: "quiet env" and c: "ready c" "\<not> c_transitionMu c" "enough fuel c"
  shows "steps (checkSuccess fuel env ctx fin d) c () (heard c (EvSuccess d) ctx fin)"
proof -
  obtain c1 where c1: "RunMetricsCollection_send env (EvSuccess d) ctx fin c = (Returns (), c1)" "ready c1"
    "advances c c1 (heard c (EvSuccess d) ctx fin)" "c_pendingTransitions c1 = c_pendingTransitions c"
    using send_steps [OF q c(1), of "EvSuccess d" ctx fin] by auto
  have m: "\<not> c_transitionMu c1" using rest_fields(7) [of c1 c] c1(3) c(2) by (simp add: advances_def)
  define k where "k = (if \<not> c_isOpen c1 \<or> ac_ForceOpen (c_threadSafeConfig c1) then greturn ()
     else gbind (ask_ShouldClose ctx fin) (\<lambda>should.
       gwhen should (transitionTo fuel env ctx fin False (Some ask_ShouldClose))))"
  have "steps k c1 () []"
  proof (cases "\<not> c_isOpen c1 \<or> ac_ForceOpen (c_threadSafeConfig c1)")
    case True
    then show ?thesis using steps_greturn [OF c1(2) m] by (auto simp: k_def)
  next
    case False
    obtain b c2 where c2: "ask_ShouldClose ctx fin c1 = (Returns b, c2)" "ready c2" "core c2 = core c1"
      using asksD [OF asks_logic(2) c1(2), of ctx fin] by auto
    note f = core_fields [OF c2(3)]
    have a2: "advances c1 c2 []" using advances_core [OF c2(3)] .
    obtain c3 where "transitionTo fuel env ctx fin False (Some ask_ShouldClose) c2 = (Returns (), c3)" "ready c3"
      "advances c2 c3 []"
      using transition_ready [OF q c2(2), of "Some ask_ShouldClose" fuel ctx fin False] asks_logic(2) f m c(3) c1(4)
      by (auto simp: enough_def)
    then show ?thesis
      using False c2 a2 advances_trans [OF a2, of c3 "[]"] rest_fields(7) [of c3 c2] f m
      by (auto simp: k_def steps_def gbind_run go_run gwhen_run advances_def)
  qed
  then obtain c4 where "k c1 = (Returns (), c4)" "ready c4" "\<not> c_transitionMu c4" "advances c1 c4 []"
    by (auto simp: steps_def)
  then show ?thesis
    using c1 advances_trans [OF c1(3), of c4 "[]"]
    by (auto simp: k_def steps_def checkSuccess_def gseq_run gbind_run go_run)
qed

text \<open>The end of a run: the error the run function gave is the result, and one event is reported.\<close>

lemma steps_verdict:
  "steps m c True evs \<Longrightarrow> steps (gbind m (\<lambda>b. if b then greturn r else k)) c r evs"
  by (auto simp: steps_def gbind_run go_run)

lemma steps_next:
  "m c = (Returns False, c1) \<Longrightarrow> advances c c1 [] \<Longrightarrow> steps k c1 r evs \<Longrightarrow>
   steps (gbind m (\<lambda>b. if b then greturn r' else k)) c r evs"
  using advances_trans [of c c1 "[]" _ evs] by (auto simp: steps_def gbind_run go_run)

lemma run_finish_steps:
  assumes q: "quiet env" and c: "ready c" "\<not> c_transitionMu c" "enough fuel c"
    and clk: "c_timeNow c = Some clk" and fin: "fin = clk (c_readings c)"
  shows "steps (run_finish fuel env ctx octx startTime expectedDoneBy ret) c ret
    (heard c (verdict ret (is_late expectedDoneBy fin) (is_interrupt c octx (Suc (c_readings c)))
       (time_Sub fin startTime)) ctx fin)"
proof -
  let ?d = "time_Sub fin startTime"
  let ?c = "c\<lparr>c_readings := Suc (c_readings c)\<rparr>"
  define k4 where "k4 = gseq (checkSuccess fuel env ctx fin ?d) (greturn None :: (err option, 'p, 'q) cgo)"
  define k3 where "k3 = gbind (checkErrFailure fuel env ctx ret fin ?d) (\<lambda>failed. if failed then greturn ret else k4)"
  define k2 where "k2 = gbind (checkErrInterrupt env ctx octx ret fin ?d) (\<lambda>b. if b then greturn ret else k3)"
  define k1 where "k1 = gbind (checkErrTimeout fuel env ctx expectedDoneBy fin ?d) (\<lambda>late. if late then greturn ret else k2)"
  define k0 where "k0 = gbind (checkErrBadRequest env ctx ret fin ?d) (\<lambda>bad. if bad then greturn ret else k1)"
  have run: "run_finish fuel env ctx octx startTime expectedDoneBy ret c = k0 ?c"
    unfolding run_finish_def Let_def k0_def k1_def k2_def k3_def k4_def
    by (subst gbind_Returns [where s' = ?c and a = fin]) (simp_all add: clk fin c_now_def)
  have heard: "heard c' ev ctx fin = heard c ev ctx fin" if "rest c' = rest c" for c' ev
    using heard_rest [OF that] .
  have s4: "steps k4 c' None (heard c (EvSuccess ?d) ctx fin)"
    if "ready c'" "\<not> c_transitionMu c'" "enough fuel c'" "rest c' = rest c" for c'
    using checkSuccess_steps [OF q that(1-3), of ctx fin ?d] heard [OF that(4)]
    by (auto simp: k4_def steps_def gseq_run go_run)
  have s3: "steps k3 c' ret (heard c (if ret \<noteq> None then EvErrFailure ?d else EvSuccess ?d) ctx fin)"
    if "ready c'" "\<not> c_transitionMu c'" "enough fuel c'" "rest c' = rest c" for c'
  proof (cases ret)
    case None
    then show ?thesis
      using s4 [OF that] steps_next [where m = "checkErrFailure fuel env ctx ret fin ?d", of c' c']
      by (auto simp: k3_def checkErrFailure_def go_run)
  next
    case (Some e)
    then show ?thesis
      using checkErrFailure_steps [OF q that(1-3), of ctx ret fin ?d] heard [OF that(4)]
      by (auto simp: k3_def intro: steps_verdict)
  qed
  have s2: "steps k2 ?c ret (heard c (if ret \<noteq> None \<and> is_interrupt c octx (Suc (c_readings c)) then EvErrInterrupt ?d
      else if ret \<noteq> None then EvErrFailure ?d else EvSuccess ?d) ctx fin)"
  proof (cases "ret \<noteq> None \<and> is_interrupt c octx (Suc (c_readings c))")
    case True
    have "is_interrupt ?c octx (c_readings ?c)" using True by (simp add: is_interrupt_def)
    then have "checkErrInterrupt env ctx octx ret fin ?d ?c =
        gseq (RunMetricsCollection_send env (EvErrInterrupt ?d) ctx fin) (greturn True)
          (?c\<lparr>c_readings := Suc (Suc (c_readings ?c))\<rparr>)"
      using True by (intro interrupt_run) simp_all
    then show ?thesis
      using steps_send_greturn [OF q, of "?c\<lparr>c_readings := Suc (Suc (c_readings ?c))\<rparr>" "EvErrInterrupt ?d" ctx fin True]
        c True by (auto simp: k2_def steps_def gbind_run go_run advances_def heard_def run_log_def)
  next
    case False
    then have "\<not> (ret \<noteq> None \<and> is_interrupt ?c octx (c_readings ?c))" by (simp add: is_interrupt_def)
    then obtain n where n: "checkErrInterrupt env ctx octx ret fin ?d ?c = (Returns False, ?c\<lparr>c_readings := n\<rparr>)"
      using not_interrupt_run by blast
    have "steps k3 (?c\<lparr>c_readings := n\<rparr>) ret (heard c (if ret \<noteq> None then EvErrFailure ?d else EvSuccess ?d) ctx fin)"
      using c by (intro s3) (simp_all add: enough_def)
    then show ?thesis
      using False steps_next [where m = "checkErrInterrupt env ctx octx ret fin ?d" and k = k3, OF n]
      by (auto simp: k2_def advances_def run_log_def)
  qed
  have c': "ready ?c" "\<not> c_transitionMu ?c" "enough fuel ?c" "rest ?c = rest c" using c by (simp_all add: enough_def)
  have s1: "steps k1 ?c ret (heard c (if is_late expectedDoneBy fin then EvErrTimeout ?d
      else if ret \<noteq> None \<and> is_interrupt c octx (Suc (c_readings c)) then EvErrInterrupt ?d
      else if ret \<noteq> None then EvErrFailure ?d else EvSuccess ?d) ctx fin)"
  proof (cases "is_late expectedDoneBy fin")
    case True
    then show ?thesis
      using checkErrTimeout_steps [OF q c'(1-3), of ctx expectedDoneBy fin ?d] heard [OF c'(4)]
      by (auto simp: k1_def intro: steps_verdict)
  next
    case False
    then have "checkErrTimeout fuel env ctx expectedDoneBy fin ?d ?c = (Returns False, ?c)"
      by (auto simp: checkErrTimeout_def is_late_def time_IsZero_def time_Before_def go_run)
    then show ?thesis using s2 False steps_next [of _ ?c ?c k2 ret] by (simp add: k1_def)
  qed
  have s0: "steps k0 ?c ret (heard c (verdict ret (is_late expectedDoneBy fin)
      (is_interrupt c octx (Suc (c_readings c))) ?d) ctx fin)"
  proof (cases "IsBadRequest ret")
    case True
    then show ?thesis
      using checkErrBadRequest_steps [OF q c'(1,2), of ctx ret fin ?d] heard [OF c'(4)]
      by (auto simp: k0_def verdict.simps intro: steps_verdict)
  next
    case False
    then have "checkErrBadRequest env ctx ret fin ?d ?c = (Returns False, ?c)"
      by (simp add: checkErrBadRequest_def go_run)
    then show ?thesis using s1 False steps_next [of _ ?c ?c k1 ret] by (simp add: k0_def verdict.simps)
  qed
  have "advances c ?c []" by (simp add: advances_def run_log_def)
  then show ?thesis using s0 run advances_trans [of c ?c "[]"] by (auto simp: steps_def)
qed

subsection \<open>A run, from its start\<close>

lemma allow_ready:
  assumes c: "ready c" and mx: "mx = ac_MaxConcurrentRequests (c_threadSafeConfig c)"
  shows "\<exists>c'. allowNewRun ctx now mx c = (Returns (\<not> denies ctx now c), c') \<and> ready c' \<and> core c' = core c \<and>
    c_ClosedToOpen c' = c_ClosedToOpen c"
proof -
  obtain b c' where c': "call_OpenToClose (\<lambda>vt. oc_Allow vt ctx now) c = (Returns b, c')" "ready c'" "core c' = core c"
    using call_open_ready [where f = "\<lambda>vt. oc_Allow vt ctx now", OF c oc.Allow_safe] by auto
  have "c_ClosedToOpen c' = c_ClosedToOpen c"
    using c'(1) by (auto simp: call_OpenToClose_def split: option.splits prod.splits)
  then show ?thesis
    using c' c mx by (auto simp: allowNewRun_def denies_def gbind_run go_run)
qed

lemma prevent_ready:
  assumes c: "ready c"
  shows "\<exists>c'. call_ClosedToOpen (\<lambda>vt. co_Prevent vt ctx now) c = (Returns (prevents ctx now c), c') \<and> ready c' \<and>
    core c' = core c"
  using call_closed_ready [where f = "\<lambda>vt. co_Prevent vt ctx now", OF c co.Prevent_safe]
  by (auto simp: prevents_def)

lemma prevents_cong: "c_ClosedToOpen c' = c_ClosedToOpen c \<Longrightarrow> prevents ctx now c' = prevents ctx now c"
  by (auto simp: prevents_def call_ClosedToOpen_def split: option.split prod.split)

lemma denies_readings: "denies ctx now (c\<lparr>c_readings := n\<rparr>) = denies ctx now c"
  by (auto simp: denies_def call_OpenToClose_def split: option.split prod.split)

text \<open>Denied: every run function gives the same result, the short circuit error.\<close>

lemma run_denied:
  assumes q: "quiet env" and c: "ready c" and clk: "c_timeNow c = Some clk" and d: "denies ctx (clk (c_readings c)) c"
  shows "\<exists>c'. (\<forall>rf. run fuel env ctx rf c = (Returns (Some errCircuitOpen), c')) \<and> ready c' \<and>
    advances c c' (heard c EvErrShortCircuit ctx (clk (c_readings c))) \<and> c_isOpen c' = c_isOpen c"
proof -
  let ?s = "clk (c_readings c)" and ?c = "c\<lparr>c_readings := Suc (c_readings c)\<rparr>"
  have now: "c_now c = (Returns ?s, ?c)" using clk by (simp add: c_now_def)
  obtain c1 where c1: "allowNewRun ctx ?s (ac_MaxConcurrentRequests (c_threadSafeConfig c)) ?c = (Returns False, c1)"
    "ready c1" "core c1 = core ?c"
    using allow_ready [of ?c "ac_MaxConcurrentRequests (c_threadSafeConfig c)" ctx ?s] c d
    by (auto simp: denies_readings)
  have a1: "advances c c1 []"
    using advances_trans [of c ?c "[]" c1 "[]"] advances_core [OF c1(3)] by (simp add: advances_def run_log_def)
  obtain c2 where c2: "RunMetricsCollection_send env EvErrShortCircuit ctx ?s c1 = (Returns (), c2)" "ready c2"
    "advances c1 c2 (heard c1 EvErrShortCircuit ctx ?s)" "c_isOpen c2 = c_isOpen c1"
    using send_steps [OF q c1(2), of EvErrShortCircuit ctx ?s] by auto
  have "heard c1 EvErrShortCircuit ctx ?s = heard c EvErrShortCircuit ctx ?s"
    using a1 by (intro heard_rest) (simp add: advances_def)
  moreover have "c_isOpen c1 = c_isOpen c" using core_fields(8) [OF c1(3)] by simp
  ultimately show ?thesis
    using c1(1) c2 now advances_trans [OF a1 c2(3)] by (auto simp: run_def gbind_run gseq_run go_run)
qed

text \<open>Not denied: what happens next, up to the call of the run function.\<close>

lemma run_not_denied:
  assumes c: "ready c" and clk: "c_timeNow c = Some clk" and d: "\<not> denies ctx (clk (c_readings c)) c"
  shows "\<exists>c3. ready c3 \<and> core c3 = core (c\<lparr>c_readings := Suc (c_readings c)\<rparr>) \<and>
    (\<forall>rf. run fuel env ctx rf c =
      (if prevents ctx (clk (c_readings c)) c then (Returns (Some errCircuitOpen), c3)
       else gbind (add_commands 1) (\<lambda>cur. gdefer (gseq (add_commands (-1)) (greturn ()))
         (run_admitted fuel env ctx (clk (c_readings c)) (ac_MaxConcurrentRequests (c_threadSafeConfig c)) cur rf)) c3))"
proof -
  let ?s = "clk (c_readings c)" and ?c = "c\<lparr>c_readings := Suc (c_readings c)\<rparr>"
  have now: "c_now c = (Returns ?s, ?c)" using clk by (simp add: c_now_def)
  obtain c1 where c1: "allowNewRun ctx ?s (ac_MaxConcurrentRequests (c_threadSafeConfig c)) ?c = (Returns True, c1)"
    "ready c1" "core c1 = core ?c" "c_ClosedToOpen c1 = c_ClosedToOpen ?c"
    using allow_ready [of ?c "ac_MaxConcurrentRequests (c_threadSafeConfig c)" ctx ?s] c d
    by (auto simp: denies_readings)
  obtain c3 where c3: "call_ClosedToOpen (\<lambda>vt. co_Prevent vt ctx ?s) c1 = (Returns (prevents ctx ?s c1), c3)"
    "ready c3" "core c3 = core c1"
    using prevent_ready [OF c1(2)] by blast
  have "prevents ctx ?s c1 = prevents ctx ?s c" using c1(4) by (intro prevents_cong) simp
  then show ?thesis
    using c1 c3 now by (auto simp: run_def gbind_run go_run)
qed

lemma cc_same: "c_concurrentCommands c = k \<Longrightarrow> c\<lparr>c_concurrentCommands := k\<rparr> = c"
  by (cases c) simp

lemma rest_cc: "rest (c\<lparr>c_concurrentCommands := k\<rparr>) = (rest c)\<lparr>c_concurrentCommands := k\<rparr>"
  by (simp add: rest_def)

text \<open>A counted call: the counter goes up, the body runs, the counter goes down.\<close>

lemma counted_run:
  assumes body: "m (add64 (c_concurrentCommands c) 1) (c\<lparr>c_concurrentCommands := add64 (c_concurrentCommands c) 1\<rparr>) = (r, c')"
    and r: "r \<noteq> Blocks"
  shows "gbind (add_commands 1) (\<lambda>cur. gdefer (gseq (add_commands (-1)) (greturn ())) (m cur)) c =
    (r, c'\<lparr>c_concurrentCommands := add64 (c_concurrentCommands c') (-1)\<rparr>)"
  using assms by (cases r) (simp_all add: gbind_run gseq_run go_run add_commands_def Let_def gdefer_def)

text \<open>Over the limit: every run function gives the same result, and the counter is as before.\<close>

lemma run_over_limit:
  assumes q: "quiet env" and c: "ready c" and clk: "c_timeNow c = Some clk"
    and d: "\<not> denies ctx (clk (c_readings c)) c" "\<not> prevents ctx (clk (c_readings c)) c" "over_limit c"
    and range: "in_int64 (c_concurrentCommands c)"
  shows "\<exists>c'. (\<forall>rf. run fuel env ctx rf c = (Returns (Some errThrottledConcurrentCommands), c')) \<and> ready c' \<and>
    advances c c' (heard c EvErrConcurrencyLimitReject ctx (clk (c_readings c))) \<and> c_isOpen c' = c_isOpen c"
proof -
  let ?s = "clk (c_readings c)" and ?k = "add64 (c_concurrentCommands c) 1"
  obtain c3 where c3: "ready c3" "core c3 = core (c\<lparr>c_readings := Suc (c_readings c)\<rparr>)"
    "\<And>rf. run fuel env ctx rf c = gbind (add_commands 1) (\<lambda>cur. gdefer (gseq (add_commands (-1)) (greturn ()))
         (run_admitted fuel env ctx ?s (ac_MaxConcurrentRequests (c_threadSafeConfig c)) cur rf)) c3"
    using run_not_denied [OF c clk d(1), of fuel env] d(2) by auto
  note f = core_fields [OF c3(2)]
  let ?c4 = "c3\<lparr>c_concurrentCommands := ?k\<rparr>"
  have r3: "rest c3 = rest c" using rest_core_eq [OF c3(2)] by (simp add: rest_core)
  obtain c5 where c5: "RunMetricsCollection_send env EvErrConcurrencyLimitReject ctx ?s ?c4 = (Returns (), c5)"
    "ready c5" "advances ?c4 c5 (heard ?c4 EvErrConcurrencyLimitReject ctx ?s)" "c_isOpen c5 = c_isOpen ?c4"
    using send_steps [OF q, of ?c4 EvErrConcurrencyLimitReject ctx ?s] c3(1) by auto
  have body: "run_admitted fuel env ctx ?s (ac_MaxConcurrentRequests (c_threadSafeConfig c)) ?k rf ?c4 =
      (Returns (Some errThrottledConcurrentCommands), c5)" for rf
    using d(3) c5(1) by (simp add: run_admitted_def over_limit_def gseq_run go_run)
  let ?c6 = "c5\<lparr>c_concurrentCommands := add64 (c_concurrentCommands c5) (-1)\<rparr>"
  have all: "run fuel env ctx rf c = (Returns (Some errThrottledConcurrentCommands), ?c6)" for rf
    unfolding c3(3) using body f by (intro counted_run) simp_all
  have "rest c5 = (rest c)\<lparr>c_concurrentCommands := ?k\<rparr>"
    using c5(3) r3 by (simp add: advances_def rest_cc)
  then have "rest ?c6 = (rest c)\<lparr>c_concurrentCommands := add64 (c_concurrentCommands c5) (-1)\<rparr>"
    by (simp add: rest_cc)
  moreover have "c_concurrentCommands c5 = ?k"
    using rest_fields(9) [of c5 ?c4] c5(3) by (simp add: advances_def)
  ultimately have "rest ?c6 = rest c"
    using add64_back [OF range] cc_same [of "rest c" "c_concurrentCommands c"] by simp
  moreover have "run_log ?c6 = run_log c @ heard c EvErrConcurrencyLimitReject ctx ?s"
    using c5(3) f by (simp add: advances_def run_log_def heard_def)
  moreover have "ready ?c6" "c_isOpen ?c6 = c_isOpen c" using c5 f by simp_all
  ultimately show ?thesis using all unfolding advances_def by blast
qed

text \<open>Admitted: the run function is called once, with the counter raised, and its result classified.\<close>

lemma run_admitted_verdict:
  assumes q: "quiet env" and c: "ready c" and clk: "c_timeNow c = Some clk"
    and d: "\<not> denies ctx (clk (c_readings c)) c" "\<not> prevents ctx (clk (c_readings c)) c" "\<not> over_limit c"
  shows "\<exists>c3. ready c3 \<and> core c3 = core (c\<lparr>c_readings := Suc (c_readings c),
        c_concurrentCommands := add64 (c_concurrentCommands c) 1\<rparr>) \<and>
    (\<forall>rf ret c4 clk' fin. rf (run_ctx env ctx (clk (c_readings c)) c) c3 = (Returns ret, c4) \<longrightarrow>
       ready c4 \<longrightarrow> \<not> c_transitionMu c4 \<longrightarrow> enough fuel c4 \<longrightarrow> c_timeNow c4 = Some clk' \<longrightarrow> fin = clk' (c_readings c4) \<longrightarrow>
       (\<exists>c'. run fuel env ctx rf c = (Returns ret, c') \<and>
         run_log c' = run_log c4 @ heard c4 (verdict ret (is_late (run_deadline (clk (c_readings c)) c) fin)
           (is_interrupt c4 ctx (Suc (c_readings c4))) (time_Sub fin (clk (c_readings c))))
           (run_ctx env ctx (clk (c_readings c)) c) fin \<and>
         c_concurrentCommands c' = add64 (c_concurrentCommands c4) (-1)))"
proof -
  let ?s = "clk (c_readings c)" and ?k = "add64 (c_concurrentCommands c) 1"
  obtain c2 where c2: "ready c2" "core c2 = core (c\<lparr>c_readings := Suc (c_readings c)\<rparr>)"
    "\<And>rf. run fuel env ctx rf c = gbind (add_commands 1) (\<lambda>cur. gdefer (gseq (add_commands (-1)) (greturn ()))
         (run_admitted fuel env ctx ?s (ac_MaxConcurrentRequests (c_threadSafeConfig c)) cur rf)) c2"
    using run_not_denied [OF c clk d(1), of fuel env] d(2) by auto
  note f = core_fields [OF c2(2)]
  let ?c3 = "c2\<lparr>c_concurrentCommands := ?k\<rparr>"
  have "\<exists>c'. run fuel env ctx rf c = (Returns ret, c') \<and>
         run_log c' = run_log c4 @ heard c4 (verdict ret (is_late (run_deadline ?s c) fin)
           (is_interrupt c4 ctx (Suc (c_readings c4))) (time_Sub fin ?s)) (run_ctx env ctx ?s c) fin \<and>
         c_concurrentCommands c' = add64 (c_concurrentCommands c4) (-1)"
    if rf: "rf (run_ctx env ctx ?s c) ?c3 = (Returns ret, c4)" and c4: "ready c4" "\<not> c_transitionMu c4"
      "enough fuel c4" "c_timeNow c4 = Some clk'" "fin = clk' (c_readings c4)" for rf ret c4 clk' fin
  proof -
    obtain c5 where c5: "run_finish fuel env (run_ctx env ctx ?s c) ctx ?s (run_deadline ?s c) ret c4 = (Returns ret, c5)"
      "advances c4 c5 (heard c4 (verdict ret (is_late (run_deadline ?s c) fin)
           (is_interrupt c4 ctx (Suc (c_readings c4))) (time_Sub fin ?s)) (run_ctx env ctx ?s c) fin)"
      using run_finish_steps [OF q c4, where ctx = "run_ctx env ctx ?s c" and octx = ctx and startTime = ?s
        and expectedDoneBy = "run_deadline ?s c" and ret = ret] by (auto simp: steps_def)
    have "run_admitted fuel env ctx ?s (ac_MaxConcurrentRequests (c_threadSafeConfig c)) ?k rf ?c3 = (Returns ret, c5)"
      using d(3) rf c5(1) f(7)
      by (auto simp: run_admitted_def over_limit_def gbind_run go_run Let_def run_ctx_def run_deadline_def)
    then have "run fuel env ctx rf c = (Returns ret, c5\<lparr>c_concurrentCommands := add64 (c_concurrentCommands c5) (-1)\<rparr>)"
      unfolding c2(3) using f by (intro counted_run) simp_all
    moreover have "c_concurrentCommands c5 = c_concurrentCommands c4"
      using c5(2) rest_fields(9) [of c5 c4] by (simp add: advances_def)
    ultimately show ?thesis using c5(2) by (auto simp: advances_def run_log_def)
  qed
  then show ?thesis using c2(1,2) by (intro exI [of _ ?c3]) auto
qed

end

text \<open>The default logic and any two implementations of the contracts make a circuit logic.\<close>

interpretation default_logic: circuit_logic neverOpens "\<lambda>_. True" neverCloses "\<lambda>_. True"
  by (intro circuit_logic.intro never_opens.closed_to_open_axioms never_closes.open_to_closed_axioms)

text \<open>A circuit with the default logic and one listener of each kind, for examples.\<close>

definition example_circuit :: "(unit, unit) Circuit" where
  "example_circuit = zero_Circuit\<lparr>c_CmdMetricCollector := [RcOpenToClose, RcClosedToOpen, RcUser 7],
     c_FallbackMetricCollector := [8], c_CircuitMetricsCollector := [9],
     c_threadSafeConfig := zero_atomicCircuitConfig\<lparr>ac_ExecutionTimeout := 5, ac_MaxConcurrentRequests := 10,
       ac_FallbackMaxConcurrentRequests := 10\<rparr>,
     c_ClosedToOpen := Some (neverOpens, ()), c_OpenToClose := Some (neverCloses, ()), c_timeNow := Some int\<rparr>"

lemmas circuit_eval = go_simps if_distribR isEmptyOrNil_def example_circuit_def zero_Circuit_def
  zero_atomicCircuitConfig_def c_now_def call_ClosedToOpen_def call_OpenToClose_def neverOpens_def neverCloses_def
  add_commands_def add_fallbacks_def gdefer_def Let_def add64_exact in_int64_def min_int64_def max_int64_def

lemma example_ready: "logic_ready neverOpens (\<lambda>_. True) neverCloses (\<lambda>_. True) example_circuit"
  "\<not> c_transitionMu example_circuit" "enough 3 example_circuit"
  by (simp_all add: logic_ready_def example_circuit_def zero_Circuit_def enough_def)

end
