(* ===== verification/CircuitExecution.thy ===== *)
theory CircuitExecution
  imports CircuitLaws
begin

text \<open>
  Properties of executing commands through a circuit: who is admitted, how a run is classified and
  reported, which error comes back, the fallback, and the counters of running commands. They hold for any
  logic that meets the contracts of \<open>Interfaces\<close>; the counters for any user code at all.
\<close>

subsection \<open>What every part of the circuit keeps\<close>

definition env_keeps :: "(('p, 'q) Circuit \<Rightarrow> bool) \<Rightarrow> ('p, 'q) Env \<Rightarrow> bool" where
  "env_keeps I env \<longleftrightarrow> (\<forall>k ev ctx now. keeps I (env_run env k ev ctx now)) \<and>
     (\<forall>k ev ctx now. keeps I (env_fallback env k ev ctx now)) \<and>
     (\<forall>k opn ctx now. keeps I (env_transition env k opn ctx now))"

text \<open>
  A predicate that does not look at the logic, the transitions, the clock counter and the log, and that
  survives setting the open flag to a value in \<open>S\<close>.
\<close>

definition insensitive :: "bool set \<Rightarrow> (('p, 'q) Circuit \<Rightarrow> bool) \<Rightarrow> bool" where
  "insensitive S I \<longleftrightarrow> (\<forall>c. I c \<longrightarrow> (\<forall>x. I (c\<lparr>c_OpenToClose := x\<rparr>)) \<and> (\<forall>x. I (c\<lparr>c_ClosedToOpen := x\<rparr>)) \<and>
     (\<forall>b \<in> S. I (c\<lparr>c_isOpen := b\<rparr>)) \<and> (\<forall>ts. I (c\<lparr>c_pendingTransitions := ts\<rparr>)) \<and>
     (\<forall>b. I (c\<lparr>c_transitionMu := b\<rparr>)) \<and> (\<forall>b. I (c\<lparr>c_deliveringTransitions := b\<rparr>)) \<and>
     (\<forall>n. I (c\<lparr>c_readings := n\<rparr>)) \<and> (\<forall>l. I (c\<lparr>c_log := l\<rparr>)))"

lemma keeps_calls:
  assumes "insensitive S I"
  shows "keeps I (call_OpenToClose f)" "keeps I (call_ClosedToOpen g)" "keeps I c_now" "keeps I (ask_Err ctx)"
    "keeps I lock_transition" "keeps I unlock_transition"
  using assms
  by (auto simp: keeps_def insensitive_def call_OpenToClose_def call_ClosedToOpen_def c_now_def ask_Err_def
      lock_transition_def unlock_transition_def split: option.splits prod.splits)

lemma keeps_updates:
  assumes "insensitive S I"
  shows "keeps I (gmodify (\<lambda>c. c\<lparr>c_log := f c\<rparr>))" "opn \<in> S \<Longrightarrow> keeps I (gmodify (\<lambda>c. c\<lparr>c_isOpen := opn\<rparr>))"
    "keeps I (gmodify (\<lambda>c. c\<lparr>c_pendingTransitions := h c\<rparr>))"
    "keeps I (gmodify (\<lambda>c. c\<lparr>c_deliveringTransitions := b\<rparr>))"
  using assms by (auto simp: insensitive_def intro!: keeps_gmodify)

lemma keeps_sends:
  assumes "insensitive S I" "env_keeps I env"
  shows "keeps I (RunMetricsCollection_send env ev ctx now)"
    "keeps I (FallbackMetricsCollection_send env fev ctx now)" "keeps I (notifyListeners env t)"
proof -
  have "keeps I (collect_run env ev ctx now x)" for x
    using assms keeps_calls [OF assms(1)] keeps_updates [OF assms(1)]
    by (cases x) (auto simp: env_keeps_def intro!: keeps_intros)
  then show "keeps I (RunMetricsCollection_send env ev ctx now)"
    unfolding RunMetricsCollection_send_def by (intro keeps_intros)
  show "keeps I (FallbackMetricsCollection_send env fev ctx now)" "keeps I (notifyListeners env t)"
    using assms keeps_updates [OF assms(1)]
    unfolding FallbackMetricsCollection_send_def notifyListeners_def MetricsCollection_send_def
    by (auto simp: env_keeps_def intro!: keeps_intros)
qed

lemma keeps_on_abnormal_exit [keeps_intros]:
  assumes d: "keeps I d" and m: "keeps I m"
  shows "keeps I (on_abnormal_exit d m)"
proof (rule keepsI)
  fix s
  assume s: "I s"
  obtain r s1 where r: "m s = (r, s1)" by fastforce
  then have s1: "I s1" using keepsD [OF m s] by simp
  obtain r' s2 where "d s1 = (r', s2)" "I s2" using keepsD [OF d s1] by (metis surj_pair)
  then show "I (snd (on_abnormal_exit d m s))"
    using r s1 by (cases r; cases r') (simp_all add: on_abnormal_exit_def)
qed

lemma keeps_deliver_loop:
  assumes "insensitive S I" "env_keeps I env"
  shows "keeps I (deliver_loop fuel env)"
proof (induction fuel)
  case (Suc fuel)
  then show ?case
    using keeps_sends [OF assms] keeps_calls [OF assms(1)] keeps_updates [OF assms(1)]
    by (auto intro!: keeps_intros split: list.split)
qed (simp add: keeps_basic)

lemma keeps_deliver:
  assumes "insensitive S I" "env_keeps I env"
  shows "keeps I (deliverPendingTransitions fuel env)"
proof (induction fuel)
  case (Suc fuel)
  then show ?case
    using keeps_deliver_loop [OF assms] keeps_calls [OF assms(1)] keeps_updates [OF assms(1)]
    by (auto intro!: keeps_intros)
qed (simp add: keeps_basic)

lemma keeps_transitionTo:
  assumes "insensitive S I" "env_keeps I env" "\<And>f ctx now. recheck = Some f \<Longrightarrow> keeps I (f ctx now)"
    and "opn \<in> S"
  shows "keeps I (transitionTo fuel env ctx now opn recheck)"
proof -
  have "keeps I (notifyStateMachines ctx now opn)" for ctx now
    using keeps_calls [OF assms(1)] by (auto simp: notifyStateMachines_def intro!: keeps_intros)
  then have "keeps I (commitTransition ctx now opn recheck)"
    using keeps_calls [OF assms(1)] keeps_updates [OF assms(1)] assms(3,4)
    unfolding commitTransition_def Let_def by (auto intro!: keeps_intros split: option.split)
  then show ?thesis
    using keeps_deliver [OF assms(1,2)] unfolding transitionTo_def by (auto intro!: keeps_intros)
qed

text \<open>
  The automatic transitions: none opens a circuit that is forced closed, and none closes a circuit that is
  forced open.
\<close>

definition opens_ok :: "bool set \<Rightarrow> (('p, 'q) Circuit \<Rightarrow> bool) \<Rightarrow> bool" where
  "opens_ok S I \<longleftrightarrow> (True \<in> S \<or> (\<forall>c. I c \<longrightarrow> ac_ForcedClosed (c_threadSafeConfig c))) \<and>
     (False \<in> S \<or> (\<forall>c. I c \<longrightarrow> ac_ForceOpen (c_threadSafeConfig c)))"

lemma keeps_run_finish:
  assumes "insensitive S I" "env_keeps I env" "opens_ok S I"
  shows "keeps I (run_finish fuel env ctx octx startTime expectedDoneBy ret)"
proof -
  note base = keeps_calls [OF assms(1)] keeps_sends [OF assms(1,2)]
  have asks: "keeps I (ask_ShouldOpen ctx now)" "keeps I (ask_ShouldClose ctx now)" for ctx now
    using base by (simp_all add: ask_ShouldOpen_def ask_ShouldClose_def)
  have tr: "True \<in> S \<Longrightarrow> keeps I (transitionTo fuel env ctx now True (Some ask_ShouldOpen))"
    "False \<in> S \<Longrightarrow> keeps I (transitionTo fuel env ctx now False (Some ask_ShouldClose))" for ctx now
    by (intro keeps_transitionTo [OF assms(1,2)]; auto simp: asks)+
  have attempt: "keeps I (attemptToOpen fuel env ctx now)" for ctx now
    unfolding attemptToOpen_def
  proof (rule keeps_gget_bind)
    fix c
    assume "I c"
    then have "True \<in> S \<or> ac_ForcedClosed (c_threadSafeConfig (id c))" using assms(3) by (auto simp: opens_ok_def)
    then show "keeps I (if ac_ForcedClosed (c_threadSafeConfig (id c)) then greturn ()
      else if c_isOpen (id c) then greturn ()
      else gbind (ask_ShouldOpen ctx now) (\<lambda>should.
        gwhen should (transitionTo fuel env ctx now True (Some ask_ShouldOpen))))"
      using tr(1) asks by (auto intro!: keeps_intros)
  qed
  have success: "keeps I (checkSuccess fuel env ctx now d)" for ctx now d
    unfolding checkSuccess_def
  proof (intro keeps_gseq keeps_gget_bind base)
    fix c
    assume "I c"
    then have "False \<in> S \<or> ac_ForceOpen (c_threadSafeConfig (id c))" using assms(3) by (auto simp: opens_ok_def)
    then show "keeps I (if \<not> c_isOpen (id c) \<or> ac_ForceOpen (c_threadSafeConfig (id c)) then greturn ()
      else gbind (ask_ShouldClose ctx now) (\<lambda>should.
        gwhen should (transitionTo fuel env ctx now False (Some ask_ShouldClose))))"
      using tr(2) asks by (auto intro!: keeps_intros)
  qed
  show ?thesis
    using base attempt success
    unfolding run_finish_def checkErrBadRequest_def checkErrTimeout_def checkErrInterrupt_def checkErrFailure_def Let_def
    by (auto intro!: keeps_intros)
qed

lemma keeps_run_admitted:
  assumes "insensitive S I" "env_keeps I env" "\<And>ctx. keeps I (rf ctx)" "opens_ok S I"
  shows "keeps I (run_admitted fuel env ctx startTime maxConcurrent cur rf)"
  using keeps_run_finish [OF assms(1,2,4)] keeps_sends [OF assms(1,2)] assms(3)
  unfolding run_admitted_def Let_def by (auto intro!: keeps_intros)

lemma keeps_fallback_admitted:
  assumes "insensitive S I" "env_keeps I env" "\<And>ctx e. keeps I (f ctx e)"
  shows "keeps I (fallback_admitted env ctx e cur f)"
  using keeps_sends [OF assms(1,2)] keeps_calls [OF assms(1)] assms(3)
  unfolding fallback_admitted_def Let_def by (auto intro!: keeps_intros)

subsection \<open>The counters of what is running\<close>

text \<open>As \<open>keeps\<close>, for calls that return or panic.\<close>

definition restores :: "('s \<Rightarrow> bool) \<Rightarrow> ('a, 's) go \<Rightarrow> bool" where
  "restores I m \<longleftrightarrow> (\<forall>s r s'. I s \<longrightarrow> m s = (r, s') \<longrightarrow> r \<noteq> Blocks \<longrightarrow> I s')"

lemma keeps_restores: "keeps I m \<Longrightarrow> restores I m"
  by (auto simp: restores_def dest: keepsD)

lemma restores_gbind: "restores I m \<Longrightarrow> (\<And>a. restores I (k a)) \<Longrightarrow> restores I (gbind m k)"
  unfolding restores_def
proof (intro allI impI)
  fix s r s'
  assume m: "\<forall>s r s'. I s \<longrightarrow> m s = (r, s') \<longrightarrow> r \<noteq> Blocks \<longrightarrow> I s'"
    and k: "\<And>a. \<forall>s r s'. I s \<longrightarrow> k a s = (r, s') \<longrightarrow> r \<noteq> Blocks \<longrightarrow> I s'"
    and s: "I s" and run: "gbind m k s = (r, s')" and r: "r \<noteq> Blocks"
  obtain r1 s1 where m1: "m s = (r1, s1)" by fastforce
  show "I s'"
  proof (cases r1)
    case (Returns x)
    then have "I s1" using m s m1 by blast
    then show ?thesis using k [of x] run r m1 Returns by (auto simp: gbind_def)
  next
    case (Panics p)
    then have "I s1" using m s m1 by blast
    then show ?thesis using run m1 Panics by (simp add: gbind_def)
  qed (use run r m1 in \<open>simp add: gbind_def\<close>)
qed

lemma restores_if: "(b \<Longrightarrow> restores I m) \<Longrightarrow> (\<not> b \<Longrightarrow> restores I k) \<Longrightarrow> restores I (if b then m else k)"
  by simp

definition counters :: "('p, 'q) Circuit \<Rightarrow> int64 \<times> int64" where
  "counters c = (c_concurrentCommands c, c_concurrentFallbacks c)"

lemma restores_counters: "restores (\<lambda>c. counters c = k) m \<Longrightarrow> counters c = k \<Longrightarrow> m c = (r, c') \<Longrightarrow> r \<noteq> Blocks \<Longrightarrow>
    counters c' = k"
  by (simp add: restores_def)

lemma insensitive_counters: "insensitive UNIV (\<lambda>c. counters c = k)" "opens_ok UNIV I"
  by (simp_all add: insensitive_def counters_def opens_ok_def)

lemma restores_deferred:
  assumes add: "\<And>c. add c = (Returns (f c), up c)" and sub: "\<And>c. sub c = (Returns (), down c)"
    and undo: "\<And>c d. I c \<Longrightarrow> J c d \<Longrightarrow> I (down d)" and m: "\<And>a c. I c \<Longrightarrow> J c (up c) \<and> keeps (J c) (m a)"
  shows "restores I (gbind add (\<lambda>a. gdefer sub (m a)))"
  unfolding restores_def
proof (intro allI impI)
  fix c r c'
  assume c: "I c" and run: "gbind add (\<lambda>a. gdefer sub (m a)) c = (r, c')" and r: "r \<noteq> Blocks"
  obtain r1 c1 where m1: "m (f c) (up c) = (r1, c1)" by fastforce
  then have "J c c1" using m [OF c, of "f c"] keepsD by metis
  then show "I c'"
    using run r m1 undo [OF c] by (cases r1) (auto simp: gbind_def add gdefer_def sub)
qed

lemma restores_run:
  assumes a: "in_int64 a" and env: "\<And>k. env_keeps (\<lambda>c. counters c = k) env"
    and rf: "\<And>ctx k. keeps (\<lambda>c. counters c = k) (rf ctx)"
  shows "restores (\<lambda>c. counters c = (a, b)) (run fuel env ctx rf)"
proof -
  let ?I = "\<lambda>c. counters c = (a, b)"
  note base = keeps_calls [OF insensitive_counters(1)] keeps_sends [OF insensitive_counters(1) env]
  have body: "restores ?I (gbind (add_commands 1) (\<lambda>cur. gdefer (gseq (add_commands (-1)) (greturn ()))
      (run_admitted fuel env ctx st mx cur rf)))" for st mx
  proof (rule restores_deferred [where J = "\<lambda>_ d. counters d = (add64 a 1, b)"])
    show "?I c \<Longrightarrow> counters ((\<lambda>c. c\<lparr>c_concurrentCommands := add64 (c_concurrentCommands c) 1\<rparr>) c) = (add64 a 1, b) \<and>
        keeps (\<lambda>d. counters d = (add64 a 1, b)) (run_admitted fuel env ctx st mx x rf)" for x c
      using keeps_run_admitted [OF insensitive_counters(1) env rf insensitive_counters(2), of "(add64 a 1, b)"] by (simp add: counters_def)
  qed (auto simp: add_commands_def Let_def gseq_run go_run counters_def, metis add64_back a)
  have allow: "keeps ?I (allowNewRun ctx st mx)" for st mx
    using base unfolding allowNewRun_def by (auto intro!: keeps_intros)
  show ?thesis
    unfolding run_def
    by (rule body restores_if restores_gbind keeps_restores base allow keeps_intros)+
qed

lemma restores_fallback:
  assumes b: "in_int64 b" and env: "\<And>k. env_keeps (\<lambda>c. counters c = k) env"
    and fb: "\<And>f ctx e k. fbo = Some f \<Longrightarrow> keeps (\<lambda>c. counters c = k) (f ctx e)"
  shows "restores (\<lambda>c. counters c = (a, b)) (fallback env ctx e fbo)"
proof (cases fbo)
  case None
  then show ?thesis by (simp add: fallback_def keeps_restores keeps_basic)
next
  case (Some f)
  let ?I = "\<lambda>c. counters c = (a, b)"
  have "restores ?I (gbind (add_fallbacks 1) (\<lambda>cur. gdefer (gseq (add_fallbacks (-1)) (greturn ()))
      (fallback_admitted env ctx e cur f)))"
  proof (rule restores_deferred [where J = "\<lambda>_ d. counters d = (a, add64 b 1)"])
    show "?I c \<Longrightarrow> counters ((\<lambda>c. c\<lparr>c_concurrentFallbacks := add64 (c_concurrentFallbacks c) 1\<rparr>) c) = (a, add64 b 1) \<and>
        keeps (\<lambda>d. counters d = (a, add64 b 1)) (fallback_admitted env ctx e x f)" for x c
      using keeps_fallback_admitted [OF insensitive_counters(1) env fb [OF Some], of "(a, add64 b 1)"]
      by (simp add: counters_def)
  qed (auto simp: add_fallbacks_def Let_def gseq_run go_run counters_def, metis add64_back b)
  note body = this
  show ?thesis
    unfolding fallback_def Some option.case
    by (rule body restores_if restores_gbind keeps_restores keeps_basic)+
qed

lemma Execute_restores:
  assumes "\<forall>k. env_keeps (\<lambda>c. counters c = k) env"
    and "\<forall>f ctx k. rfo = Some f \<longrightarrow> keeps (\<lambda>c. counters c = k) (f ctx)"
    and "\<forall>f ctx e k. fbo = Some f \<longrightarrow> keeps (\<lambda>c. counters c = k) (f ctx e)"
    and "in_int64 a" "in_int64 b"
  shows "restores (\<lambda>c. counters c = (a, b)) (Execute fuel env ctx rfo fbo)"
proof (cases rfo)
  case None
  then show ?thesis by (simp add: Execute_def keeps_restores keeps_basic)
next
  case (Some rf)
  let ?I = "\<lambda>d. counters d = (a, b)"
  have r: "restores ?I (run fuel env ctx rf)" using assms(1,2,4) Some by (intro restores_run) auto
  have f: "restores ?I (fallback env ctx e fbo)" for e
    using assms(1,3,5) by (intro restores_fallback) auto
  have p: "restores ?I (rf ctx)" using assms(2) Some by (auto intro: keeps_restores)
  show ?thesis
    unfolding Execute_def Some option.case
    by (rule r f p restores_if restores_gbind keeps_restores keeps_basic)+
qed

text \<open>C2: The counters of running commands and fallbacks are balanced. Whatever the run function, the
  fallback and the listeners do (return an error, or panic), as long as they leave the counters as they
  found them: when \<^verbatim>\<open>Execute\<close> returns or panics, both counters are what they were before the call.\<close>

theorem Execute_restores_counters:
  assumes "\<forall>k. env_keeps (\<lambda>c. counters c = k) env"
    and "\<forall>f ctx k. rfo = Some f \<longrightarrow> keeps (\<lambda>c. counters c = k) (f ctx)"
    and "\<forall>f ctx e k. fbo = Some f \<longrightarrow> keeps (\<lambda>c. counters c = k) (f ctx e)"
    and "in_int64 (c_concurrentCommands c)" "in_int64 (c_concurrentFallbacks c)"
    and "Execute fuel env ctx rfo fbo c = (r, c')" "r \<noteq> Blocks"
  shows "c_concurrentCommands c' = c_concurrentCommands c \<and> c_concurrentFallbacks c' = c_concurrentFallbacks c"
  using restores_counters [OF Execute_restores [OF assms(1-5)] counters_def assms(6,7)] by (simp add: counters_def)

lemma env_keeps_quiet: "env_keeps I (quiet_env wall)"
  by (simp add: env_keeps_def quiet_env_def keeps_basic)

theorem Execute_restores_counters_witness:
  "let c = example_circuit\<lparr>c_concurrentCommands := 3\<rparr>;
       (r, c') = Execute 5 (quiet_env int) ctx_Background (Some (\<lambda>_. gpanic (UserPanic ''boom''))) None c
   in r = Panics (UserPanic ''boom'') \<and> c_concurrentCommands c' = 3"
proof -
  let ?rf = "\<lambda>_. gpanic (UserPanic ''boom'')"
  let ?c = "example_circuit\<lparr>c_concurrentCommands := 3\<rparr>"
  obtain r c' where e: "Execute 5 (quiet_env int) ctx_Background (Some ?rf) None ?c = (r, c')" by fastforce
  have "r = Panics (UserPanic ''boom'')"
    using e by (auto simp: Execute_def run_def run_admitted_def allowNewRun_def circuit_eval)
  then show ?thesis
    using Execute_restores_counters [of "quiet_env int" "Some ?rf" None ?c 5 ctx_Background r c'] e
    by (simp add: env_keeps_quiet keeps_basic example_circuit_def zero_Circuit_def in_int64_def min_int64_def max_int64_def)
qed

subsection \<open>Overrides\<close>

definition counter_blind :: "(('p, 'q) Circuit \<Rightarrow> bool) \<Rightarrow> bool" where
  "counter_blind I \<longleftrightarrow> (\<forall>c k. I c \<longrightarrow> I (c\<lparr>c_concurrentCommands := k\<rparr>) \<and> I (c\<lparr>c_concurrentFallbacks := k\<rparr>))"

lemma keeps_Execute:
  assumes ins: "insensitive S I" "env_keeps I env" "opens_ok S I" "counter_blind I"
    and rf: "\<And>f ctx. rfo = Some f \<Longrightarrow> keeps I (f ctx)" and fb: "\<And>f ctx e. fbo = Some f \<Longrightarrow> keeps I (f ctx e)"
  shows "keeps I (Execute fuel env ctx rfo fbo)"
proof (cases rfo)
  case None
  then show ?thesis by (simp add: Execute_def keeps_basic)
next
  case (Some rf)
  note base = keeps_calls [OF ins(1)] keeps_sends [OF ins(1,2)]
  have adds: "keeps I (add_commands k)" "keeps I (add_fallbacks k)" for k
    using ins(4) by (auto simp: add_commands_def add_fallbacks_def keeps_def counter_blind_def Let_def)
  have allow: "keeps I (allowNewRun ctx st mx)" for st mx
    using base unfolding allowNewRun_def by (auto intro!: keeps_intros)
  have admitted: "keeps I (run_admitted fuel env ctx st mx k rf)" for st mx k
    using keeps_run_admitted [OF ins(1,2) rf [OF Some] ins(3)] .
  have fadmitted: "keeps I (fallback_admitted env ctx e k f)" if "fbo = Some f" for e k f
    using keeps_fallback_admitted [OF ins(1,2) fb [OF that]] .
  have "keeps I (run fuel env ctx rf)"
    unfolding run_def by (rule keeps_intros base adds allow admitted)+
  moreover have "keeps I (fallback env ctx e fbo)" for e
    using fadmitted adds unfolding fallback_def by (cases fbo) (auto intro!: keeps_intros)
  ultimately show ?thesis
    using rf [OF Some] unfolding Execute_def Some option.case by (auto intro!: keeps_intros)
qed

text \<open>C3: The overrides hold against the automatic transitions. While a circuit is forced closed and not
  open, no \<^verbatim>\<open>Execute\<close> opens it, however often the run function fails or is late and whatever the opening
  logic answers; while it is forced open and open, no \<^verbatim>\<open>Execute\<close> closes it. This holds also when user code
  panics, as long as user code itself keeps the flag and the state.\<close>

theorem overrides_stop_automatic_transitions:
  assumes "I = (\<lambda>c. ac_ForcedClosed (c_threadSafeConfig c) \<and> \<not> c_isOpen c) \<or>
      I = (\<lambda>c. ac_ForceOpen (c_threadSafeConfig c) \<and> c_isOpen c)"
    and "env_keeps I env" "\<forall>f ctx. rfo = Some f \<longrightarrow> keeps I (f ctx)" "\<forall>f ctx e. fbo = Some f \<longrightarrow> keeps I (f ctx e)"
    and "I c" "Execute fuel env ctx rfo fbo c = (r, c')"
  shows "I c'"
proof -
  have "\<exists>S. insensitive S I \<and> opens_ok S I \<and> counter_blind I"
    using assms(1)
  proof
    assume "I = (\<lambda>c. ac_ForcedClosed (c_threadSafeConfig c) \<and> \<not> c_isOpen c)"
    then show ?thesis
      by (intro exI [of _ "{False}"]) (simp add: insensitive_def opens_ok_def counter_blind_def)
  next
    assume "I = (\<lambda>c. ac_ForceOpen (c_threadSafeConfig c) \<and> c_isOpen c)"
    then show ?thesis
      by (intro exI [of _ "{True}"]) (simp add: insensitive_def opens_ok_def counter_blind_def)
  qed
  then obtain S where "insensitive S I" "opens_ok S I" "counter_blind I" by blast
  then have "keeps I (Execute fuel env ctx rfo fbo)"
    using assms(2-4) by (intro keeps_Execute [of S]) blast+
  then have "I (snd (Execute fuel env ctx rfo fbo c))" using assms(5) by (simp only: keeps_def)
  then show ?thesis using assms(6) by simp
qed

theorem overrides_stop_automatic_transitions_witness:
  "let c = example_circuit\<lparr>c_threadSafeConfig := zero_atomicCircuitConfig\<lparr>ac_ForcedClosed := True\<rparr>\<rparr>;
       c' = snd (Execute 5 (quiet_env int) ctx_Background
         (Some (\<lambda>_. greturn (Some err_Canceled))) None c)
   in ac_ForcedClosed (c_threadSafeConfig c') \<and> \<not> c_isOpen c'"
proof -
  let ?I = "\<lambda>c :: (unit, unit) Circuit. ac_ForcedClosed (c_threadSafeConfig c) \<and> \<not> c_isOpen c"
  let ?c = "example_circuit\<lparr>c_threadSafeConfig := zero_atomicCircuitConfig\<lparr>ac_ForcedClosed := True\<rparr>\<rparr>"
  obtain r c' where e: "Execute 5 (quiet_env int) ctx_Background
      (Some (\<lambda>_. greturn (Some err_Canceled))) None ?c = (r, c')" by fastforce
  have "?I c'"
    by (rule overrides_stop_automatic_transitions [of ?I "quiet_env int" "Some (\<lambda>_. greturn (Some err_Canceled))"
          None ?c 5 ctx_Background r c'])
      (use e in \<open>simp_all add: env_keeps_quiet keeps_basic example_circuit_def zero_Circuit_def\<close>)
  then show ?thesis using e by (simp add: Let_def)
qed

subsection \<open>Who runs, and what is reported\<close>

lemma Execute_no_fallback:
  assumes "c_OpenToClose c \<noteq> None" "\<not> ac_Disabled (c_threadSafeConfig c)"
  shows "Execute fuel env ctx (Some rf) None c = run fuel env ctx rf c"
  using assms
  by (auto simp: Execute_def gbind_run go_run isEmptyOrNil_def fallback_def split: prod.split outcome.split)

lemma logic_ready_not_empty: "logic_ready cvt cok ovt ook c \<Longrightarrow> c_OpenToClose c \<noteq> None"
  by (auto simp: logic_ready_def)

text \<open>C1: A request that the circuit does not admit never reaches the run function: while the circuit is
  forced open, or open without room for a probe or with a closing logic that allows none, \<^verbatim>\<open>Execute\<close>
  without a fallback gives the circuit open error and the same final state for every run function; each of
  the user's run collectors is told of one short circuit, and neither the configuration, the counters nor
  the open state change.\<close>

theorem denied_requests_never_run:
  assumes "circuit_logic cvt cok ovt ook" "quiet env" "logic_ready cvt cok ovt ook c"
    and "\<not> ac_Disabled (c_threadSafeConfig c)" "c_timeNow c = Some clk" "start = clk (c_readings c)"
    and "denies ctx start c"
  shows "\<exists>c'. (\<forall>rf. Execute fuel env ctx (Some rf) None c = (Returns (Some errCircuitOpen), c')) \<and>
    run_log c' = run_log c @ map (\<lambda>k. LgRun k EvErrShortCircuit ctx start) (user_collectors (c_CmdMetricCollector c)) \<and>
    c_isOpen c' = c_isOpen c \<and> c_threadSafeConfig c' = c_threadSafeConfig c \<and>
    c_concurrentCommands c' = c_concurrentCommands c \<and> c_concurrentFallbacks c' = c_concurrentFallbacks c"
proof -
  obtain c' where c': "\<And>rf. run fuel env ctx rf c = (Returns (Some errCircuitOpen), c')" "c_isOpen c' = c_isOpen c"
    "advances c c' (heard c EvErrShortCircuit ctx start)"
    using circuit_logic.run_denied [OF assms(1-3,5), of ctx fuel] assms(6,7) by blast
  have "\<forall>rf. Execute fuel env ctx (Some rf) None c = (Returns (Some errCircuitOpen), c')"
    using c'(1) Execute_no_fallback [OF logic_ready_not_empty [OF assms(3)] assms(4)] by simp
  moreover have "run_log c' = run_log c @
      map (\<lambda>k. LgRun k EvErrShortCircuit ctx start) (user_collectors (c_CmdMetricCollector c))"
    using c'(3) by (simp add: advances_def heard_def)
  moreover have "rest c' = rest c" using c'(3) by (simp add: advances_def)
  ultimately show ?thesis using c'(2) rest_fields(5,9,10) by blast
qed

theorem denied_requests_never_run_witness:
  "let c = example_circuit\<lparr>c_isOpen := True\<rparr> in
   \<exists>c'. (\<forall>rf. Execute 5 (quiet_env int) ctx_Background (Some rf) None c = (Returns (Some errCircuitOpen), c')) \<and>
    run_log c' = [LgRun 7 EvErrShortCircuit ctx_Background 0] \<and> c_isOpen c'"
  using denied_requests_never_run [OF default_logic.circuit_logic_axioms quiet_quiet_env,
      of "example_circuit\<lparr>c_isOpen := True\<rparr>" int 0 ctx_Background 5 int]
  by (auto simp: logic_ready_def denies_def Let_def run_log_def circuit_eval)

text \<open>C4: The limit on concurrent commands. A request that finds as many commands running as \<^verbatim>\<open>MaxConcurrentRequests\<close>
  allows never reaches the run function: \<^verbatim>\<open>Execute\<close> without a fallback gives the throttling error and the same
  final state for every run function, each of the user's run collectors is told of one rejection, and the
  counter is back where it was.\<close>

theorem throttled_requests_never_run:
  assumes "circuit_logic cvt cok ovt ook" "quiet env" "logic_ready cvt cok ovt ook c"
    and "\<not> ac_Disabled (c_threadSafeConfig c)" "c_timeNow c = Some clk" "start = clk (c_readings c)"
    and "\<not> denies ctx start c" "\<not> prevents ctx start c"
    and "0 \<le> ac_MaxConcurrentRequests (c_threadSafeConfig c)"
    and "ac_MaxConcurrentRequests (c_threadSafeConfig c) \<le> c_concurrentCommands c" "c_concurrentCommands c < max_int64"
  shows "\<exists>c'. (\<forall>rf. Execute fuel env ctx (Some rf) None c = (Returns (Some errThrottledConcurrentCommands), c')) \<and>
    run_log c' = run_log c @
      map (\<lambda>k. LgRun k EvErrConcurrencyLimitReject ctx start) (user_collectors (c_CmdMetricCollector c)) \<and>
    c_isOpen c' = c_isOpen c \<and> c_concurrentCommands c' = c_concurrentCommands c"
proof -
  have k: "in_int64 (c_concurrentCommands c)" "over_limit c"
    using assms(9-11) by (simp_all add: over_limit_def in_int64_def min_int64_def max_int64_def add64_exact)
  obtain c' where c': "\<And>rf. run fuel env ctx rf c = (Returns (Some errThrottledConcurrentCommands), c')"
    "advances c c' (heard c EvErrConcurrencyLimitReject ctx start)" "c_isOpen c' = c_isOpen c"
    using circuit_logic.run_over_limit [OF assms(1-3,5), of ctx fuel] assms(6-8) k by blast
  have "\<forall>rf. Execute fuel env ctx (Some rf) None c = (Returns (Some errThrottledConcurrentCommands), c')"
    using c'(1) Execute_no_fallback [OF logic_ready_not_empty [OF assms(3)] assms(4)] by simp
  moreover have "rest c' = rest c" using c'(2) by (simp add: advances_def)
  ultimately show ?thesis
    using c'(2,3) rest_fields(9) [of c' c] by (auto simp: advances_def heard_def)
qed

theorem throttled_requests_never_run_witness:
  "let c = example_circuit\<lparr>c_concurrentCommands := 10\<rparr> in
   \<exists>c'. (\<forall>rf. Execute 5 (quiet_env int) ctx_Background (Some rf) None c =
       (Returns (Some errThrottledConcurrentCommands), c')) \<and>
     run_log c' = [LgRun 7 EvErrConcurrencyLimitReject ctx_Background 0] \<and> c_concurrentCommands c' = 10"
  using throttled_requests_never_run [OF default_logic.circuit_logic_axioms quiet_quiet_env,
      of "example_circuit\<lparr>c_concurrentCommands := 10\<rparr>" int 0 ctx_Background 5 int]
  by (auto simp: logic_ready_def denies_def prevents_def Let_def run_log_def circuit_eval)

text \<open>C5: What an admitted run gives and reports. The run function is called once, with the counter of running
  commands raised and a context that ends at the deadline; when it returns \<open>ret\<close>, \<^verbatim>\<open>Execute\<close> without a fallback
  returns \<open>ret\<close>, even if it came too late, and each of the user's run collectors is told of one event, the
  verdict: a bad request first, then a timeout, then an interrupt, then a failure or a success. This holds
  whatever the run function does to the circuit, as long as it leaves the circuit usable.\<close>

theorem run_reports_its_verdict:
  assumes "circuit_logic cvt cok ovt ook" "quiet env" "logic_ready cvt cok ovt ook c"
    and "\<not> ac_Disabled (c_threadSafeConfig c)" "c_timeNow c = Some clk" "start = clk (c_readings c)"
    and "\<not> denies ctx start c" "\<not> prevents ctx start c" "\<not> over_limit c"
  shows "\<exists>c3. logic_ready cvt cok ovt ook c3 \<and> core c3 = core (c\<lparr>c_readings := Suc (c_readings c),
      c_concurrentCommands := add64 (c_concurrentCommands c) 1\<rparr>) \<and>
    (\<forall>rf ret c4 clk' fin. rf (run_ctx env ctx start c) c3 = (Returns ret, c4) \<and> logic_ready cvt cok ovt ook c4 \<and>
       \<not> c_transitionMu c4 \<and> enough fuel c4 \<and> c_timeNow c4 = Some clk' \<and> fin = clk' (c_readings c4) \<longrightarrow>
       (\<exists>c'. Execute fuel env ctx (Some rf) None c = (Returns ret, c') \<and>
         run_log c' = run_log c4 @ map (\<lambda>k. LgRun k (verdict ret (is_late (run_deadline start c) fin)
             (is_interrupt c4 ctx (Suc (c_readings c4))) (time_Sub fin start)) (run_ctx env ctx start c) fin)
           (user_collectors (c_CmdMetricCollector c4)) \<and>
         c_concurrentCommands c' = add64 (c_concurrentCommands c4) (-1)))"
proof -
  obtain c3 where c3: "logic_ready cvt cok ovt ook c3" "core c3 = core (c\<lparr>c_readings := Suc (c_readings c),
        c_concurrentCommands := add64 (c_concurrentCommands c) 1\<rparr>)"
    "\<And>rf ret c4 clk' fin. rf (run_ctx env ctx start c) c3 = (Returns ret, c4) \<Longrightarrow> logic_ready cvt cok ovt ook c4 \<Longrightarrow>
       \<not> c_transitionMu c4 \<Longrightarrow> enough fuel c4 \<Longrightarrow> c_timeNow c4 = Some clk' \<Longrightarrow> fin = clk' (c_readings c4) \<Longrightarrow>
       (\<exists>c'. run fuel env ctx rf c = (Returns ret, c') \<and>
         run_log c' = run_log c4 @ heard c4 (verdict ret (is_late (run_deadline start c) fin)
           (is_interrupt c4 ctx (Suc (c_readings c4))) (time_Sub fin start)) (run_ctx env ctx start c) fin \<and>
         c_concurrentCommands c' = add64 (c_concurrentCommands c4) (-1))"
    using circuit_logic.run_admitted_verdict [OF assms(1-3,5), of ctx fuel] assms(6-9) by blast
  have "Execute fuel env ctx (Some rf) None c = run fuel env ctx rf c" for rf
    using Execute_no_fallback [OF logic_ready_not_empty [OF assms(3)] assms(4)] .
  then show ?thesis
    using c3 by (intro exI [of _ c3]) (auto simp: heard_def)
qed

theorem run_reports_its_verdict_witness:
  "let rf = (\<lambda>_ c. (Returns None, c\<lparr>c_readings := 9\<rparr>)) in
   \<exists>c'. Execute 5 (quiet_env int) ctx_Background (Some rf) None example_circuit = (Returns None, c') \<and>
     run_log c' = [LgRun 7 (EvErrTimeout 9) (WithDeadline int ctx_Background 5) 9] \<and> c_concurrentCommands c' = 0"
proof -
  let ?rf = "\<lambda>_ c. (Returns None, c\<lparr>c_readings := 9\<rparr>)" and ?ctx = "WithDeadline int ctx_Background 5"
  have ctx: "run_ctx (quiet_env int) ctx_Background 0 example_circuit = ?ctx" "run_deadline 0 example_circuit = 5"
    by (simp_all add: run_ctx_def run_deadline_def quiet_env_def time_Add_def example_circuit_def zero_Circuit_def)
  let ?ready = "logic_ready neverOpens (\<lambda>_. True) neverCloses (\<lambda>_. True)"
  have side: "\<not> ac_Disabled (c_threadSafeConfig example_circuit)" "c_timeNow example_circuit = Some int"
    "0 = int (c_readings example_circuit)" "\<not> denies ctx_Background 0 example_circuit"
    "\<not> prevents ctx_Background 0 example_circuit" "\<not> over_limit example_circuit"
    by (simp_all add: denies_def prevents_def over_limit_def circuit_eval)
  obtain c3 where c3: "?ready c3" "core c3 = core (example_circuit\<lparr>c_readings := Suc (c_readings example_circuit),
      c_concurrentCommands := add64 (c_concurrentCommands example_circuit) 1\<rparr>)"
    and run: "\<forall>rf ret c4 clk' fin. rf ?ctx c3 = (Returns ret, c4) \<and> ?ready c4 \<and>
       \<not> c_transitionMu c4 \<and> enough 5 c4 \<and> c_timeNow c4 = Some clk' \<and> fin = clk' (c_readings c4) \<longrightarrow>
       (\<exists>c'. Execute 5 (quiet_env int) ctx_Background (Some rf) None example_circuit = (Returns ret, c') \<and>
         run_log c' = run_log c4 @ map (\<lambda>k. LgRun k (verdict ret (is_late 5 fin)
             (is_interrupt c4 ctx_Background (Suc (c_readings c4))) (time_Sub fin 0)) ?ctx fin)
           (user_collectors (c_CmdMetricCollector c4)) \<and>
         c_concurrentCommands c' = add64 (c_concurrentCommands c4) (-1))"
    using run_reports_its_verdict [OF default_logic.circuit_logic_axioms quiet_quiet_env example_ready(1) side,
        of int 5] unfolding ctx by blast
  note f = core_fields [OF c3(2)]
  let ?c4 = "c3\<lparr>c_readings := 9\<rparr>"
  have "?ready ?c4" using c3(1) by (simp add: logic_ready_def)
  moreover have "\<not> c_transitionMu ?c4" "enough 5 ?c4" "c_timeNow ?c4 = Some int" "run_log ?c4 = []"
    "c_CmdMetricCollector ?c4 = [RcOpenToClose, RcClosedToOpen, RcUser 7]" "c_concurrentCommands ?c4 = 1"
    using f by (simp_all add: example_circuit_def zero_Circuit_def enough_def run_log_def add64_exact)
  moreover have "verdict None (is_late 5 9) b (time_Sub 9 0) = EvErrTimeout 9" for b
    by (simp add: verdict.simps is_late_def zero_time_def time_Sub_exact in_int64_def min_int64_def max_int64_def)
  ultimately show ?thesis
    using run [rule_format, of ?rf None ?c4 int 9] by (simp add: Let_def add64_exact)
qed

subsection \<open>The fallback\<close>

lemma Execute_fallback:
  assumes "c_OpenToClose c \<noteq> None" "\<not> ac_Disabled (c_threadSafeConfig c)"
    and "run fuel env ctx rf c = (Returns (Some e), c1)"
  shows "Execute fuel env ctx (Some rf) fbo c =
    (if IsBadRequest (Some e) then (Returns (Some e), c1) else fallback env ctx (Some e) fbo c1)"
  using assms by (auto simp: Execute_def gbind_run go_run isEmptyOrNil_def)

text \<open>A bad request is not the backend's fault: the fallback is not called, \<^verbatim>\<open>Execute\<close> gives the run function's
  error. The same holds for every error when fallbacks are disabled; and when the run function succeeds there
  is nothing to fall back from.\<close>

theorem bad_request_skips_fallback:
  assumes "c_OpenToClose c \<noteq> None" "\<not> ac_Disabled (c_threadSafeConfig c)"
    and "run fuel env ctx rf c = (Returns e, c1)"
    and "e = None \<or> IsBadRequest e \<or> ac_FallbackDisabled (c_threadSafeConfig c1)"
  shows "\<forall>fbo. Execute fuel env ctx (Some rf) fbo c = (Returns e, c1)"
proof (cases e)
  case None
  then show ?thesis using assms(1-3) by (auto simp: Execute_def gbind_run go_run isEmptyOrNil_def)
next
  case (Some x)
  then show ?thesis
    using Execute_fallback [OF assms(1,2), of fuel env ctx rf x c1] assms(3,4)
    by (auto simp: fallback_def gbind_run go_run split: option.split)
qed

theorem bad_request_skips_fallback_witness:
  "let e = SimpleBadRequest (Some err_Canceled) in
   \<exists>c1. Execute 5 (quiet_env int) ctx_Background (Some (\<lambda>_. greturn (Some e))) (Some (\<lambda>_ _. gpanic DivideByZero))
     example_circuit = (Returns (Some e), c1)"
proof -
  let ?e = "SimpleBadRequest (Some err_Canceled)" and ?rf = "\<lambda>_. greturn (Some (SimpleBadRequest (Some err_Canceled)))"
  obtain r c1 where run: "run 5 (quiet_env int) ctx_Background ?rf example_circuit = (r, c1)" by fastforce
  then have "r = Returns (Some ?e)"
    by (auto simp: run_def run_admitted_def run_finish_def checkErrBadRequest_def allowNewRun_def
        RunMetricsCollection_send_def quiet_env_def IsBadRequest.simps circuit_eval)
  then show ?thesis
    using bad_request_skips_fallback [of example_circuit 5 "quiet_env int" ctx_Background ?rf "Some ?e" c1] run
    by (auto simp: example_circuit_def zero_Circuit_def zero_atomicCircuitConfig_def Let_def)
qed

text \<open>C6: What a fallback gives and reports. After an error \<open>e\<close> that is no bad request, with fallbacks enabled: if
  as many fallbacks are running as the limit allows, the fallback is not called, \<^verbatim>\<open>Execute\<close> gives the fallback
  throttling error, and each fallback collector is told of one rejection. Otherwise the fallback is called once,
  with \<open>e\<close> and the counter of running fallbacks raised; what it returns is the result, and each fallback
  collector is told of one failure or success with the time it took.\<close>

theorem fallback_reports_once:
  assumes "c_OpenToClose c \<noteq> None" "\<not> ac_Disabled (c_threadSafeConfig c)" "quiet env"
    and "run fuel env ctx rf c = (Returns (Some e), c1)" "\<not> IsBadRequest (Some e)"
    and "\<not> ac_FallbackDisabled (c_threadSafeConfig c1)" "c_timeNow c1 = Some clk" "start = clk (c_readings c1)"
    and "mx = ac_FallbackMaxConcurrentRequests (c_threadSafeConfig c1)" "cur = add64 (c_concurrentFallbacks c1) 1"
    and "in_int64 (c_concurrentFallbacks c1)"
  shows "if 0 \<le> mx \<and> mx < cur
    then \<exists>c'. (\<forall>f. Execute fuel env ctx (Some rf) (Some f) c = (Returns (Some errThrottledConcurrentFallbacks), c')) \<and>
      c_log c' = c_log c1 @ map (\<lambda>k. LgFallback k FbErrConcurrencyLimitReject ctx start) (c_FallbackMetricCollector c1) \<and>
      c_concurrentFallbacks c' = c_concurrentFallbacks c1
    else \<forall>f ret c2 clk'. f ctx (Some e) (c1\<lparr>c_concurrentFallbacks := cur, c_readings := Suc (c_readings c1)\<rparr>) =
        (Returns ret, c2) \<and> c_timeNow c2 = Some clk' \<longrightarrow>
      (\<exists>c'. Execute fuel env ctx (Some rf) (Some f) c = (Returns ret, c') \<and>
        (let d = time_Sub (clk' (c_readings c2)) start in
         c_log c' = c_log c2 @ map (\<lambda>k. LgFallback k (if ret = None then FbSuccess d else FbErrFailure d) ctx start)
           (c_FallbackMetricCollector c2)) \<and>
        c_concurrentFallbacks c' = add64 (c_concurrentFallbacks c2) (-1))"
proof -
  let ?c = "c1\<lparr>c_concurrentFallbacks := cur, c_readings := Suc (c_readings c1)\<rparr>"
  have fb: "Execute fuel env ctx (Some rf) (Some f) c = gdefer (gseq (add_fallbacks (-1)) (greturn ()))
      (fallback_admitted env ctx (Some e) cur f) (c1\<lparr>c_concurrentFallbacks := cur\<rparr>)" for f
    using Execute_fallback [OF assms(1,2,4)] assms(5,6,10)
    by (simp add: fallback_def gbind_run go_run add_fallbacks_def Let_def)
  have now: "c_now (c1\<lparr>c_concurrentFallbacks := cur\<rparr>) = (Returns start, ?c)"
    using assms(7,8) by (simp add: c_now_def)
  show ?thesis
  proof (cases "0 \<le> mx \<and> mx < cur")
    case True
    then have "fallback_admitted env ctx (Some e) cur f (c1\<lparr>c_concurrentFallbacks := cur\<rparr>) =
        (Returns (Some errThrottledConcurrentFallbacks), ?c\<lparr>c_log := c_log c1 @
          map (\<lambda>k. LgFallback k FbErrConcurrencyLimitReject ctx start) (c_FallbackMetricCollector c1)\<rparr>)" for f
      using assms(9) now quiet_fallback_send [OF assms(3)]
      by (simp add: fallback_admitted_def gbind_run gseq_run go_run)
    then show ?thesis
      using True fb assms(10,11) add64_back
      by (simp add: gdefer_def add_fallbacks_def gseq_run go_run Let_def)
  next
    case False
    have "\<exists>c'. Execute fuel env ctx (Some rf) (Some f) c = (Returns ret, c') \<and>
        (let d = time_Sub (clk' (c_readings c2)) start in
         c_log c' = c_log c2 @ map (\<lambda>k. LgFallback k (if ret = None then FbSuccess d else FbErrFailure d) ctx start)
           (c_FallbackMetricCollector c2)) \<and>
        c_concurrentFallbacks c' = add64 (c_concurrentFallbacks c2) (-1)"
      if f: "f ctx (Some e) ?c = (Returns ret, c2)" "c_timeNow c2 = Some clk'" for f ret c2 clk'
    proof -
      have "c_now c2 = (Returns (clk' (c_readings c2)), c2\<lparr>c_readings := Suc (c_readings c2)\<rparr>)"
        using f(2) by (simp add: c_now_def)
      then show ?thesis
        using False f assms(9) now quiet_fallback_send [OF assms(3)] unfolding fb
        by (cases ret) (auto simp: fallback_admitted_def gbind_run gseq_run go_run gdefer_def add_fallbacks_def Let_def)
    qed
    then show ?thesis using False by auto
  qed
qed

theorem fallback_reports_once_witness:
  "let c = example_circuit\<lparr>c_isOpen := True\<rparr> in
   \<exists>c'. Execute 5 (quiet_env int) ctx_Background (Some (\<lambda>_. gpanic DivideByZero)) (Some (\<lambda>_ e. greturn e)) c =
       (Returns (Some errCircuitOpen), c') \<and>
     c_log c' = [LgRun 7 EvErrShortCircuit ctx_Background 0, LgFallback 8 (FbErrFailure 1) ctx_Background 1]"
proof -
  let ?c = "example_circuit\<lparr>c_isOpen := True\<rparr>" and ?rf = "\<lambda>_. gpanic DivideByZero" and ?f = "\<lambda>_ e. greturn e"
  obtain c1 where run: "run 5 (quiet_env int) ctx_Background ?rf ?c = (Returns (Some errCircuitOpen), c1)"
    and c1: "c_log c1 = [LgRun 7 EvErrShortCircuit ctx_Background 0]" "c_readings c1 = 1" "c_timeNow c1 = Some int"
      "c_FallbackMetricCollector c1 = [8]" "c_concurrentFallbacks c1 = 0"
      "ac_FallbackMaxConcurrentRequests (c_threadSafeConfig c1) = 10" "\<not> ac_FallbackDisabled (c_threadSafeConfig c1)"
    by (simp add: run_def allowNewRun_def RunMetricsCollection_send_def quiet_env_def circuit_eval)
  have c: "c_OpenToClose ?c \<noteq> None" "\<not> ac_Disabled (c_threadSafeConfig ?c)" "\<not> IsBadRequest (Some errCircuitOpen)"
    by (simp_all add: example_circuit_def zero_Circuit_def zero_atomicCircuitConfig_def errCircuitOpen_def)
  let ?c2 = "c1\<lparr>c_concurrentFallbacks := 1, c_readings := 2\<rparr>"
  have "\<not> (0 \<le> (10 :: int) \<and> 10 < add64 0 1)" "in_int64 (c_concurrentFallbacks c1)" "add64 0 1 = 1"
    using c1(5) by (simp_all add: add64_exact)
  then have "\<forall>f ret c2 clk'. f ctx_Background (Some errCircuitOpen) ?c2 = (Returns ret, c2) \<and> c_timeNow c2 = Some clk' \<longrightarrow>
      (\<exists>c'. Execute 5 (quiet_env int) ctx_Background (Some ?rf) (Some f) ?c = (Returns ret, c') \<and>
        (let d = time_Sub (clk' (c_readings c2)) 1 in
         c_log c' = c_log c2 @ map (\<lambda>k. LgFallback k (if ret = None then FbSuccess d else FbErrFailure d) ctx_Background 1)
           (c_FallbackMetricCollector c2)) \<and>
        c_concurrentFallbacks c' = add64 (c_concurrentFallbacks c2) (-1))"
    using fallback_reports_once [OF c(1,2) quiet_quiet_env run c(3) c1(7,3) refl refl refl] c1(2,5,6)
    by (simp add: numeral_2_eq_2)
  from this [rule_format, of ?f "Some errCircuitOpen" ?c2 int] show ?thesis
    using c1 by (auto simp: Let_def go_run time_Sub_exact in_int64_def min_int64_def max_int64_def)
qed

end
