(* ===== verification/CircuitTransitions.thy ===== *)
theory CircuitTransitions
  imports CircuitLaws
begin

text \<open>
  Properties of the transitions of a circuit: opening and closing it, and telling the user's listeners.
  The listeners may panic; what the delivery does then is given by a specification (\<open>tell\<close>, \<open>burst\<close>)
  of which listeners are reached.
\<close>

subsection \<open>Listeners that return or panic\<close>

text \<open>\<open>react\<close> says what a call of a listener does: return, or panic. It leaves the circuit alone.\<close>

definition steady ::
  "('p, 'q) Env \<Rightarrow> (nat \<Rightarrow> bool \<Rightarrow> ctx \<Rightarrow> gotime \<Rightarrow> unit outcome) \<Rightarrow> bool" where
  "steady env react \<longleftrightarrow> (\<forall>k opn ctx now c. env_transition env k opn ctx now c = (react k opn ctx now, c)) \<and>
     (\<forall>k opn ctx now. react k opn ctx now \<noteq> Blocks)"

abbreviation reacts :: "(nat \<Rightarrow> bool \<Rightarrow> ctx \<Rightarrow> gotime \<Rightarrow> unit outcome) \<Rightarrow> transition \<Rightarrow> nat \<Rightarrow> unit outcome" where
  "reacts react t k \<equiv> react k (tr_open t) (tr_ctx t) (tr_now t)"

text \<open>The outcome of telling one transition, and the listeners that are reached.\<close>

fun tell :: "(nat \<Rightarrow> bool \<Rightarrow> ctx \<Rightarrow> gotime \<Rightarrow> unit outcome) \<Rightarrow> nat list \<Rightarrow> transition \<Rightarrow> unit outcome \<times> nat list" where
  "tell react [] t = (Returns (), [])"
| "tell react (k # ks) t = (case reacts react t k of
     Returns _ \<Rightarrow> (fst (tell react ks t), k # snd (tell react ks t))
   | Panics p \<Rightarrow> (Panics p, [k])
   | Blocks \<Rightarrow> (Blocks, [k]))"

text \<open>The deliveries until the first panic: the outcome, what was told, and what is left.\<close>

fun burst :: "(nat \<Rightarrow> bool \<Rightarrow> ctx \<Rightarrow> gotime \<Rightarrow> unit outcome) \<Rightarrow> nat list \<Rightarrow> transition list \<Rightarrow>
    unit outcome \<times> listener_call list \<times> transition list" where
  "burst react ks [] = (Returns (), [], [])"
| "burst react ks (t # ts) = (case tell react ks t of
     (Returns _, hs) \<Rightarrow> (case burst react ks ts of (r, l, left) \<Rightarrow> (r, told hs t @ l, left))
   | (r, hs) \<Rightarrow> (r, told hs t, ts))"

text \<open>The listeners a transition reaches: those up to the first that panics.\<close>

definition reached :: "(nat \<Rightarrow> bool \<Rightarrow> ctx \<Rightarrow> gotime \<Rightarrow> unit outcome) \<Rightarrow> nat list \<Rightarrow> transition \<Rightarrow> nat list" where
  "reached react ks t = take (Suc (length (takeWhile (\<lambda>k. reacts react t k = Returns ()) ks))) ks"

definition panics_in :: "(nat \<Rightarrow> bool \<Rightarrow> ctx \<Rightarrow> gotime \<Rightarrow> unit outcome) \<Rightarrow> nat list \<Rightarrow> transition \<Rightarrow> bool" where
  "panics_in react ks t \<longleftrightarrow> (\<exists>k \<in> set ks. reacts react t k \<noteq> Returns ())"

lemma tell_reached: "snd (tell react ks t) = reached react ks t"
  by (induction ks) (simp_all add: reached_def split: outcome.split)

lemma tell_returns: "fst (tell react ks t) = Returns () \<longleftrightarrow> \<not> panics_in react ks t"
  by (induction ks) (auto simp: panics_in_def split: outcome.split)

lemma tell_not_blocks: "steady env react \<Longrightarrow> fst (tell react ks t) \<noteq> Blocks"
  by (induction ks) (auto simp: steady_def split: outcome.split)

lemma foreach_tell:
  assumes "\<And>k c. f k c = (reacts react t k, c\<lparr>c_log := c_log c @ [LgTransition k (tr_open t) (tr_ctx t) (tr_now t)]\<rparr>)"
  shows "gforeach f ks c = (fst (tell react ks t), c\<lparr>c_log := c_log c @ told (snd (tell react ks t)) t\<rparr>)"
proof (induction ks arbitrary: c)
  case (Cons k ks)
  then show ?case
    by (cases "reacts react t k") (simp_all add: gseq_run go_run assms told_def)
qed (simp add: go_run told_def)

lemma notify_tell:
  "steady env react \<Longrightarrow> notifyListeners env t c = (fst (tell react (c_CircuitMetricsCollector c) t),
     c\<lparr>c_log := c_log c @ told (snd (tell react (c_CircuitMetricsCollector c) t)) t\<rparr>)"
  unfolding notifyListeners_def MetricsCollection_send_def
  by (cases "tr_open t") (auto simp: gbind_run go_run gseq_run steady_def intro!: foreach_tell)

subsection \<open>The delivery loop\<close>

lemma loop_burst:
  assumes "steady env react" "length (c_pendingTransitions c) < fuel" "c_transitionMu c"
  shows "deliver_loop fuel env c =
    (case burst react (c_CircuitMetricsCollector c) (c_pendingTransitions c) of (r, l, left) \<Rightarrow>
       (r, c\<lparr>c_pendingTransitions := left, c_transitionMu := (r = Returns ()), c_log := c_log c @ l\<rparr>))"
  using assms
proof (induction fuel arbitrary: c)
  case (Suc fuel)
  let ?ks = "c_CircuitMetricsCollector c"
  show ?case
  proof (cases "c_pendingTransitions c")
    case Nil
    then show ?thesis using Suc.prems by (cases c) (simp add: go_simps)
  next
    case (Cons t ts)
    let ?c = "c\<lparr>c_pendingTransitions := ts, c_transitionMu := False, c_log := c_log c @ told (snd (tell react ?ks t)) t\<rparr>"
    have notify: "notifyListeners env t (c\<lparr>c_pendingTransitions := ts, c_transitionMu := False\<rparr>) =
        (fst (tell react ?ks t), ?c)"
      using notify_tell [OF Suc.prems(1)] by simp
    show ?thesis
    proof (cases "fst (tell react ?ks t)")
      case (Returns u)
      let ?d = "?c\<lparr>c_transitionMu := True\<rparr>"
      have "deliver_loop (Suc fuel) env c = deliver_loop fuel env ?d"
        using Suc.prems Cons Returns notify by (simp add: gseq_run gbind_run go_run unlock_run lock_run)
      also have "\<dots> = (case burst react ?ks ts of (r, l, left) \<Rightarrow>
          (r, ?d\<lparr>c_pendingTransitions := left, c_transitionMu := (r = Returns ()), c_log := c_log ?d @ l\<rparr>))"
        using Suc.IH [of ?d] Suc.prems Cons by simp
      finally show ?thesis
        using Cons Returns by (cases "tell react ?ks t") (simp split: prod.split)
    next
      case (Panics p)
      then show ?thesis
        using Suc.prems Cons notify
        by (cases "tell react ?ks t") (simp add: gseq_run gbind_run go_run unlock_run)
    next
      case Blocks
      then show ?thesis using tell_not_blocks [OF Suc.prems(1)] by blast
    qed
  qed
qed simp

lemma burst_left: "burst react ks ts = (Panics p, l, left) \<Longrightarrow> length left < length ts"
  by (induction ts arbitrary: l) (fastforce split: prod.splits outcome.splits)+

lemma burst_not_blocks: "steady env react \<Longrightarrow> fst (burst react ks ts) \<noteq> Blocks"
proof (induction ts)
  case (Cons t ts)
  then show ?case
    using tell_not_blocks [OF Cons.prems, of ks t] by (auto split: prod.splits outcome.splits)
qed simp

text \<open>What a burst tells, and what is still to be told after it.\<close>

definition telling :: "(nat \<Rightarrow> bool \<Rightarrow> ctx \<Rightarrow> gotime \<Rightarrow> unit outcome) \<Rightarrow> nat list \<Rightarrow> transition list \<Rightarrow> listener_call list" where
  "telling react ks ts = concat (map (\<lambda>t. told (reached react ks t) t) ts)"

lemma burst_telling:
  "burst react ks ts = (r, l, left) \<Longrightarrow> l @ telling react ks left = telling react ks ts \<and>
     (r = Returns () \<longrightarrow> left = [] \<and> \<not> list_ex (panics_in react ks) ts) \<and>
     (r \<noteq> Returns () \<longrightarrow> list_ex (panics_in react ks) ts)"
proof (induction ts arbitrary: r l left)
  case (Cons t ts)
  show ?case
  proof (cases "fst (tell react ks t)")
    case (Returns u)
    obtain r' l' left' where b: "burst react ks ts = (r', l', left')" by (cases "burst react ks ts") auto
    then show ?thesis
      using Cons.IH [OF b] Cons.prems Returns tell_returns [of react ks t] tell_reached [of react ks t]
      by (cases "tell react ks t") (auto simp: telling_def)
  next
    case (Panics p)
    then show ?thesis
      using Cons.prems tell_returns [of react ks t] tell_reached [of react ks t]
      by (cases "tell react ks t") (auto simp: telling_def)
  next
    case Blocks
    then show ?thesis
      using Cons.prems tell_returns [of react ks t] tell_reached [of react ks t]
      by (cases "tell react ks t") (auto simp: telling_def)
  qed
qed (simp add: telling_def)

lemma give_up_role:
  "\<not> c_transitionMu e \<Longrightarrow>
   gseq lock_transition (gseq (gmodify (\<lambda>c. c\<lparr>c_deliveringTransitions := False\<rparr>)) (gseq unlock_transition m)) e =
   m (e\<lparr>c_transitionMu := True, c_deliveringTransitions := False, c_transitionMu := False\<rparr>)"
  by (simp add: gseq_run go_run lock_run unlock_run)

lemma deliver_telling:
  assumes "steady env react" "\<not> c_transitionMu c" "\<not> c_deliveringTransitions c"
    and "length (c_pendingTransitions c) + 2 \<le> fuel"
  shows "\<exists>r. deliverPendingTransitions fuel env c = (r, c\<lparr>c_pendingTransitions := [],
      c_log := c_log c @ telling react (c_CircuitMetricsCollector c) (c_pendingTransitions c)\<rparr>) \<and> r \<noteq> Blocks \<and>
    (r = Returns () \<longleftrightarrow> \<not> list_ex (panics_in react (c_CircuitMetricsCollector c)) (c_pendingTransitions c))"
  using assms
proof (induction "length (c_pendingTransitions c)" arbitrary: c fuel rule: less_induct)
  case less
  let ?ks = "c_CircuitMetricsCollector c" and ?ts = "c_pendingTransitions c"
  obtain f where f: "fuel = Suc f" "length ?ts < f" using less.prems(4) by (cases fuel) auto
  obtain r l left where b: "burst react ?ks ?ts = (r, l, left)" by (cases "burst react ?ks ?ts") auto
  note tells = burst_telling [OF b]
  let ?c = "c\<lparr>c_transitionMu := True, c_deliveringTransitions := True\<rparr>"
  have loop: "deliver_loop f env ?c = (r, ?c\<lparr>c_pendingTransitions := left, c_transitionMu := (r = Returns ()),
      c_log := c_log c @ l\<rparr>)"
    using loop_burst [OF less.prems(1), of ?c f] f b by simp
  show ?case
  proof (cases r)
    case (Returns u)
    then have "left = []" "l = telling react ?ks ?ts" "\<not> list_ex (panics_in react ?ks) ?ts"
      using tells by (auto simp: telling_def)
    then show ?thesis
      using less.prems loop Returns f(1)
      by (cases c) (simp add: gseq_run gbind_run go_run lock_run unlock_run on_abnormal_exit_def)
  next
    case (Panics p)
    let ?d = "c\<lparr>c_pendingTransitions := left, c_log := c_log c @ l\<rparr>"
    have left: "length left < length ?ts" using burst_left b Panics by blast
    obtain r' where r': "deliverPendingTransitions f env ?d = (r', ?d\<lparr>c_pendingTransitions := [],
        c_log := c_log ?d @ telling react ?ks left\<rparr>)" "r' \<noteq> Blocks"
      using less.hyps [of ?d f] left less.prems f by auto
    let ?e = "?c\<lparr>c_pendingTransitions := left, c_transitionMu := False, c_log := c_log c @ l\<rparr>"
    have again: "?e\<lparr>c_transitionMu := True, c_deliveringTransitions := False, c_transitionMu := False\<rparr> = ?d"
      using less.prems by (cases c) simp
    have cleanup: "gseq lock_transition (gseq (gmodify (\<lambda>c. c\<lparr>c_deliveringTransitions := False\<rparr>))
        (gseq unlock_transition (deliverPendingTransitions f env))) ?e =
        (r', ?d\<lparr>c_pendingTransitions := [], c_log := c_log ?d @ telling react ?ks left\<rparr>)"
      by (subst give_up_role, simp, unfold again, rule r'(1))
    have "gseq (deliver_loop f env) (gseq (gmodify (\<lambda>c. c\<lparr>c_deliveringTransitions := False\<rparr>)) unlock_transition) ?c =
        (Panics p, ?e)"
      using loop Panics by (simp add: gseq_run)
    then have "deliverPendingTransitions fuel env c = (case r' of Panics p' \<Rightarrow> Panics p' | _ \<Rightarrow> Panics p,
        ?d\<lparr>c_pendingTransitions := [], c_log := c_log ?d @ telling react ?ks left\<rparr>)"
      using less.prems r'(2) cleanup f(1)
      by (cases r') (simp_all add: gseq_run gbind_run go_run lock_run on_abnormal_exit_def)
    then show ?thesis using tells Panics r'(2) by (cases r') auto
  next
    case Blocks
    then show ?thesis using burst_not_blocks [OF less.prems(1), of ?ks ?ts] b by simp
  qed
qed

subsection \<open>Opening and closing\<close>

context circuit_logic
begin

lemma manual_transition:
  assumes env: "steady env react" and c: "ready c" "\<not> c_transitionMu c" "\<not> c_deliveringTransitions c"
    "c_pendingTransitions c = []" and clk: "c_timeNow c = Some clk" and fuel: "3 \<le> fuel"
  shows "\<exists>r c'. transitionTo fuel env ctx now opn None c = (r, c') \<and> r \<noteq> Blocks \<and> ready c' \<and>
    c_isOpen c' = opn \<and> \<not> c_transitionMu c' \<and> \<not> c_deliveringTransitions c' \<and> c_pendingTransitions c' = [] \<and>
    c_threadSafeConfig c' = c_threadSafeConfig c \<and>
    c_log c' = c_log c @ (if c_isOpen c = opn then [] else
      let t = \<lparr>tr_open = opn, tr_ctx = ctx, tr_now = max now (clk (c_readings c))\<rparr>
      in told (reached react (c_CircuitMetricsCollector c) t) t)"
proof (cases "c_isOpen c = opn")
  case True
  then show ?thesis using c by (simp add: transitionTo_def gbind_run go_run)
next
  case False
  let ?t = "\<lparr>tr_open = opn, tr_ctx = ctx, tr_now = max now (clk (c_readings c))\<rparr>"
  obtain c1 where c1: "commitTransition ctx now opn None c = (Returns True, c1)" "ready c1"
    "core c1 = (core c)\<lparr>c_isOpen := opn, c_readings := Suc (c_readings c),
       c_pendingTransitions := c_pendingTransitions c @ [?t]\<rparr>"
    using commit_ready [OF c(1,2), of None ctx now opn] clk False by auto
  note eq = arg_cong [OF c1(3)]
  have f: "\<not> c_transitionMu c1" "c_pendingTransitions c1 = [?t]" "c_log c1 = c_log c" "c_isOpen c1 = opn"
    "\<not> c_deliveringTransitions c1" "c_CircuitMetricsCollector c1 = c_CircuitMetricsCollector c"
    "c_threadSafeConfig c1 = c_threadSafeConfig c"
    using eq [of c_transitionMu] eq [of c_pendingTransitions] eq [of c_log] eq [of c_isOpen]
      eq [of c_deliveringTransitions] eq [of c_CircuitMetricsCollector] eq [of c_threadSafeConfig] c by simp_all
  obtain r where "deliverPendingTransitions fuel env c1 = (r, c1\<lparr>c_pendingTransitions := [],
      c_log := c_log c1 @ telling react (c_CircuitMetricsCollector c1) (c_pendingTransitions c1)\<rparr>)" "r \<noteq> Blocks"
    using deliver_telling [OF env f(1,5), of fuel] f(2) fuel by auto
  then show ?thesis
    using False c1(1,2) f by (auto simp: transitionTo_def gbind_run go_run gwhen_run telling_def Let_def)
qed

end

subsection \<open>The lock and the role of deliverer\<close>

text \<open>
  \<open>triple P m Q R\<close>: from \<open>P\<close>, a call that returns \<open>a\<close> ends in \<open>Q a\<close>, and one that panics in \<open>R\<close>.
\<close>

definition triple :: "('s \<Rightarrow> bool) \<Rightarrow> ('a, 's) go \<Rightarrow> ('a \<Rightarrow> 's \<Rightarrow> bool) \<Rightarrow> ('s \<Rightarrow> bool) \<Rightarrow> bool" where
  "triple P m Q R \<longleftrightarrow> (\<forall>s. P s \<longrightarrow> (case m s of
     (Returns a, s') \<Rightarrow> Q a s' | (Panics p, s') \<Rightarrow> R s' | (Blocks, s') \<Rightarrow> True))"

named_theorems triple_intros \<open>composition rules for triples\<close>

lemma triple_gbind [triple_intros]:
  "triple P m S R \<Longrightarrow> (\<And>a. triple (S a) (k a) Q R) \<Longrightarrow> triple P (gbind m k) Q R"
  by (fastforce simp: triple_def gbind_run split: prod.splits outcome.splits)

lemma triple_gseq [triple_intros]: "triple P m (\<lambda>_. S) R \<Longrightarrow> triple S k Q R \<Longrightarrow> triple P (gseq m k) Q R"
  unfolding gseq_def by (rule triple_gbind)

lemma triple_greturn [triple_intros]: "(\<And>s. P s \<Longrightarrow> Q a s) \<Longrightarrow> triple P (greturn a) Q R"
  by (simp add: triple_def go_run)

lemma triple_gget [triple_intros]: "triple P (gget f) (\<lambda>a s. P s \<and> a = f s) R"
  by (simp add: triple_def go_run)

lemma triple_gmodify [triple_intros]: "(\<And>s. P s \<Longrightarrow> Q () (h s)) \<Longrightarrow> triple P (gmodify h) Q R"
  by (simp add: triple_def go_run)

lemma triple_gwhen [triple_intros]:
  "(b \<Longrightarrow> triple P m Q R) \<Longrightarrow> (\<And>s. \<not> b \<Longrightarrow> P s \<Longrightarrow> Q () s) \<Longrightarrow> triple P (gwhen b m) Q R"
  by (simp add: triple_def gwhen_run)

lemma triple_if [triple_intros]:
  "(b \<Longrightarrow> triple P m Q R) \<Longrightarrow> (\<not> b \<Longrightarrow> triple P k Q R) \<Longrightarrow> triple P (if b then m else k) Q R"
  by simp

lemma triple_gforeach [triple_intros]:
  "(\<And>x. x \<in> set xs \<Longrightarrow> triple P (f x) (\<lambda>_. P) P) \<Longrightarrow> triple P (gforeach f xs) (\<lambda>_. P) P"
  by (induction xs) (auto intro!: triple_intros)

lemma triple_gdefer:
  "triple P m Q' R' \<Longrightarrow> (\<And>a. triple (Q' a) d (\<lambda>_. Q a) R) \<Longrightarrow> triple R' d (\<lambda>_. R) R \<Longrightarrow>
   triple P (gdefer d m) Q R"
  by (fastforce simp: triple_def gdefer_def split: prod.splits outcome.splits)

lemma triple_weaken:
  "triple P m Q R \<Longrightarrow> (\<And>s. P' s \<Longrightarrow> P s) \<Longrightarrow> (\<And>a s. Q a s \<Longrightarrow> Q' a s) \<Longrightarrow> (\<And>s. R s \<Longrightarrow> R' s) \<Longrightarrow> triple P' m Q' R'"
  by (fastforce simp: triple_def split: prod.splits outcome.splits)

lemma triple_keeps: "keeps I m \<Longrightarrow> triple I m (\<lambda>_. I) I"
  by (auto simp: triple_def dest: keepsD split: prod.splits outcome.splits)

lemma triple_exit:
  "triple P m Q S \<Longrightarrow> triple S d (\<lambda>_. R) R \<Longrightarrow> triple P (on_abnormal_exit d m) Q R"
  by (fastforce simp: triple_def on_abnormal_exit_def split: prod.splits outcome.splits)

text \<open>
  \<open>idle False\<close>: nobody holds the lock or delivers, and nothing waits. \<open>idle True\<close>: a deliverer up the stack
  is calling a listener; whatever is queued is its business.
\<close>

definition idle :: "bool \<Rightarrow> ('p, 'q) Circuit \<Rightarrow> bool" where
  "idle b c \<longleftrightarrow> \<not> c_transitionMu c \<and> c_deliveringTransitions c = b \<and> (\<not> b \<longrightarrow> c_pendingTransitions c = [])"

definition stays_idle :: "('a, 'p, 'q) cgo \<Rightarrow> bool" where
  "stays_idle m \<longleftrightarrow> (\<forall>b. triple (idle b) m (\<lambda>_. idle b) (idle b))"

definition polite :: "('p, 'q) Env \<Rightarrow> bool" where
  "polite env \<longleftrightarrow> (\<forall>k ev ctx now. stays_idle (env_run env k ev ctx now)) \<and>
     (\<forall>k ev ctx now. stays_idle (env_fallback env k ev ctx now)) \<and>
     (\<forall>k opn ctx now. stays_idle (env_transition env k opn ctx now))"

text \<open>What the circuit does outside the critical sections.\<close>

definition lock_blind :: "(('p, 'q) Circuit \<Rightarrow> bool) \<Rightarrow> bool" where
  "lock_blind I \<longleftrightarrow> (\<forall>c. I c \<longrightarrow> (\<forall>x. I (c\<lparr>c_OpenToClose := x\<rparr>)) \<and> (\<forall>x. I (c\<lparr>c_ClosedToOpen := x\<rparr>)) \<and>
     (\<forall>b. I (c\<lparr>c_isOpen := b\<rparr>)) \<and> (\<forall>n. I (c\<lparr>c_readings := n\<rparr>)) \<and> (\<forall>l. I (c\<lparr>c_log := l\<rparr>)) \<and>
     (\<forall>k. I (c\<lparr>c_concurrentCommands := k\<rparr>)) \<and> (\<forall>k. I (c\<lparr>c_concurrentFallbacks := k\<rparr>)))"

lemma lock_blind_idle: "lock_blind (idle b)" "lock_blind (\<lambda>c. c_transitionMu c \<and> c_deliveringTransitions c = d \<and> Q (c_pendingTransitions c))"
  by (auto simp: lock_blind_def idle_def)

lemma blind_steps:
  assumes "lock_blind I"
  shows "keeps I (call_OpenToClose f)" "keeps I (call_ClosedToOpen g)" "keeps I c_now" "keeps I (ask_Err ctx)"
    "keeps I (gmodify (\<lambda>c. c\<lparr>c_log := h c\<rparr>))" "keeps I (gmodify (\<lambda>c. c\<lparr>c_isOpen := opn\<rparr>))"
    "keeps I (add_commands k)" "keeps I (add_fallbacks k)"
  using assms
  by (auto simp: keeps_def lock_blind_def call_OpenToClose_def call_ClosedToOpen_def c_now_def ask_Err_def go_run
      add_commands_def add_fallbacks_def Let_def split: option.splits prod.splits)

lemma asks_idle: "lock_blind I \<Longrightarrow> keeps I (ask_ShouldOpen ctx now)" "lock_blind I \<Longrightarrow> keeps I (ask_ShouldClose ctx now)"
  by (simp_all add: ask_ShouldOpen_def ask_ShouldClose_def blind_steps)

definition recheck_ok :: "(ctx \<Rightarrow> gotime \<Rightarrow> (bool, 'p, 'q) cgo) option \<Rightarrow> bool" where
  "recheck_ok recheck \<longleftrightarrow> recheck \<in> {None, Some ask_ShouldOpen, Some ask_ShouldClose}"

text \<open>A commit queues the transition when it returns true, and leaves the queue alone otherwise.\<close>

definition committed :: "bool \<Rightarrow> ('p, 'q) Circuit \<Rightarrow> bool" where
  "committed b c \<longleftrightarrow> \<not> c_transitionMu c \<and> c_deliveringTransitions c = b"

definition held :: "bool \<Rightarrow> ('p, 'q) Circuit \<Rightarrow> bool" where
  "held b c \<longleftrightarrow> c_transitionMu c \<and> c_deliveringTransitions c = b \<and> (\<not> b \<longrightarrow> c_pendingTransitions c = [])"

lemma lock_blind_held: "lock_blind (held b)"
  by (auto simp: lock_blind_def held_def)

lemma triple_lock: "(\<And>c. P c \<Longrightarrow> Q () (c\<lparr>c_transitionMu := True\<rparr>)) \<Longrightarrow> triple P lock_transition Q R"
  by (simp add: triple_def lock_transition_def)

lemma triple_unlock:
  "(\<And>c. P c \<Longrightarrow> c_transitionMu c \<and> Q () (c\<lparr>c_transitionMu := False\<rparr>)) \<Longrightarrow> triple P unlock_transition Q R"
  by (simp add: triple_def unlock_run)

lemma commit_idle:
  assumes "recheck_ok recheck"
  shows "triple (idle b) (commitTransition ctx now opn recheck) (\<lambda>fin. if fin then committed b else idle b) (idle b)"
proof -
  note steps = blind_steps [OF lock_blind_held, THEN triple_keeps]
  have re: "triple (held b) (case recheck of None \<Rightarrow> greturn True | Some f \<Rightarrow> f ctx now) (\<lambda>_. held b) (held b)"
    using assms asks_idle [OF lock_blind_held, THEN triple_keeps]
    by (auto simp: recheck_ok_def intro: triple_greturn)
  have notify: "triple (held b) (notifyStateMachines ctx t opn) (\<lambda>_. held b) (held b)" for t
    unfolding notifyStateMachines_def
    by (rule triple_keeps, intro keeps_intros blind_steps [OF lock_blind_held])
  let ?Q = "\<lambda>fin c. if fin then c_transitionMu c \<and> c_deliveringTransitions c = b else held b c"
  let ?body = "gbind (gget c_isOpen) (\<lambda>cur.
       if cur = opn then greturn False
       else gbind (case recheck of None \<Rightarrow> greturn True | Some f \<Rightarrow> f ctx now) (\<lambda>ok.
         if \<not> ok then greturn False
         else
           gseq (gmodify (\<lambda>c. c\<lparr>c_isOpen := opn\<rparr>))
          (gbind c_now (\<lambda>flipped.
           let now = (if time_After flipped now then flipped else now) in
           gseq (notifyStateMachines ctx now opn)
          (gseq (gmodify (\<lambda>c. c\<lparr>c_pendingTransitions := c_pendingTransitions c @
                   [\<lparr>tr_open = opn, tr_ctx = ctx, tr_now = now\<rparr>]\<rparr>))
          (greturn True))))))"
  have "triple (held b) ?body ?Q (held b)"
    unfolding Let_def
    apply (rule triple_gbind [where S = "\<lambda>_. held b"])
     apply (rule triple_weaken [OF triple_gget]; simp)
    apply (rule triple_if, simp add: triple_greturn)
    apply (rule triple_gbind [OF re])
    apply (rule triple_if, simp add: triple_greturn)
    apply (rule triple_gseq [OF steps(6)] triple_gbind [OF steps(3)] triple_gseq [OF notify])+
    apply (rule triple_gseq [where S = "\<lambda>c. c_transitionMu c \<and> c_deliveringTransitions c = b"])
     apply (rule triple_gmodify, simp add: held_def)
    apply (simp add: triple_greturn)
    done
  then show ?thesis
    unfolding commitTransition_def
    by (intro triple_gseq [where S = "held b"] triple_lock triple_gdefer [where Q' = ?Q and R' = "held b"] triple_unlock)
      (auto simp: idle_def held_def committed_def)
qed

lemma idle_committed: "idle True = committed True"
  by (simp add: idle_def committed_def fun_eq_iff)

lemma notify_committed:
  assumes "polite env"
  shows "triple (committed True) (notifyListeners env t) (\<lambda>_. committed True) (committed True)"
proof -
  have "triple (committed True) (env_transition env k opn ctx now) (\<lambda>_. committed True) (committed True)" for k opn ctx now
    using assms by (auto simp: polite_def stays_idle_def idle_committed [symmetric])
  moreover have "triple (committed True) (gmodify (\<lambda>c. c\<lparr>c_log := f c\<rparr>)) (\<lambda>_. committed True) (committed True)" for f
    by (rule triple_gmodify) (simp add: committed_def)
  ultimately have "triple (committed True) (MetricsCollection_send env opn ctx now) (\<lambda>_. committed True) (committed True)"
    for opn ctx now
    unfolding MetricsCollection_send_def
    by (intro triple_gbind [where S = "\<lambda>_. committed True"] triple_weaken [OF triple_gget] triple_gforeach triple_gseq) auto
  then show ?thesis by (simp add: notifyListeners_def)
qed

lemma loop_idle:
  assumes "polite env"
  shows "triple (\<lambda>c. c_transitionMu c \<and> c_deliveringTransitions c) (deliver_loop fuel env)
    (\<lambda>_ c. c_transitionMu c \<and> c_deliveringTransitions c \<and> c_pendingTransitions c = []) (committed True)"
proof (induction fuel)
  case 0
  then show ?case by (simp add: triple_def go_run)
next
  case (Suc fuel)
  let ?L = "\<lambda>c. c_transitionMu c \<and> c_deliveringTransitions c"
  have again: "triple (committed True) (gseq lock_transition (deliver_loop fuel env))
      (\<lambda>_ c. c_transitionMu c \<and> c_deliveringTransitions c \<and> c_pendingTransitions c = []) (committed True)"
    by (rule triple_gseq [OF _ Suc.IH], rule triple_lock) (simp add: committed_def)
  have step: "triple ?L (gseq (gmodify (\<lambda>c. c\<lparr>c_pendingTransitions := later\<rparr>)) (gseq unlock_transition
      (gseq (notifyListeners env t) (gseq lock_transition (deliver_loop fuel env)))))
      (\<lambda>_ c. c_transitionMu c \<and> c_deliveringTransitions c \<and> c_pendingTransitions c = []) (committed True)" for later t
    by (intro triple_gseq [OF triple_gmodify, where S = ?L] triple_gseq [OF triple_unlock, where S = "committed True"]
        triple_gseq [OF notify_committed [OF assms]] again)
      (auto simp: committed_def)
  show ?case
    unfolding deliver_loop.simps
  proof (rule triple_gbind [OF triple_gget])
    fix pending
    show "triple (\<lambda>c. ?L c \<and> pending = c_pendingTransitions c)
        (case pending of [] \<Rightarrow> greturn () | next # later \<Rightarrow>
           gseq (gmodify (\<lambda>c. c\<lparr>c_pendingTransitions := later\<rparr>)) (gseq unlock_transition
             (gseq (notifyListeners env next) (gseq lock_transition (deliver_loop fuel env)))))
        (\<lambda>_ c. c_transitionMu c \<and> c_deliveringTransitions c \<and> c_pendingTransitions c = []) (committed True)"
    proof (cases pending)
      case (Cons t later)
      show ?thesis unfolding Cons list.case by (rule triple_weaken [OF step]) simp_all
    qed (auto intro!: triple_greturn)
  qed
qed

lemma deliver_idle:
  assumes "polite env"
  shows "triple (committed b) (deliverPendingTransitions fuel env) (\<lambda>_. idle b) (idle b)"
proof (induction fuel)
  case 0
  then show ?case by (simp add: triple_def go_run)
next
  case (Suc fuel)
  let ?L = "\<lambda>c. c_transitionMu c \<and> c_deliveringTransitions c"
  have busy: "triple (\<lambda>c. c_transitionMu c \<and> c_deliveringTransitions c = b \<and> b) unlock_transition (\<lambda>_. idle b) (idle b)"
    by (rule triple_unlock) (auto simp: idle_def)
  have body: "triple ?L (gseq (deliver_loop fuel env)
      (gseq (gmodify (\<lambda>c. c\<lparr>c_deliveringTransitions := False\<rparr>)) unlock_transition)) (\<lambda>_. idle False) (committed True)"
    by (intro triple_gseq [OF loop_idle [OF assms]]
        triple_gseq [OF triple_gmodify, where S = "held False"] triple_unlock) (auto simp: idle_def held_def)
  have cleanup: "triple (committed True) (gseq lock_transition (gseq (gmodify (\<lambda>c. c\<lparr>c_deliveringTransitions := False\<rparr>))
      (gseq unlock_transition (deliverPendingTransitions fuel env)))) (\<lambda>_. idle False) (idle False)" if "\<not> b"
  proof -
    have IH: "triple (committed False) (deliverPendingTransitions fuel env) (\<lambda>_. idle False) (idle False)"
      using Suc.IH that by simp
    show ?thesis
      by (intro triple_gseq [OF triple_lock, where S = ?L] triple_gseq [OF triple_unlock IH]
          triple_gseq [OF triple_gmodify, where S = "\<lambda>c. c_transitionMu c \<and> \<not> c_deliveringTransitions c"])
        (auto simp: committed_def)
  qed
  have free: "triple (\<lambda>c. c_transitionMu c \<and> c_deliveringTransitions c = b \<and> \<not> b)
      (gseq (gmodify (\<lambda>c. c\<lparr>c_deliveringTransitions := True\<rparr>)) (on_abnormal_exit
        (gseq lock_transition (gseq (gmodify (\<lambda>c. c\<lparr>c_deliveringTransitions := False\<rparr>))
          (gseq unlock_transition (deliverPendingTransitions fuel env))))
        (gseq (deliver_loop fuel env)
          (gseq (gmodify (\<lambda>c. c\<lparr>c_deliveringTransitions := False\<rparr>)) unlock_transition)))) (\<lambda>_. idle b) (idle b)"
  proof (cases b)
    case False
    then show ?thesis
      using cleanup
      by (intro triple_gseq [OF triple_gmodify, where S = ?L])
        (auto intro!: triple_exit [OF body, THEN triple_weaken])
  qed (simp add: triple_def)
  show ?case
    unfolding deliverPendingTransitions.simps
  proof (rule triple_gseq [OF triple_lock, where S = "\<lambda>c. c_transitionMu c \<and> c_deliveringTransitions c = b"],
      simp add: committed_def, rule triple_gbind [OF triple_gget], rule triple_if)
  qed (rule triple_weaken [OF busy] triple_weaken [OF free]; auto)+
qed

lemma transition_idle:
  assumes "polite env" "recheck_ok recheck"
  shows "stays_idle (transitionTo fuel env ctx now opn recheck)"
  unfolding stays_idle_def transitionTo_def
proof
  fix b
  have "triple (idle b) (gbind (commitTransition ctx now opn recheck) (\<lambda>fin. gwhen fin (deliverPendingTransitions fuel env)))
      (\<lambda>_. idle b) (idle b)"
    by (rule triple_gbind [OF commit_idle [OF assms(2)]])
      (auto intro!: triple_gwhen deliver_idle [OF assms(1)])
  then show "triple (idle b) (gbind (gget c_isOpen) (\<lambda>cur. if cur = opn then greturn () else
      gbind (commitTransition ctx now opn recheck) (\<lambda>fin. gwhen fin (deliverPendingTransitions fuel env))))
      (\<lambda>_. idle b) (idle b)"
    by (intro triple_gbind [where m = "gget c_isOpen" and S = "\<lambda>_. idle b"] triple_weaken [OF triple_gget] triple_if)
      (simp_all add: triple_greturn)
qed

text \<open>Composition: a call all of whose parts stay idle stays idle.\<close>

named_theorems idle_intros \<open>composition rules for calls that stay idle\<close>

lemma stays_idle_compose [idle_intros]:
  "stays_idle m \<Longrightarrow> (\<And>a. stays_idle (k a)) \<Longrightarrow> stays_idle (gbind m k)"
  "stays_idle m1 \<Longrightarrow> stays_idle m2 \<Longrightarrow> stays_idle (gseq m1 m2)"
  "stays_idle (greturn x)" "stays_idle (gget f)"
  "(b \<Longrightarrow> stays_idle m3) \<Longrightarrow> (\<not> b \<Longrightarrow> stays_idle m4) \<Longrightarrow> stays_idle (if b then m3 else m4)"
  "stays_idle d \<Longrightarrow> stays_idle m5 \<Longrightarrow> stays_idle (gdefer d m5)"
  "(b \<Longrightarrow> stays_idle u) \<Longrightarrow> stays_idle (gwhen b u)"
  "(\<And>y. stays_idle (g y)) \<Longrightarrow> stays_idle (gforeach g xs)"
  unfolding stays_idle_def
  by (blast intro: triple_gbind triple_gseq triple_greturn triple_weaken [OF triple_gget] triple_gdefer triple_gwhen
      triple_gforeach triple_if)+

lemma keeps_stays_idle: "(\<And>b. keeps (idle b) m) \<Longrightarrow> stays_idle m"
  by (simp add: stays_idle_def triple_keeps)

lemma stays_idle_steps [idle_intros]:
  "stays_idle (call_OpenToClose f1)" "stays_idle (call_ClosedToOpen f2)" "stays_idle c_now" "stays_idle (ask_Err ctx)"
  "stays_idle (add_commands k)" "stays_idle (add_fallbacks k)" "stays_idle (ask_ShouldOpen ctx now)"
  "stays_idle (ask_ShouldClose ctx now)" "stays_idle (gmodify (\<lambda>c. c\<lparr>c_log := h c\<rparr>))"
  by (intro keeps_stays_idle blind_steps asks_idle lock_blind_idle)+

lemma sends_idle [idle_intros]:
  assumes "polite env"
  shows "stays_idle (RunMetricsCollection_send env ev ctx now)" "stays_idle (FallbackMetricsCollection_send env fev ctx now)"
proof -
  have "stays_idle (collect_run env ev ctx now x)" for x
    using assms by (cases x) (auto simp: polite_def intro!: idle_intros)
  then show "stays_idle (RunMetricsCollection_send env ev ctx now)"
    unfolding RunMetricsCollection_send_def by (intro idle_intros)
  show "stays_idle (FallbackMetricsCollection_send env fev ctx now)"
    using assms unfolding FallbackMetricsCollection_send_def by (auto simp: polite_def intro!: idle_intros)
qed

lemma checks_idle [idle_intros]:
  assumes "polite env"
  shows "stays_idle (attemptToOpen fuel env ctx now)" "stays_idle (checkSuccess fuel env ctx now d)"
    "stays_idle (checkErrInterrupt env ctx octx ret now d)" "stays_idle (checkErrBadRequest env ctx ret now d)"
proof -
  have tr: "stays_idle (transitionTo fuel env ctx now opn (Some ask_ShouldOpen))"
    "stays_idle (transitionTo fuel env ctx now opn (Some ask_ShouldClose))" for opn ctx now
    by (rule transition_idle [OF assms], simp add: recheck_ok_def)+
  show "stays_idle (attemptToOpen fuel env ctx now)"
    unfolding attemptToOpen_def by (intro idle_intros tr)
  show "stays_idle (checkSuccess fuel env ctx now d)"
    unfolding checkSuccess_def by (intro idle_intros tr assms)
  show "stays_idle (checkErrInterrupt env ctx octx ret now d)" "stays_idle (checkErrBadRequest env ctx ret now d)"
    unfolding checkErrInterrupt_def checkErrBadRequest_def Let_def by (intro idle_intros assms)+
qed

lemma Execute_idle:
  assumes env: "polite env" and rf: "\<And>f ctx. rfo = Some f \<Longrightarrow> stays_idle (f ctx)"
    and fb: "\<And>f ctx e. fbo = Some f \<Longrightarrow> stays_idle (f ctx e)"
  shows "stays_idle (Execute fuel env ctx rfo fbo)"
proof (cases rfo)
  case None
  then show ?thesis by (simp add: Execute_def idle_intros)
next
  case (Some rf)
  have finish: "stays_idle (run_finish fuel env ctx octx st dl ret)" for ctx octx st dl ret
    unfolding run_finish_def checkErrTimeout_def checkErrFailure_def Let_def by (intro idle_intros env)
  have run: "stays_idle (run fuel env ctx rf)"
    unfolding run_def run_admitted_def allowNewRun_def Let_def by (intro idle_intros env finish rf [OF Some])
  have "stays_idle (fallback env ctx e fbo)" for e
  proof (cases fbo)
    case None
    then show ?thesis by (simp add: fallback_def idle_intros)
  next
    case (Some f)
    show ?thesis
      unfolding fallback_def fallback_admitted_def Some option.case Let_def by (intro idle_intros env fb [OF Some])
  qed
  then show ?thesis
    unfolding Execute_def Some option.case by (intro idle_intros run rf [OF Some])
qed

lemma idle_outcome:
  assumes "stays_idle m" "idle b c" "m c = (r, c')" "r \<noteq> Blocks"
  shows "idle b c'"
  using assms unfolding stays_idle_def triple_def by (cases r) fastforce+

subsection \<open>Properties\<close>

text \<open>C7: Panicking listeners lose nothing. When the queue of transitions is delivered, every queued transition
  is told, in the order of the queue, to the listeners in their order up to the first one that panics; in the
  end the queue is empty and the lock and the role of deliverer are free, however many listeners panicked; and
  the call panics exactly when a listener did. Fuel two above the length of the queue is enough.\<close>

theorem panicking_listeners_lose_nothing:
  assumes "steady env react" "\<not> c_transitionMu c" "\<not> c_deliveringTransitions c"
    and "length (c_pendingTransitions c) + 2 \<le> fuel"
  shows "\<exists>r. deliverPendingTransitions fuel env c = (r, c\<lparr>c_pendingTransitions := [],
      c_log := c_log c @ concat (map (\<lambda>t. told (reached react (c_CircuitMetricsCollector c) t) t) (c_pendingTransitions c))\<rparr>) \<and>
    r \<noteq> Blocks \<and>
    (r = Returns () \<longleftrightarrow> \<not> list_ex (panics_in react (c_CircuitMetricsCollector c)) (c_pendingTransitions c))"
  using deliver_telling [OF assms] by (simp add: telling_def)

theorem panicking_listeners_lose_nothing_witness:
  "let react = (\<lambda>k opn ctx now. if opn then Panics (UserPanic ''listener'') else Returns ());
       env = (quiet_env int)\<lparr>env_transition := (\<lambda>k opn ctx now c. (react k opn ctx now, c))\<rparr>;
       ts = [\<lparr>tr_open = True, tr_ctx = ctx_Background, tr_now = 3\<rparr>, \<lparr>tr_open = False, tr_ctx = ctx_Background, tr_now = 5\<rparr>];
       c = example_circuit\<lparr>c_CircuitMetricsCollector := [8, 9], c_pendingTransitions := ts\<rparr>
   in \<exists>r. deliverPendingTransitions 4 env c = (r, c\<lparr>c_pendingTransitions := [], c_log :=
      [LgTransition 8 True ctx_Background 3, LgTransition 8 False ctx_Background 5, LgTransition 9 False ctx_Background 5]\<rparr>) \<and>
      r \<noteq> Returns ()"
proof -
  let ?react = "\<lambda>k opn ctx now. if opn then Panics (UserPanic ''listener'') else Returns ()"
  let ?env = "(quiet_env int)\<lparr>env_transition := (\<lambda>k opn ctx now c. (?react k opn ctx now, c))\<rparr>"
  let ?ts = "[\<lparr>tr_open = True, tr_ctx = ctx_Background, tr_now = 3\<rparr>, \<lparr>tr_open = False, tr_ctx = ctx_Background, tr_now = 5\<rparr>]"
  let ?c = "example_circuit\<lparr>c_CircuitMetricsCollector := [8, 9], c_pendingTransitions := ?ts\<rparr>"
  have "steady ?env ?react" by (simp add: steady_def)
  then show ?thesis
    using panicking_listeners_lose_nothing [of ?env ?react ?c 4]
    by (auto simp: Let_def example_circuit_def zero_Circuit_def reached_def told_def panics_in_def)
qed

text \<open>C8: Opening or closing by hand. Whatever the (working) logic does, \<^verbatim>\<open>OpenCircuit\<close> leaves the circuit open and
  \<^verbatim>\<open>CloseCircuit\<close> leaves it closed, even if a listener panics; the listeners are told of the transition once if
  the state changed and not at all if it did not, with the later of the two clock readings around the change;
  and the lock is released and nothing is left in the queue.\<close>

theorem manual_transition_is_told_once:
  assumes "circuit_logic cvt cok ovt ook" "steady env react" "logic_ready cvt cok ovt ook c" "idle False c"
    and "c_timeNow c = Some clk" "3 \<le> fuel"
  shows "\<exists>r c'. (if opn then OpenCircuit fuel env ctx else CloseCircuit fuel env ctx) c = (r, c') \<and> r \<noteq> Blocks \<and>
    c_isOpen c' = opn \<and> idle False c' \<and> c_threadSafeConfig c' = c_threadSafeConfig c \<and>
    c_log c' = c_log c @ (if c_isOpen c = opn then [] else
      let t = \<lparr>tr_open = opn, tr_ctx = ctx, tr_now = max (clk (c_readings c)) (clk (Suc (c_readings c)))\<rparr>
      in told (reached react (c_CircuitMetricsCollector c) t) t)"
proof -
  let ?c = "c\<lparr>c_readings := Suc (c_readings c)\<rparr>"
  have c: "logic_ready cvt cok ovt ook ?c" "\<not> c_transitionMu ?c" "\<not> c_deliveringTransitions ?c"
    "c_pendingTransitions ?c = []" "c_timeNow ?c = Some clk"
    using assms(3-5) by (simp_all add: idle_def logic_ready_def)
  have now: "c_now c = (Returns (clk (c_readings c)), ?c)" using assms(5) by (simp add: c_now_def)
  show ?thesis
    using circuit_logic.manual_transition [OF assms(1,2) c assms(6), of ctx "clk (c_readings c)" opn] now
    by (cases opn) (auto simp: OpenCircuit_def CloseCircuit_def gbind_run idle_def)
qed

theorem manual_transition_is_told_once_witness:
  "\<exists>r c'. OpenCircuit 3 (quiet_env int) ctx_Background (example_circuit\<lparr>c_readings := 41\<rparr>) = (r, c') \<and> c_isOpen c' \<and>
     c_log c' = [LgTransition 9 True ctx_Background 42]"
proof -
  have env: "steady (quiet_env int :: (unit, unit) Env) (\<lambda>_ _ _ _. Returns ())" by (simp add: steady_def quiet_env_def go_run)
  have c: "logic_ready neverOpens (\<lambda>_. True) neverCloses (\<lambda>_. True) (example_circuit\<lparr>c_readings := 41\<rparr>)"
    "idle False (example_circuit\<lparr>c_readings := 41\<rparr>)"
    "c_timeNow (example_circuit\<lparr>c_readings := 41\<rparr>) = Some int" "\<not> c_isOpen (example_circuit\<lparr>c_readings := 41\<rparr>)"
    "c_CircuitMetricsCollector (example_circuit\<lparr>c_readings := 41\<rparr>) = [9]" "c_log (example_circuit\<lparr>c_readings := 41\<rparr>) = []"
    by (simp_all add: example_circuit_def zero_Circuit_def logic_ready_def idle_def)
  show ?thesis
    using manual_transition_is_told_once [OF default_logic.circuit_logic_axioms env c(1-3), of 3 True ctx_Background] c(4-6)
    by (auto simp: Let_def reached_def told_def)
qed

text \<open>C9: The lock is always released. Whatever the pluggable logic does, panics included, and for any user code
  that itself leaves the lock and the queue as it found them: a call of \<^verbatim>\<open>Execute\<close>, \<^verbatim>\<open>OpenCircuit\<close> or
  \<^verbatim>\<open>CloseCircuit\<close> on a circuit where nobody holds the lock and nothing is queued that returns or panics leaves
  it so; and one made by a listener, while its transition is being delivered, leaves the deliverer its role.\<close>

theorem lock_is_released:
  assumes "polite env" "\<forall>f ctx. rfo = Some f \<longrightarrow> stays_idle (f ctx)" "\<forall>f ctx e. fbo = Some f \<longrightarrow> stays_idle (f ctx e)"
    and "m \<in> {gseq (Execute fuel env ctx rfo fbo) (greturn ()), OpenCircuit fuel env ctx, CloseCircuit fuel env ctx}"
    and "idle b c" "m c = (r, c')" "r \<noteq> Blocks"
  shows "idle b c'"
proof -
  have "stays_idle (Execute fuel env ctx rfo fbo)" using assms(1-3) by (intro Execute_idle) blast+
  moreover have "stays_idle (OpenCircuit fuel env ctx)" "stays_idle (CloseCircuit fuel env ctx)"
    unfolding OpenCircuit_def CloseCircuit_def
    by (intro idle_intros transition_idle assms(1); simp add: recheck_ok_def)+
  ultimately have "stays_idle m" using assms(4) by (auto intro: idle_intros)
  then show ?thesis using idle_outcome assms(5-7) by blast
qed

theorem lock_is_released_witness:
  "let env = (quiet_env int)\<lparr>env_transition := (\<lambda>k opn ctx now. gpanic (UserPanic ''listener''))\<rparr>;
       (r, c') = OpenCircuit 3 env ctx_Background example_circuit
   in r = Panics (UserPanic ''listener'') \<and> \<not> c_transitionMu c' \<and> c_pendingTransitions c' = []"
proof -
  let ?env = "(quiet_env int)\<lparr>env_transition := (\<lambda>k opn ctx now. gpanic (UserPanic ''listener''))\<rparr> :: (unit, unit) Env"
  have env: "polite ?env"
    by (auto simp: polite_def quiet_env_def stays_idle_def triple_def go_run)
  obtain r c' where e: "OpenCircuit 3 ?env ctx_Background example_circuit = (r, c')" by fastforce
  have "r = Panics (UserPanic ''listener'')"
    using e by (auto simp: OpenCircuit_def transitionTo_def commitTransition_def notifyStateMachines_def
        notifyListeners_def MetricsCollection_send_def on_abnormal_exit_def lock_transition_def unlock_transition_def
        quiet_env_def circuit_eval numeral_3_eq_3 time_After_def)
  moreover have "idle False c'"
    using lock_is_released [of ?env None None "OpenCircuit 3 ?env ctx_Background" 3 ctx_Background False example_circuit r c']
      env e calculation by (auto simp: idle_def example_circuit_def zero_Circuit_def)
  ultimately show ?thesis using e by (simp add: idle_def)
qed

end
