(* ===== verification/RollingBuckets.thy ===== *)
theory RollingBuckets
  imports Go_Prelude
begin

text \<open>
  Model of \<^verbatim>\<open>faststats/rolling_bucket.go\<close>: the index arithmetic of a window of \<open>NumBuckets\<close>
  buckets of \<open>BucketWidth\<close> nanoseconds that rolls forward with time.

  The buckets themselves belong to the caller (\<^verbatim>\<open>RollingCounter\<close>, \<^verbatim>\<open>RollingPercentile\<close>), which
  hands \<^verbatim>\<open>Advance\<close> the callback \<^verbatim>\<open>clearBucket\<close>. Accordingly a computation here runs over a pair:
  the \<open>RollingBuckets\<close> record and the caller's buckets. The interface the callback has to
  satisfy is the locale \<open>bucket_array\<close>; what \<^verbatim>\<open>Advance\<close> does to the buckets is proved once inside
  it, for every caller.
\<close>

record RollingBuckets =
  rb_NumBuckets :: int
  rb_StartTime :: gotime
  rb_BucketWidth :: duration
  rb_LastAbsIndex :: int64

text \<open>
  The loop of \<^verbatim>\<open>rollForward\<close>, \<^verbatim>\<open>for i := last + 1; i <= absIndex && i <= last+n; i++\<close>, at its
  test; \<open>hi\<close> is the value of \<^verbatim>\<open>last+n\<close>. The loop variable is bounded by \<^verbatim>\<open>absIndex\<close>, so its
  increment is exact as long as \<^verbatim>\<open>absIndex\<close> is below the largest \<^verbatim>\<open>int64\<close>, which takes one
  nanosecond buckets and a clock 292 years past the start time to reach.
\<close>

function rollForward_loop ::
  "(int \<Rightarrow> (unit, 'b) go) \<Rightarrow> int64 \<Rightarrow> int64 \<Rightarrow> int64 \<Rightarrow> int64 \<Rightarrow> (unit, 'b) go" where
  "rollForward_loop clearBucket n absIndex hi i =
     (if i \<le> absIndex \<and> i \<le> hi
      then gseq (clearBucket (rem64 i n)) (rollForward_loop clearBucket n absIndex hi (i + 1))
      else greturn ())"
  by pat_completeness auto
termination
  by (relation "measure (\<lambda>(c, n, absIndex, hi, i). nat (absIndex + 1 - i))") auto

declare rollForward_loop.simps [simp del]

definition rollForward ::
  "(int \<Rightarrow> (unit, 'b) go) \<Rightarrow> int64 \<Rightarrow> int64 \<Rightarrow> (int64, RollingBuckets \<times> 'b) go" where
  "rollForward clearBucket absIndex n =
     gbind (gget (\<lambda>(r, b). rb_LastAbsIndex r)) (\<lambda>last.
     if absIndex \<le> last then greturn last
     else
       gseq (gzoom snd (\<lambda>b (r, _). (r, b))
              (rollForward_loop clearBucket n absIndex (add64 last n) (add64 last 1)))
      (gseq (gmodify (\<lambda>(r, b). (r\<lparr>rb_LastAbsIndex := absIndex\<rparr>, b)))
       (greturn absIndex)))"

definition Advance ::
  "gotime \<Rightarrow> (int \<Rightarrow> (unit, 'b) go) \<Rightarrow> (int, RollingBuckets \<times> 'b) go" where
  "Advance now clearBucket =
     gbind (gget fst) (\<lambda>r.
     if rb_NumBuckets r \<le> 0 \<or> rb_BucketWidth r \<le> 0 then greturn (-1)
     else
       let diff = time_Sub now (rb_StartTime r) in
       if diff < 0 then greturn (-1)
       else
         let n = rb_NumBuckets r;
             absIndex = quo64 diff (rb_BucketWidth r);
             bucket = rem64 absIndex n;
             behind = sub64 (rb_LastAbsIndex r) absIndex in
         if behind \<ge> 0 then
           (if behind \<ge> n then greturn (-1) else greturn bucket)
         else
           gbind (rollForward clearBucket absIndex n) (\<lambda>last.
           if sub64 last absIndex \<ge> n then greturn (-1)
           else greturn bucket))"

definition RollingBuckets_Store :: "RollingBuckets \<Rightarrow> RollingBuckets \<Rightarrow> RollingBuckets" where
  "RollingBuckets_Store bucket r =
     r\<lparr>rb_NumBuckets := rb_NumBuckets bucket,
       rb_StartTime := rb_StartTime bucket,
       rb_BucketWidth := rb_BucketWidth bucket,
       rb_LastAbsIndex := rb_LastAbsIndex bucket\<rparr>"

text \<open>\<^verbatim>\<open>validate\<close>: true when it returns no error.\<close>

definition RollingBuckets_validate :: "RollingBuckets \<Rightarrow> bool" where
  "RollingBuckets_validate r \<longleftrightarrow>
     \<not> (rb_NumBuckets r < 0 \<or> rb_BucketWidth r < 0 \<or> rb_LastAbsIndex r < 0)"

subsection \<open>The window, as a specification\<close>

text \<open>
  \<open>abs_index r now\<close> is the number of whole buckets between the start time and \<open>now\<close>;
  \<open>usable r now\<close> says that the structure has buckets and \<open>now\<close> is not before the start;
  \<open>in_window n lst i\<close> says that the absolute index \<open>i\<close> is one of the \<open>n\<close> most recent.
\<close>

definition usable :: "RollingBuckets \<Rightarrow> gotime \<Rightarrow> bool" where
  "usable r now \<longleftrightarrow> 0 < rb_NumBuckets r \<and> 0 < rb_BucketWidth r \<and> rb_StartTime r \<le> now"

definition abs_index :: "RollingBuckets \<Rightarrow> gotime \<Rightarrow> int" where
  "abs_index r now = time_Sub now (rb_StartTime r) div rb_BucketWidth r"

definition in_window :: "int \<Rightarrow> int \<Rightarrow> int \<Rightarrow> bool" where
  "in_window n lst i \<longleftrightarrow> lst - n < i \<and> i \<le> lst"

definition new_last :: "RollingBuckets \<Rightarrow> gotime \<Rightarrow> int" where
  "new_last r now = (if usable r now then max (rb_LastAbsIndex r) (abs_index r now)
                     else rb_LastAbsIndex r)"

text \<open>
  The well-formedness invariant. The last conjunct keeps \<^verbatim>\<open>last+n\<close> inside 64 bits for every index
  a clock reading can produce: it holds for every width of two nanoseconds or more with up to
  \<open>2 ^ 62\<close> buckets.
\<close>

definition rb_inv :: "RollingBuckets \<Rightarrow> bool" where
  "rb_inv r \<longleftrightarrow>
     0 \<le> rb_NumBuckets r \<and> 0 \<le> rb_BucketWidth r \<and> 0 \<le> rb_LastAbsIndex r \<and>
     (0 < rb_BucketWidth r \<longrightarrow>
        rb_LastAbsIndex r \<le> max_int64 div rb_BucketWidth r \<and>
        rb_NumBuckets r + max_int64 div rb_BucketWidth r \<le> max_int64)"

text \<open>
  \<open>slot_index n lst j\<close> is the absolute index that bucket \<open>j\<close> stands for when \<open>lst\<close> is the most
  recent one: the only member of the window congruent to \<open>j\<close>.
\<close>

definition slot_index :: "int \<Rightarrow> int \<Rightarrow> int \<Rightarrow> int" where
  "slot_index n lst j = lst - (lst - j) mod n"

subsection \<open>Facts on the window\<close>

lemma slot_in_window: "0 < n \<Longrightarrow> in_window n lst (slot_index n lst j)"
  using pos_mod_bound [of n "lst - j"] pos_mod_sign [of n "lst - j"]
  by (simp add: in_window_def slot_index_def)

lemma slot_mod: "slot_index n lst j mod n = j mod n"
  by (simp add: slot_index_def mod_diff_right_eq)

lemma window_mod_inj:
  assumes "0 < n" "in_window n lst i" "in_window n lst k" "i mod n = k mod n"
  shows "i = k"
proof -
  have "n dvd i - k" using assms(4) by (simp add: mod_eq_dvd_iff)
  then obtain q where q: "i - k = n * q" by (auto elim: dvdE)
  have "\<bar>n * q\<bar> < n" using assms(2,3) q by (auto simp: in_window_def)
  then have "\<bar>q\<bar> < 1" using assms(1) by (simp add: abs_mult)
  then show ?thesis using q by simp
qed

lemma slot_unique: "0 < n \<Longrightarrow> in_window n lst i \<Longrightarrow> i mod n = j mod n \<Longrightarrow> slot_index n lst j = i"
  using window_mod_inj [of n lst "slot_index n lst j" i] by (simp add: slot_in_window slot_mod)

lemma slot_greatest:
  assumes "0 < n" "k \<le> lst" "k mod n = j mod n"
  shows "k \<le> slot_index n lst j"
proof (rule ccontr)
  assume *: "\<not> k \<le> slot_index n lst j"
  then have "in_window n lst k"
    using assms slot_in_window [of n lst j] by (simp add: in_window_def)
  then show False using * assms slot_unique [of n lst k j] by simp
qed

text \<open>
  The indices \<open>rollForward\<close> visits hit bucket \<open>j\<close> exactly when the bucket stands for a new
  absolute index afterwards.
\<close>

lemma rolled_iff:
  assumes n: "0 < n" and le: "l \<le> l'"
  shows "(\<exists>k. l < k \<and> k \<le> l' \<and> k \<le> l + n \<and> k mod n = j mod n)
         \<longleftrightarrow> slot_index n l' j \<noteq> slot_index n l j"
proof
  assume "\<exists>k. l < k \<and> k \<le> l' \<and> k \<le> l + n \<and> k mod n = j mod n"
  then obtain k where k: "l < k" "k \<le> l'" "k mod n = j mod n" by blast
  then have "k \<le> slot_index n l' j" using slot_greatest [OF n] by blast
  moreover have "slot_index n l j \<le> l" using slot_in_window [OF n] by (simp add: in_window_def)
  ultimately show "slot_index n l' j \<noteq> slot_index n l j" using k by linarith
next
  assume ne: "slot_index n l' j \<noteq> slot_index n l j"
  let ?s = "slot_index n l' j"
  let ?t = "slot_index n (l + n) j"
  have win: "in_window n l' ?s" "in_window n (l + n) ?t" using slot_in_window [OF n] by auto
  show "\<exists>k. l < k \<and> k \<le> l' \<and> k \<le> l + n \<and> k mod n = j mod n"
  proof (cases "?s \<le> l + n")
    case True
    have "l < ?s"
    proof (rule ccontr)
      assume "\<not> l < ?s"
      then have "in_window n l ?s" using win le by (simp add: in_window_def)
      then show False using ne slot_unique [OF n, of l ?s j] by (simp add: slot_mod)
    qed
    then show ?thesis using True win by (intro exI [of _ ?s]) (simp add: slot_mod in_window_def)
  next
    case False
    then show ?thesis
      using win by (intro exI [of _ ?t]) (simp add: slot_mod in_window_def)
  qed
qed

lemma new_last_ge: "rb_LastAbsIndex r \<le> new_last r now"
  by (simp add: new_last_def)

lemma slot_index_eq_iff:
  assumes "0 < n" "0 \<le> j" "j < n"
  shows "slot_index n l j = h \<longleftrightarrow> in_window n l h \<and> j = h mod n"
proof -
  have "j mod n = j" using assms by simp
  then show ?thesis
    using slot_in_window [OF assms(1), of l j] slot_mod [of n l j] slot_unique [OF assms(1), of l h j]
    by auto
qed

text \<open>The geometry of a window: what \<^verbatim>\<open>Advance\<close> never changes. Sane widths keep \<open>rb_inv\<close>.\<close>

definition same_geometry :: "RollingBuckets \<Rightarrow> RollingBuckets \<Rightarrow> bool" where
  "same_geometry g r \<longleftrightarrow> rb_NumBuckets g = rb_NumBuckets r \<and> rb_StartTime g = rb_StartTime r \<and>
     rb_BucketWidth g = rb_BucketWidth r"

lemma same_geometry_simps:
  assumes "same_geometry g r"
  shows "rb_NumBuckets r = rb_NumBuckets g" "usable r = usable g" "abs_index r = abs_index g"
  using assms by (auto simp: same_geometry_def usable_def abs_index_def fun_eq_iff)

definition window_geometry :: "duration \<Rightarrow> int \<Rightarrow> gotime \<Rightarrow> RollingBuckets" where
  "window_geometry w n start = \<lparr>rb_NumBuckets = n, rb_StartTime = start, rb_BucketWidth = w,
     rb_LastAbsIndex = 0\<rparr>"

definition sane_window :: "duration \<Rightarrow> int \<Rightarrow> bool" where
  "sane_window w n \<longleftrightarrow> 0 \<le> n \<and> 0 < w \<and> n + max_int64 div w \<le> max_int64"

lemma window_geometry_inv: "sane_window w n \<Longrightarrow> rb_inv (window_geometry w n start)"
  by (auto simp: rb_inv_def window_geometry_def sane_window_def pos_imp_zdiv_nonneg_iff max_int64_def)

subsection \<open>The interface of the buckets\<close>

text \<open>
  What a caller's buckets have to offer: \<open>clearBucket i\<close> empties the bucket \<open>i\<close>, leaves the other
  buckets alone, and keeps the caller's own invariant \<open>ok\<close>.
\<close>

locale bucket_array =
  fixes clearBucket :: "int \<Rightarrow> (unit, 'b) go"
    and count :: "'b \<Rightarrow> int"
    and content :: "'b \<Rightarrow> int \<Rightarrow> 'c"
    and blank :: 'c
    and ok :: "'b \<Rightarrow> bool"
  assumes clear_ok: "\<lbrakk>ok b; 0 \<le> i; i < count b\<rbrakk> \<Longrightarrow>
    \<exists>b'. clearBucket i b = (Returns (), b') \<and> ok b' \<and> count b' = count b \<and>
         content b' i = blank \<and> (\<forall>j. 0 \<le> j \<and> j \<noteq> i \<longrightarrow> content b' j = content b j)"
begin

lemma rollForward_loop_ok:
  assumes "ok b" "0 < count b" "0 \<le> i"
  shows "\<exists>b'. rollForward_loop clearBucket (count b) a hi i b = (Returns (), b') \<and> ok b' \<and>
    count b' = count b \<and>
    (\<forall>j. 0 \<le> j \<and> j < count b \<longrightarrow> content b' j =
       (if \<exists>k. i \<le> k \<and> k \<le> a \<and> k \<le> hi \<and> k mod count b = j then blank else content b j))"
  using assms
proof (induction "nat (a + 1 - i)" arbitrary: i b)
  case 0
  then show ?case
    by (subst rollForward_loop.simps) (auto simp: go_simps)
next
  case (Suc m)
  show ?case
  proof (cases "i \<le> hi")
    case False
    then show ?thesis
      using Suc.prems by (subst rollForward_loop.simps) (auto simp: go_simps)
  next
    case True
    have ia: "i \<le> a" and m: "m = nat (a + 1 - (i + 1))" using Suc.hyps(2) by linarith+
    have rem: "rem64 i (count b) = i mod count b" using Suc.prems by (simp add: rem64_nonneg)
    obtain b1 where b1: "clearBucket (i mod count b) b = (Returns (), b1)" "ok b1"
      "count b1 = count b" "content b1 (i mod count b) = blank"
      "\<And>j. 0 \<le> j \<and> j \<noteq> i mod count b \<Longrightarrow> content b1 j = content b j"
      using clear_ok [of b "i mod count b"] Suc.prems by auto
    obtain b' where b': "rollForward_loop clearBucket (count b1) a hi (i + 1) b1 = (Returns (), b')"
      "ok b'" "count b' = count b1"
      "\<And>j. 0 \<le> j \<and> j < count b1 \<Longrightarrow> content b' j =
        (if \<exists>k. i + 1 \<le> k \<and> k \<le> a \<and> k \<le> hi \<and> k mod count b1 = j then blank else content b1 j)"
      using Suc.hyps(1) [OF m, of b1] Suc.prems(2,3) b1(2,3) by auto
    have split: "(\<exists>k. i \<le> k \<and> k \<le> a \<and> k \<le> hi \<and> k mod count b = j) \<longleftrightarrow>
      i mod count b = j \<or> (\<exists>k. i + 1 \<le> k \<and> k \<le> a \<and> k \<le> hi \<and> k mod count b = j)" for j
    proof -
      have "i \<le> k \<longleftrightarrow> k = i \<or> i + 1 \<le> k" for k by linarith
      then show ?thesis using ia True by metis
    qed
    have "content b' j =
      (if \<exists>k. i \<le> k \<and> k \<le> a \<and> k \<le> hi \<and> k mod count b = j then blank else content b j)"
      if "0 \<le> j \<and> j < count b" for j
      using b'(4) [of j] b1 that unfolding split by auto
    then show ?thesis
      using ia True b1 b' by (subst rollForward_loop.simps) (simp add: go_simps rem)
  qed
qed

lemma rollForward_ok:
  assumes "ok b" "0 < count b" "0 \<le> rb_LastAbsIndex r" "rb_LastAbsIndex r < a"
    and fits: "rb_LastAbsIndex r + count b \<le> max_int64"
  shows "\<exists>b'. rollForward clearBucket a (count b) (r, b) = (Returns a, (r\<lparr>rb_LastAbsIndex := a\<rparr>, b')) \<and>
    ok b' \<and> count b' = count b \<and>
    (\<forall>j. 0 \<le> j \<and> j < count b \<longrightarrow> content b' j =
       (if slot_index (count b) a j = slot_index (count b) (rb_LastAbsIndex r) j
        then content b j else blank))"
proof -
  let ?l = "rb_LastAbsIndex r" and ?n = "count b"
  have hi: "add64 ?l ?n = ?l + ?n" and lo: "add64 ?l 1 = ?l + 1"
    using assms by (simp_all add: add64_exact in_int64_def min_int64_def)
  obtain b' where b': "rollForward_loop clearBucket ?n a (?l + ?n) (?l + 1) b = (Returns (), b')"
    "ok b'" "count b' = ?n"
    "\<And>j. 0 \<le> j \<and> j < ?n \<Longrightarrow> content b' j =
       (if \<exists>k. ?l + 1 \<le> k \<and> k \<le> a \<and> k \<le> ?l + ?n \<and> k mod ?n = j then blank else content b j)"
    using rollForward_loop_ok [of b "?l + 1" a "?l + ?n"] assms by auto
  have "content b' j = (if slot_index ?n a j = slot_index ?n ?l j then content b j else blank)"
    if "0 \<le> j \<and> j < ?n" for j
    using b'(4) [OF that] rolled_iff [of ?n ?l a j] assms that by (auto simp: add1_zle_eq)
  then show ?thesis
    using b' assms by (simp add: rollForward_def go_simps hi lo)
qed

text \<open>
  What \<^verbatim>\<open>Advance\<close> does, on every branch: it returns the bucket of \<open>now\<close>, or -1 when \<open>now\<close> is
  before the start or a whole window behind; it moves the most recent index forward, never back;
  and a bucket keeps its content exactly when it still stands for the same absolute index.
\<close>

lemma Advance_ok:
  assumes inv: "rb_inv r" and b: "ok b" "count b = rb_NumBuckets r"
  shows "\<exists>b'. Advance now clearBucket (r, b) =
      (Returns (if usable r now \<and> in_window (count b) (new_last r now) (abs_index r now)
                then abs_index r now mod count b else -1),
       (r\<lparr>rb_LastAbsIndex := new_last r now\<rparr>, b')) \<and>
    ok b' \<and> count b' = count b \<and> rb_inv (r\<lparr>rb_LastAbsIndex := new_last r now\<rparr>) \<and>
    (\<forall>j. 0 \<le> j \<and> j < count b \<longrightarrow> content b' j =
       (if slot_index (count b) (new_last r now) j = slot_index (count b) (rb_LastAbsIndex r) j
        then content b j else blank))"
proof (cases "usable r now")
  case False
  then show ?thesis
    using b inv by (auto simp: Advance_def go_simps usable_def new_last_def Let_def)
next
  case True
  let ?l = "rb_LastAbsIndex r" and ?n = "rb_NumBuckets r" and ?w = "rb_BucketWidth r"
  let ?d = "time_Sub now (rb_StartTime r)" and ?a = "abs_index r now"
  have nw: "0 < ?n" "0 < ?w" and d: "0 \<le> ?d"
    using True by (simp_all add: usable_def)
  have quo: "quo64 ?d ?w = ?a"
    using nw d time_Sub_le_max by (simp add: quo64_nonneg abs_index_def)
  have a: "0 \<le> ?a" "?a \<le> max_int64 div ?w"
    using d nw time_Sub_le_max by (simp_all add: abs_index_def pos_imp_zdiv_nonneg_iff zdiv_mono1)
  have bounds: "0 \<le> ?l" "?l \<le> max_int64 div ?w" "?n + max_int64 div ?w \<le> max_int64"
    using inv nw by (auto simp: rb_inv_def)
  have rem: "rem64 ?a ?n = ?a mod ?n" using a nw by (simp add: rem64_nonneg)
  have "in_int64 (?l - ?a)"
    using a bounds nw by (simp add: in_int64_def min_int64_def max_int64_def)
  then have behind: "sub64 ?l ?a = ?l - ?a" and zero: "sub64 ?a ?a = 0"
    by (simp_all add: sub64_exact)
  have inv': "rb_inv (r\<lparr>rb_LastAbsIndex := new_last r now\<rparr>)"
    using inv a True nw by (auto simp: rb_inv_def new_last_def)
  show ?thesis
  proof (cases "?a \<le> ?l")
    case le: True
    then have nl: "new_last r now = ?l" using True by (simp add: new_last_def)
    show ?thesis
      using True b inv le nw d
      by (auto simp: Advance_def go_simps Let_def quo rem behind nl in_window_def)
  next
    case gt: False
    then have nl: "new_last r now = ?a" using True by (simp add: new_last_def)
    obtain b' where b': "rollForward clearBucket ?a ?n (r, b) = (Returns ?a, (r\<lparr>rb_LastAbsIndex := ?a\<rparr>, b'))"
      "ok b'" "count b' = ?n"
      "\<forall>j. 0 \<le> j \<and> j < ?n \<longrightarrow> content b' j =
         (if slot_index ?n ?a j = slot_index ?n ?l j then content b j else blank)"
      using rollForward_ok [of b r ?a] b nw bounds gt by auto
    have win: "in_window ?n ?a ?a" using nw by (simp add: in_window_def)
    show ?thesis
      using True b b' gt nw d inv' win
      by (simp add: Advance_def go_simps Let_def quo rem behind nl zero)
  qed
qed

text \<open>
  As a simulation: as long as bucket \<open>j\<close> holds \<open>f h\<close> for the absolute index \<open>h\<close> it stands for, and
  nothing has happened yet at indices still to come, it does so after \<^verbatim>\<open>Advance\<close>.
\<close>

lemma Advance_cells:
  assumes inv: "rb_inv r" and b: "ok b" "count b = rb_NumBuckets r"
    and cells: "\<forall>j. 0 \<le> j \<and> j < count b \<longrightarrow> content b j = f (slot_index (count b) (rb_LastAbsIndex r) j)"
    and fresh: "\<And>h. rb_LastAbsIndex r < h \<Longrightarrow> f h = blank"
  shows "\<exists>b'. Advance now clearBucket (r, b) =
      (Returns (if usable r now \<and> in_window (count b) (new_last r now) (abs_index r now)
                then abs_index r now mod count b else -1),
       (r\<lparr>rb_LastAbsIndex := new_last r now\<rparr>, b')) \<and>
    ok b' \<and> count b' = count b \<and> rb_inv (r\<lparr>rb_LastAbsIndex := new_last r now\<rparr>) \<and>
    (\<forall>j. 0 \<le> j \<and> j < count b \<longrightarrow> content b' j = f (slot_index (count b) (new_last r now) j))"
proof -
  let ?n = "count b" and ?l = "rb_LastAbsIndex r" and ?l' = "new_last r now"
  have "(if slot_index ?n ?l' j = slot_index ?n ?l j then content b j else blank) = f (slot_index ?n ?l' j)"
    if j: "0 \<le> j \<and> j < ?n" for j
  proof (cases "slot_index ?n ?l' j = slot_index ?n ?l j")
    case True
    then show ?thesis using cells j by simp
  next
    case False
    have "?l < slot_index ?n ?l' j"
    proof (rule ccontr)
      assume "\<not> ?l < slot_index ?n ?l' j"
      then have "in_window ?n ?l (slot_index ?n ?l' j)"
        using slot_in_window [of ?n ?l' j] j new_last_ge [of r now] by (auto simp: in_window_def)
      then show False
        using False j slot_unique [of ?n ?l "slot_index ?n ?l' j" j] by (simp add: slot_mod)
    qed
    then show ?thesis using False fresh by simp
  qed
  then show ?thesis using Advance_ok [OF inv b, of now] by auto
qed

end

end
