(* ===== verification/RollingCounter.thy ===== *)
theory RollingCounter
  imports RollingBuckets
begin

text \<open>
  Model of \<^verbatim>\<open>faststats/rolling_counter.go\<close>: a counter of events over a sliding window of time.

  The record mirrors the struct; the operations are computations over it that panic where the Go
  code would (an index outside the slice, a negative length). The specification is a
  \<open>window_spec\<close>: the absolute indices of all events counted so far and the most recent index. The
  relation \<open>rc_sim\<close> ties the buckets to it, every operation preserves the relation, and the rolling
  sum is the number of events of the window, modulo 64 bit wrap-around.
\<close>

record RollingCounter =
  rc_buckets :: "int64 list"
  rc_totalSum :: int64
  rc_rollingBucket :: RollingBuckets

record jsonCounter =
  jc_Buckets :: "int64 list"
  jc_RollingSum :: "int64 option"
  jc_TotalSum :: "int64 option"
  jc_RollingBucket :: "RollingBuckets option"

definition NewRollingCounter :: "duration \<Rightarrow> int \<Rightarrow> gotime \<Rightarrow> (RollingCounter, 's) go" where
  "NewRollingCounter bucketWidth numBuckets now =
     gbind (gmake 0 numBuckets) (\<lambda>bs.
     greturn \<lparr>rc_buckets = bs, rc_totalSum = 0,
       rc_rollingBucket = \<lparr>rb_NumBuckets = numBuckets, rb_StartTime = now,
         rb_BucketWidth = bucketWidth, rb_LastAbsIndex = 0\<rparr>\<rparr>)"

definition zero_RollingCounter :: RollingCounter where
  "zero_RollingCounter = \<lparr>rc_buckets = [], rc_totalSum = 0, rc_rollingBucket = \<lparr>rb_NumBuckets = 0,
     rb_StartTime = zero_time, rb_BucketWidth = 0, rb_LastAbsIndex = 0\<rparr>\<rparr>"

definition rc_clearBucket :: "int \<Rightarrow> (unit, int64 list) go" where
  "rc_clearBucket idx = gstore idx (\<lambda>_. 0)"

text \<open>\<^verbatim>\<open>r.rollingBucket.Advance(now, r.clearBucket)\<close>\<close>

definition rc_Advance :: "gotime \<Rightarrow> (int, RollingCounter) go" where
  "rc_Advance now =
     gzoom (\<lambda>r. (rc_rollingBucket r, rc_buckets r))
           (\<lambda>(rb, bs) r. r\<lparr>rc_rollingBucket := rb, rc_buckets := bs\<rparr>)
           (Advance now rc_clearBucket)"

definition rc_Inc :: "gotime \<Rightarrow> (unit, RollingCounter) go" where
  "rc_Inc now =
     gseq (gmodify (\<lambda>r. r\<lparr>rc_totalSum := add64 (rc_totalSum r) 1\<rparr>))
    (gbind (gget rc_buckets) (\<lambda>bs.
     if length bs = 0 then greturn ()
     else gbind (rc_Advance now) (\<lambda>idx.
       if idx < 0 then greturn ()
       else gzoom rc_buckets (\<lambda>bs r. r\<lparr>rc_buckets := bs\<rparr>) (gstore idx (\<lambda>v. add64 v 1)))))"

definition rc_sumBuckets :: "RollingCounter \<Rightarrow> int64" where
  "rc_sumBuckets r = fold (\<lambda>v ret. add64 ret v) (rc_buckets r) 0"

definition rc_RollingSumAt :: "gotime \<Rightarrow> (int64, RollingCounter) go" where
  "rc_RollingSumAt now = gseq (rc_Advance now) (gget rc_sumBuckets)"

definition rc_TotalSum :: "RollingCounter \<Rightarrow> int64" where
  "rc_TotalSum r = rc_totalSum r"

text \<open>
  The loop of \<^verbatim>\<open>GetBuckets\<close>: from the iterations \<open>i\<close> still to come, the values they read, in order.
\<close>

fun rc_GetBuckets_loop :: "int \<Rightarrow> int \<Rightarrow> int list \<Rightarrow> (int64 list, RollingCounter) go" where
  "rc_GetBuckets_loop n startIdx [] = greturn []"
| "rc_GetBuckets_loop n startIdx (i # is) =
     (let idx = (if startIdx - i < 0 then startIdx - i + n else startIdx - i) in
      gbind (gget rc_buckets) (\<lambda>bs.
      gbind (gindex bs idx) (\<lambda>v.
      gbind (rc_GetBuckets_loop n startIdx is) (\<lambda>vs.
      greturn (v # vs)))))"

definition rc_GetBuckets :: "gotime \<Rightarrow> (int64 list, RollingCounter) go" where
  "rc_GetBuckets now =
     gbind (gget (\<lambda>r. rb_NumBuckets (rc_rollingBucket r) \<le> 0 \<or> length (rc_buckets r) = 0)) (\<lambda>none.
     if none then greturn []
     else
       gseq (rc_Advance now)
      (gbind (gget rc_rollingBucket) (\<lambda>rb.
       gbind (grem (rb_LastAbsIndex rb) (rb_NumBuckets rb)) (\<lambda>startIdx.
       rc_GetBuckets_loop (rb_NumBuckets rb) startIdx [0..rb_NumBuckets rb - 1]))))"

definition rc_Reset :: "gotime \<Rightarrow> (unit, RollingCounter) go" where
  "rc_Reset now =
     gseq (rc_Advance now)
    (gbind (gget (\<lambda>r. length (rc_buckets r))) (\<lambda>len.
     gforeach (\<lambda>i. gzoom rc_buckets (\<lambda>bs r. r\<lparr>rc_buckets := bs\<rparr>) (rc_clearBucket (int i))) [0..<len]))"

text \<open>
  \<^verbatim>\<open>MarshalJSON\<close> hands a \<open>jsonCounter\<close> to \<^verbatim>\<open>json.Marshal\<close>; \<^verbatim>\<open>UnmarshalJSON\<close> starts from what
  \<^verbatim>\<open>json.Unmarshal\<close> decoded (\<open>None\<close> when it reported an error).
\<close>

datatype rc_json_error = RcBadJSON | RcIncomplete | RcInconsistent | RcInvalidBuckets

definition rc_MarshalJSON :: "RollingCounter \<Rightarrow> jsonCounter" where
  "rc_MarshalJSON r = \<lparr>jc_Buckets = rc_buckets r, jc_RollingSum = Some (rc_sumBuckets r),
     jc_TotalSum = Some (rc_totalSum r), jc_RollingBucket = Some (rc_rollingBucket r)\<rparr>"

definition rc_UnmarshalJSON ::
  "jsonCounter option \<Rightarrow> RollingCounter \<Rightarrow> rc_json_error option \<times> RollingCounter" where
  "rc_UnmarshalJSON decoded r = (case decoded of
     None \<Rightarrow> (Some RcBadJSON, r)
   | Some into \<Rightarrow> (case (jc_TotalSum into, jc_RollingBucket into) of
       (Some tot, Some rb) \<Rightarrow>
         (if int (length (jc_Buckets into)) \<noteq> rb_NumBuckets rb then (Some RcInconsistent, r)
          else if \<not> RollingBuckets_validate rb then (Some RcInvalidBuckets, r)
          else (None, r\<lparr>rc_buckets := jc_Buckets into, rc_totalSum := tot,
                        rc_rollingBucket := RollingBuckets_Store rb (rc_rollingBucket r)\<rparr>))
     | _ \<Rightarrow> (Some RcIncomplete, r)))"

subsection \<open>Specification\<close>

record window_spec =
  ws_last :: int
  ws_events :: "int list"
  ws_total :: nat

datatype rc_op = OpInc gotime | OpSum gotime | OpReset gotime

text \<open>The geometry \<open>g\<close> of the window is the bucket structure the counter was made with.\<close>

definition ws_advance :: "RollingBuckets \<Rightarrow> gotime \<Rightarrow> window_spec \<Rightarrow> window_spec" where
  "ws_advance g now w = w\<lparr>ws_last := (if usable g now then max (ws_last w) (abs_index g now) else ws_last w)\<rparr>"

definition ws_counts :: "RollingBuckets \<Rightarrow> gotime \<Rightarrow> window_spec \<Rightarrow> bool" where
  "ws_counts g now w \<longleftrightarrow>
     usable g now \<and> in_window (rb_NumBuckets g) (ws_last (ws_advance g now w)) (abs_index g now)"

fun ws_step :: "RollingBuckets \<Rightarrow> rc_op \<Rightarrow> window_spec \<Rightarrow> window_spec" where
  "ws_step g (OpInc now) w =
     (let w' = ws_advance g now w in
      w'\<lparr>ws_total := Suc (ws_total w),
         ws_events := (if ws_counts g now w then abs_index g now # ws_events w else ws_events w)\<rparr>)"
| "ws_step g (OpSum now) w = ws_advance g now w"
| "ws_step g (OpReset now) w = (ws_advance g now w)\<lparr>ws_events := []\<rparr>"

definition ws_sum :: "RollingBuckets \<Rightarrow> window_spec \<Rightarrow> nat" where
  "ws_sum g w = length (filter (in_window (rb_NumBuckets g) (ws_last w)) (ws_events w))"

definition ws_init :: window_spec where
  "ws_init = \<lparr>ws_last = 0, ws_events = [], ws_total = 0\<rparr>"

definition ws_run :: "RollingBuckets \<Rightarrow> rc_op list \<Rightarrow> window_spec" where
  "ws_run g ops = fold (ws_step g) ops ws_init"

text \<open>The same operations on the implementation.\<close>

fun rc_step :: "rc_op \<Rightarrow> (unit, RollingCounter) go" where
  "rc_step (OpInc now) = rc_Inc now"
| "rc_step (OpSum now) = gseq (rc_RollingSumAt now) (greturn ())"
| "rc_step (OpReset now) = rc_Reset now"

text \<open>
  The invariant, and the simulation relation: bucket \<open>j\<close> holds the number of events at the
  absolute index it stands for.
\<close>

definition rc_inv :: "RollingCounter \<Rightarrow> bool" where
  "rc_inv r \<longleftrightarrow> rb_inv (rc_rollingBucket r) \<and>
     int (length (rc_buckets r)) = rb_NumBuckets (rc_rollingBucket r)"

definition rc_sim :: "RollingBuckets \<Rightarrow> window_spec \<Rightarrow> RollingCounter \<Rightarrow> bool" where
  "rc_sim g w r \<longleftrightarrow> rc_inv r \<and> same_geometry g (rc_rollingBucket r) \<and>
     rb_LastAbsIndex (rc_rollingBucket r) = ws_last w \<and>
     (\<forall>h \<in> set (ws_events w). h \<le> ws_last w) \<and>
     (\<forall>j. 0 \<le> j \<and> j < rb_NumBuckets g \<longrightarrow> rc_buckets r ! nat j =
        wrap64 (int (count_list (ws_events w) (slot_index (rb_NumBuckets g) (ws_last w) j)))) \<and>
     rc_totalSum r = wrap64 (int (ws_total w))"


subsection \<open>The buckets satisfy the interface of the window\<close>

lemma gstore_in_range:
  "0 \<le> i \<Longrightarrow> i < int (length xs) \<Longrightarrow> gstore i f xs = (Returns (), xs[nat i := f (xs ! nat i)])"
  by (simp add: gstore_def)

interpretation rcb: bucket_array rc_clearBucket "\<lambda>bs. int (length bs)" "\<lambda>bs j. bs ! nat j"
  "0 :: int64" "\<lambda>_. True"
  by unfold_locales (auto simp: rc_clearBucket_def gstore_in_range nth_list_update nat_eq_iff2)

subsection \<open>Counting\<close>

lemma sum_wrap64: "wrap64 (\<Sum>j\<leftarrow>js. wrap64 (f j)) = wrap64 (\<Sum>j\<leftarrow>js. f j)"
proof (induction js)
  case (Cons j js)
  have "wrap64 (wrap64 (f j) + (\<Sum>j\<leftarrow>js. wrap64 (f j))) = wrap64 (f j + wrap64 (\<Sum>j\<leftarrow>js. wrap64 (f j)))"
    by simp
  also have "\<dots> = wrap64 (f j + (\<Sum>j\<leftarrow>js. f j))" by (simp only: Cons.IH wrap64_add_right)
  finally show ?case by simp
qed simp

text \<open>Each event of the window is in exactly one bucket.\<close>

lemma sum_slot_counts:
  assumes n: "0 < n"
  shows "(\<Sum>j\<leftarrow>[0..n - 1]. int (count_list hs (slot_index n l j))) = int (length (filter (in_window n l) hs))"
proof (induction hs)
  case (Cons h hs)
  have one: "(\<Sum>j\<leftarrow>[0..n - 1]. if slot_index n l j = h then 1 else 0) = (if in_window n l h then (1::int) else 0)"
  proof -
    have "(\<Sum>j\<leftarrow>[0..n - 1]. if slot_index n l j = h then 1 else (0::int)) =
          (\<Sum>j\<in>{0..n - 1}. if j = h mod n \<and> in_window n l h then 1 else 0)"
      using n by (subst sum_list_distinct_conv_sum_set) (auto intro!: sum.cong simp: slot_index_eq_iff)
    also have "\<dots> = (if in_window n l h then 1 else 0)"
      using n by (cases "in_window n l h") (simp_all add: sum.delta' sum.delta)
    finally show ?thesis .
  qed
  have "(\<Sum>j\<leftarrow>[0..n - 1]. int (count_list (h # hs) (slot_index n l j))) =
        (\<Sum>j\<leftarrow>[0..n - 1]. int (count_list hs (slot_index n l j)) + (if slot_index n l j = h then 1 else 0))"
    by (intro arg_cong [where f = sum_list] map_cong) auto
  then show ?case
    using Cons.IH one by (simp add: sum_list_addf)
qed simp


subsection \<open>Every operation simulates its specification\<close>

lemma count_list_0: "(\<And>h. h \<in> set hs \<Longrightarrow> h < k) \<Longrightarrow> count_list hs k = 0"
  for k :: int
  by (induction hs) auto

lemma rc_Advance_sim:
  assumes sim: "rc_sim g w r"
  shows "\<exists>r'. rc_Advance now r =
      (Returns (if ws_counts g now w then abs_index g now mod rb_NumBuckets g else -1), r') \<and>
    rc_sim g (ws_advance g now w) r'"
proof -
  let ?rb = "rc_rollingBucket r" and ?n = "rb_NumBuckets g"
  let ?l = "ws_last w" and ?l' = "ws_last (ws_advance g now w)"
  from sim have inv: "rb_inv ?rb" and len: "int (length (rc_buckets r)) = rb_NumBuckets ?rb"
    and geo: "same_geometry g ?rb" and last: "rb_LastAbsIndex ?rb = ?l"
    and ev: "\<forall>h \<in> set (ws_events w). h \<le> ?l"
    and cells: "\<forall>j. 0 \<le> j \<and> j < ?n \<longrightarrow>
      rc_buckets r ! nat j = wrap64 (int (count_list (ws_events w) (slot_index ?n ?l j)))"
    and tot: "rc_totalSum r = wrap64 (int (ws_total w))"
    by (auto simp: rc_sim_def rc_inv_def)
  note geos = same_geometry_simps [OF geo]
  have nl: "new_last ?rb now = ?l'"
    by (simp add: new_last_def ws_advance_def last geos)
  have ge: "?l \<le> ?l'" by (simp add: ws_advance_def)
  let ?f = "\<lambda>h. wrap64 (int (count_list (ws_events w) h))"
  have fresh: "?f h = 0" if "?l < h" for h
    using ev that by (subst count_list_0) auto
  obtain bs where bs: "Advance now rc_clearBucket (?rb, rc_buckets r) =
      (Returns (if ws_counts g now w then abs_index g now mod ?n else -1),
       (?rb\<lparr>rb_LastAbsIndex := ?l'\<rparr>, bs))"
    "int (length bs) = ?n" "rb_inv (?rb\<lparr>rb_LastAbsIndex := ?l'\<rparr>)"
    and cells': "\<forall>j. 0 \<le> j \<and> j < ?n \<longrightarrow> bs ! nat j = ?f (slot_index ?n ?l' j)"
    using rcb.Advance_cells [OF inv TrueI len, of ?f now] cells fresh
    by (auto simp: nl geos len last ws_counts_def)
  let ?r' = "r\<lparr>rc_rollingBucket := ?rb\<lparr>rb_LastAbsIndex := ?l'\<rparr>, rc_buckets := bs\<rparr>"
  have "rc_sim g (ws_advance g now w) ?r'"
    using bs(2,3) cells' ev ge tot geo
    by (auto simp: rc_sim_def rc_inv_def same_geometry_def ws_advance_def)
  moreover have "rc_Advance now r = (Returns (if ws_counts g now w then abs_index g now mod ?n else -1), ?r')"
    by (simp add: rc_Advance_def go_simps bs(1))
  ultimately show ?thesis by blast
qed

lemma rc_sim_length: "rc_sim g w r \<Longrightarrow> int (length (rc_buckets r)) = rb_NumBuckets g"
  by (auto simp: rc_sim_def rc_inv_def same_geometry_def)

lemma rc_sim_cell:
  assumes "rc_sim g w r" "i < length (rc_buckets r)"
  shows "rc_buckets r ! i =
    wrap64 (int (count_list (ws_events w) (slot_index (rb_NumBuckets g) (ws_last w) (int i))))"
proof -
  have "0 \<le> int i \<and> int i < rb_NumBuckets g" using assms rc_sim_length [OF assms(1)] by linarith
  then have "rc_buckets r ! nat (int i) =
    wrap64 (int (count_list (ws_events w) (slot_index (rb_NumBuckets g) (ws_last w) (int i))))"
    using assms(1) unfolding rc_sim_def by blast
  then show ?thesis by simp
qed

lemma rc_sumBuckets_sim:
  assumes sim: "rc_sim g w r"
  shows "rc_sumBuckets r = wrap64 (int (ws_sum g w))"
proof -
  let ?n = "rb_NumBuckets g"
  have "rc_buckets r = map (\<lambda>j. wrap64 (int (count_list (ws_events w) (slot_index ?n (ws_last w) j)))) [0..?n - 1]"
    using rc_sim_length [OF sim] by (intro nth_equalityI) (auto simp: rc_sim_cell [OF sim])
  then have "rc_sumBuckets r =
      wrap64 (\<Sum>j\<leftarrow>[0..?n - 1]. int (count_list (ws_events w) (slot_index ?n (ws_last w) j)))"
    by (simp add: rc_sumBuckets_def fold_add64 sum_wrap64 o_def)
  moreover have "(\<Sum>j\<leftarrow>[0..?n - 1]. int (count_list (ws_events w) (slot_index ?n (ws_last w) j))) =
      int (ws_sum g w)"
  proof (cases "0 < ?n")
    case False
    then have "\<not> in_window ?n (ws_last w) h" for h by (simp add: in_window_def)
    then show ?thesis using False by (simp add: ws_sum_def)
  qed (simp add: sum_slot_counts ws_sum_def)
  ultimately show ?thesis by simp
qed

lemma rc_RollingSumAt_sim:
  assumes "rc_sim g w r"
  shows "\<exists>r'. rc_RollingSumAt now r = (Returns (wrap64 (int (ws_sum g (ws_advance g now w)))), r') \<and>
    rc_sim g (ws_advance g now w) r'"
  using rc_Advance_sim [OF assms, of now]
  by (auto simp: rc_RollingSumAt_def go_simps rc_sumBuckets_sim)


lemma rc_Inc_sim:
  assumes sim: "rc_sim g w r"
  shows "\<exists>r'. rc_Inc now r = (Returns (), r') \<and> rc_sim g (ws_step g (OpInc now) w) r'"
proof -
  let ?n = "rb_NumBuckets g" and ?a = "abs_index g now"
  let ?r1 = "r\<lparr>rc_totalSum := add64 (rc_totalSum r) 1\<rparr>"
  let ?w1 = "w\<lparr>ws_total := Suc (ws_total w)\<rparr>"
  have sim1: "rc_sim g ?w1 ?r1"
    using sim by (simp add: rc_sim_def rc_inv_def add64_def add.commute)
  have adv1: "ws_advance g now ?w1 = (ws_advance g now w)\<lparr>ws_total := Suc (ws_total w)\<rparr>"
    and counts1: "ws_counts g now ?w1 = ws_counts g now w"
    by (simp_all add: ws_advance_def ws_counts_def)
  obtain r2 where r2: "rc_Advance now ?r1 = (Returns (if ws_counts g now w then ?a mod ?n else -1), r2)"
    and sim2: "rc_sim g ((ws_advance g now w)\<lparr>ws_total := Suc (ws_total w)\<rparr>) r2"
    using rc_Advance_sim [OF sim1, of now] unfolding adv1 counts1 by blast
  have len: "int (length (rc_buckets r)) = ?n" "int (length (rc_buckets r2)) = ?n"
    using rc_sim_length [OF sim] rc_sim_length [OF sim2] by simp_all
  show ?thesis
  proof (cases "ws_counts g now w")
    case False
    have step: "ws_step g (OpInc now) w = (ws_advance g now w)\<lparr>ws_total := Suc (ws_total w)\<rparr>"
      using False by (simp add: ws_advance_def Let_def)
    show ?thesis
    proof (cases "?n = 0")
      case True
      then have "\<not> usable g now" by (simp add: usable_def)
      then have "ws_advance g now w = w" by (simp add: ws_advance_def)
      then show ?thesis
        using True len sim1 unfolding step by (simp add: rc_Inc_def go_simps)
    next
      case n: False
      then show ?thesis
        using len r2 sim2 False unfolding step by (auto simp: rc_Inc_def go_simps)
    qed
  next
    case True
    let ?l = "ws_last (ws_advance g now w)"
    have n: "0 < ?n" and win: "in_window ?n ?l ?a"
      using True by (simp_all add: ws_counts_def usable_def)
    have idx: "0 \<le> ?a mod ?n" "?a mod ?n < int (length (rc_buckets r2))"
      using n len by simp_all
    have step: "ws_step g (OpInc now) w =
        (ws_advance g now w)\<lparr>ws_total := Suc (ws_total w), ws_events := ?a # ws_events w\<rparr>"
      using True by (simp add: ws_advance_def Let_def)
    let ?r3 = "r2\<lparr>rc_buckets := (rc_buckets r2)[nat (?a mod ?n) := add64 (rc_buckets r2 ! nat (?a mod ?n)) 1]\<rparr>"
    have cell: "rc_buckets ?r3 ! nat j =
        wrap64 (int (count_list (?a # ws_events w) (slot_index ?n ?l j)))"
      if j: "0 \<le> j \<and> j < ?n" for j
    proof -
      have old: "rc_buckets r2 ! nat j = wrap64 (int (count_list (ws_events w) (slot_index ?n ?l j)))"
        using sim2 j by (auto simp: rc_sim_def ws_advance_def)
      have "slot_index ?n ?l j = ?a \<longleftrightarrow> j = ?a mod ?n"
        using slot_index_eq_iff [OF n] j win by blast
      then show ?thesis
        using old j idx by (auto simp: nth_list_update nat_eq_iff2 add64_def add.commute)
    qed
    have "rc_sim g (ws_step g (OpInc now) w) ?r3"
      using sim2 cell win unfolding step by (auto simp: rc_sim_def rc_inv_def in_window_def ws_advance_def)
    moreover have "rc_Inc now r = (Returns (), ?r3)"
      using n len r2 True idx by (auto simp: rc_Inc_def go_simps gstore_in_range)
    ultimately show ?thesis by blast
  qed
qed

lemma clear_all:
  "gforeach (\<lambda>i. gzoom rc_buckets (\<lambda>bs r. r\<lparr>rc_buckets := bs\<rparr>) (rc_clearBucket (int i))) [0..<m] r
   = (Returns (), r\<lparr>rc_buckets := replicate m 0 @ drop m (rc_buckets r)\<rparr>)"
  if "m \<le> length (rc_buckets r)"
  using that
proof (induction m)
  case (Suc m)
  then show ?case
    by (simp add: gforeach_append go_simps rc_clearBucket_def gstore_def list_update_append
        Cons_nth_drop_Suc [symmetric] replicate_append_same flip: replicate_Suc)
qed (simp add: go_simps)

lemma rc_Reset_sim:
  assumes sim: "rc_sim g w r"
  shows "\<exists>r'. rc_Reset now r = (Returns (), r') \<and> rc_sim g (ws_step g (OpReset now) w) r'"
proof -
  obtain x r1 where r1: "rc_Advance now r = (Returns x, r1)" and sim1: "rc_sim g (ws_advance g now w) r1"
    using rc_Advance_sim [OF sim] by blast
  let ?r2 = "r1\<lparr>rc_buckets := replicate (length (rc_buckets r1)) 0\<rparr>"
  have "rc_Reset now r = (Returns (), ?r2)"
    by (simp add: rc_Reset_def go_simps r1 clear_all)
  moreover have "rc_sim g (ws_step g (OpReset now) w) ?r2"
    using sim1 rc_sim_length [OF sim1] by (auto simp: rc_sim_def rc_inv_def nat_less_iff)
  ultimately show ?thesis by blast
qed

lemma rc_step_sim:
  assumes sim: "rc_sim g w r"
  shows "\<exists>r'. rc_step op r = (Returns (), r') \<and> rc_sim g (ws_step g op w) r'"
proof (cases op)
  case (OpInc now)
  then show ?thesis using rc_Inc_sim [OF sim, of now] by (simp del: ws_step.simps)
next
  case (OpSum now)
  then show ?thesis using rc_RollingSumAt_sim [OF sim, of now] by (auto simp: go_simps)
next
  case (OpReset now)
  then show ?thesis using rc_Reset_sim [OF sim, of now] by (simp del: ws_step.simps)
qed

lemma rc_steps_sim:
  "rc_sim g w r \<Longrightarrow> \<exists>r'. gforeach rc_step ops r = (Returns (), r') \<and> rc_sim g (fold (ws_step g) ops w) r'"
proof (induction ops arbitrary: w r)
  case (Cons op ops)
  obtain r1 where "rc_step op r = (Returns (), r1)" "rc_sim g (ws_step g op w) r1"
    using rc_step_sim [OF Cons.prems] by blast
  with Cons.IH show ?case by (simp add: go_simps)
qed (simp add: go_simps)


subsection \<open>No call panics\<close>

lemma rc_Advance_ok:
  assumes "rc_inv r"
  shows "\<exists>idx r'. rc_Advance now r = (Returns idx, r') \<and> rc_inv r' \<and>
    length (rc_buckets r') = length (rc_buckets r) \<and> idx < int (length (rc_buckets r')) \<and>
    rc_totalSum r' = rc_totalSum r"
proof -
  let ?n = "int (length (rc_buckets r))"
  obtain bs where bs: "Advance now rc_clearBucket (rc_rollingBucket r, rc_buckets r) =
      (Returns (if usable (rc_rollingBucket r) now \<and>
          in_window ?n (new_last (rc_rollingBucket r) now) (abs_index (rc_rollingBucket r) now)
        then abs_index (rc_rollingBucket r) now mod ?n else -1),
       ((rc_rollingBucket r)\<lparr>rb_LastAbsIndex := new_last (rc_rollingBucket r) now\<rparr>, bs))"
    "length bs = length (rc_buckets r)"
    "rb_inv ((rc_rollingBucket r)\<lparr>rb_LastAbsIndex := new_last (rc_rollingBucket r) now\<rparr>)"
    using rcb.Advance_ok [of "rc_rollingBucket r" "rc_buckets r" now] assms by (auto simp: rc_inv_def)
  have "in_window ?n x y \<Longrightarrow> 0 < ?n" for x y unfolding in_window_def by linarith
  then have "in_window ?n x y \<Longrightarrow> z mod ?n < ?n" for x y z by (simp del: of_nat_0_less_iff)
  then show ?thesis using bs assms by (auto simp: rc_Advance_def go_simps rc_inv_def)
qed

lemma rc_Advance_safe: "safe rc_inv (rc_Advance now)"
  by (rule safeI) (meson rc_Advance_ok)

lemma rc_RollingSumAt_safe: "safe rc_inv (rc_RollingSumAt now)"
  unfolding rc_RollingSumAt_def by (intro safe_gseq rc_Advance_safe safe_gget)

lemma rc_Inc_safe: "safe rc_inv (rc_Inc now)"
proof (rule safeI)
  fix r
  assume "rc_inv r"
  then have inv: "rc_inv (r\<lparr>rc_totalSum := add64 (rc_totalSum r) 1\<rparr>)" by (simp add: rc_inv_def)
  show "\<exists>a r'. rc_Inc now r = (Returns a, r') \<and> rc_inv r'"
    using rc_Advance_ok [OF inv, of now] inv
    by (auto simp: rc_Inc_def go_simps gstore_in_range) (simp add: rc_inv_def)
qed

lemma rc_Reset_safe: "safe rc_inv (rc_Reset now)"
proof (rule safeI)
  fix r
  assume "rc_inv r"
  then show "\<exists>a r'. rc_Reset now r = (Returns a, r') \<and> rc_inv r'"
    using rc_Advance_ok [of r now] by (auto simp: rc_Reset_def go_simps clear_all) (simp add: rc_inv_def)
qed

lemma rc_sim_inv: "rc_sim g w r \<Longrightarrow> rc_inv r"
  by (simp add: rc_sim_def)

subsection \<open>A new counter\<close>

lemma NewRollingCounter_greturn:
  "0 \<le> n \<Longrightarrow> NewRollingCounter w n start = greturn \<lparr>rc_buckets = replicate (nat n) 0, rc_totalSum = 0,
     rc_rollingBucket = window_geometry w n start\<rparr>"
  by (simp add: NewRollingCounter_def window_geometry_def go_simps fun_eq_iff)

lemma new_counter_sim:
  assumes "sane_window w n"
  shows "\<exists>r. NewRollingCounter w n start s = (Returns r, s) \<and> rc_sim (window_geometry w n start) ws_init r"
proof -
  let ?r = "\<lparr>rc_buckets = replicate (nat n) 0, rc_totalSum = 0, rc_rollingBucket = window_geometry w n start\<rparr>"
  have "NewRollingCounter w n start s = (Returns ?r, s)"
    using assms by (simp add: NewRollingCounter_def go_simps sane_window_def window_geometry_def)
  moreover have "rc_sim (window_geometry w n start) ws_init ?r"
    using assms
    by (auto simp: rc_sim_def rc_inv_def rb_inv_def same_geometry_def window_geometry_def ws_init_def
        sane_window_def pos_imp_zdiv_nonneg_iff max_int64_def)
  ultimately show ?thesis by blast
qed

lemma counter_run_sim:
  assumes "sane_window w n"
  shows "\<exists>r r1. NewRollingCounter w n start s = (Returns r, s) \<and> gforeach rc_step ops r = (Returns (), r1) \<and>
    rc_sim (window_geometry w n start) (ws_run (window_geometry w n start) ops) r1"
  using new_counter_sim [OF assms, of start s] rc_steps_sim unfolding ws_run_def by blast

fun is_inc :: "rc_op \<Rightarrow> bool" where
  "is_inc (OpInc t) = True"
| "is_inc _ = False"

lemma ws_total_step: "ws_total (ws_step g op w) = ws_total w + (if is_inc op then 1 else 0)"
  by (cases op) (simp_all add: ws_advance_def Let_def)

lemma ws_total_fold: "ws_total (fold (ws_step g) ops w) = ws_total w + length (filter is_inc ops)"
  by (induction ops arbitrary: w) (simp_all add: ws_total_step)

lemma ws_total_run: "ws_total (ws_run g ops) = length (filter is_inc ops)"
  by (simp add: ws_run_def ws_total_fold) (simp add: ws_init_def)

subsection \<open>Reading the buckets in order\<close>

lemma GetBuckets_loop_ok:
  assumes n: "0 < n" "int (length (rc_buckets r)) = n"
    and idxs: "\<And>i. i \<in> set js \<Longrightarrow> 0 \<le> i \<and> i < n"
  shows "rc_GetBuckets_loop n (l mod n) js r =
    (Returns (map (\<lambda>i. rc_buckets r ! nat ((l - i) mod n)) js), r)"
  using idxs
proof (induction js)
  case (Cons i js)
  have i: "0 \<le> i" "i < n" using Cons.prems by auto
  have m: "0 \<le> l mod n" "l mod n < n" using n by simp_all
  have "(if l mod n - i < 0 then l mod n - i + n else l mod n - i) = (l mod n - i) mod n"
  proof (cases "l mod n - i < 0")
    case True
    have "(l mod n - i + n) mod n = l mod n - i + n"
      by (rule mod_pos_pos_trivial) (use i m True in auto)
    moreover have "(l mod n - i + n) mod n = (l mod n - i) mod n" by (rule mod_add_self2)
    ultimately show ?thesis using True by simp
  qed (use i m in simp)
  then have idx: "(if l mod n - i < 0 then l mod n - i + n else l mod n - i) = (l - i) mod n"
    by (simp add: mod_diff_left_eq)
  have "0 \<le> (l - i) mod n" "(l - i) mod n < int (length (rc_buckets r))" using n by simp_all
  with Cons show ?case
    unfolding rc_GetBuckets_loop.simps Let_def idx by (simp add: go_simps)
qed (simp add: go_simps)

lemma rc_GetBuckets_sim:
  assumes sim: "rc_sim g w r" and n: "0 < rb_NumBuckets g"
  shows "\<exists>r'. rc_GetBuckets now r =
      (Returns (map (\<lambda>i. wrap64 (int (count_list (ws_events w) (ws_last (ws_advance g now w) - i))))
                    [0..rb_NumBuckets g - 1]), r') \<and>
    rc_sim g (ws_advance g now w) r'"
proof -
  let ?n = "rb_NumBuckets g" and ?w = "ws_advance g now w"
  obtain x r1 where r1: "rc_Advance now r = (Returns x, r1)" and sim1: "rc_sim g ?w r1"
    using rc_Advance_sim [OF sim] by blast
  have len: "int (length (rc_buckets r1)) = ?n" "int (length (rc_buckets r)) = ?n"
    using rc_sim_length [OF sim1] rc_sim_length [OF sim] by simp_all
  have geo: "rb_NumBuckets (rc_rollingBucket r1) = ?n" "rb_NumBuckets (rc_rollingBucket r) = ?n"
    "rb_LastAbsIndex (rc_rollingBucket r1) = ws_last ?w" "0 \<le> ws_last ?w"
    using sim sim1 by (auto simp: rc_sim_def same_geometry_def rc_inv_def rb_inv_def)
  have cell: "rc_buckets r1 ! nat ((ws_last ?w - i) mod ?n) =
      wrap64 (int (count_list (ws_events w) (ws_last ?w - i)))" if "i \<in> set [0..?n - 1]" for i
  proof -
    have "slot_index ?n (ws_last ?w) ((ws_last ?w - i) mod ?n) = ws_last ?w - i"
      using that n by (intro slot_unique) (auto simp: in_window_def)
    moreover have "0 \<le> (ws_last ?w - i) mod ?n" "(ws_last ?w - i) mod ?n < ?n" using n by simp_all
    ultimately show ?thesis
      using rc_sim_cell [OF sim1, of "nat ((ws_last ?w - i) mod ?n)"] len
      by (simp add: ws_advance_def nat_less_iff)
  qed
  have "rc_GetBuckets now r =
      (Returns (map (\<lambda>i. rc_buckets r1 ! nat ((ws_last ?w - i) mod ?n)) [0..?n - 1]), r1)"
    using n len geo r1 GetBuckets_loop_ok [OF n len(1), of "[0..?n - 1]" "ws_last ?w"]
    by (auto simp: rc_GetBuckets_def go_simps rem64_nonneg)
  then show ?thesis using cell sim1 by (auto cong: map_cong)
qed

subsection \<open>Events in the order of time\<close>

lemma abs_index_mono: "0 < rb_BucketWidth g \<Longrightarrow> t \<le> t' \<Longrightarrow> abs_index g t \<le> abs_index g t'"
  by (simp add: abs_index_def zdiv_mono1 time_Sub_mono)

lemma sorted_incs:
  assumes "sorted ts" "\<And>t. t \<in> set ts \<Longrightarrow> usable g t \<and> ws_last w \<le> abs_index g t"
  shows "ws_events (fold (\<lambda>t. ws_step g (OpInc t)) ts w) = rev (map (abs_index g) ts) @ ws_events w \<and>
    (\<forall>now. (\<forall>t \<in> set ts. t \<le> now) \<and> usable g now \<and> ws_last w \<le> abs_index g now \<longrightarrow>
       ws_last (fold (\<lambda>t. ws_step g (OpInc t)) ts w) \<le> abs_index g now)"
  using assms
proof (induction ts arbitrary: w)
  case (Cons t ts)
  let ?w = "ws_step g (OpInc t) w"
  have t: "usable g t" "ws_last w \<le> abs_index g t" using Cons.prems(2) by auto
  then have w: "ws_last ?w = abs_index g t" "ws_events ?w = abs_index g t # ws_events w"
    by (auto simp: ws_advance_def ws_counts_def in_window_def usable_def Let_def)
  have width: "0 < rb_BucketWidth g" using t by (simp add: usable_def)
  have "usable g t' \<and> ws_last ?w \<le> abs_index g t'" if "t' \<in> set ts" for t'
    using Cons.prems that w(1) abs_index_mono [OF width, of t t'] by auto
  then have IH: "ws_events (fold (\<lambda>t. ws_step g (OpInc t)) ts ?w) = rev (map (abs_index g) ts) @ ws_events ?w \<and>
    (\<forall>now. (\<forall>t \<in> set ts. t \<le> now) \<and> usable g now \<and> ws_last ?w \<le> abs_index g now \<longrightarrow>
       ws_last (fold (\<lambda>t. ws_step g (OpInc t)) ts ?w) \<le> abs_index g now)"
    using Cons.prems(1) by (intro Cons.IH) auto
  have "ws_last ?w \<le> abs_index g now" if "t \<le> now" for now
    using w(1) abs_index_mono [OF width that] by simp
  then show ?case using IH w(2) by (simp del: ws_step.simps)
qed simp

text \<open>
  A counter whose events since the last reset happened at the times \<open>es\<close>, none of them later than
  \<open>t\<close>, the time of the last call. Calls at later times keep it.
\<close>

definition counted :: "RollingBuckets \<Rightarrow> gotime list \<Rightarrow> gotime \<Rightarrow> RollingCounter \<Rightarrow> bool" where
  "counted g es t r \<longleftrightarrow> (\<exists>w. rc_sim g w r \<and> ws_events w = map (abs_index g) es \<and> ws_last w \<le> abs_index g t)"

definition recent_events :: "RollingBuckets \<Rightarrow> gotime \<Rightarrow> gotime list \<Rightarrow> gotime list" where
  "recent_events g now es = filter (\<lambda>t. abs_index g now - rb_NumBuckets g < abs_index g t) es"

lemma advance_later:
  assumes "usable g t'" "t \<le> t'" "ws_last w \<le> abs_index g t"
  shows "ws_last (ws_advance g t' w) = abs_index g t'" "ws_events (ws_advance g t' w) = ws_events w"
    "ws_counts g t' w"
proof -
  have "ws_last w \<le> abs_index g t'"
    using assms abs_index_mono [of g t t'] by (auto simp: usable_def)
  then show "ws_last (ws_advance g t' w) = abs_index g t'" "ws_events (ws_advance g t' w) = ws_events w"
    "ws_counts g t' w"
    using assms(1) by (auto simp: ws_advance_def ws_counts_def in_window_def usable_def)
qed

lemma counted_Inc:
  assumes "counted g es t r" "t \<le> t'" "usable g t'"
  shows "\<exists>r'. rc_Inc t' r = (Returns (), r') \<and> counted g (t' # es) t' r'"
proof -
  obtain w where w: "rc_sim g w r" "ws_events w = map (abs_index g) es" "ws_last w \<le> abs_index g t"
    using assms(1) by (auto simp: counted_def)
  note adv = advance_later [OF assms(3,2) w(3)]
  obtain r' where "rc_Inc t' r = (Returns (), r')" "rc_sim g (ws_step g (OpInc t') w) r'"
    using rc_Inc_sim [OF w(1)] by blast
  then show ?thesis
    using adv w(2) by (auto simp: counted_def Let_def intro!: exI [of _ "ws_step g (OpInc t') w"])
qed

lemma counted_Reset:
  assumes "counted g es t r" "t \<le> t'" "usable g t'"
  shows "\<exists>r'. rc_Reset t' r = (Returns (), r') \<and> counted g [] t' r'"
proof -
  obtain w where w: "rc_sim g w r" "ws_events w = map (abs_index g) es" "ws_last w \<le> abs_index g t"
    using assms(1) by (auto simp: counted_def)
  note adv = advance_later [OF assms(3,2) w(3)]
  obtain r' where "rc_Reset t' r = (Returns (), r')" "rc_sim g (ws_step g (OpReset t') w) r'"
    using rc_Reset_sim [OF w(1)] by blast
  then show ?thesis
    using adv by (auto simp: counted_def intro!: exI [of _ "ws_step g (OpReset t') w"])
qed

lemma counted_Sum:
  assumes "counted g es t r" "t \<le> t'" "usable g t'"
  shows "\<exists>r'. rc_RollingSumAt t' r = (Returns (wrap64 (int (length (recent_events g t' es)))), r') \<and>
    counted g es t' r'"
proof -
  obtain w where w: "rc_sim g w r" "ws_events w = map (abs_index g) es" "ws_last w \<le> abs_index g t"
    using assms(1) by (auto simp: counted_def)
  note adv = advance_later [OF assms(3,2) w(3)]
  obtain r' where r': "rc_RollingSumAt t' r = (Returns (wrap64 (int (ws_sum g (ws_advance g t' w)))), r')"
    "rc_sim g (ws_advance g t' w) r'"
    using rc_RollingSumAt_sim [OF w(1)] by blast
  then have "\<forall>h \<in> set (ws_events w). h \<le> abs_index g t'" using adv by (simp add: rc_sim_def)
  then have "ws_sum g (ws_advance g t' w) = length (recent_events g t' es)"
    unfolding ws_sum_def recent_events_def adv w(2) filter_map o_def length_map in_window_def
    by (intro arg_cong [where f = length] filter_cong) auto
  then show ?thesis
    using r' adv w(2) by (auto simp: counted_def intro!: exI [of _ "ws_advance g t' w"])
qed

lemma counted_later: "counted g es t r \<Longrightarrow> t \<le> t' \<Longrightarrow> usable g t' \<Longrightarrow> counted g es t' r"
  using abs_index_mono [of g t t'] by (auto simp: counted_def usable_def intro: order_trans)

lemma length_recent_events: "length (recent_events g now es) \<le> length es"
  by (simp add: recent_events_def)

lemma new_counter_counted:
  assumes "sane_window w n" "0 < n"
  shows "\<exists>r. NewRollingCounter w n start s = (Returns r, s) \<and> counted (window_geometry w n start) [] start r"
proof -
  obtain r where "NewRollingCounter w n start s = (Returns r, s)" "rc_sim (window_geometry w n start) ws_init r"
    using new_counter_sim [OF assms(1), of start s] by blast
  moreover have "abs_index (window_geometry w n start) start = 0"
    by (simp add: abs_index_def window_geometry_def time_Sub_exact)
  ultimately show ?thesis by (auto simp: counted_def ws_init_def)
qed

lemma length_filter_mono:
  "(\<And>x. x \<in> set xs \<Longrightarrow> P x \<Longrightarrow> Q x) \<Longrightarrow> length (filter P xs) \<le> length (filter Q xs)"
  by (induction xs) (auto intro: le_SucI)

lemma age_in_window:
  assumes "0 < w" "d \<le> e"
  shows "e - d \<le> (n - 1) * w \<Longrightarrow> in_window n (e div w) (d div w)"
    and "in_window n (e div w) (d div w) \<Longrightarrow> e - d < n * w"
proof -
  have le: "d div w \<le> e div w" using assms by (simp add: zdiv_mono1)
  have d: "d = w * (d div w) + d mod w" "0 \<le> d mod w" "d mod w < w" using assms by simp_all
  have e: "e = w * (e div w) + e mod w" "0 \<le> e mod w" "e mod w < w" using assms by simp_all
  show "in_window n (e div w) (d div w)" if "e - d \<le> (n - 1) * w"
  proof -
    have "e \<le> d + (n - 1) * w" using that by simp
    then have "e div w \<le> (d + (n - 1) * w) div w" using assms(1) by (rule zdiv_mono1)
    also have "\<dots> = d div w + (n - 1)" using assms(1) by (simp add: div_mult_self1)
    finally show ?thesis using le by (simp add: in_window_def)
  qed
  show "e - d < n * w" if "in_window n (e div w) (d div w)"
  proof -
    have "e div w \<le> d div w + (n - 1)" using that by (simp add: in_window_def)
    then have "w * (e div w) \<le> w * (d div w + (n - 1))" using assms by simp
    then have "w * (e div w) \<le> w * (d div w) + (n * w - w)" by (simp add: algebra_simps)
    then show ?thesis using d e by linarith
  qed
qed


subsection \<open>Properties\<close>

text \<open>C20: A counter made by \<^verbatim>\<open>NewRollingCounter\<close> refines the abstract window through any sequence of
  \<^verbatim>\<open>Inc\<close>, \<^verbatim>\<open>RollingSumAt\<close> and \<^verbatim>\<open>Reset\<close> calls at any times, also times that go backwards: no call
  panics, the rolling sum is the number of events recorded since the last reset whose bucket is
  still in the window (modulo 64 bits), and the total counts every event ever.\<close>

theorem rolling_counter_refines_window:
  assumes "sane_window w n"
  shows "\<exists>r0 r1 r2. NewRollingCounter w n start () = (Returns r0, ()) \<and>
    gforeach rc_step ops r0 = (Returns (), r1) \<and>
    rc_RollingSumAt now r1 =
      (Returns (wrap64 (int (ws_sum (window_geometry w n start)
         (ws_advance (window_geometry w n start) now (ws_run (window_geometry w n start) ops))))), r2) \<and>
    rc_TotalSum r2 = wrap64 (int (length (filter is_inc ops)))"
proof -
  let ?g = "window_geometry w n start"
  obtain r0 r1 where r: "NewRollingCounter w n start () = (Returns r0, ())"
    "gforeach rc_step ops r0 = (Returns (), r1)" "rc_sim ?g (ws_run ?g ops) r1"
    using counter_run_sim [OF assms, of start "()" ops] by blast
  obtain r2 where r2: "rc_RollingSumAt now r1 =
      (Returns (wrap64 (int (ws_sum ?g (ws_advance ?g now (ws_run ?g ops))))), r2)"
    "rc_sim ?g (ws_advance ?g now (ws_run ?g ops)) r2"
    using rc_RollingSumAt_sim [OF r(3), of now] by blast
  then have "rc_TotalSum r2 = wrap64 (int (length (filter is_inc ops)))"
    by (simp add: rc_TotalSum_def rc_sim_def ws_advance_def ws_total_run)
  with r r2 show ?thesis by blast
qed

theorem rolling_counter_refines_window_witness:
  "\<exists>r0 r1 r2. NewRollingCounter 10 2 5 () = (Returns r0, ()) \<and>
    gforeach rc_step [OpInc 6, OpInc 17, OpInc 3, OpReset 18, OpInc 24, OpInc 30] r0 = (Returns (), r1) \<and>
    rc_RollingSumAt 31 r1 = (Returns 2, r2) \<and> rc_TotalSum r2 = 5"
  using rolling_counter_refines_window [of 10 2 5
      "[OpInc 6, OpInc 17, OpInc 3, OpReset 18, OpInc 24, OpInc 30]" 31]
  by (simp add: sane_window_def max_int64_def min_int64_def window_geometry_def ws_run_def ws_init_def ws_sum_def
      ws_advance_def ws_counts_def usable_def abs_index_def time_Sub_def in_window_def Let_def
      in_int64_def)

text \<open>In terms of real time: when events arrive in order, the rolling sum at \<open>now\<close> counts every
  event younger than or as old as \<open>NumBuckets - 1\<close> bucket widths, and no event as old as
  \<open>NumBuckets\<close> bucket widths.\<close>

theorem rolling_sum_tracks_recent_events:
  assumes geo: "sane_window w n" "0 < n"
    and ts: "sorted ts" "\<forall>t \<in> set ts. start \<le> t \<and> t \<le> now"
    and range: "start \<le> now" "now - start \<le> max_int64" "int (length ts) \<le> max_int64"
  shows "\<exists>r0 r1 sum r2. NewRollingCounter w n start () = (Returns r0, ()) \<and>
    gforeach rc_Inc ts r0 = (Returns (), r1) \<and> rc_RollingSumAt now r1 = (Returns sum, r2) \<and>
    int (length (filter (\<lambda>t. now - t \<le> (n - 1) * w) ts)) \<le> sum \<and>
    sum \<le> int (length (filter (\<lambda>t. now - t < n * w) ts))"
proof -
  let ?g = "window_geometry w n start"
  have w: "0 < w" using geo by (simp add: sane_window_def)
  have us: "usable ?g t" if "start \<le> t" for t
    using that geo w by (simp add: usable_def window_geometry_def)
  have idx: "abs_index ?g t = (t - start) div w" if "start \<le> t" "t \<le> now" for t
    using that range by (simp add: abs_index_def window_geometry_def time_Sub_exact in_int64_def min_int64_def)
  have pos: "0 \<le> abs_index ?g t" if "start \<le> t" "t \<le> now" for t
    using idx [OF that] that w by (simp add: pos_imp_zdiv_nonneg_iff)
  have run: "ws_run ?g (map OpInc ts) = fold (\<lambda>t. ws_step ?g (OpInc t)) ts ws_init"
    by (simp add: ws_run_def fold_map o_def)
  have ev: "ws_events (ws_run ?g (map OpInc ts)) = rev (map (abs_index ?g) ts)"
    and last: "ws_last (ws_run ?g (map OpInc ts)) \<le> abs_index ?g now"
    using sorted_incs [OF ts(1), of ?g ws_init] ts(2) us pos range
    unfolding run by (auto simp: ws_init_def)
  have sum: "ws_sum ?g (ws_advance ?g now (ws_run ?g (map OpInc ts))) =
      length (filter (\<lambda>t. in_window n ((now - start) div w) ((t - start) div w)) ts)"
    (is "_ = length (filter ?P ts)")
  proof -
    have "ws_sum ?g (ws_advance ?g now (ws_run ?g (map OpInc ts))) =
        length (filter (in_window n (abs_index ?g now)) (map (abs_index ?g) ts))"
      using us [of now] range last ev
      by (simp add: ws_sum_def ws_advance_def window_geometry_def max_absorb2 flip: rev_filter)
    also have "\<dots> = length (filter ?P ts)"
      unfolding filter_map o_def length_map
      using ts(2) range idx by (intro arg_cong [where f = length] filter_cong) auto
    finally show ?thesis .
  qed
  obtain r0 r1 where r: "NewRollingCounter w n start () = (Returns r0, ())"
    "gforeach rc_step (map OpInc ts) r0 = (Returns (), r1)" "rc_sim ?g (ws_run ?g (map OpInc ts)) r1"
    using counter_run_sim [OF geo(1), of start "()" "map OpInc ts"] by blast
  have incs: "gforeach rc_step (map OpInc ts) r0 = gforeach rc_Inc ts r0"
    by (induction ts arbitrary: r0) (simp_all add: go_simps split: outcome.splits prod.splits)
  have "length (filter ?P ts) \<le> length ts" by simp
  then have "in_int64 (int (length (filter ?P ts)))"
    using range(3) by (simp add: in_int64_def min_int64_def del: length_filter_le)
  then obtain r2 where r2: "rc_RollingSumAt now r1 = (Returns (int (length (filter ?P ts))), r2)"
    using rc_RollingSumAt_sim [OF r(3), of now] sum by auto
  have "length (filter (\<lambda>t. now - t \<le> (n - 1) * w) ts) \<le> length (filter ?P ts)"
    using ts(2) age_in_window(1) [OF w, of _ "now - start" n]
    by (intro length_filter_mono) fastforce
  moreover have "now - t < n * w" if "t \<in> set ts" "?P t" for t
    using ts(2) that age_in_window(2) [OF w, of "t - start" "now - start" n] by auto
  then have "length (filter ?P ts) \<le> length (filter (\<lambda>t. now - t < n * w) ts)"
    by (intro length_filter_mono)
  ultimately show ?thesis using r r2 incs by auto
qed


theorem rolling_sum_tracks_recent_events_witness:
  "\<exists>r0 r1 sum r2. NewRollingCounter 10 3 100 () = (Returns r0, ()) \<and>
    gforeach rc_Inc [101, 115, 122, 131] r0 = (Returns (), r1) \<and>
    rc_RollingSumAt 136 r1 = (Returns sum, r2) \<and> 2 \<le> sum \<and> sum \<le> 3"
  using rolling_sum_tracks_recent_events [of 10 3 "[101, 115, 122, 131]" 100 136]
  by (auto simp: sane_window_def max_int64_def)

text \<open>\<^verbatim>\<open>GetBuckets\<close> returns the buckets backwards in time: entry \<open>i\<close> is the number of events
  recorded since the last reset at the absolute index \<open>i\<close> before the most recent one.\<close>

theorem GetBuckets_backwards_in_time:
  assumes "sane_window w n" "0 < n"
  shows "\<exists>r0 r1 bs r2. NewRollingCounter w n start () = (Returns r0, ()) \<and>
    gforeach rc_step ops r0 = (Returns (), r1) \<and> rc_GetBuckets now r1 = (Returns bs, r2) \<and>
    int (length bs) = n \<and>
    (let g = window_geometry w n start; ws = ws_run g ops in
     \<forall>i < length bs. bs ! i =
       wrap64 (int (count_list (ws_events ws) (ws_last (ws_advance g now ws) - int i))))"
proof -
  let ?g = "window_geometry w n start"
  obtain r0 r1 where r: "NewRollingCounter w n start () = (Returns r0, ())"
    "gforeach rc_step ops r0 = (Returns (), r1)" "rc_sim ?g (ws_run ?g ops) r1"
    using counter_run_sim [OF assms(1), of start "()" ops] by blast
  have "rb_NumBuckets ?g = n" by (simp add: window_geometry_def)
  then show ?thesis
    using rc_GetBuckets_sim [OF r(3), of now] r(1,2) assms(2) by (auto simp: Let_def)
qed

theorem GetBuckets_backwards_in_time_witness:
  "\<exists>r0 r1 bs r2. NewRollingCounter 10 3 0 () = (Returns r0, ()) \<and>
    gforeach rc_step [OpInc 4, OpInc 12, OpInc 15, OpInc 31] r0 = (Returns (), r1) \<and>
    rc_GetBuckets 35 r1 = (Returns bs, r2) \<and> length bs = 3 \<and> bs ! 0 = 1 \<and> bs ! 1 = 0 \<and> bs ! 2 = 2"
proof -
  let ?g = "window_geometry 10 3 0" and ?ops = "[OpInc 4, OpInc 12, OpInc 15, OpInc 31]"
  have run: "ws_events (ws_run ?g ?ops) = [3, 1, 1, 0]" "ws_last (ws_advance ?g 35 (ws_run ?g ?ops)) = 3"
    by (simp_all add: window_geometry_def ws_run_def ws_init_def ws_advance_def ws_counts_def usable_def
        abs_index_def time_Sub_def max_int64_def min_int64_def in_window_def Let_def)
  obtain r0 r1 bs r2 where "NewRollingCounter 10 3 0 () = (Returns r0, ())"
    "gforeach rc_step ?ops r0 = (Returns (), r1)" "rc_GetBuckets 35 r1 = (Returns bs, r2)"
    and len: "int (length bs) = 3"
    and bs: "\<forall>i < length bs. bs ! i = wrap64 (int (count_list [3, 1, 1, 0] (3 - int i)))"
    using GetBuckets_backwards_in_time [of 10 3 0 ?ops 35] unfolding Let_def run
    by (auto simp: sane_window_def max_int64_def)
  then show ?thesis using bs [rule_format, of 0] bs [rule_format, of 1] bs [rule_format, of 2]
    by (auto simp: in_int64_def min_int64_def max_int64_def)
qed

text \<open>The JSON form of a counter restores it: whatever operations made the counter, decoding what
  \<^verbatim>\<open>MarshalJSON\<close> encoded into any receiver succeeds and gives the same counter; and an error, of
  any kind, leaves the receiver unmodified.\<close>

theorem counter_JSON_round_trip:
  assumes "rc_inv r"
  shows "rc_UnmarshalJSON (Some (rc_MarshalJSON r)) r' = (None, r) \<and>
    (\<forall>into e r''. rc_UnmarshalJSON into r' = (Some e, r'') \<longrightarrow> r'' = r')"
proof
  show "rc_UnmarshalJSON (Some (rc_MarshalJSON r)) r' = (None, r)"
    using assms by (simp add: rc_UnmarshalJSON_def rc_MarshalJSON_def rc_inv_def rb_inv_def
        RollingBuckets_validate_def RollingBuckets_Store_def)
  show "\<forall>into e r''. rc_UnmarshalJSON into r' = (Some e, r'') \<longrightarrow> r'' = r'"
    by (auto simp: rc_UnmarshalJSON_def split: option.splits if_splits)
qed

theorem counter_JSON_round_trip_witness:
  "let r = \<lparr>rc_buckets = [3, 1], rc_totalSum = 9,
             rc_rollingBucket = (window_geometry 10 2 50)\<lparr>rb_LastAbsIndex := 7\<rparr>\<rparr>;
       other = \<lparr>rc_buckets = [], rc_totalSum = 4, rc_rollingBucket = window_geometry 1 0 0\<rparr>
   in rc_UnmarshalJSON (Some (rc_MarshalJSON r)) other = (None, r)"
  unfolding Let_def
  by (rule counter_JSON_round_trip [THEN conjunct1])
     (simp add: rc_inv_def rb_inv_def window_geometry_def max_int64_def)

end
