(* ===== verification/HystrixOpener.thy ===== *)
theory HystrixOpener
  imports Interfaces RollingCounter
begin

text \<open>
  Model of \<^verbatim>\<open>closers/hystrix/opener.go\<close>: the closed to open logic that opens the circuit when the
  rolling error percentage is high enough over enough requests.

  The two rolling counters are those of \<open>RollingCounter\<close>; the methods of \<^verbatim>\<open>circuit.ClosedToOpen\<close> are
  collected in the table \<open>Opener_vt\<close>. \<open>wall\<close> stands for \<^verbatim>\<open>time.Now\<close>. The configuration methods take
  a type of their own, so that an opener does not satisfy the circuit's \<^verbatim>\<open>Configurable\<close>.
\<close>

record ConfigureOpener =
  cop_ErrorThresholdPercentage :: int64
  cop_RequestVolumeThreshold :: int64
  cop_Now :: "clock option"
  cop_RollingDuration :: duration
  cop_NumBuckets :: int

record Opener =
  op_errorsCount :: RollingCounter
  op_legitimateAttemptsCount :: RollingCounter
  op_errorPercentage :: int64
  op_requestVolumeThreshold :: int64
  op_config :: ConfigureOpener

definition cop_now :: "clock \<Rightarrow> ConfigureOpener \<Rightarrow> (gotime, nat) go" where
  "cop_now wall c = (case cop_Now c of None \<Rightarrow> read_clock wall | Some now \<Rightarrow> read_clock now)"

definition cop_Merge :: "ConfigureOpener \<Rightarrow> ConfigureOpener \<Rightarrow> ConfigureOpener" where
  "cop_Merge c other =
     (let c = (if cop_ErrorThresholdPercentage c = 0
               then c\<lparr>cop_ErrorThresholdPercentage := cop_ErrorThresholdPercentage other\<rparr> else c);
          c = (if cop_RequestVolumeThreshold c = 0
               then c\<lparr>cop_RequestVolumeThreshold := cop_RequestVolumeThreshold other\<rparr> else c);
          c = (if cop_Now c = None then c\<lparr>cop_Now := cop_Now other\<rparr> else c);
          c = (if cop_RollingDuration c = 0
               then c\<lparr>cop_RollingDuration := cop_RollingDuration other\<rparr> else c)
      in if cop_NumBuckets c = 0 then c\<lparr>cop_NumBuckets := cop_NumBuckets other\<rparr> else c)"

definition defaultConfigureOpener :: "clock \<Rightarrow> ConfigureOpener" where
  "defaultConfigureOpener wall = \<lparr>cop_ErrorThresholdPercentage = 50, cop_RequestVolumeThreshold = 20,
     cop_Now = Some wall, cop_RollingDuration = 10 * second, cop_NumBuckets = 10\<rparr>"

definition op_on_errors :: "('a, RollingCounter) go \<Rightarrow> ('a, Opener) go" where
  "op_on_errors = gzoom op_errorsCount (\<lambda>c e. e\<lparr>op_errorsCount := c\<rparr>)"

definition op_on_attempts :: "('a, RollingCounter) go \<Rightarrow> ('a, Opener) go" where
  "op_on_attempts = gzoom op_legitimateAttemptsCount (\<lambda>c e. e\<lparr>op_legitimateAttemptsCount := c\<rparr>)"

definition op_Closed :: "ctx \<Rightarrow> gotime \<Rightarrow> (unit, Opener) go" where
  "op_Closed ctx now = gseq (op_on_errors (rc_Reset now)) (op_on_attempts (rc_Reset now))"

definition op_Opened :: "ctx \<Rightarrow> gotime \<Rightarrow> (unit, Opener) go" where
  "op_Opened ctx now = gseq (op_on_errors (rc_Reset now)) (op_on_attempts (rc_Reset now))"

definition op_Success :: "ctx \<Rightarrow> gotime \<Rightarrow> duration \<Rightarrow> (unit, Opener) go" where
  "op_Success ctx now d = op_on_attempts (rc_Inc now)"

definition op_Prevent :: "ctx \<Rightarrow> gotime \<Rightarrow> (bool, Opener) go" where
  "op_Prevent ctx now = greturn False"

definition op_ErrFailure :: "ctx \<Rightarrow> gotime \<Rightarrow> duration \<Rightarrow> (unit, Opener) go" where
  "op_ErrFailure ctx now d = gseq (op_on_attempts (rc_Inc now)) (op_on_errors (rc_Inc now))"

definition op_ErrTimeout :: "ctx \<Rightarrow> gotime \<Rightarrow> duration \<Rightarrow> (unit, Opener) go" where
  "op_ErrTimeout ctx now d = gseq (op_on_attempts (rc_Inc now)) (op_on_errors (rc_Inc now))"

definition op_ShouldOpen :: "ctx \<Rightarrow> gotime \<Rightarrow> (bool, Opener) go" where
  "op_ShouldOpen ctx now =
     gbind (op_on_attempts (rc_RollingSumAt now)) (\<lambda>attemptCount.
     gbind (gget op_requestVolumeThreshold) (\<lambda>threshold.
     if attemptCount = 0 \<or> attemptCount < threshold then greturn False
     else
       gbind (op_on_errors (rc_RollingSumAt now)) (\<lambda>errs.
       gbind (gget op_errorPercentage) (\<lambda>pct.
       greturn (mul64 errs 100 \<ge> mul64 pct attemptCount)))))"

definition op_SetConfigThreadSafe :: "ConfigureOpener \<Rightarrow> Opener \<Rightarrow> Opener" where
  "op_SetConfigThreadSafe props e = e\<lparr>op_config := props,
     op_errorPercentage := cop_ErrorThresholdPercentage props,
     op_requestVolumeThreshold := cop_RequestVolumeThreshold props\<rparr>"

text \<open>The state is the opener and the clock counter of the world.\<close>

definition op_SetConfigNotThreadSafe :: "clock \<Rightarrow> ConfigureOpener \<Rightarrow> (unit, Opener \<times> nat) go" where
  "op_SetConfigNotThreadSafe wall props0 =
     (let props1 = (if cop_NumBuckets props0 \<le> 0
                    then props0\<lparr>cop_NumBuckets := cop_NumBuckets (defaultConfigureOpener wall)\<rparr> else props0);
          props = (if cop_RollingDuration props1 \<le> 0
                   then props1\<lparr>cop_RollingDuration := cop_RollingDuration (defaultConfigureOpener wall)\<rparr>
                   else props1)
      in
      gseq (gmodify (\<lambda>(e, n). (op_SetConfigThreadSafe props e, n)))
     (gbind (gzoom snd (\<lambda>n (e, _). (e, n)) (cop_now wall props)) (\<lambda>now.
      gbind (gquo (cop_RollingDuration props) (cop_NumBuckets props)) (\<lambda>rollingCounterBucketWidth.
      gbind (NewRollingCounter rollingCounterBucketWidth (cop_NumBuckets props) now) (\<lambda>errs.
      gseq (gmodify (\<lambda>(e, n). (e\<lparr>op_errorsCount := errs\<rparr>, n)))
     (gbind (NewRollingCounter rollingCounterBucketWidth (cop_NumBuckets props) now) (\<lambda>attempts.
      gmodify (\<lambda>(e, n). (e\<lparr>op_legitimateAttemptsCount := attempts\<rparr>, n)))))))))"

definition op_Config :: "Opener \<Rightarrow> ConfigureOpener" where
  "op_Config e = op_config e"

definition Opener_vt :: "Opener ClosedToOpen" where
  "Opener_vt = \<lparr>rm_Success = op_Success, rm_ErrFailure = op_ErrFailure,
     rm_ErrTimeout = op_ErrTimeout, rm_ErrBadRequest = (\<lambda>_ _ _. greturn ()),
     rm_ErrInterrupt = (\<lambda>_ _ _. greturn ()), rm_ErrConcurrencyLimitReject = (\<lambda>_ _. greturn ()),
     rm_ErrShortCircuit = (\<lambda>_ _. greturn ()),
     sm_Closed = op_Closed, sm_Opened = op_Opened,
     sm_SetConfigThreadSafe = None, sm_SetConfigNotThreadSafe = None,
     co_ShouldOpen = op_ShouldOpen, co_Prevent = op_Prevent\<rparr>"

definition zero_ConfigureOpener :: ConfigureOpener where
  "zero_ConfigureOpener = \<lparr>cop_ErrorThresholdPercentage = 0, cop_RequestVolumeThreshold = 0,
     cop_Now = None, cop_RollingDuration = 0, cop_NumBuckets = 0\<rparr>"

definition zero_Opener :: Opener where
  "zero_Opener = \<lparr>op_errorsCount = zero_RollingCounter, op_legitimateAttemptsCount = zero_RollingCounter,
     op_errorPercentage = 0, op_requestVolumeThreshold = 0, op_config = zero_ConfigureOpener\<rparr>"

definition OpenerFactory :: "clock \<Rightarrow> ConfigureOpener \<Rightarrow> (Opener ClosedToOpen \<times> Opener, nat) go" where
  "OpenerFactory wall config n =
     (let cfg = cop_Merge config (defaultConfigureOpener wall) in
      case op_SetConfigNotThreadSafe wall cfg (zero_Opener, n) of
        (Returns _, (s, n')) \<Rightarrow> (Returns (Opener_vt, s), n')
      | (Panics p, (s, n')) \<Rightarrow> (Panics p, n')
      | (Blocks, (s, n')) \<Rightarrow> (Blocks, n'))"

subsection \<open>The contract towards the circuit\<close>

definition op_ok :: "Opener \<Rightarrow> bool" where
  "op_ok e \<longleftrightarrow> rc_inv (op_errorsCount e) \<and> rc_inv (op_legitimateAttemptsCount e)"

lemma op_on_safe [intro]:
  "safe rc_inv m \<Longrightarrow> safe op_ok (op_on_errors m)"
  "safe rc_inv m \<Longrightarrow> safe op_ok (op_on_attempts m)"
  unfolding op_on_errors_def op_on_attempts_def
  by (rule safe_gzoom [where ok' = rc_inv]; simp add: op_ok_def)+

lemmas rc_safe = rc_Inc_safe rc_Reset_safe rc_RollingSumAt_safe

lemma op_ShouldOpen_safe: "safe op_ok (op_ShouldOpen ctx now)"
  unfolding op_ShouldOpen_def by (auto intro!: rc_safe safe_gbind)

lemmas op_method_defs = op_Success_def op_ErrFailure_def op_ErrTimeout_def op_Closed_def op_Opened_def

interpretation hystrix_opener: closed_to_open Opener_vt op_ok
proof (unfold_locales)
  fix ev ctx now
  show "safe op_ok (rm_send ev ctx now Opener_vt)"
    by (cases ev) (auto simp: Opener_vt_def op_method_defs intro!: rc_safe)
qed (auto simp: Opener_vt_def op_method_defs op_ShouldOpen_safe op_Prevent_def intro!: rc_safe)


subsection \<open>The opener's memory, as a specification\<close>

text \<open>
  A history is a list of calls in the order they were made: reports of the circuit, and questions
  whether to open. \<open>reported P h\<close> are the times of the reports with \<open>P\<close> since the circuit last opened
  or closed, the most recent first.
\<close>

datatype opener_call = Report sm_event | Ask

type_synonym opener_history = "(opener_call \<times> ctx \<times> gotime) list"

fun op_call :: "opener_call \<Rightarrow> ctx \<Rightarrow> gotime \<Rightarrow> (unit, Opener) go" where
  "op_call (Report ev) ctx now = sm_send ev ctx now Opener_vt"
| "op_call Ask ctx now = gseq (co_ShouldOpen Opener_vt ctx now) (greturn ())"

definition op_run :: "opener_history \<Rightarrow> (unit, Opener) go" where
  "op_run = gforeach (\<lambda>(c, ctx, now). op_call c ctx now)"

fun is_report :: "(sm_event \<Rightarrow> bool) \<Rightarrow> opener_call \<Rightarrow> bool" where
  "is_report P (Report ev) = P ev"
| "is_report P Ask = False"

definition reported :: "(sm_event \<Rightarrow> bool) \<Rightarrow> opener_history \<Rightarrow> gotime list" where
  "reported P h = map (snd \<circ> snd) (filter (is_report P \<circ> fst)
     (takeWhile (\<lambda>x. \<not> is_report is_transition (fst x)) (rev h)))"

text \<open>The decision, from the times of the attempts and of the errors.\<close>

definition opens_spec :: "RollingBuckets \<Rightarrow> int64 \<Rightarrow> int64 \<Rightarrow> gotime \<Rightarrow> gotime list \<Rightarrow> gotime list \<Rightarrow> bool" where
  "opens_spec g threshold pct now attempts errs \<longleftrightarrow>
     (let attempts = int (length (recent_events g now attempts));
          errs = int (length (recent_events g now errs))
      in attempts \<noteq> 0 \<and> threshold \<le> attempts \<and> pct * attempts \<le> 100 * errs)"

definition should_open_spec :: "RollingBuckets \<Rightarrow> int64 \<Rightarrow> int64 \<Rightarrow> gotime \<Rightarrow> opener_history \<Rightarrow> bool" where
  "should_open_spec g threshold pct now h \<longleftrightarrow>
     opens_spec g threshold pct now (reported counts_attempt h) (reported counts_error h)"

text \<open>The times of the reports with \<open>P\<close> after one more report.\<close>

definition after_report :: "(sm_event \<Rightarrow> bool) \<Rightarrow> sm_event \<Rightarrow> gotime \<Rightarrow> gotime list \<Rightarrow> gotime list" where
  "after_report P ev t ts = (if is_transition ev then [] else if P ev then t # ts else ts)"

lemma reported_snoc:
  "reported P (h @ [(c, ctx, t)]) =
    (if is_report is_transition c then []
     else if is_report P c then t # reported P h else reported P h)"
  by (simp add: reported_def)

lemma reported_report: "reported P (h @ [(Report ev, ctx, t)]) = after_report P ev t (reported P h)"
  by (simp add: reported_snoc after_report_def)

lemma length_reported: "length (reported P h) \<le> length h"
proof -
  have "length (reported P h) \<le> length (takeWhile (\<lambda>x. \<not> is_report is_transition (fst x)) (rev h))"
    by (simp add: reported_def)
  also have "\<dots> \<le> length h" using length_takeWhile_le [of _ "rev h"] by simp
  finally show ?thesis .
qed

text \<open>The counters hold the attempts at the times \<open>as\<close> and the errors at the times \<open>es\<close>.\<close>

definition op_counts :: "RollingBuckets \<Rightarrow> gotime list \<Rightarrow> gotime list \<Rightarrow> gotime \<Rightarrow> Opener \<Rightarrow> Opener \<Rightarrow> bool" where
  "op_counts g as es t e0 e \<longleftrightarrow>
     counted g as t (op_legitimateAttemptsCount e) \<and> counted g es t (op_errorsCount e) \<and>
     op_requestVolumeThreshold e = op_requestVolumeThreshold e0 \<and> op_errorPercentage e = op_errorPercentage e0"

definition op_sim :: "RollingBuckets \<Rightarrow> opener_history \<Rightarrow> gotime \<Rightarrow> Opener \<Rightarrow> Opener \<Rightarrow> bool" where
  "op_sim g h t e0 e \<longleftrightarrow> op_counts g (reported counts_attempt h) (reported counts_error h) t e0 e"

lemma op_on_errors_run: "op_on_errors m e = (case m (op_errorsCount e) of (r, c) \<Rightarrow> (r, e\<lparr>op_errorsCount := c\<rparr>))"
  and op_on_attempts_run: "op_on_attempts m e =
    (case m (op_legitimateAttemptsCount e) of (r, c) \<Rightarrow> (r, e\<lparr>op_legitimateAttemptsCount := c\<rparr>))"
  by (simp_all add: op_on_errors_def op_on_attempts_def go_simps)

lemmas op_runs = op_on_errors_run op_on_attempts_run

lemma op_ShouldOpen_counts:
  assumes sim: "op_counts g as es t e0 e" and t: "t \<le> t'" "usable g t'"
    and small: "length es \<le> n" "length as \<le> n" "100 * int n \<le> max_int64" "0 \<le> op_errorPercentage e0"
      "op_errorPercentage e0 * int n \<le> max_int64"
  shows "\<exists>e'. op_ShouldOpen ctx t' e =
      (Returns (opens_spec g (op_requestVolumeThreshold e0) (op_errorPercentage e0) t' as es), e') \<and>
    op_counts g as es t' e0 e'"
proof -
  let ?A = "int (length (recent_events g t' as))"
  let ?E = "int (length (recent_events g t' es))"
  let ?pct = "op_errorPercentage e0"
  from sim have a: "counted g as t (op_legitimateAttemptsCount e)" and er: "counted g es t (op_errorsCount e)"
    and cfg: "op_requestVolumeThreshold e = op_requestVolumeThreshold e0" "op_errorPercentage e = ?pct"
    by (auto simp: op_counts_def)
  have le: "?A \<le> int n" "?E \<le> int n"
    using length_recent_events small(1,2) by (meson order_trans of_nat_mono)+
  have "?pct * ?A \<le> max_int64" "0 \<le> ?pct * ?A"
    using le small(4,5) mult_left_mono [of ?A "int n" ?pct] by simp_all
  then have range: "in_int64 ?A" "in_int64 ?E" "in_int64 (?E * 100)" "in_int64 (?pct * ?A)"
    using le small(3) by (simp_all add: in_int64_def min_int64_def max_int64_def)
  obtain ra where ra: "rc_RollingSumAt t' (op_legitimateAttemptsCount e) = (Returns ?A, ra)" "counted g as t' ra"
    using counted_Sum [OF a t] range(1) by auto
  obtain re where re: "rc_RollingSumAt t' (op_errorsCount e) = (Returns ?E, re)" "counted g es t' re"
    using counted_Sum [OF er t] range(2) by auto
  have er': "counted g es t' (op_errorsCount e)"
    using counted_later [OF er t] .
  show ?thesis
    using ra re er' cfg range
    by (auto simp: op_ShouldOpen_def go_simps op_runs op_counts_def opens_spec_def Let_def mul64_exact
        mult.commute)
qed

lemma op_report_counts:
  assumes sim: "op_counts g as es t e0 e" and t: "t \<le> t'" "usable g t'"
  shows "\<exists>e'. sm_send ev ctx t' Opener_vt e = (Returns (), e') \<and>
    op_counts g (after_report counts_attempt ev t' as) (after_report counts_error ev t' es) t' e0 e'"
proof -
  from sim have a: "counted g as t (op_legitimateAttemptsCount e)" and er: "counted g es t (op_errorsCount e)"
    by (auto simp: op_counts_def)
  note incs = counted_Inc [OF a t] counted_Inc [OF er t] counted_Reset [OF a t] counted_Reset [OF er t]
    counted_later [OF a t] counted_later [OF er t]
  note defs = Opener_vt_def op_method_defs go_simps op_runs op_counts_def after_report_def
  show ?thesis
  proof (cases ev)
    case (SmRun r)
    then show ?thesis using incs sim by (cases r) (auto simp: defs)
  qed (use incs sim in \<open>auto simp: defs\<close>)
qed

lemma op_ShouldOpen_sim:
  assumes "op_sim g h t e0 e" "t \<le> t'" "usable g t'"
    and "100 * int (length h) \<le> max_int64" "0 \<le> op_errorPercentage e0"
      "op_errorPercentage e0 * int (length h) \<le> max_int64"
  shows "\<exists>e'. op_ShouldOpen ctx t' e =
      (Returns (should_open_spec g (op_requestVolumeThreshold e0) (op_errorPercentage e0) t' h), e') \<and>
    op_sim g h t' e0 e'"
  using op_ShouldOpen_counts [OF assms(1) [unfolded op_sim_def] assms(2,3) length_reported length_reported assms(4-6)]
  by (simp add: op_sim_def should_open_spec_def)

lemma op_report_sim:
  assumes "op_sim g h t e0 e" "t \<le> t'" "usable g t'"
  shows "\<exists>e'. sm_send ev ctx t' Opener_vt e = (Returns (), e') \<and>
    op_sim g (h @ [(Report ev, ctx, t')]) t' e0 e'"
  using op_report_counts [OF assms(1) [unfolded op_sim_def] assms(2,3), of ev ctx]
  by (simp add: op_sim_def reported_report)

lemma op_call_sim:
  assumes sim: "op_sim g h t e0 e" and t: "t \<le> t'" "usable g t'"
    and small: "100 * int (length h) \<le> max_int64" "0 \<le> op_errorPercentage e0"
      "op_errorPercentage e0 * int (length h) \<le> max_int64"
  shows "\<exists>e'. op_call c ctx t' e = (Returns (), e') \<and> op_sim g (h @ [(c, ctx, t')]) t' e0 e'"
proof (cases c)
  case (Report ev)
  then show ?thesis using op_report_sim [OF sim t] by simp
next
  case Ask
  then show ?thesis
    using op_ShouldOpen_sim [OF assms, of ctx]
    by (auto simp: go_simps Opener_vt_def op_sim_def reported_snoc)
qed

text \<open>Calls in the order of time.\<close>

fun in_order :: "gotime \<Rightarrow> opener_history \<Rightarrow> bool" where
  "in_order t [] = True"
| "in_order t ((c, ctx, t') # h) = (t \<le> t' \<and> in_order t' h)"

fun end_time :: "gotime \<Rightarrow> opener_history \<Rightarrow> gotime" where
  "end_time t [] = t"
| "end_time t ((c, ctx, t') # h) = end_time t' h"

lemma end_time_ge: "in_order t h \<Longrightarrow> t \<le> end_time t h"
  by (induction t h rule: in_order.induct) auto

lemma op_run_sim:
  assumes "op_sim g h t e0 e" "in_order t h'" "usable g t"
    and "100 * int (length (h @ h')) \<le> max_int64" "0 \<le> op_errorPercentage e0"
      "op_errorPercentage e0 * int (length (h @ h')) \<le> max_int64"
  shows "\<exists>e'. op_run h' e = (Returns (), e') \<and> op_sim g (h @ h') (end_time t h') e0 e'"
  using assms
proof (induction h' arbitrary: h t e)
  case (Cons x h')
  obtain c ctx t' where x: "x = (c, ctx, t')" by (cases x)
  have t: "t \<le> t'" "in_order t' h'" "usable g t'"
    using Cons.prems x by (auto simp: usable_def)
  have "op_errorPercentage e0 * int (length h) \<le> op_errorPercentage e0 * int (length (h @ x # h'))"
    using Cons.prems(5) by (intro mult_left_mono) simp_all
  then obtain e1 where e1: "op_call c ctx t' e = (Returns (), e1)" "op_sim g (h @ [(c, ctx, t')]) t' e0 e1"
    using op_call_sim [OF Cons.prems(1) t(1,3), of c ctx] Cons.prems by auto
  obtain e2 where "op_run h' e1 = (Returns (), e2)" "op_sim g ((h @ [(c, ctx, t')]) @ h') (end_time t' h') e0 e2"
    using Cons.IH [OF e1(2) t(2,3)] Cons.prems x by auto
  then show ?case using e1 by (simp add: op_run_def go_simps x)
qed (simp add: op_run_def go_simps)

subsection \<open>The opener the factory makes\<close>

text \<open>The configuration in force: unset fields from the defaults, and no window without buckets.\<close>

definition op_effective :: "clock \<Rightarrow> ConfigureOpener \<Rightarrow> ConfigureOpener" where
  "op_effective wall config =
     (let c = cop_Merge config (defaultConfigureOpener wall)
      in c\<lparr>cop_NumBuckets := (if cop_NumBuckets c \<le> 0 then 10 else cop_NumBuckets c),
          cop_RollingDuration := (if cop_RollingDuration c \<le> 0 then 10 * second else cop_RollingDuration c)\<rparr>)"

definition op_geometry :: "ConfigureOpener \<Rightarrow> gotime \<Rightarrow> RollingBuckets" where
  "op_geometry c start =
     window_geometry (quo64 (cop_RollingDuration c) (cop_NumBuckets c)) (cop_NumBuckets c) start"

lemma op_effective_positive: "0 < cop_NumBuckets (op_effective wall config)"
  "0 < cop_RollingDuration (op_effective wall config)"
  by (simp_all add: op_effective_def Let_def)

lemma op_effective_Now: "cop_Now (op_effective wall config) =
    Some (case cop_Now config of None \<Rightarrow> wall | Some now \<Rightarrow> now)"
  by (simp add: op_effective_def cop_Merge_def defaultConfigureOpener_def Let_def split: option.split)

lemma SetConfigNotThreadSafe_effective:
  fixes config :: ConfigureOpener and wall :: clock
  defines "c \<equiv> op_effective wall config"
  assumes now: "start = (case cop_Now config of None \<Rightarrow> wall | Some now \<Rightarrow> now) n"
    and made: "NewRollingCounter (quo64 (cop_RollingDuration c) (cop_NumBuckets c)) (cop_NumBuckets c) start =
      (greturn r :: (RollingCounter, Opener \<times> nat) go)"
  shows "op_SetConfigNotThreadSafe wall (cop_Merge config (defaultConfigureOpener wall)) (e, n) =
    (Returns (), (op_SetConfigThreadSafe c e)\<lparr>op_errorsCount := r, op_legitimateAttemptsCount := r\<rparr>, Suc n)"
proof -
  let ?p = "cop_Merge config (defaultConfigureOpener wall)"
  let ?p1 = "if cop_NumBuckets ?p \<le> 0 then ?p\<lparr>cop_NumBuckets := 10\<rparr> else ?p"
  have p: "(if cop_RollingDuration ?p1 \<le> 0 then ?p1\<lparr>cop_RollingDuration := 10 * second\<rparr> else ?p1) = c"
    by (simp add: c_def op_effective_def Let_def)
  have "cop_now wall c = read_clock (case cop_Now config of None \<Rightarrow> wall | Some now \<Rightarrow> now)"
    by (simp add: cop_now_def c_def op_effective_Now)
  moreover have "cop_NumBuckets c \<noteq> 0" using op_effective_positive(1) [of wall config] by (simp add: c_def)
  moreover have "cop_NumBuckets (defaultConfigureOpener wall) = 10"
    "cop_RollingDuration (defaultConfigureOpener wall) = 10 * second"
    by (simp_all add: defaultConfigureOpener_def)
  ultimately show ?thesis
    unfolding op_SetConfigNotThreadSafe_def Let_def
    by (simp only: p) (simp add: go_simps now made [unfolded now])
qed

lemma OpenerFactory_sim:
  fixes config :: ConfigureOpener and wall :: clock
  defines "c \<equiv> op_effective wall config"
  assumes start: "start = (case cop_Now config of None \<Rightarrow> wall | Some now \<Rightarrow> now) n"
    and sane: "sane_window (quo64 (cop_RollingDuration c) (cop_NumBuckets c)) (cop_NumBuckets c)"
  shows "\<exists>e0. OpenerFactory wall config n = (Returns (Opener_vt, e0), Suc n) \<and>
    op_sim (op_geometry c start) [] start e0 e0 \<and>
    op_requestVolumeThreshold e0 = cop_RequestVolumeThreshold c \<and>
    op_errorPercentage e0 = cop_ErrorThresholdPercentage c"
proof -
  let ?w = "quo64 (cop_RollingDuration c) (cop_NumBuckets c)" and ?n = "cop_NumBuckets c"
  have pos: "0 < ?n" using op_effective_positive by (simp add: c_def)
  define r where "r = \<lparr>rc_buckets = replicate (nat ?n) 0, rc_totalSum = 0,
    rc_rollingBucket = window_geometry ?w ?n start\<rparr>"
  have made: "NewRollingCounter ?w ?n start = (greturn r :: (RollingCounter, 's) go)"
    using NewRollingCounter_greturn [of ?n ?w start] pos by (simp add: r_def)
  have "counted (op_geometry c start) [] start r"
    using new_counter_counted [OF sane pos, of start "()"] by (auto simp: made go_simps op_geometry_def)
  then show ?thesis
    using SetConfigNotThreadSafe_effective [OF start made [unfolded c_def], of zero_Opener]
    by (auto simp: OpenerFactory_def Let_def op_sim_def op_counts_def reported_def op_SetConfigThreadSafe_def c_def)
qed

subsection \<open>Properties\<close>

text \<open>C22: An opener made by the factory, asked at \<open>now\<close> after any history of reports and earlier
  questions in the order of time, answers that the circuit should open exactly when the rolling window
  of the effective configuration holds at least one attempt, at least the request volume threshold of
  them, and the errors are at or above the error percentage of the attempts. Attempts are successes,
  failures and timeouts reported since the last opening or closing; errors are failures and timeouts.\<close>

theorem hystrix_opens_on_error_percentage:
  assumes "c = op_effective wall config" "start = (case cop_Now config of None \<Rightarrow> wall | Some now \<Rightarrow> now) n"
    and "sane_window (quo64 (cop_RollingDuration c) (cop_NumBuckets c)) (cop_NumBuckets c)"
    and "in_order start h" "end_time start h \<le> now"
    and "100 * int (length h) \<le> max_int64" "0 \<le> cop_ErrorThresholdPercentage c"
      "cop_ErrorThresholdPercentage c * int (length h) \<le> max_int64"
  shows "\<exists>e0 e1 e2. OpenerFactory wall config n = (Returns (Opener_vt, e0), Suc n) \<and>
    op_run h e0 = (Returns (), e1) \<and>
    co_ShouldOpen Opener_vt ctx now e1 =
      (Returns (should_open_spec (op_geometry c start) (cop_RequestVolumeThreshold c)
         (cop_ErrorThresholdPercentage c) now h), e2)"
proof -
  let ?g = "op_geometry c start"
  obtain e0 where e0: "OpenerFactory wall config n = (Returns (Opener_vt, e0), Suc n)"
    "op_sim ?g [] start e0 e0" "op_requestVolumeThreshold e0 = cop_RequestVolumeThreshold c"
    "op_errorPercentage e0 = cop_ErrorThresholdPercentage c"
    using OpenerFactory_sim [OF assms(2)] assms(1,3) by auto
  have us: "usable ?g t" if "start \<le> t" for t
    using that assms(3) op_effective_positive(1) [of wall config]
    by (simp add: usable_def op_geometry_def window_geometry_def sane_window_def assms(1))
  obtain e1 where e1: "op_run h e0 = (Returns (), e1)" "op_sim ?g h (end_time start h) e0 e1"
    using op_run_sim [OF e0(2) assms(4)] us assms(6-8) e0(4) by auto
  have "start \<le> now" using end_time_ge [OF assms(4)] assms(5) by simp
  then show ?thesis
    using op_ShouldOpen_sim [OF e1(2) assms(5) us] e0 e1 assms(6-8) by (auto simp: Opener_vt_def)
qed

definition hystrix_example_history :: opener_history where
  "hystrix_example_history =
     [(Report (SmRun (EvErrFailure 1)), ctx_Background, 1000), (Report (SmRun (EvSuccess 1)), ctx_Background, 1001),
      (Ask, ctx_Background, 1002), (Report (SmRun (EvErrBadRequest 1)), ctx_Background, 1003),
      (Report (SmRun (EvErrTimeout 1)), ctx_Background, 1004)]"

theorem hystrix_opens_on_error_percentage_witness:
  "\<exists>e0 e1 e2.
    OpenerFactory (\<lambda>_. 1000) (zero_ConfigureOpener\<lparr>cop_RequestVolumeThreshold := 3,
        cop_ErrorThresholdPercentage := 60\<rparr>) 0 = (Returns (Opener_vt, e0), Suc 0) \<and>
    op_run hystrix_example_history e0 = (Returns (), e1) \<and>
    co_ShouldOpen Opener_vt ctx_Background 1005 e1 = (Returns True, e2)"
proof -
  let ?cfg = "zero_ConfigureOpener\<lparr>cop_RequestVolumeThreshold := 3, cop_ErrorThresholdPercentage := 60\<rparr>"
  let ?c = "\<lparr>cop_ErrorThresholdPercentage = 60, cop_RequestVolumeThreshold = 3,
     cop_Now = Some (\<lambda>_. 1000), cop_RollingDuration = 10000000000, cop_NumBuckets = 10\<rparr>"
  have c: "?c = op_effective (\<lambda>_. 1000) ?cfg"
    by (simp add: op_effective_def cop_Merge_def defaultConfigureOpener_def zero_ConfigureOpener_def Let_def)
  have w: "quo64 10000000000 10 = 1000000000" by (simp add: quo64_nonneg max_int64_def)
  have spec: "should_open_spec (op_geometry ?c 1000) 3 60 1005 hystrix_example_history"
    by (simp add: should_open_spec_def opens_spec_def op_geometry_def w window_geometry_def hystrix_example_history_def
        reported_def recent_events_def abs_index_def time_Sub_def max_int64_def min_int64_def
        quo64_nonneg Let_def)
  show ?thesis
    using hystrix_opens_on_error_percentage [OF c, of 1000 0 hystrix_example_history 1005 ctx_Background] spec
    by (simp add: w sane_window_def max_int64_def zero_ConfigureOpener_def) (simp add: hystrix_example_history_def)
qed

text \<open>
  Whatever the times of the calls: an opener whose buckets do not overflow the index arithmetic never
  panics.
\<close>

lemma op_call_safe: "safe op_ok (op_call c ctx now)"
proof (cases c)
  case (Report ev)
  then show ?thesis
    using hystrix_opener.send_safe hystrix_opener.Closed_safe hystrix_opener.Opened_safe by (cases ev) auto
next
  case Ask
  then show ?thesis using hystrix_opener.ShouldOpen_safe by (auto intro!: safe_gseq)
qed

lemma op_run_safe: "safe op_ok (op_run h)"
  unfolding op_run_def by (rule safe_gforeach) (auto simp: op_call_safe)

lemma window_rb_inv:
  assumes "0 < n" "n \<le> 2 ^ 62" "0 \<le> d" "d \<le> max_int64" "d < n \<or> 2 * n \<le> d"
  shows "rb_inv (window_geometry (quo64 d n) n start)"
proof -
  have w: "quo64 d n = d div n" using assms by (simp add: quo64_nonneg)
  have "max_int64 div (d div n) \<le> max_int64 div 2" if "0 < d div n"
  proof -
    have "2 \<le> d div n" using that assms zdiv_mono1 [of "2 * n" d n] by auto
    then show ?thesis by (intro zdiv_mono2) (simp_all add: max_int64_def)
  qed
  then show ?thesis
    using assms(1-3) unfolding rb_inv_def window_geometry_def w
    by (auto simp: max_int64_def pos_imp_zdiv_nonneg_iff)
qed

text \<open>The factory returns a usable opener for any configuration whose buckets do not overflow.\<close>

definition op_fits :: "ConfigureOpener \<Rightarrow> bool" where
  "op_fits c \<longleftrightarrow> cop_NumBuckets c \<le> 2 ^ 62 \<and> cop_RollingDuration c \<le> max_int64 \<and>
     (cop_RollingDuration c < cop_NumBuckets c \<or> 2 * cop_NumBuckets c \<le> cop_RollingDuration c)"

lemma OpenerFactory_ok:
  assumes "op_fits (op_effective wall config)"
  obtains e0 where "OpenerFactory wall config n = (Returns (Opener_vt, e0), Suc n)" "op_ok e0"
proof -
  let ?c = "op_effective wall config"
  let ?w = "quo64 (cop_RollingDuration ?c) (cop_NumBuckets ?c)" and ?n = "cop_NumBuckets ?c"
  let ?start = "(case cop_Now config of None \<Rightarrow> wall | Some now \<Rightarrow> now) n"
  note pos = op_effective_positive [of wall config]
  define r where "r = \<lparr>rc_buckets = replicate (nat ?n) 0, rc_totalSum = 0,
    rc_rollingBucket = window_geometry ?w ?n ?start\<rparr>"
  have made: "NewRollingCounter ?w ?n ?start = greturn r"
    using NewRollingCounter_greturn [of ?n ?w ?start] pos by (simp add: r_def)
  have "rb_inv (window_geometry ?w ?n ?start)" using pos assms by (intro window_rb_inv) (auto simp: op_fits_def)
  then have "rc_inv r" using pos by (simp add: rc_inv_def r_def window_geometry_def)
  then show ?thesis
    using SetConfigNotThreadSafe_effective [OF refl made, of zero_Opener] that
    by (auto simp: OpenerFactory_def Let_def op_ok_def)
qed

text \<open>No configuration makes an opener that panics: whatever percentage, threshold, number of buckets
  (up to \<open>2 ^ 62\<close>, negative and zero included) and rolling duration it is given, the factory returns an
  opener, and every later sequence of reports and questions returns, at whatever times it is made. The
  duration of the effective configuration is shorter than its number of buckets in nanoseconds or at
  least twice as long (a bucket of one nanosecond puts the sum of indices out of the 64 bit range).\<close>

theorem hystrix_opener_never_panics:
  assumes "op_fits (op_effective wall config)"
  shows "\<exists>e0 e1 b e2. OpenerFactory wall config n = (Returns (Opener_vt, e0), Suc n) \<and>
    op_run h e0 = (Returns (), e1) \<and> co_ShouldOpen Opener_vt ctx now e1 = (Returns b, e2)"
proof -
  obtain e0 where e0: "OpenerFactory wall config n = (Returns (Opener_vt, e0), Suc n)" "op_ok e0"
    using OpenerFactory_ok [OF assms] .
  obtain e1 where e1: "op_run h e0 = (Returns (), e1)" "op_ok e1"
    using safeD [OF op_run_safe e0(2)] by auto
  show ?thesis using safeD [OF hystrix_opener.ShouldOpen_safe e1(2)] e0 e1 by blast
qed

theorem hystrix_opener_never_panics_witness:
  "\<exists>e0 e1 b e2. OpenerFactory (\<lambda>_. 1000) (zero_ConfigureOpener\<lparr>cop_NumBuckets := -3\<rparr>) 0 =
      (Returns (Opener_vt, e0), Suc 0) \<and>
    op_run [(Report (SmRun (EvErrFailure 1)), ctx_Background, -5), (Ask, ctx_Background, 4)] e0 = (Returns (), e1) \<and>
    co_ShouldOpen Opener_vt ctx_Background 3 e1 = (Returns b, e2)"
  by (rule hystrix_opener_never_panics)
    (simp_all add: op_fits_def op_effective_def cop_Merge_def defaultConfigureOpener_def zero_ConfigureOpener_def
      Let_def max_int64_def)

end
