(* ===== verification/HystrixCloser.thy ===== *)
theory HystrixCloser
  imports Interfaces TimedCheck
begin

text \<open>
  Model of \<^verbatim>\<open>closers/hystrix/closer.go\<close>: the half-open logic. A closer that was told the circuit
  opened waits a sleep window, then lets a limited number of probes through per window, and asks to
  close the circuit when enough probes in a row succeeded.

  The window is the \<open>TimedCheck\<close> of \<^verbatim>\<open>faststats\<close>; the atomic pointers \<^verbatim>\<open>openedAt\<close> and \<^verbatim>\<open>closedAt\<close> are
  options. The methods cannot panic: they are functions of the receiver, collected in \<open>Closer_vt\<close>.
\<close>

record ConfigureCloser =
  ccl_AfterFunc :: "after_func option"
  ccl_SleepWindow :: duration
  ccl_HalfOpenAttempts :: int64
  ccl_RequiredConcurrentSuccessful :: int64

record Closer =
  cl_reopenCircuitCheck :: TimedCheck
  cl_concurrentSuccessfulAttempts :: int64
  cl_closeOnCurrentCount :: int64
  cl_openedAt :: "gotime option"
  cl_closedAt :: "gotime option"
  cl_sleepWindow :: int64
  cl_config :: ConfigureCloser

definition ccl_Merge :: "ConfigureCloser \<Rightarrow> ConfigureCloser \<Rightarrow> ConfigureCloser" where
  "ccl_Merge c other =
     (let c = (if ccl_SleepWindow c = 0 then c\<lparr>ccl_SleepWindow := ccl_SleepWindow other\<rparr> else c);
          c = (if ccl_HalfOpenAttempts c = 0
               then c\<lparr>ccl_HalfOpenAttempts := ccl_HalfOpenAttempts other\<rparr> else c);
          c = (if ccl_RequiredConcurrentSuccessful c = 0
               then c\<lparr>ccl_RequiredConcurrentSuccessful := ccl_RequiredConcurrentSuccessful other\<rparr> else c)
      in if ccl_AfterFunc c = None then c\<lparr>ccl_AfterFunc := ccl_AfterFunc other\<rparr> else c)"

definition zero_ConfigureCloser :: ConfigureCloser where
  "zero_ConfigureCloser = \<lparr>ccl_AfterFunc = None, ccl_SleepWindow = 0, ccl_HalfOpenAttempts = 0,
     ccl_RequiredConcurrentSuccessful = 0\<rparr>"

definition defaultConfigureCloser :: ConfigureCloser where
  "defaultConfigureCloser = zero_ConfigureCloser\<lparr>ccl_SleepWindow := 5 * second,
     ccl_HalfOpenAttempts := 1, ccl_RequiredConcurrentSuccessful := 1\<rparr>"

definition zero_Closer :: Closer where
  "zero_Closer = \<lparr>cl_reopenCircuitCheck = zero_TimedCheck, cl_concurrentSuccessfulAttempts = 0,
     cl_closeOnCurrentCount = 0, cl_openedAt = None, cl_closedAt = None, cl_sleepWindow = 0,
     cl_config = zero_ConfigureCloser\<rparr>"

definition cl_SetConfigThreadSafe :: "ConfigureCloser \<Rightarrow> Closer \<Rightarrow> Closer" where
  "cl_SetConfigThreadSafe config s =
     (let s = s\<lparr>cl_config := config\<rparr>;
          s = s\<lparr>cl_reopenCircuitCheck :=
                tc_SetSleepDuration (ccl_SleepWindow config) (cl_reopenCircuitCheck s)\<rparr>;
          s = s\<lparr>cl_sleepWindow := ccl_SleepWindow config\<rparr>;
          s = s\<lparr>cl_reopenCircuitCheck :=
                tc_SetEventCountToAllow (ccl_HalfOpenAttempts config) (cl_reopenCircuitCheck s)\<rparr>
      in s\<lparr>cl_closeOnCurrentCount := ccl_RequiredConcurrentSuccessful config\<rparr>)"

definition cl_SetConfigNotThreadSafe :: "ConfigureCloser \<Rightarrow> Closer \<Rightarrow> Closer" where
  "cl_SetConfigNotThreadSafe config s =
     cl_SetConfigThreadSafe config
       (s\<lparr>cl_reopenCircuitCheck := (cl_reopenCircuitCheck s)\<lparr>tc_TimeAfterFunc := ccl_AfterFunc config\<rparr>\<rparr>)"

definition cl_Config :: "Closer \<Rightarrow> ConfigureCloser" where
  "cl_Config s = cl_config s"

definition cl_arm :: "gotime \<Rightarrow> bool \<Rightarrow> Closer \<Rightarrow> Closer" where
  "cl_arm now force s =
     (let s = s\<lparr>cl_reopenCircuitCheck := tc_SleepStart now (cl_reopenCircuitCheck s)\<rparr>;
          s = (if force then s\<lparr>cl_openedAt := Some now\<rparr>
               else if cl_openedAt s = None then s\<lparr>cl_openedAt := Some now\<rparr> else s)
      in s\<lparr>cl_concurrentSuccessfulAttempts := 0\<rparr>)"

definition cl_Opened :: "gotime \<Rightarrow> Closer \<Rightarrow> Closer" where
  "cl_Opened now s = cl_arm now True s"

definition cl_Closed :: "gotime \<Rightarrow> Closer \<Rightarrow> Closer" where
  "cl_Closed now s =
     s\<lparr>cl_closedAt := Some now, cl_openedAt := None, cl_concurrentSuccessfulAttempts := 0\<rparr>"

definition cl_Allow :: "gotime \<Rightarrow> Closer \<Rightarrow> bool \<times> Closer" where
  "cl_Allow now s =
     (if cl_openedAt s = None then
        (if \<exists>closedAt. cl_closedAt s = Some closedAt \<and> time_Sub now closedAt < cl_sleepWindow s
         then (False, s)
         else (False, cl_arm now False s))
      else (case tc_Check now (cl_reopenCircuitCheck s) of
        (b, c) \<Rightarrow> (b, s\<lparr>cl_reopenCircuitCheck := c\<rparr>)))"

definition cl_startedWhileOpen :: "gotime \<Rightarrow> duration \<Rightarrow> Closer \<Rightarrow> bool" where
  "cl_startedWhileOpen now d s =
     (case cl_openedAt s of
        None \<Rightarrow> False
      | Some openedAt \<Rightarrow> time_After (time_Add now (sub64 0 d)) openedAt)"

definition cl_Success :: "gotime \<Rightarrow> duration \<Rightarrow> Closer \<Rightarrow> Closer" where
  "cl_Success now d s =
     (if cl_startedWhileOpen now d s
      then s\<lparr>cl_concurrentSuccessfulAttempts := add64 (cl_concurrentSuccessfulAttempts s) 1\<rparr> else s)"

definition cl_ErrFailure :: "gotime \<Rightarrow> duration \<Rightarrow> Closer \<Rightarrow> Closer" where
  "cl_ErrFailure now d s =
     (if cl_startedWhileOpen now d s then s\<lparr>cl_concurrentSuccessfulAttempts := 0\<rparr> else s)"

definition cl_ErrTimeout :: "gotime \<Rightarrow> duration \<Rightarrow> Closer \<Rightarrow> Closer" where
  "cl_ErrTimeout now d s =
     (if cl_startedWhileOpen now d s then s\<lparr>cl_concurrentSuccessfulAttempts := 0\<rparr> else s)"

definition cl_ShouldClose :: "Closer \<Rightarrow> bool" where
  "cl_ShouldClose s \<longleftrightarrow> cl_concurrentSuccessfulAttempts s \<ge> cl_closeOnCurrentCount s"

definition Closer_vt :: "Closer OpenToClosed" where
  "Closer_vt = \<lparr>rm_Success = (\<lambda>_ now d. gmodify (cl_Success now d)),
     rm_ErrFailure = (\<lambda>_ now d. gmodify (cl_ErrFailure now d)),
     rm_ErrTimeout = (\<lambda>_ now d. gmodify (cl_ErrTimeout now d)),
     rm_ErrBadRequest = (\<lambda>_ _ _. greturn ()), rm_ErrInterrupt = (\<lambda>_ _ _. greturn ()),
     rm_ErrConcurrencyLimitReject = (\<lambda>_ _. greturn ()), rm_ErrShortCircuit = (\<lambda>_ _. greturn ()),
     sm_Closed = (\<lambda>_ now. gmodify (cl_Closed now)), sm_Opened = (\<lambda>_ now. gmodify (cl_Opened now)),
     sm_SetConfigThreadSafe = None, sm_SetConfigNotThreadSafe = None,
     oc_ShouldClose = (\<lambda>_ _. gget cl_ShouldClose), oc_Allow = (\<lambda>_ now. gstate (cl_Allow now))\<rparr>"

definition CloserFactory :: "ConfigureCloser \<Rightarrow> (Closer OpenToClosed \<times> Closer, nat) go" where
  "CloserFactory config =
     greturn (Closer_vt,
       cl_SetConfigNotThreadSafe (ccl_Merge config defaultConfigureCloser) zero_Closer)"

interpretation hystrix_closer: open_to_closed Closer_vt "\<lambda>_. True"
proof (unfold_locales)
  fix ev ctx now
  show "safe (\<lambda>_. True) (rm_send ev ctx now Closer_vt)"
    by (cases ev) (simp_all add: Closer_vt_def safe_gmodify)
qed (simp_all add: Closer_vt_def safe_gmodify safe_gstate)

subsection \<open>Histories\<close>

text \<open>
  A history of a closer: the reports and questions of its circuit, configuration changes on the live
  closer, and the environment running timers of the check. Its result is the list of times at which a
  probe was allowed.
\<close>

datatype closer_call =
    ClReport sm_event
  | ClAllow
  | ClShouldClose
  | ClSetConfig ConfigureCloser
  | ClFire int64

type_synonym closer_history = "(closer_call \<times> ctx \<times> gotime) list"

fun cl_call :: "closer_call \<Rightarrow> ctx \<Rightarrow> gotime \<Rightarrow> (gotime list, Closer) go" where
  "cl_call (ClReport ev) ctx now = gseq (sm_send ev ctx now Closer_vt) (greturn [])"
| "cl_call ClAllow ctx now =
     gbind (oc_Allow Closer_vt ctx now) (\<lambda>b. greturn (if b then [now] else []))"
| "cl_call ClShouldClose ctx now = gseq (oc_ShouldClose Closer_vt ctx now) (greturn [])"
| "cl_call (ClSetConfig config) ctx now = gseq (gmodify (cl_SetConfigThreadSafe config)) (greturn [])"
| "cl_call (ClFire v) ctx now =
     gseq (gmodify (\<lambda>s. s\<lparr>cl_reopenCircuitCheck := tc_fire v (cl_reopenCircuitCheck s)\<rparr>)) (greturn [])"

fun cl_run :: "closer_history \<Rightarrow> (gotime list, Closer) go" where
  "cl_run [] = greturn []"
| "cl_run ((c, ctx, now) # h) =
     gbind (cl_call c ctx now) (\<lambda>g. gbind (cl_run h) (\<lambda>gs. greturn (g @ gs)))"

subsection \<open>One call at a time\<close>

fun cl_report :: "sm_event \<Rightarrow> gotime \<Rightarrow> Closer \<Rightarrow> Closer" where
  "cl_report (SmRun (EvSuccess d)) now s = cl_Success now d s"
| "cl_report (SmRun (EvErrFailure d)) now s = cl_ErrFailure now d s"
| "cl_report (SmRun (EvErrTimeout d)) now s = cl_ErrTimeout now d s"
| "cl_report SmOpened now s = cl_Opened now s"
| "cl_report SmClosed now s = cl_Closed now s"
| "cl_report _ now s = s"

fun cl_next :: "closer_call \<Rightarrow> gotime \<Rightarrow> Closer \<Rightarrow> Closer" where
  "cl_next (ClReport ev) now s = cl_report ev now s"
| "cl_next ClAllow now s = snd (cl_Allow now s)"
| "cl_next ClShouldClose now s = s"
| "cl_next (ClSetConfig config) now s = cl_SetConfigThreadSafe config s"
| "cl_next (ClFire v) now s = s\<lparr>cl_reopenCircuitCheck := tc_fire v (cl_reopenCircuitCheck s)\<rparr>"

definition cl_grant :: "closer_call \<Rightarrow> gotime \<Rightarrow> Closer \<Rightarrow> gotime list" where
  "cl_grant c now s = (if c = ClAllow \<and> fst (cl_Allow now s) then [now] else [])"

lemma cl_send: "sm_send ev ctx now Closer_vt s = (Returns (), cl_report ev now s)"
  by (cases "(ev, now, s)" rule: cl_report.cases) (simp_all add: Closer_vt_def go_simps)

lemma cl_call_run: "cl_call c ctx now s = (Returns (cl_grant c now s), cl_next c now s)"
  by (cases c) (simp_all add: go_simps cl_send cl_grant_def, simp_all add: Closer_vt_def go_simps)

lemma cl_run_Cons: "cl_run ((c, ctx, now) # h) s = (case cl_run h (cl_next c now s) of
     (Returns gs, s') \<Rightarrow> (Returns (cl_grant c now s @ gs), s')
   | (Panics p, s') \<Rightarrow> (Panics p, s')
   | (Blocks, s') \<Rightarrow> (Blocks, s'))"
  by (simp add: go_simps cl_call_run split: outcome.split prod.split)

declare cl_run.simps(2) [simp del]

text \<open>A property of the allowed probes and the state that every call keeps, when time passes.\<close>

definition from_time :: "gotime \<Rightarrow> closer_history \<Rightarrow> bool" where
  "from_time t h \<longleftrightarrow> (\<forall>x \<in> set h. t \<le> snd (snd x))"

definition in_time_order :: "closer_history \<Rightarrow> bool" where
  "in_time_order h \<longleftrightarrow> sorted (map (snd \<circ> snd) h)"

lemma cl_run_invariant:
  assumes "\<And>c ctx now gs s. (c, ctx, now) \<in> set h \<Longrightarrow> P gs s \<Longrightarrow> P (gs @ cl_grant c now s) (cl_next c now s)"
    and "P gs s"
  shows "\<exists>g s'. cl_run h s = (Returns g, s') \<and> P (gs @ g) s'"
  using assms
proof (induction h arbitrary: gs s)
  case (Cons x h)
  obtain c ctx now where x: "x = (c, ctx, now)" by (cases x)
  have "P (gs @ cl_grant c now s) (cl_next c now s)"
    by (rule Cons.prems(1) [of c ctx]) (use Cons.prems(2) x in simp_all)
  moreover have "\<And>c ctx now gs s. (c, ctx, now) \<in> set h \<Longrightarrow> P gs s \<Longrightarrow>
      P (gs @ cl_grant c now s) (cl_next c now s)"
    using Cons.prems(1) by (meson list.set_intros(2))
  ultimately obtain g s' where
    "cl_run h (cl_next c now s) = (Returns g, s')" "P ((gs @ cl_grant c now s) @ g) s'"
    using Cons.IH by blast
  then show ?case by (simp add: x cl_run_Cons)
qed (simp add: go_simps)

lemma cl_run_timed_invariant:
  assumes "\<And>t c ctx now gs s. (c, ctx, now) \<in> set h \<Longrightarrow> t \<le> now \<Longrightarrow> P t gs s \<Longrightarrow>
      P now (gs @ cl_grant c now s) (cl_next c now s)"
    and "P t gs s" "from_time t h" "in_time_order h"
  shows "\<exists>g s' t'. cl_run h s = (Returns g, s') \<and> P t' (gs @ g) s'"
  using assms
proof (induction h arbitrary: t gs s)
  case (Cons x h)
  obtain c ctx now where x: "x = (c, ctx, now)" by (cases x)
  have "P now (gs @ cl_grant c now s) (cl_next c now s)"
    by (rule Cons.prems(1) [of c ctx now t]) (use Cons.prems(2,3) x in \<open>simp_all add: from_time_def\<close>)
  moreover have "\<And>t c ctx now gs s. (c, ctx, now) \<in> set h \<Longrightarrow> t \<le> now \<Longrightarrow> P t gs s \<Longrightarrow>
      P now (gs @ cl_grant c now s) (cl_next c now s)"
    using Cons.prems(1) by (meson list.set_intros(2))
  moreover have "from_time now h" "in_time_order h"
    using Cons.prems(4) x by (auto simp: from_time_def in_time_order_def)
  ultimately obtain g s' t' where
    "cl_run h (cl_next c now s) = (Returns g, s')" "P t' ((gs @ cl_grant c now s) @ g) s'"
    using Cons.IH by blast
  then show ?case by (auto simp: x cl_run_Cons)
qed (auto simp: go_simps)

subsection \<open>The live settings are those of the configuration\<close>

definition cl_synced :: "Closer \<Rightarrow> bool" where
  "cl_synced s \<longleftrightarrow>
     tc_sleepDuration (cl_reopenCircuitCheck s) = ccl_SleepWindow (cl_config s) \<and>
     tc_eventCountToAllow (cl_reopenCircuitCheck s) = ccl_HalfOpenAttempts (cl_config s) \<and>
     cl_sleepWindow s = ccl_SleepWindow (cl_config s) \<and>
     cl_closeOnCurrentCount s = ccl_RequiredConcurrentSuccessful (cl_config s)"

lemmas cl_defs = cl_arm_def cl_Opened_def cl_Closed_def cl_Success_def cl_ErrFailure_def
  cl_ErrTimeout_def cl_SetConfigThreadSafe_def

lemma cl_SetConfig_synced: "cl_synced (cl_SetConfigThreadSafe config s)"
  by (simp add: cl_synced_def cl_SetConfigThreadSafe_def Let_def tc_SetSleepDuration_def
      tc_SetEventCountToAllow_def)

lemma cl_Allow_armed:
  "cl_openedAt s \<noteq> None \<Longrightarrow> fst (cl_Allow now s) = fst (tc_Check now (cl_reopenCircuitCheck s)) \<and>
    snd (cl_Allow now s) = s\<lparr>cl_reopenCircuitCheck := snd (tc_Check now (cl_reopenCircuitCheck s))\<rparr>"
  by (auto simp: cl_Allow_def split: prod.split)

lemma cl_Allow_unarmed:
  assumes "cl_openedAt s = None"
  shows "\<not> fst (cl_Allow now s)" "snd (cl_Allow now s) \<in> {s, cl_arm now False s}"
  using assms by (auto simp: cl_Allow_def)

lemma cl_synced_arm: "cl_synced s \<Longrightarrow> cl_synced (cl_arm now force s)"
  by (auto simp: cl_synced_def cl_arm_def Let_def tc_SleepStart_def)

lemma cl_synced_Allow: "cl_synced s \<Longrightarrow> cl_synced (snd (cl_Allow now s))"
proof (cases "cl_openedAt s = None")
  case True
  then show "cl_synced s \<Longrightarrow> ?thesis"
    using cl_Allow_unarmed(2) [OF True, of now] cl_synced_arm [of s now False] by auto
qed (simp add: cl_Allow_armed cl_synced_def)

lemma cl_synced_report: "cl_synced s \<Longrightarrow> cl_synced (cl_report ev now s)"
  using cl_synced_arm [of s now True]
  by (cases "(ev, now, s)" rule: cl_report.cases) (auto simp: cl_synced_def cl_defs)

lemma cl_synced_next: "cl_synced s \<Longrightarrow> cl_synced (cl_next c now s)"
  by (cases c) (simp_all add: cl_synced_report cl_synced_Allow cl_SetConfig_synced, simp add: cl_synced_def)

lemma cl_run_synced: "cl_synced s \<Longrightarrow> cl_run h s = (Returns g, s') \<Longrightarrow> cl_synced s'"
  using cl_run_invariant [of h "\<lambda>_. cl_synced" "[]" s] cl_synced_next by auto

text \<open>The closer a factory makes, and the states it can be in after any calls.\<close>

definition factory_closer :: "ConfigureCloser \<Rightarrow> Closer" where
  "factory_closer config = cl_SetConfigNotThreadSafe (ccl_Merge config defaultConfigureCloser) zero_Closer"

lemma CloserFactory_run: "CloserFactory config n = (Returns (Closer_vt, factory_closer config), n)"
  by (simp add: CloserFactory_def factory_closer_def go_simps)

lemma factory_closer_simps:
  "cl_synced (factory_closer config)"
  "cl_config (factory_closer config) = ccl_Merge config defaultConfigureCloser"
  "tc_currentlyAllowedEventCount (cl_reopenCircuitCheck (factory_closer config)) = 0"
  "cl_openedAt (factory_closer config) = None" "cl_closedAt (factory_closer config) = None"
  by (simp_all add: factory_closer_def cl_SetConfigNotThreadSafe_def cl_SetConfig_synced,
    simp_all add: cl_SetConfigThreadSafe_def Let_def zero_Closer_def zero_TimedCheck_def
      tc_SetSleepDuration_def tc_SetEventCountToAllow_def)

subsection \<open>No probe before the sleep window is over\<close>

definition sleeping :: "gotime \<Rightarrow> duration \<Rightarrow> Closer \<Rightarrow> bool" where
  "sleeping t d s \<longleftrightarrow> t + d \<le> tc_nextOpenTime (cl_reopenCircuitCheck s) \<and>
     d \<le> tc_sleepDuration (cl_reopenCircuitCheck s)"

lemma sleeping_arm: "d \<le> tc_sleepDuration (cl_reopenCircuitCheck s) \<Longrightarrow> t \<le> now \<Longrightarrow> sleeping t d (cl_arm now force s)"
  by (auto simp: sleeping_def cl_arm_def Let_def tc_SleepStart_def)

lemma sleeping_Allow:
  assumes "sleeping t d s" "t \<le> now"
  shows "(\<forall>g \<in> set (cl_grant ClAllow now s). t + d \<le> g) \<and> sleeping t d (snd (cl_Allow now s))"
proof (cases "cl_openedAt s = None")
  case True
  have "sleeping t d (cl_arm now False s)" using assms by (intro sleeping_arm) (simp_all add: sleeping_def)
  then show ?thesis using cl_Allow_unarmed [OF True, of now] assms(1) by (auto simp: cl_grant_def)
next
  case False
  let ?c = "cl_reopenCircuitCheck s"
  have "sleeping t d (s\<lparr>cl_reopenCircuitCheck := snd (tc_Check now ?c)\<rparr>)"
  proof (cases "fst (tc_Check now ?c)")
    case True
    then show ?thesis using assms by (auto simp: sleeping_def Check_granted Check_granted_iff Let_def)
  qed (use assms in \<open>simp add: sleeping_def Check_denied\<close>)
  then show ?thesis
    using assms cl_Allow_armed [OF False, of now] by (auto simp: cl_grant_def sleeping_def Check_granted_iff)
qed

definition slow_config :: "duration \<Rightarrow> closer_call \<Rightarrow> bool" where
  "slow_config d c \<longleftrightarrow> (case c of ClSetConfig config \<Rightarrow> d \<le> ccl_SleepWindow config | _ \<Rightarrow> True)"

lemma sleeping_next:
  assumes "sleeping t d s" "t \<le> now" "slow_config d c"
  shows "(\<forall>g \<in> set (cl_grant c now s). t + d \<le> g) \<and> sleeping t d (cl_next c now s)"
proof (cases c)
  case (ClReport ev)
  have "sleeping t d (cl_arm now True s)" using assms by (intro sleeping_arm) (simp_all add: sleeping_def)
  moreover have "sleeping t d s'" if "cl_reopenCircuitCheck s' = cl_reopenCircuitCheck s" for s'
    using assms(1) that by (simp add: sleeping_def)
  ultimately show ?thesis
    using ClReport by (cases "(ev, now, s)" rule: cl_report.cases) (simp_all add: cl_grant_def cl_defs)
next
  case ClAllow
  then show ?thesis using sleeping_Allow [OF assms(1,2)] by simp
qed (use assms in \<open>auto simp: cl_grant_def sleeping_def slow_config_def cl_SetConfigThreadSafe_def Let_def\<close>)

lemma sleeping_run:
  assumes "sleeping t d s" "from_time t h" "\<forall>x \<in> set h. slow_config d (fst x)"
  shows "\<exists>gs s'. cl_run h s = (Returns gs, s') \<and> (\<forall>g \<in> set gs. t + d \<le> g)"
proof -
  have "(\<forall>g \<in> set (gs @ cl_grant c now s'). t + d \<le> g) \<and> sleeping t d (cl_next c now s')"
    if "(c, ctx, now) \<in> set h" "(\<forall>g \<in> set gs. t + d \<le> g) \<and> sleeping t d s'" for c ctx now gs s'
    using that sleeping_next [of t d s' now c] assms(2,3) by (force simp: from_time_def)
  from cl_run_invariant [of h "\<lambda>gs s'. (\<forall>g \<in> set gs. t + d \<le> g) \<and> sleeping t d s'" "[]", OF this]
  show ?thesis using assms(1) by force
qed

subsection \<open>The number of probes per sleep window\<close>

lemma rate_inv_SleepStart:
  "rate_inv k d gs t c \<Longrightarrow> t \<le> now \<Longrightarrow> rate_inv k d gs now (tc_SleepStart now c)"
  by (simp add: tc_SleepStart_def rate_inv_reset)

lemma rate_inv_Check:
  assumes "rate_inv k d gs t c" "t \<le> now" "int k \<le> max_int64" "0 \<le> d"
  shows "rate_inv k d (gs @ (if fst (tc_Check now c) then [now] else [])) now (snd (tc_Check now c))"
  using rate_inv_grant [OF assms(1,2) _ assms(3,4)] rate_inv_later [OF assms(1,2)]
  by (simp add: Check_denied)

lemma rate_inv_fire: "rate_inv k d gs t c \<Longrightarrow> rate_inv k d gs t (tc_fire v c)"
  by (simp add: rate_inv_def)

definition not_config :: "closer_call \<Rightarrow> bool" where
  "not_config c \<longleftrightarrow> (case c of ClSetConfig config \<Rightarrow> False | _ \<Rightarrow> True)"

lemma rate_inv_next:
  assumes inv: "rate_inv k d gs t (cl_reopenCircuitCheck s)" and t: "t \<le> now"
    and kd: "int k \<le> max_int64" "0 \<le> d" and c: "not_config c"
  shows "rate_inv k d (gs @ cl_grant c now s) now (cl_reopenCircuitCheck (cl_next c now s))"
proof -
  note later = rate_inv_later [OF inv t] and start = rate_inv_SleepStart [OF inv t]
  show ?thesis
  proof (cases c)
    case (ClReport ev)
    then show ?thesis
      using later start
      by (cases "(ev, now, s)" rule: cl_report.cases) (simp_all add: cl_grant_def cl_defs Let_def)
  next
    case ClAllow
    show ?thesis
    proof (cases "cl_openedAt s = None")
      case True
      then show ?thesis
        using later start ClAllow cl_Allow_unarmed [OF True, of now]
        by (auto simp: cl_grant_def cl_arm_def Let_def)
    next
      case False
      then show ?thesis
        using rate_inv_Check [OF inv t kd] cl_Allow_armed [OF False, of now] ClAllow
        by (simp add: cl_grant_def split: if_splits)
    qed
  next
    case (ClFire v)
    then show ?thesis using rate_inv_fire [OF later] by (simp add: cl_grant_def)
  qed (use c later in \<open>simp_all add: cl_grant_def not_config_def\<close>)
qed

subsection \<open>The streak of successful probes\<close>

text \<open>
  What a call says of the probes of the open episode that began at \<open>t\<close>: the result of a request that
  started after \<open>t\<close>.
\<close>

fun probe_result :: "gotime \<Rightarrow> closer_call \<times> ctx \<times> gotime \<Rightarrow> bool option" where
  "probe_result t (ClReport (SmRun (EvSuccess d)), ctx, now) = (if t < now - d then Some True else None)"
| "probe_result t (ClReport (SmRun (EvErrFailure d)), ctx, now) = (if t < now - d then Some False else None)"
| "probe_result t (ClReport (SmRun (EvErrTimeout d)), ctx, now) = (if t < now - d then Some False else None)"
| "probe_result t _ = None"

definition probe_streak :: "gotime \<Rightarrow> closer_history \<Rightarrow> nat" where
  "probe_streak t h = length (takeWhile id (rev (List.map_filter (probe_result t) h)))"

lemma probe_streak_snoc: "probe_streak t (h @ [x]) =
    (case probe_result t x of None \<Rightarrow> probe_streak t h | Some True \<Rightarrow> Suc (probe_streak t h) | Some False \<Rightarrow> 0)"
  by (simp add: probe_streak_def map_filter_def split: option.split bool.split)

lemma probe_streak_le: "probe_streak t h \<le> length h"
proof -
  have "probe_streak t h \<le> length (rev (List.map_filter (probe_result t) h))"
    unfolding probe_streak_def by (rule length_takeWhile_le)
  also have "\<dots> \<le> length h" by (simp add: map_filter_def)
  finally show ?thesis .
qed

text \<open>Calls that are not an opening or a closing, with durations whose negation is representable.\<close>

fun within_episode :: "closer_call \<Rightarrow> bool" where
  "within_episode (ClReport SmOpened) = False"
| "within_episode (ClReport SmClosed) = False"
| "within_episode (ClReport (SmRun (EvSuccess d))) = (\<bar>d\<bar> \<le> max_int64)"
| "within_episode (ClReport (SmRun (EvErrFailure d))) = (\<bar>d\<bar> \<le> max_int64)"
| "within_episode (ClReport (SmRun (EvErrTimeout d))) = (\<bar>d\<bar> \<le> max_int64)"
| "within_episode _ = True"

lemma startedWhileOpen_iff:
  assumes "cl_openedAt s = Some t" "\<bar>d\<bar> \<le> max_int64"
  shows "cl_startedWhileOpen now d s \<longleftrightarrow> t < now - d"
proof -
  have "sub64 0 d = - d"
    using assms(2) by (subst sub64_exact) (auto simp: in_int64_def min_int64_def max_int64_def)
  then show ?thesis using assms(1) by (simp add: cl_startedWhileOpen_def time_After_def time_Add_def)
qed

definition episode :: "gotime \<Rightarrow> nat \<Rightarrow> Closer \<Rightarrow> bool" where
  "episode t k s \<longleftrightarrow> cl_openedAt s = Some t \<and> cl_concurrentSuccessfulAttempts s = int k"

lemma episode_next:
  assumes e: "episode t (probe_streak t h) s" and c: "within_episode c" and len: "int (length h) < max_int64"
  shows "episode t (probe_streak t (h @ [(c, ctx, now)])) (cl_next c now s)"
proof -
  have opn: "cl_openedAt s = Some t" using e by (simp add: episode_def)
  have inc: "add64 (int (probe_streak t h)) 1 = int (Suc (probe_streak t h))"
    using probe_streak_le [of t h] len by (simp add: add64_exact in_int64_def min_int64_def)
  show ?thesis
  proof (cases c)
    case (ClReport ev)
    then show ?thesis
      using e c inc startedWhileOpen_iff [OF opn]
      by (cases "(ev, now, s)" rule: cl_report.cases) (auto simp: episode_def cl_defs probe_streak_snoc)
  next
    case ClAllow
    then show ?thesis
      using e cl_Allow_armed [of s now] by (simp add: episode_def probe_streak_snoc)
  qed (use e in \<open>simp_all add: episode_def probe_streak_snoc cl_SetConfigThreadSafe_def Let_def\<close>)
qed

lemma episode_run:
  assumes "episode t (probe_streak t h) s" "\<forall>x \<in> set h'. within_episode (fst x)"
    and "int (length (h @ h')) \<le> max_int64"
  shows "\<exists>gs s'. cl_run h' s = (Returns gs, s') \<and> episode t (probe_streak t (h @ h')) s'"
  using assms
proof (induction h' arbitrary: h s)
  case (Cons x h')
  obtain c ctx now where x: "x = (c, ctx, now)" by (cases x)
  have "episode t (probe_streak t (h @ [x])) (cl_next c now s)"
    using episode_next [OF Cons.prems(1), of c ctx now] Cons.prems(2,3) by (simp add: x)
  then obtain gs s' where "cl_run h' (cl_next c now s) = (Returns gs, s')"
    "episode t (probe_streak t ((h @ [x]) @ h')) s'"
    using Cons.IH [of "h @ [x]" "cl_next c now s"] Cons.prems(2,3) by auto
  then show ?case by (simp add: x cl_run_Cons)
qed (simp add: go_simps)

subsection \<open>Properties\<close>

lemma factory_run_synced:
  assumes "cl_run h0 (factory_closer config) = (Returns g0, s1)"
  shows "cl_synced s1"
  using cl_run_synced [OF factory_closer_simps(1) assms] .

text \<open>C33: The sleep window. A closer from the factory, after any calls \<open>h0\<close>, is told at \<open>t\<close> that the circuit opened. Whatever
  happens next at times from \<open>t\<close> on (more openings and closings, timers running early or late, new
  configurations with a window of at least \<open>d\<close>), it allows no probe before \<open>t + d\<close>, where \<open>d\<close> is at most
  the sleep window configured at \<open>t\<close>.\<close>

theorem no_probe_before_sleep_window:
  assumes "CloserFactory config n = (Returns (vt, s0), n)" "cl_run h0 s0 = (Returns g0, s1)"
    and "d \<le> ccl_SleepWindow (cl_Config s1)"
    and "from_time t h" "\<forall>x \<in> set h. slow_config d (fst x)"
  shows "\<exists>gs s2. cl_run ((ClReport SmOpened, ctx, t) # h) s1 = (Returns gs, s2) \<and> (\<forall>g \<in> set gs. t + d \<le> g)"
proof -
  have "cl_synced s1" using assms(1,2) factory_run_synced by (auto simp: CloserFactory_run)
  then have "sleeping t d (cl_Opened t s1)"
    using assms(3) by (simp add: cl_Opened_def sleeping_arm cl_synced_def cl_Config_def)
  from sleeping_run [OF this assms(4,5)] show ?thesis
    by (auto simp: cl_run_Cons cl_grant_def)
qed

theorem no_probe_before_sleep_window_witness:
  "\<exists>gs s2. cl_run [(ClReport SmOpened, ctx_Background, 100), (ClAllow, ctx_Background, 105), (ClFire 1, ctx_Background, 106),
      (ClAllow, ctx_Background, 112)] (factory_closer (zero_ConfigureCloser\<lparr>ccl_SleepWindow := 10\<rparr>)) =
    (Returns gs, s2) \<and> (\<forall>g \<in> set gs. 110 \<le> g)"
  using no_probe_before_sleep_window [OF CloserFactory_run [of "zero_ConfigureCloser\<lparr>ccl_SleepWindow := 10\<rparr>" 0],
      of "[]" "[]" _ 10 100 "[(ClAllow, ctx_Background, 105), (ClFire 1, ctx_Background, 106),
      (ClAllow, ctx_Background, 112)]" ctx_Background]
  by (simp add: go_run cl_Config_def factory_closer_simps ccl_Merge_def zero_ConfigureCloser_def from_time_def
      slow_config_def Let_def)

text \<open>C32: The half-open rate. A closer from the factory, in any history in the order of time without a
  configuration change (circuits that open and close, timers that run whenever they like): any \<open>k + 1\<close>
  allowed probes in a row span at least the sleep window, where \<open>k\<close> is \<^verbatim>\<open>HalfOpenAttempts\<close>.\<close>

theorem half_open_probe_rate:
  assumes "CloserFactory config n = (Returns (vt, s0), n)" "in_time_order h" "\<forall>x \<in> set h. not_config (fst x)"
    and "ccl_HalfOpenAttempts (cl_Config s0) = int k" "0 < k" "int k \<le> max_int64"
    and "0 \<le> ccl_SleepWindow (cl_Config s0)"
  shows "\<exists>gs s1. cl_run h s0 = (Returns gs, s1) \<and>
    (\<forall>i. i + k < length gs \<longrightarrow> gs ! i + ccl_SleepWindow (cl_Config s0) \<le> gs ! (i + k))"
proof -
  let ?d = "ccl_SleepWindow (cl_Config s0)"
  define t where "t = (case h of [] \<Rightarrow> 0 | x # _ \<Rightarrow> snd (snd x))"
  have t: "from_time t h"
    using assms(2) by (cases h) (auto simp: from_time_def in_time_order_def t_def)
  have s0: "s0 = factory_closer config" using assms(1) by (simp add: CloserFactory_run)
  then have "rate_inv k ?d [] t (cl_reopenCircuitCheck s0)"
    using factory_closer_simps [of config] assms(4,5)
    by (simp add: rate_inv_def cl_synced_def cl_Config_def)
  then obtain gs s1 t' where "cl_run h s0 = (Returns gs, s1)" "rate_inv k ?d ([] @ gs) t' (cl_reopenCircuitCheck s1)"
    using cl_run_timed_invariant [of h "\<lambda>t gs s. rate_inv k ?d gs t (cl_reopenCircuitCheck s)" t "[]" s0]
      rate_inv_next [of k ?d] assms(3,6,7) t assms(2) by fastforce
  then show ?thesis by (auto simp: rate_inv_def)
qed

theorem half_open_probe_rate_witness:
  "\<exists>gs s1. cl_run [(ClReport SmOpened, ctx_Background, 0), (ClFire 1, ctx_Background, 10), (ClAllow, ctx_Background, 11),
       (ClAllow, ctx_Background, 12), (ClFire 2, ctx_Background, 21), (ClAllow, ctx_Background, 22)]
     (factory_closer (zero_ConfigureCloser\<lparr>ccl_SleepWindow := 10\<rparr>)) = (Returns gs, s1) \<and>
    (\<forall>i. i + 1 < length gs \<longrightarrow> gs ! i + 10 \<le> gs ! (i + 1))"
  using half_open_probe_rate [OF CloserFactory_run [of "zero_ConfigureCloser\<lparr>ccl_SleepWindow := 10\<rparr>" 0],
      of "[(ClReport SmOpened, ctx_Background, 0), (ClFire 1, ctx_Background, 10), (ClAllow, ctx_Background, 11),
       (ClAllow, ctx_Background, 12), (ClFire 2, ctx_Background, 21), (ClAllow, ctx_Background, 22)]" 1]
  by (simp add: in_time_order_def not_config_def cl_Config_def factory_closer_simps ccl_Merge_def Let_def
      zero_ConfigureCloser_def defaultConfigureCloser_def max_int64_def)

text \<open>C29: When to close. Told at \<open>t\<close> that the circuit opened, and through any reports, questions, timers and
  configuration changes before the next opening or closing: the closer asks to close exactly when the
  latest results of requests that started strictly after \<open>t\<close> are successes, at least as many in a row as
  the current configuration requires. Requests that started before the opening count for nothing,
  however late they finish.\<close>

theorem closes_on_successful_probes:
  assumes "CloserFactory config n = (Returns (vt, s0), n)" "cl_run h0 s0 = (Returns g0, s1)"
    and "\<forall>x \<in> set h. within_episode (fst x)" "int (length h) \<le> max_int64"
  shows "\<exists>gs s2. cl_run ((ClReport SmOpened, ctx, t) # h) s1 = (Returns gs, s2) \<and>
    oc_ShouldClose Closer_vt ctx' now s2 =
      (Returns (ccl_RequiredConcurrentSuccessful (cl_Config s2) \<le> int (probe_streak t h)), s2)"
proof -
  have s1: "cl_synced s1" using assms(1,2) factory_run_synced by (auto simp: CloserFactory_run)
  have "episode t (probe_streak t []) (cl_Opened t s1)"
    by (simp add: episode_def cl_Opened_def cl_arm_def Let_def probe_streak_def map_filter_def)
  then obtain gs s2 where s2: "cl_run h (cl_Opened t s1) = (Returns gs, s2)" "episode t (probe_streak t h) s2"
    using episode_run [of t "[]" "cl_Opened t s1" h] assms(3,4) by auto
  have "cl_synced s2"
    using cl_run_synced [OF _ s2(1)] cl_synced_arm [OF s1] by (simp add: cl_Opened_def)
  then show ?thesis
    using s2 by (auto simp: cl_run_Cons cl_grant_def go_run Closer_vt_def cl_ShouldClose_def episode_def cl_synced_def cl_Config_def)
qed

theorem closes_on_successful_probes_witness:
  "let h = [(ClReport (SmRun (EvSuccess 30)), ctx_Background, 120), (ClReport (SmRun (EvErrTimeout 5)), ctx_Background, 121),
       (ClReport (SmRun (EvSuccess 3)), ctx_Background, 125)] in
   \<exists>gs s2. cl_run ((ClReport SmOpened, ctx_Background, 100) # h) (factory_closer zero_ConfigureCloser) = (Returns gs, s2) \<and>
    oc_ShouldClose Closer_vt ctx_Background 130 s2 =
      (Returns (ccl_RequiredConcurrentSuccessful (cl_Config s2) \<le> 1), s2)"
  using closes_on_successful_probes [OF CloserFactory_run [of "zero_ConfigureCloser" 0], of "[]" "[]" _
      "[(ClReport (SmRun (EvSuccess 30)), ctx_Background, 120), (ClReport (SmRun (EvErrTimeout 5)), ctx_Background, 121),
       (ClReport (SmRun (EvSuccess 3)), ctx_Background, 125)]" ctx_Background 100 ctx_Background 130]
  by (simp add: go_run max_int64_def probe_streak_def List.map_filter_simps Let_def)

text \<open>A closer that was not told the circuit opened is never stuck. Asked at \<open>now\<close> while unarmed, it denies;
  less than a sleep window after a closing it changes nothing, so that a request that raced the closing
  does not arm it. Otherwise it arms itself: the timer it has just started can be run by the environment,
  after which any question from a sleep window after \<open>now\<close> on is answered by a probe.\<close>

theorem forgotten_closer_probes_again:
  assumes "CloserFactory config n = (Returns (vt, s0), n)" "cl_run h0 s0 = (Returns g0, s1)"
    and "cl_openedAt s1 = None" "w = ccl_SleepWindow (cl_Config s1)"
  shows "if \<exists>t. cl_closedAt s1 = Some t \<and> time_Sub now t < w
    then cl_run [(ClAllow, ctx, now)] s1 = (Returns [], s1)
    else \<exists>v. \<forall>now'. now + w \<le> now' \<longrightarrow>
      (\<exists>s2. cl_run [(ClAllow, ctx, now), (ClFire v, ctx', t'), (ClAllow, ctx', now')] s1 = (Returns [now'], s2))"
proof -
  have s1: "cl_synced s1" using assms(1,2) factory_run_synced by (auto simp: CloserFactory_run)
  then have w: "cl_sleepWindow s1 = w" "tc_sleepDuration (cl_reopenCircuitCheck s1) = w"
    by (simp_all add: cl_synced_def assms(4) cl_Config_def)
  show ?thesis
  proof (cases "\<exists>t. cl_closedAt s1 = Some t \<and> time_Sub now t < w")
    case True
    then show ?thesis using assms(3) w by (auto simp: cl_run_Cons go_run cl_grant_def cl_Allow_def)
  next
    case False
    let ?c = "tc_SleepStart now (cl_reopenCircuitCheck s1)"
    let ?v = "tc_isFailFastVersion ?c"
    let ?s2 = "s1\<lparr>cl_reopenCircuitCheck := ?c, cl_openedAt := Some now, cl_concurrentSuccessfulAttempts := 0\<rparr>"
    have arms: "cl_Allow now s1 = (False, ?s2)"
      using False assms(3) w by (auto simp: cl_Allow_def cl_arm_def Let_def)
    have "\<not> tc_isFastFail (tc_fire ?v ?c)"
      using wakes_up_reset [of now "cl_reopenCircuitCheck s1"] fire_current [of ?c]
      by (cases "?v \<in> set (tc_armed ?c)") (auto simp: tc_SleepStart_def wakes_up_def tc_fire_def)
    then have "fst (cl_Allow now' (?s2\<lparr>cl_reopenCircuitCheck := tc_fire ?v ?c\<rparr>))" if "now + w \<le> now'" for now'
      using that w by (subst conjunct1 [OF cl_Allow_armed]) (simp_all add: Check_granted_iff tc_SleepStart_def)
    then show ?thesis
      using False arms by (auto simp: cl_run_Cons go_run cl_grant_def intro!: exI [of _ ?v])
  qed
qed

theorem forgotten_closer_probes_again_witness:
  "\<exists>v s2. cl_run [(ClAllow, ctx_Background, 100), (ClFire v, ctx_Background, 104), (ClAllow, ctx_Background, 105)]
     (factory_closer (zero_ConfigureCloser\<lparr>ccl_SleepWindow := 5\<rparr>)) = (Returns [105], s2)"
  using forgotten_closer_probes_again [OF CloserFactory_run [of "zero_ConfigureCloser\<lparr>ccl_SleepWindow := 5\<rparr>" 0],
      of "[]" "[]" _ 5 100 ctx_Background ctx_Background 104]
  by (force simp add: go_run factory_closer_simps cl_Config_def ccl_Merge_def zero_ConfigureCloser_def Let_def)

end
