(* ===== verification/HystrixFactory.thy ===== *)
theory HystrixFactory
  imports HystrixOpener HystrixCloser CircuitConfig
begin

text \<open>
  Model of \<^verbatim>\<open>closers/hystrix/config.go\<close>: the factory that configures a circuit with the hystrix open/close
  logic, from a fixed configuration and constructors keyed by the circuit's name.
\<close>

record Factory =
  hf_ConfigureCloser :: ConfigureCloser
  hf_ConfigureOpener :: ConfigureOpener
  hf_CreateConfigureCloser :: "(string \<Rightarrow> ConfigureCloser) list"
  hf_CreateConfigureOpener :: "(string \<Rightarrow> ConfigureOpener) list"

text \<open>The loops run from the last constructor to the first.\<close>

definition hf_closerConfig :: "Factory \<Rightarrow> string \<Rightarrow> ConfigureCloser" where
  "hf_closerConfig c circuitName =
     (let finalConfig = foldl (\<lambda>cfg f. ccl_Merge cfg (f circuitName)) zero_ConfigureCloser
        (rev (hf_CreateConfigureCloser c))
      in ccl_Merge finalConfig (hf_ConfigureCloser c))"

definition hf_openerConfig :: "Factory \<Rightarrow> string \<Rightarrow> ConfigureOpener" where
  "hf_openerConfig c circuitName =
     (let finalConfig = foldl (\<lambda>cfg f. cop_Merge cfg (f circuitName)) zero_ConfigureOpener
        (rev (hf_CreateConfigureOpener c))
      in cop_Merge finalConfig (hf_ConfigureOpener c))"

definition hf_createCloser :: "Factory \<Rightarrow> string \<Rightarrow> (Closer OpenToClosed \<times> Closer, nat) go" where
  "hf_createCloser c circuitName = CloserFactory (hf_closerConfig c circuitName)"

definition hf_createOpener :: "clock \<Rightarrow> Factory \<Rightarrow> string \<Rightarrow> (Opener ClosedToOpen \<times> Opener, nat) go" where
  "hf_createOpener wall c circuitName = OpenerFactory wall (hf_openerConfig c circuitName)"

definition hf_Configure :: "clock \<Rightarrow> Factory \<Rightarrow> string \<Rightarrow> (Opener, Closer) Config" where
  "hf_Configure wall c circuitName = zero_Config\<lparr>cf_General := zero_GeneralConfig\<lparr>
     gc_OpenToClosedFactory := Some (hf_createCloser c circuitName),
     gc_ClosedToOpenFactory := Some (hf_createOpener wall c circuitName)\<rparr>\<rparr>"

subsection \<open>Which setting wins\<close>

lemma foldl_first_set:
  assumes "\<And>a b. f (merge a b) = (if f a = z then f b else f a)"
  shows "f (foldl (\<lambda>cfg g. merge cfg (g x)) c gs) = first_set z (f c # map (\<lambda>g. f (g x)) gs)"
proof (induction gs arbitrary: c)
  case (Cons g gs)
  show ?case using Cons [of "merge c (g x)"] by (simp add: assms)
qed simp

lemma first_set_append: "first_set z (xs @ ys) = (if first_set z xs = z then first_set z ys else first_set z xs)"
  by (induction xs) auto

lemma merge_chain:
  assumes "\<And>a b. f (merge a b) = (if f a = z then f b else f a)" "f c = z"
  shows "f (merge (merge (foldl (\<lambda>cfg g. merge cfg (g x)) c gs) d) e) =
    first_set z (map (\<lambda>g. f (g x)) gs @ [f d, f e])"
  using assms by (simp add: foldl_first_set [OF assms(1)] first_set_append)

lemma ccl_Merge_fields:
  "ccl_SleepWindow (ccl_Merge a b) = (if ccl_SleepWindow a = 0 then ccl_SleepWindow b else ccl_SleepWindow a)"
  "ccl_HalfOpenAttempts (ccl_Merge a b) =
     (if ccl_HalfOpenAttempts a = 0 then ccl_HalfOpenAttempts b else ccl_HalfOpenAttempts a)"
  "ccl_RequiredConcurrentSuccessful (ccl_Merge a b) = (if ccl_RequiredConcurrentSuccessful a = 0
     then ccl_RequiredConcurrentSuccessful b else ccl_RequiredConcurrentSuccessful a)"
  "ccl_AfterFunc (ccl_Merge a b) = (if ccl_AfterFunc a = None then ccl_AfterFunc b else ccl_AfterFunc a)"
  by (auto simp: ccl_Merge_def Let_def)

lemma cop_Merge_fields:
  "cop_ErrorThresholdPercentage (cop_Merge a b) = (if cop_ErrorThresholdPercentage a = 0
     then cop_ErrorThresholdPercentage b else cop_ErrorThresholdPercentage a)"
  "cop_RequestVolumeThreshold (cop_Merge a b) = (if cop_RequestVolumeThreshold a = 0
     then cop_RequestVolumeThreshold b else cop_RequestVolumeThreshold a)"
  "cop_Now (cop_Merge a b) = (if cop_Now a = None then cop_Now b else cop_Now a)"
  "cop_RollingDuration (cop_Merge a b) =
     (if cop_RollingDuration a = 0 then cop_RollingDuration b else cop_RollingDuration a)"
  "cop_NumBuckets (cop_Merge a b) = (if cop_NumBuckets a = 0 then cop_NumBuckets b else cop_NumBuckets a)"
  by (auto simp: cop_Merge_def Let_def)

subsection \<open>Properties\<close>

text \<open>The logic of a circuit configured by the factory: the circuit's configuration holds factories that
  make a closer and an opener, and each of their settings is the first non-zero one of the constructors
  taken from the most recently appended one, the fixed configuration, and the defaults.\<close>

theorem hystrix_factory_settings:
  "\<exists>s. hf_createCloser c nm n = (Returns (Closer_vt, s), n) \<and>
    gc_OpenToClosedFactory (cf_General (hf_Configure wall c nm)) = Some (hf_createCloser c nm) \<and>
    gc_ClosedToOpenFactory (cf_General (hf_Configure wall c nm)) = Some (hf_createOpener wall c nm) \<and>
    ccl_SleepWindow (cl_Config s) = first_set 0 (map (\<lambda>f. ccl_SleepWindow (f nm))
      (rev (hf_CreateConfigureCloser c)) @ [ccl_SleepWindow (hf_ConfigureCloser c), 5 * second]) \<and>
    ccl_HalfOpenAttempts (cl_Config s) = first_set 0 (map (\<lambda>f. ccl_HalfOpenAttempts (f nm))
      (rev (hf_CreateConfigureCloser c)) @ [ccl_HalfOpenAttempts (hf_ConfigureCloser c), 1]) \<and>
    ccl_RequiredConcurrentSuccessful (cl_Config s) = first_set 0 (map (\<lambda>f. ccl_RequiredConcurrentSuccessful (f nm))
      (rev (hf_CreateConfigureCloser c)) @ [ccl_RequiredConcurrentSuccessful (hf_ConfigureCloser c), 1]) \<and>
    cop_RequestVolumeThreshold (op_effective wall (hf_openerConfig c nm)) =
      first_set 0 (map (\<lambda>f. cop_RequestVolumeThreshold (f nm)) (rev (hf_CreateConfigureOpener c)) @
        [cop_RequestVolumeThreshold (hf_ConfigureOpener c), 20]) \<and>
    cop_ErrorThresholdPercentage (op_effective wall (hf_openerConfig c nm)) =
      first_set 0 (map (\<lambda>f. cop_ErrorThresholdPercentage (f nm)) (rev (hf_CreateConfigureOpener c)) @
        [cop_ErrorThresholdPercentage (hf_ConfigureOpener c), 50])"
proof -
  let ?s = "factory_closer (hf_closerConfig c nm)"
  have "hf_createCloser c nm n = (Returns (Closer_vt, ?s), n)"
    by (simp add: hf_createCloser_def CloserFactory_run)
  moreover have "cl_Config ?s = ccl_Merge (hf_closerConfig c nm) defaultConfigureCloser"
    by (simp add: cl_Config_def factory_closer_simps)
  moreover note
    merge_chain [where f = ccl_SleepWindow, OF ccl_Merge_fields(1), of zero_ConfigureCloser nm
      "rev (hf_CreateConfigureCloser c)" "hf_ConfigureCloser c" defaultConfigureCloser]
    merge_chain [where f = ccl_HalfOpenAttempts, OF ccl_Merge_fields(2), of zero_ConfigureCloser nm
      "rev (hf_CreateConfigureCloser c)" "hf_ConfigureCloser c" defaultConfigureCloser]
    merge_chain [where f = ccl_RequiredConcurrentSuccessful, OF ccl_Merge_fields(3), of zero_ConfigureCloser nm
      "rev (hf_CreateConfigureCloser c)" "hf_ConfigureCloser c" defaultConfigureCloser]
    merge_chain [where f = cop_RequestVolumeThreshold, OF cop_Merge_fields(2), of zero_ConfigureOpener nm
      "rev (hf_CreateConfigureOpener c)" "hf_ConfigureOpener c" "defaultConfigureOpener wall"]
    merge_chain [where f = cop_ErrorThresholdPercentage, OF cop_Merge_fields(1), of zero_ConfigureOpener nm
      "rev (hf_CreateConfigureOpener c)" "hf_ConfigureOpener c" "defaultConfigureOpener wall"]
  ultimately show ?thesis
    by (auto simp: hf_closerConfig_def hf_openerConfig_def hf_Configure_def op_effective_def Let_def
        zero_ConfigureCloser_def zero_ConfigureOpener_def defaultConfigureCloser_def defaultConfigureOpener_def)
qed

end
