(* ===== verification/SimpleLogic.thy ===== *)
theory SimpleLogic
  imports Interfaces
begin

text \<open>
  Model of \<^verbatim>\<open>closers/simplelogic/closers.go\<close>: \<^verbatim>\<open>ConsecutiveErrOpener\<close>, the closed to open logic that
  opens after a number of errors in a row. Its methods are collected in the table
  \<open>ConsecutiveErrOpener_vt\<close>. Its configuration methods take a type of its own, so that it does not
  satisfy the circuit's \<^verbatim>\<open>Configurable\<close>.
\<close>

record ConsecutiveErrOpener =
  ceo_consecutiveCount :: int64
  ceo_closeThreshold :: int64

record ConfigConsecutiveErrOpener =
  cceo_ErrorThreshold :: int64

definition ceo_Merge :: "ConfigConsecutiveErrOpener \<Rightarrow> ConfigConsecutiveErrOpener \<Rightarrow> ConfigConsecutiveErrOpener" where
  "ceo_Merge c other = (if cceo_ErrorThreshold c = 0
     then c\<lparr>cceo_ErrorThreshold := cceo_ErrorThreshold other\<rparr> else c)"

definition defaultConfigConsecutiveErrOpener :: ConfigConsecutiveErrOpener where
  "defaultConfigConsecutiveErrOpener = \<lparr>cceo_ErrorThreshold = 10\<rparr>"

definition ceo_SetConfigThreadSafe :: "ConfigConsecutiveErrOpener \<Rightarrow> ConsecutiveErrOpener \<Rightarrow> ConsecutiveErrOpener" where
  "ceo_SetConfigThreadSafe props c = c\<lparr>ceo_closeThreshold := cceo_ErrorThreshold props\<rparr>"

definition ceo_SetConfigNotThreadSafe :: "ConfigConsecutiveErrOpener \<Rightarrow> ConsecutiveErrOpener \<Rightarrow> ConsecutiveErrOpener" where
  "ceo_SetConfigNotThreadSafe props c = ceo_SetConfigThreadSafe props c"

definition ceo_Closed :: "ctx \<Rightarrow> gotime \<Rightarrow> (unit, ConsecutiveErrOpener) go" where
  "ceo_Closed ctx now = gmodify (\<lambda>c. c\<lparr>ceo_consecutiveCount := 0\<rparr>)"

definition ceo_Prevent :: "ctx \<Rightarrow> gotime \<Rightarrow> (bool, ConsecutiveErrOpener) go" where
  "ceo_Prevent ctx now = greturn False"

definition ceo_Success :: "ctx \<Rightarrow> gotime \<Rightarrow> duration \<Rightarrow> (unit, ConsecutiveErrOpener) go" where
  "ceo_Success ctx now d =
     gbind (gget ceo_consecutiveCount) (\<lambda>n.
     gwhen (n \<noteq> 0) (gmodify (\<lambda>c. c\<lparr>ceo_consecutiveCount := 0\<rparr>)))"

definition ceo_ErrFailure :: "ctx \<Rightarrow> gotime \<Rightarrow> duration \<Rightarrow> (unit, ConsecutiveErrOpener) go" where
  "ceo_ErrFailure ctx now d = gmodify (\<lambda>c. c\<lparr>ceo_consecutiveCount := add64 (ceo_consecutiveCount c) 1\<rparr>)"

definition ceo_ErrTimeout :: "ctx \<Rightarrow> gotime \<Rightarrow> duration \<Rightarrow> (unit, ConsecutiveErrOpener) go" where
  "ceo_ErrTimeout ctx now d = gmodify (\<lambda>c. c\<lparr>ceo_consecutiveCount := add64 (ceo_consecutiveCount c) 1\<rparr>)"

definition ceo_Opened :: "ctx \<Rightarrow> gotime \<Rightarrow> (unit, ConsecutiveErrOpener) go" where
  "ceo_Opened ctx now = gmodify (\<lambda>c. c\<lparr>ceo_consecutiveCount := 0\<rparr>)"

definition ceo_ShouldOpen :: "ctx \<Rightarrow> gotime \<Rightarrow> (bool, ConsecutiveErrOpener) go" where
  "ceo_ShouldOpen ctx now = gget (\<lambda>c. ceo_consecutiveCount c \<ge> ceo_closeThreshold c)"

definition ConsecutiveErrOpener_vt :: "ConsecutiveErrOpener ClosedToOpen" where
  "ConsecutiveErrOpener_vt = \<lparr>rm_Success = ceo_Success, rm_ErrFailure = ceo_ErrFailure,
     rm_ErrTimeout = ceo_ErrTimeout, rm_ErrBadRequest = (\<lambda>_ _ _. greturn ()),
     rm_ErrInterrupt = (\<lambda>_ _ _. greturn ()), rm_ErrConcurrencyLimitReject = (\<lambda>_ _. greturn ()),
     rm_ErrShortCircuit = (\<lambda>_ _. greturn ()),
     sm_Closed = ceo_Closed, sm_Opened = ceo_Opened,
     sm_SetConfigThreadSafe = None, sm_SetConfigNotThreadSafe = None,
     co_ShouldOpen = ceo_ShouldOpen, co_Prevent = ceo_Prevent\<rparr>"

definition ConsecutiveErrOpenerFactory ::
  "ConfigConsecutiveErrOpener \<Rightarrow> (ConsecutiveErrOpener ClosedToOpen \<times> ConsecutiveErrOpener, nat) go" where
  "ConsecutiveErrOpenerFactory config =
     (let ret = \<lparr>ceo_consecutiveCount = 0, ceo_closeThreshold = 0\<rparr>;
          cfg = ceo_Merge config defaultConfigConsecutiveErrOpener
      in greturn (ConsecutiveErrOpener_vt, ceo_SetConfigThreadSafe cfg ret))"

subsection \<open>The streak of errors, as a specification\<close>

fun resets_streak :: "sm_event \<Rightarrow> bool" where
  "resets_streak (SmRun (EvSuccess d)) = True"
| "resets_streak SmOpened = True"
| "resets_streak SmClosed = True"
| "resets_streak _ = False"

text \<open>The number of errors since the last event that resets the streak.\<close>

definition streak :: "sm_event list \<Rightarrow> nat" where
  "streak evs = length (filter counts_error (takeWhile (\<lambda>e. \<not> resets_streak e) (rev evs)))"

lemma streak_Nil [simp]: "streak [] = 0"
  by (simp add: streak_def)

lemma streak_snoc: "streak (evs @ [e]) =
    (if resets_streak e then 0 else if counts_error e then Suc (streak evs) else streak evs)"
  by (simp add: streak_def)

lemma ceo_send:
  "in_int64 (ceo_consecutiveCount c) \<Longrightarrow>
   sm_send ev ctx now ConsecutiveErrOpener_vt c = (Returns (), c\<lparr>ceo_consecutiveCount :=
     (if resets_streak ev then 0 else if counts_error ev then add64 (ceo_consecutiveCount c) 1
      else ceo_consecutiveCount c)\<rparr>)"
  by (cases "(ev, ctx, now, ConsecutiveErrOpener_vt)" rule: sm_send.cases;
      cases ev; (rename_tac r, case_tac r)?)
     (auto simp: ConsecutiveErrOpener_vt_def ceo_Success_def ceo_ErrFailure_def ceo_ErrTimeout_def
      ceo_Opened_def ceo_Closed_def go_simps)

lemma ceo_history:
  "in_int64 (ceo_consecutiveCount c) \<Longrightarrow> ceo_consecutiveCount c = wrap64 (int (streak evs)) \<Longrightarrow>
   sm_history ConsecutiveErrOpener_vt h c = (Returns (), c\<lparr>ceo_consecutiveCount :=
     wrap64 (int (streak (evs @ map fst h)))\<rparr>)"
proof (induction h arbitrary: c evs)
  case (Cons x h)
  obtain ev ctx now where x: "x = (ev, ctx, now)" by (cases x)
  let ?c1 = "c\<lparr>ceo_consecutiveCount := wrap64 (int (streak (evs @ [ev])))\<rparr>"
  have "sm_send ev ctx now ConsecutiveErrOpener_vt c = (Returns (), ?c1)"
    using Cons.prems by (auto simp: ceo_send streak_snoc add64_def add.commute)
  moreover have "sm_history ConsecutiveErrOpener_vt h ?c1 =
      (Returns (), ?c1\<lparr>ceo_consecutiveCount := wrap64 (int (streak ((evs @ [ev]) @ map fst h)))\<rparr>)"
    by (rule Cons.IH) simp_all
  ultimately show ?case by (simp add: sm_history_def go_simps x)
qed (simp add: sm_history_def go_simps)

interpretation consecutive: closed_to_open ConsecutiveErrOpener_vt "\<lambda>c. in_int64 (ceo_consecutiveCount c)"
proof (unfold_locales)
  fix ev ctx now
  show "safe (\<lambda>c. in_int64 (ceo_consecutiveCount c)) (rm_send ev ctx now ConsecutiveErrOpener_vt)"
    using ceo_send [of _ "SmRun ev" ctx now] by (auto intro!: safeI)
qed (simp_all add: ConsecutiveErrOpener_vt_def ceo_Closed_def ceo_Opened_def ceo_ShouldOpen_def
      ceo_Prevent_def safe_gmodify)

subsection \<open>Properties\<close>

text \<open>C39: An opener made by the factory, through any history of reports from the circuit: it asks to
  open exactly when the number of failures and timeouts since the last success, opening or closing
  has reached the threshold, which is 10 when the configuration leaves it unset.\<close>

theorem opens_on_consecutive_errors:
  assumes "int (streak (map fst h)) \<le> max_int64"
  shows "\<exists>c c'. ConsecutiveErrOpenerFactory config n = (Returns (ConsecutiveErrOpener_vt, c), n) \<and>
    sm_history ConsecutiveErrOpener_vt h c = (Returns (), c') \<and>
    co_ShouldOpen ConsecutiveErrOpener_vt ctx now c' =
      (Returns ((if cceo_ErrorThreshold config = 0 then 10 else cceo_ErrorThreshold config)
                \<le> int (streak (map fst h))), c')"
proof -
  let ?th = "if cceo_ErrorThreshold config = 0 then 10 else cceo_ErrorThreshold config"
  let ?c = "\<lparr>ceo_consecutiveCount = 0, ceo_closeThreshold = ?th\<rparr>"
  have "ConsecutiveErrOpenerFactory config n = (Returns (ConsecutiveErrOpener_vt, ?c), n)"
    by (simp add: ConsecutiveErrOpenerFactory_def ceo_Merge_def ceo_SetConfigThreadSafe_def
        defaultConfigConsecutiveErrOpener_def go_simps)
  moreover have "sm_history ConsecutiveErrOpener_vt h ?c =
      (Returns (), ?c\<lparr>ceo_consecutiveCount := int (streak (map fst h))\<rparr>)"
    using assms ceo_history [of ?c "[]" h] by (simp add: in_int64_def min_int64_def)
  ultimately show ?thesis
    by (auto simp: ConsecutiveErrOpener_vt_def ceo_ShouldOpen_def go_simps)
qed

theorem opens_on_consecutive_errors_witness:
  "let h = map (\<lambda>e. (SmRun e, ctx_Background, 0))
             [EvErrFailure 1, EvSuccess 1, EvErrFailure 1, EvErrBadRequest 1, EvErrTimeout 1] in
   \<exists>c c'. ConsecutiveErrOpenerFactory \<lparr>cceo_ErrorThreshold = 2\<rparr> 0 = (Returns (ConsecutiveErrOpener_vt, c), 0) \<and>
    sm_history ConsecutiveErrOpener_vt h c = (Returns (), c') \<and>
    co_ShouldOpen ConsecutiveErrOpener_vt ctx_Background 5 c' = (Returns True, c')"
  using opens_on_consecutive_errors [of "map (\<lambda>e. (SmRun e, ctx_Background, 0))
      [EvErrFailure 1, EvSuccess 1, EvErrFailure 1, EvErrBadRequest 1, EvErrTimeout 1]"
      "\<lparr>cceo_ErrorThreshold = 2\<rparr>" 0 ctx_Background 5]
  by (simp add: Let_def streak_def max_int64_def)

end
