(* ===== verification/Float64.thy ===== *)
theory Float64
  imports Go_Prelude Complex_Main "HOL-Library.Log_Nat"
begin

text \<open>
  What the code uses of Go's \<^verbatim>\<open>float64\<close>: rounding a rational number to the nearest double, ties to
  even (\<open>fl64\<close>), and the conversions from and to 64 bit integers. A finite double is the rational number
  it stands for. The numbers of the code are below \<open>2 ^ 64\<close>, so the overflow to infinity is not modelled;
  gradual underflow is.

  What clients rely on is the locale \<open>float_rounding\<close>: rounding is monotone, and exact on the integers a
  double can hold.
\<close>

datatype float64 = NaN | PosInf | NegInf | Finite rat

definition round_half_even :: "rat \<Rightarrow> int" where
  "round_half_even x =
     (let f = \<lfloor>x\<rfloor>; d = x - of_int f in
      if d < 1 / 2 then f else if 1 / 2 < d then f + 1 else if even f then f else f + 1)"

text \<open>The exponent of the leading binary digit, and of the last one a double keeps.\<close>

definition lead_exponent :: "rat \<Rightarrow> int" where
  "lead_exponent x =
     (let (a, b) = quotient_of \<bar>x\<bar>; k = bitlen a - bitlen b in
      if 2 powi k \<le> \<bar>x\<bar> then k else k - 1)"

definition ulp_exponent :: "rat \<Rightarrow> int" where
  "ulp_exponent x = max (- 1074) (lead_exponent x - 52)"

definition fl64 :: "rat \<Rightarrow> rat" where
  "fl64 x = (if x = 0 then 0
     else of_int (round_half_even (x / 2 powi ulp_exponent x)) * 2 powi ulp_exponent x)"

text \<open>\<^verbatim>\<open>float64(i)\<close>, and \<^verbatim>\<open>int64(x)\<close>, which truncates towards zero.\<close>

definition float_of_int :: "int64 \<Rightarrow> rat" where
  "float_of_int i = fl64 (of_int i)"

definition trunc :: "rat \<Rightarrow> int" where
  "trunc x = (if 0 \<le> x then \<lfloor>x\<rfloor> else \<lceil>x\<rceil>)"

definition int_of_float :: "rat \<Rightarrow> int64" where
  "int_of_float x = wrap64 (trunc x)"

lemma in_int64_53: "0 \<le> i \<Longrightarrow> i \<le> 2 ^ 53 \<Longrightarrow> in_int64 i"
  by (simp add: in_int64_def min_int64_def max_int64_def)

lemma int_of_float_small:
  assumes "0 \<le> \<lfloor>x\<rfloor>" "\<lfloor>x\<rfloor> \<le> 2 ^ 53"
  shows "int_of_float x = \<lfloor>x\<rfloor>"
  using in_int64_53 [OF assms] assms(1) by (simp add: int_of_float_def trunc_def)

subsection \<open>The interface\<close>

locale float_rounding =
  fixes rnd :: "rat \<Rightarrow> rat"
  assumes mono: "x \<le> y \<Longrightarrow> rnd x \<le> rnd y"
    and exact: "\<bar>i\<bar> \<le> 2 ^ 53 \<Longrightarrow> rnd (of_int i) = of_int i"
begin

lemma rnd_0 [simp]: "rnd 0 = 0" and rnd_1 [simp]: "rnd 1 = 1"
  using exact [of 0] exact [of 1] by simp_all

lemma nonneg: "0 \<le> x \<Longrightarrow> 0 \<le> rnd x"
  using mono [of 0 x] by simp

lemma bounded: "x \<le> of_int i \<Longrightarrow> \<bar>i\<bar> \<le> 2 ^ 53 \<Longrightarrow> rnd x \<le> of_int i"
  using mono [of x "of_int i"] exact [of i] by simp

lemma bounded_below: "of_int i \<le> x \<Longrightarrow> \<bar>i\<bar> \<le> 2 ^ 53 \<Longrightarrow> of_int i \<le> rnd x"
  using mono [of "of_int i" x] exact [of i] by simp

end

subsection \<open>Rounding to the nearest integer\<close>

lemma round_half_even_le: "x \<le> of_int k \<Longrightarrow> round_half_even x \<le> k"
proof -
  assume x: "x \<le> of_int k"
  consider "x = of_int k" | "\<lfloor>x\<rfloor> < k" using x by (metis floor_less_iff order_le_less)
  then show ?thesis by cases (auto simp: round_half_even_def Let_def)
qed

lemma round_half_even_ge: "of_int k \<le> x \<Longrightarrow> k \<le> round_half_even x"
proof -
  assume "of_int k \<le> x"
  then have "k \<le> \<lfloor>x\<rfloor>" by (simp add: le_floor_iff)
  then show ?thesis by (auto simp: round_half_even_def Let_def)
qed

lemma round_half_even_int [simp]: "round_half_even (of_int k) = k"
  using round_half_even_le [of "of_int k" k] round_half_even_ge [of k "of_int k"] by simp

lemma round_half_even_mono:
  assumes "x \<le> y"
  shows "round_half_even x \<le> round_half_even y"
proof (cases "\<lfloor>x\<rfloor> = \<lfloor>y\<rfloor>")
  case True
  then show ?thesis using assms by (auto simp: round_half_even_def Let_def)
next
  case False
  then have "\<lfloor>x\<rfloor> + 1 \<le> \<lfloor>y\<rfloor>" using assms floor_mono [OF assms] by simp
  then have k: "of_int (\<lfloor>x\<rfloor> + 1) \<le> y" by (simp only: le_floor_iff)
  have "x \<le> of_int (\<lfloor>x\<rfloor> + 1)" using floor_correct [of x] by linarith
  then show ?thesis using round_half_even_le round_half_even_ge [OF k] order_trans by blast
qed

lemma round_half_even_minus: "round_half_even (- x) = - round_half_even x"
proof (cases "of_int \<lfloor>x\<rfloor> = x")
  case True
  then show ?thesis by (metis of_int_minus round_half_even_int)
next
  case False
  have "\<lfloor>- x\<rfloor> = - \<lfloor>x\<rfloor> - 1"
    using False floor_correct [of x] order_le_less [of "of_int \<lfloor>x\<rfloor>" x] by (intro floor_unique) auto
  then show ?thesis
    using False floor_correct [of x] by (auto simp: round_half_even_def Let_def)
qed

subsection \<open>The leading exponent\<close>

lemma pow_less: "(2 :: rat) powi m < 2 powi n \<longleftrightarrow> m < n"
  using power_int_strict_increasing [of m n "2 :: rat"] power_int_increasing [of n m "2 :: rat"] by fastforce

lemma pow_pos [simp]: "0 < (2 :: rat) powi n"
  by simp

lemma lead_exponent_bounds:
  assumes "x \<noteq> 0"
  shows "2 powi lead_exponent x \<le> \<bar>x\<bar> \<and> \<bar>x\<bar> < 2 powi (lead_exponent x + 1)"
proof -
  obtain a b where q: "quotient_of \<bar>x\<bar> = (a, b)" by fastforce
  then have b: "0 < b" and x: "\<bar>x\<bar> = of_int a / of_int b"
    using quotient_of_denom_pos quotient_of_div by blast+
  have "0 < of_int a / (of_int b :: rat)" using assms by (simp flip: x)
  then have a: "0 < a" using b by (simp add: zero_less_divide_iff)
  let ?A = "bitlen a" and ?B = "bitlen b"
  have bl: "2 powi (?A - 1) \<le> (of_int a :: rat)" "(of_int a :: rat) < 2 powi ?A"
    "2 powi (?B - 1) \<le> (of_int b :: rat)" "(of_int b :: rat) < 2 powi ?B"
  proof -
    have "2 powi (bitlen c - 1) \<le> (of_int c :: rat) \<and> (of_int c :: rat) < 2 powi bitlen c" if "0 < c" for c :: int
    proof -
      have n: "0 \<le> bitlen c - 1" using that bitlen_nonneg [of c] bitlen_eq_zero_iff [of c] by linarith
      have "2 ^ nat (bitlen c - 1) \<le> c \<and> c < 2 ^ nat (bitlen c)" using bitlen_bounds [OF that] .
      then have "of_int (2 ^ nat (bitlen c - 1)) \<le> (of_int c :: rat) \<and> (of_int c :: rat) < of_int (2 ^ nat (bitlen c))"
        by (simp only: of_int_le_iff of_int_less_iff)
      then show ?thesis using n by (simp add: power_int_def)
    qed
    then show "2 powi (?A - 1) \<le> (of_int a :: rat)" "(of_int a :: rat) < 2 powi ?A"
      "2 powi (?B - 1) \<le> (of_int b :: rat)" "(of_int b :: rat) < 2 powi ?B" using a b by blast+
  qed
  let ?k = "?A - ?B"
  have up: "\<bar>x\<bar> < 2 powi (?k + 1)"
  proof -
    have "(of_int a :: rat) < 2 powi (?k + 1) * 2 powi (?B - 1)"
      using bl(2) by (simp flip: power_int_add)
    also have "\<dots> \<le> 2 powi (?k + 1) * of_int b" using bl(3) by (intro mult_left_mono) simp_all
    finally show ?thesis using b by (simp add: x divide_less_eq)
  qed
  have lo: "2 powi (?k - 1) < \<bar>x\<bar>"
  proof -
    have "(2 :: rat) powi (?k - 1) * of_int b < 2 powi (?k - 1) * 2 powi ?B"
      using bl(4) by (intro mult_strict_left_mono) simp_all
    also have "\<dots> = 2 powi (?A - 1)" by (simp flip: power_int_add)
    also have "\<dots> \<le> of_int a" by (rule bl(1))
    finally show ?thesis using b by (simp add: x less_divide_eq)
  qed
  show ?thesis using up lo by (auto simp: lead_exponent_def q Let_def)
qed

lemma lead_exponent_mono:
  assumes "x \<noteq> 0" "\<bar>x\<bar> \<le> \<bar>y\<bar>"
  shows "lead_exponent x \<le> lead_exponent y"
proof -
  have "y \<noteq> 0" using assms by auto
  then have "(2 :: rat) powi lead_exponent x < 2 powi (lead_exponent y + 1)"
    using lead_exponent_bounds [of x] lead_exponent_bounds [of y] assms by fastforce
  then show ?thesis by (simp only: pow_less)
qed

lemma lead_exponent_minus [simp]: "lead_exponent (- x) = lead_exponent x"
  by (simp add: lead_exponent_def)

lemma fl64_minus: "fl64 (- x) = - fl64 x"
  by (simp add: fl64_def ulp_exponent_def round_half_even_minus)

lemma fl64_nonneg: "0 \<le> x \<Longrightarrow> 0 \<le> fl64 x"
  using round_half_even_ge [of 0 "x / 2 powi ulp_exponent x"] by (simp add: fl64_def)

subsection \<open>Rounding to a double\<close>

lemma fl64_mono_pos:
  assumes x: "0 < x" and le: "x \<le> y"
  shows "fl64 x \<le> fl64 y"
proof -
  let ?e = "ulp_exponent x" and ?f = "ulp_exponent y"
  have ef: "?e \<le> ?f" using lead_exponent_mono [of x y] assms by (simp add: ulp_exponent_def)
  show ?thesis
  proof (cases "?e = ?f")
    case True
    have "x / 2 powi ?f \<le> y / 2 powi ?f" using le by (simp add: divide_right_mono)
    then have "round_half_even (x / 2 powi ?f) \<le> round_half_even (y / 2 powi ?f)" by (rule round_half_even_mono)
    then show ?thesis using x le True by (simp add: fl64_def)
  next
    case False
    let ?m = "lead_exponent y"
    have f: "?f = ?m - 52" and m: "?e \<le> ?m - 53" using False ef by (auto simp: ulp_exponent_def)
    have "lead_exponent x + 1 \<le> ?e + 53" by (simp add: ulp_exponent_def)
    then have "x < 2 powi (?e + 53)"
      using lead_exponent_bounds [of x] x power_int_increasing [of "lead_exponent x + 1" "?e + 53" "2 :: rat"]
      by simp
    then have "x / 2 powi ?e \<le> of_int (2 ^ 53)"
      by (simp add: divide_le_eq power_int_add mult.commute)
    then have "round_half_even (x / 2 powi ?e) \<le> 2 ^ 53" by (rule round_half_even_le)
    then have "of_int (round_half_even (x / 2 powi ?e)) * 2 powi ?e \<le> of_int (2 ^ 53) * (2 :: rat) powi ?e"
      by (intro mult_right_mono) (simp_all only: of_int_le_iff, simp)
    also have "\<dots> = 2 powi (?e + 53)" by (simp add: power_int_add)
    also have "\<dots> \<le> 2 powi ?m" using m by (intro power_int_increasing) simp_all
    also have "\<dots> = of_int (2 ^ 52) * 2 powi ?f" by (simp add: f power_int_diff)
    also have "\<dots> \<le> of_int (round_half_even (y / 2 powi ?f)) * 2 powi ?f"
    proof -
      have "2 powi ?m \<le> y" using lead_exponent_bounds [of y] x le by auto
      then have "of_int (2 ^ 52) \<le> y / 2 powi ?f" by (simp add: f power_int_diff le_divide_eq)
      then have "2 ^ 52 \<le> round_half_even (y / 2 powi ?f)" by (rule round_half_even_ge)
      then show ?thesis by (intro mult_right_mono) (simp_all only: of_int_le_iff, simp)
    qed
    finally show ?thesis using x le by (simp add: fl64_def)
  qed
qed

lemma fl64_mono: "x \<le> y \<Longrightarrow> fl64 x \<le> fl64 y"
proof -
  assume le: "x \<le> y"
  consider "0 < x" | "x = 0" | "x < 0" "0 \<le> y" | "y < 0" using le by linarith
  then show ?thesis
  proof cases
    case 1
    then show ?thesis using fl64_mono_pos le by blast
  next
    case 2
    then show ?thesis using fl64_nonneg [of y] le by (simp add: fl64_def)
  next
    case 3
    then show ?thesis using fl64_nonneg [of "- x"] fl64_nonneg [of y] by (simp add: fl64_minus)
  next
    case 4
    then show ?thesis using fl64_mono_pos [of "- y" "- x"] le by (simp add: fl64_minus)
  qed
qed

lemma fl64_grid:
  assumes "x = of_int m * 2 powi ulp_exponent x"
  shows "fl64 x = x"
proof (cases "x = 0")
  case False
  have "x / 2 powi ulp_exponent x = of_int m" by (subst assms) simp
  then show ?thesis using assms False by (simp add: fl64_def)
qed (simp add: fl64_def)

lemma fl64_exact: "\<bar>i\<bar> \<le> 2 ^ 53 \<Longrightarrow> fl64 (of_int i) = of_int i"
proof -
  assume i: "\<bar>i\<bar> \<le> 2 ^ 53"
  show ?thesis
  proof (cases "i = 0 \<or> \<bar>i\<bar> = 2 ^ 53")
    case True
    then consider "i = 0" | "\<bar>i\<bar> = 2 ^ 53" by blast
    then show ?thesis
    proof cases
      case 2
      have abs: "\<bar>of_int i :: rat\<bar> = 2 powi 53" using 2 by (simp flip: of_int_abs)
      have "(2 :: rat) powi lead_exponent (of_int i) \<le> 2 powi 53" "(2 :: rat) powi 53 < 2 powi (lead_exponent (of_int i) + 1)"
        using lead_exponent_bounds [of "of_int i"] abs 2 by auto
      then have "lead_exponent (of_int i) = 53" by (simp only: pow_less flip: not_less)
      then have "ulp_exponent (of_int i) = 1" by (simp add: ulp_exponent_def)
      moreover have "i = sgn i * 2 ^ 52 * 2" using 2 by (simp add: abs_if sgn_if split: if_splits)
      ultimately have "of_int i = of_int (sgn i * 2 ^ 52) * (2 :: rat) powi ulp_exponent (of_int i)"
        by (metis of_int_mult of_int_numeral power_int_1_right)
      then show ?thesis by (rule fl64_grid)
    qed (simp add: fl64_def)
  next
    case False
    let ?x = "of_int i :: rat" and ?e = "ulp_exponent (of_int i)"
    have "2 powi lead_exponent ?x \<le> \<bar>?x\<bar>" using lead_exponent_bounds [of ?x] False by simp
    also have "\<dots> = of_int \<bar>i\<bar>" by simp
    also have "(of_int \<bar>i\<bar> :: rat) < of_int (2 ^ 53)" unfolding of_int_less_iff using i False by simp
    also have "\<dots> = 2 powi 53" by simp
    finally have "lead_exponent ?x < 53" by (simp only: pow_less)
    then have e: "?e \<le> 0" by (simp add: ulp_exponent_def)
    then have "?x = of_int (i * 2 ^ nat (- ?e)) * 2 powi ?e"
      by (simp add: power_int_def flip: power_mult_distrib)
    then show ?thesis by (rule fl64_grid)
  qed
qed

interpretation fl64: float_rounding fl64
  by unfold_locales (auto intro: fl64_mono fl64_exact)

text \<open>How far rounding moves a number.\<close>

lemma round_half_even_error: "\<bar>of_int (round_half_even x) - x\<bar> \<le> 1 / 2"
proof -
  have "of_int \<lfloor>x\<rfloor> \<le> x" "x < of_int \<lfloor>x\<rfloor> + 1" by linarith+
  then show ?thesis by (auto simp: round_half_even_def Let_def abs_le_iff)
qed

lemma fl64_error:
  assumes "\<bar>x\<bar> < 2 powi k" "- 1021 \<le> k"
  shows "\<bar>fl64 x - x\<bar> \<le> 2 powi (k - 54)"
proof (cases "x = 0")
  case False
  let ?u = "(2 :: rat) powi ulp_exponent x" and ?r = "rat_of_int (round_half_even (x / 2 powi ulp_exponent x))"
  have "(2 :: rat) powi lead_exponent x < 2 powi k" using lead_exponent_bounds [OF False] assms(1) by linarith
  then have "ulp_exponent x \<le> k - 53" using assms(2) by (simp only: pow_less) (simp add: ulp_exponent_def)
  then have u: "?u \<le> 2 powi (k - 53)" by (simp add: power_int_increasing)
  have "fl64 x - x = (?r - x / ?u) * ?u" using False by (simp add: fl64_def left_diff_distrib)
  then have "\<bar>fl64 x - x\<bar> = \<bar>?r - x / ?u\<bar> * ?u" by (simp add: abs_mult)
  also have "\<dots> \<le> 1 / 2 * ?u" using round_half_even_error by (intro mult_right_mono) simp_all
  also have "\<dots> \<le> 1 / 2 * 2 powi (k - 53)" using u by simp
  also have "\<dots> = 2 powi (k - 54)" using power_int_minus_mult [of 2 "k - 53"] by (simp add: power_int_diff)
  finally show ?thesis .
qed (simp add: fl64_def)

text \<open>
  A percentage computed as \<open>100 * (e / a)\<close> in doubles and truncated is the exact one rounded down, except
  that a whole percentage may come out one lower.
\<close>

lemma truncated_percentage:
  assumes "0 \<le> e" "e \<le> a" "0 < a" "a < 2 ^ 45"
  defines "P \<equiv> 100 * rat_of_int e / of_int a" and "n \<equiv> int_of_float (fl64 (100 * fl64 (of_int e / of_int a)))"
  shows "\<lceil>P\<rceil> - 1 \<le> n" "n \<le> \<lfloor>P\<rfloor>" "0 \<le> n" "n \<le> 100"
proof -
  let ?q = "fl64 (of_int e / of_int a)" and ?a = "rat_of_int a"
  let ?y = "fl64 (100 * ?q)"
  have a: "0 < ?a" "?a < 2 ^ 45" using assms(3) of_int_less_iff [of a "2 ^ 45", where 'a = rat] assms(4)
    by (simp_all del: of_int_less_iff)
  have q: "0 \<le> rat_of_int e / ?a" "rat_of_int e / ?a \<le> of_int 1" using assms(1-3) by (simp_all add: divide_le_eq)
  then have q': "0 \<le> ?q" "?q \<le> 1" using fl64.nonneg fl64.bounded [of "of_int e / ?a" 1] by simp_all
  have y: "0 \<le> ?y" "?y \<le> 100" using q' fl64.nonneg [of "100 * ?q"] fl64.bounded [of "100 * ?q" 100] by simp_all
  have errq: "\<bar>?q - of_int e / ?a\<bar> \<le> 2 powi (1 - 54)" using q by (intro fl64_error) simp_all
  have sum: "u \<le> p \<Longrightarrow> v \<le> r \<Longrightarrow> w \<le> v + 100 * u \<Longrightarrow> r + 100 * p < t \<Longrightarrow> w < t" for u v w p r t :: rat
    by linarith
  have erry: "\<bar>?y - 100 * ?q\<bar> \<le> 2 powi (7 - 54)" using q' by (intro fl64_error) simp_all
  have "\<bar>?y - P\<bar> \<le> \<bar>?y - 100 * ?q\<bar> + 100 * \<bar>?q - of_int e / ?a\<bar>"
    by (simp add: P_def abs_if)
  moreover have "(2 :: rat) powi (7 - 54) + 100 * 2 powi (1 - 54) < 1 / 2 ^ 45" by (simp add: power_int_def power_one_over)
  ultimately have "\<bar>?y - P\<bar> < 1 / 2 ^ 45" by (rule sum [OF errq erry])
  then have close: "?y < P + 1 / ?a" "P - 1 / ?a < ?y"
    using frac_less2 [OF zero_less_one order_refl a] unfolding abs_less_iff by linarith+
  have n: "n = \<lfloor>?y\<rfloor>"
    unfolding n_def using y by (intro int_of_float_small) (simp_all add: floor_le_iff)
  have "\<lceil>P\<rceil> - 1 \<le> \<lfloor>?y\<rfloor>"
  proof -
    have "rat_of_int (\<lceil>P\<rceil> - 1) < P" by linarith
    then have "rat_of_int ((\<lceil>P\<rceil> - 1) * a) < of_int (100 * e)" using a(1) by (simp add: P_def less_divide_eq)
    then have "(\<lceil>P\<rceil> - 1) * a + 1 \<le> 100 * e" by (simp only: of_int_less_iff)
    then have "rat_of_int ((\<lceil>P\<rceil> - 1) * a + 1) \<le> of_int (100 * e)" by (simp only: of_int_le_iff)
    then have "of_int (\<lceil>P\<rceil> - 1) \<le> P - 1 / ?a"
      using a(1) by (simp add: P_def le_divide_eq diff_divide_distrib [symmetric] algebra_simps)
    then show ?thesis using close(2) by (simp only: le_floor_iff)
  qed
  moreover have "\<lfloor>?y\<rfloor> \<le> \<lfloor>P\<rfloor>"
  proof -
    have "P < rat_of_int (\<lfloor>P\<rfloor> + 1)" by linarith
    then have "rat_of_int (100 * e) < of_int ((\<lfloor>P\<rfloor> + 1) * a)" using a(1) by (simp add: P_def divide_less_eq)
    then have "100 * e + 1 \<le> (\<lfloor>P\<rfloor> + 1) * a" by (simp only: of_int_less_iff)
    then have "rat_of_int (100 * e + 1) \<le> of_int ((\<lfloor>P\<rfloor> + 1) * a)" by (simp only: of_int_le_iff)
    then have "P + 1 / ?a \<le> of_int (\<lfloor>P\<rfloor> + 1)"
      using a(1) by (simp add: P_def divide_le_eq add_divide_distrib [symmetric])
    then have "?y < of_int (\<lfloor>P\<rfloor> + 1)" using close(1) by linarith
    then show ?thesis by (metis floor_less_iff zless_add1_eq order.order_iff_strict)
  qed
  ultimately show "\<lceil>P\<rceil> - 1 \<le> n" "n \<le> \<lfloor>P\<rfloor>" using n by simp_all
  show "0 \<le> n" "n \<le> 100" using y n by (simp_all add: floor_le_iff)
qed

end
