(* ===== verification/RollingPercentile.thy ===== *)
theory RollingPercentile
  imports RollingBuckets Float64 "HOL-Library.Multiset"
begin

text \<open>
  Model of \<^verbatim>\<open>faststats/rolling_percentile.go\<close>: the durations of a sliding window of time, and their
  percentiles.

  A bucket (\<^verbatim>\<open>durationsBucket\<close>) is a ring of slots that keep the latest durations, each stored as its
  nanoseconds plus one so that zero can mean unset. The window is the one of \<open>RollingBuckets\<close>, through its
  interface \<open>bucket_array\<close>. The specification (\<open>sample_window\<close>) is the list of all durations recorded so
  far with their absolute indices.
\<close>

record durationsBucket =
  db_durationsSomeInvalid :: "int64 list"
  db_currentIndex :: int64

definition unsetDuration :: int64 where
  "unsetDuration = 0"

definition newDurationsBucket :: "int \<Rightarrow> (durationsBucket, 's) go" where
  "newDurationsBucket bucketSize =
     gbind (gmake 0 bucketSize) (\<lambda>ds.
     greturn \<lparr>db_durationsSomeInvalid = ds, db_currentIndex = 0\<rparr>)"

definition encodeDuration :: "duration \<Rightarrow> int64" where
  "encodeDuration d = (let d = (if d < 0 then 0 else d) in add64 d 1)"

definition decodeDuration :: "int64 \<Rightarrow> duration" where
  "decodeDuration v = sub64 v 1"

definition db_size :: "durationsBucket \<Rightarrow> int" where
  "db_size b = min (db_currentIndex b) (int (length (db_durationsSomeInvalid b)))"

text \<open>The loop reads the slots below \<^verbatim>\<open>size()\<close>, which is at most their number.\<close>

definition appendDurations :: "durationsBucket \<Rightarrow> duration list \<Rightarrow> duration list" where
  "appendDurations b ret =
     ret @ map decodeDuration (filter (\<lambda>v. v \<noteq> unsetDuration)
       (take (nat (db_size b)) (db_durationsSomeInvalid b)))"

definition db_clear :: "durationsBucket \<Rightarrow> durationsBucket" where
  "db_clear b =
     (let used = nat (db_size b) in
      b\<lparr>db_durationsSomeInvalid := replicate used unsetDuration @ drop used (db_durationsSomeInvalid b),
        db_currentIndex := 0\<rparr>)"

definition addDuration :: "duration \<Rightarrow> (unit, durationsBucket) go" where
  "addDuration d =
     gbind (gget (\<lambda>b. int (length (db_durationsSomeInvalid b)))) (\<lambda>len.
     if len = 0 then greturn ()
     else
       gseq (gmodify (\<lambda>b. b\<lparr>db_currentIndex := add64 (db_currentIndex b) 1\<rparr>))
      (gbind (gget (\<lambda>b. sub64 (db_currentIndex b) 1)) (\<lambda>nextIndex.
       gbind (grem nextIndex len) (\<lambda>arrayIndex.
       gzoom db_durationsSomeInvalid (\<lambda>ds b. b\<lparr>db_durationsSomeInvalid := ds\<rparr>)
         (gstore arrayIndex (\<lambda>_. encodeDuration d))))))"

record RollingPercentile =
  rp_buckets :: "durationsBucket list"
  rp_rollingBucket :: RollingBuckets

fun makeBuckets_loop :: "nat \<Rightarrow> int \<Rightarrow> (durationsBucket list, 's) go" where
  "makeBuckets_loop 0 bucketSize = greturn []"
| "makeBuckets_loop (Suc i) bucketSize =
     gbind (newDurationsBucket bucketSize) (\<lambda>b.
     gbind (makeBuckets_loop i bucketSize) (\<lambda>bs.
     greturn (b # bs)))"

definition makeBuckets :: "int \<Rightarrow> int \<Rightarrow> (durationsBucket list, 's) go" where
  "makeBuckets numBuckets bucketSize =
     gseq (gmake \<lparr>db_durationsSomeInvalid = [], db_currentIndex = 0\<rparr> numBuckets)
       (makeBuckets_loop (nat numBuckets) bucketSize)"

definition NewRollingPercentile ::
  "duration \<Rightarrow> int \<Rightarrow> int \<Rightarrow> gotime \<Rightarrow> (RollingPercentile, 's) go" where
  "NewRollingPercentile bucketWidth numBuckets bucketSize now =
     gbind (makeBuckets numBuckets bucketSize) (\<lambda>bs.
     greturn \<lparr>rp_buckets = bs,
       rp_rollingBucket = \<lparr>rb_NumBuckets = numBuckets, rb_StartTime = now,
         rb_BucketWidth = bucketWidth, rb_LastAbsIndex = 0\<rparr>\<rparr>)"

definition rp_clearBucket :: "int \<Rightarrow> (unit, durationsBucket list) go" where
  "rp_clearBucket idx = gstore idx db_clear"

text \<open>\<^verbatim>\<open>r.rollingBucket.Advance(now, r.clearBucket)\<close>\<close>

definition rp_Advance :: "gotime \<Rightarrow> (int, RollingPercentile) go" where
  "rp_Advance now =
     gzoom (\<lambda>r. (rp_rollingBucket r, rp_buckets r))
           (\<lambda>(rb, bs) r. r\<lparr>rp_rollingBucket := rb, rp_buckets := bs\<rparr>)
           (Advance now rp_clearBucket)"

text \<open>The second argument of \<^verbatim>\<open>make\<close> is a capacity: it only matters when it is negative.\<close>

definition rp_SortedDurations :: "gotime \<Rightarrow> (duration list, RollingPercentile) go" where
  "rp_SortedDurations now =
     gbind (gget rp_buckets) (\<lambda>bs.
     if length bs = 0 then greturn []
     else
       gseq (rp_Advance now)
      (gbind (gget rp_buckets) (\<lambda>bs.
       let size = fold (\<lambda>b s. add64 s (db_size b)) bs 0 in
       if size < 0 then gpanic NegativeLength
       else greturn (sort (fold appendDurations bs [])))))"

definition rp_SnapshotAt :: "gotime \<Rightarrow> (duration list, RollingPercentile) go" where
  "rp_SnapshotAt now = rp_SortedDurations now"

text \<open>\<open>wall\<close> is what \<^verbatim>\<open>time.Now()\<close> reads.\<close>

definition rp_Snapshot :: "gotime \<Rightarrow> (duration list, RollingPercentile) go" where
  "rp_Snapshot wall = rp_SnapshotAt wall"

definition rp_AddDuration :: "duration \<Rightarrow> gotime \<Rightarrow> (unit, RollingPercentile) go" where
  "rp_AddDuration d now =
     gbind (gget rp_buckets) (\<lambda>bs.
     if length bs = 0 then greturn ()
     else gbind (rp_Advance now) (\<lambda>idx.
       if idx < 0 then greturn ()
       else gzoom rp_buckets (\<lambda>bs r. r\<lparr>rp_buckets := bs\<rparr>) (gat idx (addDuration d))))"

definition rp_Reset :: "gotime \<Rightarrow> (unit, RollingPercentile) go" where
  "rp_Reset now =
     gseq (rp_Advance now)
    (gbind (gget (\<lambda>r. rb_NumBuckets (rp_rollingBucket r))) (\<lambda>n.
     gforeach (\<lambda>i. gzoom rp_buckets (\<lambda>bs r. r\<lparr>rp_buckets := bs\<rparr>) (rp_clearBucket i)) [0..n - 1]))"

subsection \<open>Percentiles\<close>

text \<open>The methods of \<^verbatim>\<open>SortedDurations\<close>.\<close>

definition sd_Mean :: "duration list \<Rightarrow> duration" where
  "sd_Mean s = (if length s = 0 then -1
     else quo64 (fold (\<lambda>d sum. add64 sum d) s 0) (int (length s)))"

definition sd_Min :: "duration list \<Rightarrow> duration" where
  "sd_Min s = (if length s = 0 then -1 else s ! 0)"

definition sd_Max :: "duration list \<Rightarrow> duration" where
  "sd_Max s = (if length s = 0 then -1 else s ! (length s - 1))"

text \<open>The interpolation at \<open>p\<close> with \<open>0 < p < 100\<close>; every operation on doubles rounds.\<close>

definition interpolate :: "duration list \<Rightarrow> rat \<Rightarrow> (duration, 's) go" where
  "interpolate s p =
     (let absoluteIndex = fl64 (fl64 (p / 100) * float_of_int (int (length s) - 1)) in
      gbind (gindex s \<lfloor>absoluteIndex\<rfloor>) (\<lambda>firstValue.
      gbind (gindex s \<lceil>absoluteIndex\<rceil>) (\<lambda>secondValue.
      let firstWeight = fl64 (absoluteIndex - of_int \<lfloor>absoluteIndex\<rfloor>) in
      greturn (add64 firstValue
        (int_of_float (fl64 (float_of_int (sub64 secondValue firstValue) * firstWeight)))))))"

fun at_most :: "float64 \<Rightarrow> rat \<Rightarrow> bool" where
  "at_most NaN x = False"
| "at_most PosInf x = False"
| "at_most NegInf x = True"
| "at_most (Finite y) x = (y \<le> x)"

fun at_least :: "float64 \<Rightarrow> rat \<Rightarrow> bool" where
  "at_least NaN x = False"
| "at_least PosInf x = True"
| "at_least NegInf x = False"
| "at_least (Finite y) x = (x \<le> y)"

definition sd_Percentile :: "float64 \<Rightarrow> duration list \<Rightarrow> (duration, 's) go" where
  "sd_Percentile p s =
     (if length s = 0 \<or> p = NaN then greturn (-1)
      else if length s = 1 then greturn (s ! 0)
      else if at_most p 0 then greturn (s ! 0)
      else if at_least p 100 then greturn (s ! (length s - 1))
      else case p of Finite x \<Rightarrow> interpolate s x | _ \<Rightarrow> greturn (-1))"

subsection \<open>Specification\<close>

record sample_window =
  sw_last :: int
  sw_samples :: "(int \<times> duration) list"

datatype rp_op = OpAdd duration gotime | OpSnapshot gotime | OpClear gotime

definition sw_advance :: "RollingBuckets \<Rightarrow> gotime \<Rightarrow> sample_window \<Rightarrow> sample_window" where
  "sw_advance g now w = w\<lparr>sw_last := (if usable g now then max (sw_last w) (abs_index g now) else sw_last w)\<rparr>"

definition sw_counts :: "RollingBuckets \<Rightarrow> gotime \<Rightarrow> sample_window \<Rightarrow> bool" where
  "sw_counts g now w \<longleftrightarrow>
     usable g now \<and> in_window (rb_NumBuckets g) (sw_last (sw_advance g now w)) (abs_index g now)"

fun sw_step :: "RollingBuckets \<Rightarrow> rp_op \<Rightarrow> sample_window \<Rightarrow> sample_window" where
  "sw_step g (OpAdd d now) w =
     (sw_advance g now w)\<lparr>sw_samples :=
       (if sw_counts g now w then sw_samples w @ [(abs_index g now, d)] else sw_samples w)\<rparr>"
| "sw_step g (OpSnapshot now) w = sw_advance g now w"
| "sw_step g (OpClear now) w = (sw_advance g now w)\<lparr>sw_samples := []\<rparr>"

definition sw_init :: sample_window where
  "sw_init = \<lparr>sw_last = 0, sw_samples = []\<rparr>"

definition sw_run :: "RollingBuckets \<Rightarrow> rp_op list \<Rightarrow> sample_window" where
  "sw_run g ops = fold (sw_step g) ops sw_init"

definition samples_at :: "sample_window \<Rightarrow> int \<Rightarrow> duration list" where
  "samples_at w h = map snd (filter (\<lambda>s. fst s = h) (sw_samples w))"

text \<open>The latest \<open>k\<close> elements, and the window's durations: the latest \<open>cap\<close> of every bucket.\<close>

definition latest :: "nat \<Rightarrow> 'x list \<Rightarrow> 'x list" where
  "latest k xs = drop (length xs - k) xs"

definition sw_durations :: "RollingBuckets \<Rightarrow> nat \<Rightarrow> sample_window \<Rightarrow> duration list" where
  "sw_durations g cap w =
     concat (map (\<lambda>h. map (max 0) (latest cap (samples_at w h))) [sw_last w - rb_NumBuckets g + 1..sw_last w])"

fun rp_step :: "rp_op \<Rightarrow> (unit, RollingPercentile) go" where
  "rp_step (OpAdd d now) = rp_AddDuration d now"
| "rp_step (OpSnapshot now) = gseq (rp_SnapshotAt now) (greturn ())"
| "rp_step (OpClear now) = rp_Reset now"

subsection \<open>The ring\<close>

lemma decode_encode: "in_int64 d \<Longrightarrow> decodeDuration (encodeDuration d) = max 0 d"
  by (simp add: decodeDuration_def encodeDuration_def add64_def sub64_def in_int64_def min_int64_def max_int64_def max_def)

lemma encode_set:
  assumes "in_int64 d"
  shows "encodeDuration d \<noteq> unsetDuration"
proof (cases "d = max_int64")
  case True
  then show ?thesis by (simp add: encodeDuration_def unsetDuration_def add64_def wrap64_mod max_int64_def)
next
  case False
  then have "in_int64 (max 0 d + 1)" using assms by (auto simp: in_int64_def min_int64_def max_int64_def)
  then show ?thesis by (auto simp: encodeDuration_def unsetDuration_def add64_exact max_def)
qed

text \<open>The effect of \<^verbatim>\<open>addDuration\<close>, and a bucket that was filled with \<open>ds\<close> since it was last cleared.\<close>

definition db_push :: "duration \<Rightarrow> durationsBucket \<Rightarrow> durationsBucket" where
  "db_push d b = (if db_durationsSomeInvalid b = [] then b else
     \<lparr>db_durationsSomeInvalid = (db_durationsSomeInvalid b)
        [nat (db_currentIndex b) mod length (db_durationsSomeInvalid b) := encodeDuration d],
      db_currentIndex = db_currentIndex b + 1\<rparr>)"

definition empty_bucket :: "nat \<Rightarrow> durationsBucket" where
  "empty_bucket cap = \<lparr>db_durationsSomeInvalid = replicate cap unsetDuration, db_currentIndex = 0\<rparr>"

definition db_fill :: "nat \<Rightarrow> duration list \<Rightarrow> durationsBucket" where
  "db_fill cap ds = fold db_push ds (empty_bucket cap)"

definition db_ok :: "nat \<Rightarrow> durationsBucket \<Rightarrow> bool" where
  "db_ok cap b \<longleftrightarrow> length (db_durationsSomeInvalid b) = cap \<and> 0 \<le> db_currentIndex b \<and>
     (\<forall>i < cap. db_currentIndex b \<le> int i \<longrightarrow> db_durationsSomeInvalid b ! i = unsetDuration)"

lemma db_fill_Nil [simp]: "db_fill cap [] = empty_bucket cap"
  and db_fill_snoc [simp]: "db_fill cap (ds @ [d]) = db_push d (db_fill cap ds)"
  by (simp_all add: db_fill_def)

lemma db_ok_empty [simp]: "db_ok cap (empty_bucket cap)"
  by (simp add: db_ok_def empty_bucket_def)

lemma db_ok_clear: "db_ok cap b \<Longrightarrow> db_clear b = empty_bucket cap"
  by (cases b) (auto simp: db_clear_def empty_bucket_def db_ok_def db_size_def nth_append Let_def intro!: nth_equalityI)

lemma addDuration_push:
  assumes "0 \<le> db_currentIndex b" "db_currentIndex b < max_int64"
  shows "addDuration d b = (Returns (), db_push d b)"
proof (cases "db_durationsSomeInvalid b = []")
  case False
  let ?n = "length (db_durationsSomeInvalid b)"
  have "add64 (db_currentIndex b) 1 = db_currentIndex b + 1"
    using assms by (simp add: add64_exact in_int64_def min_int64_def)
  moreover have "sub64 (db_currentIndex b + 1) 1 = db_currentIndex b"
    using assms by (simp add: sub64_exact in_int64_def min_int64_def)
  moreover have "rem64 (db_currentIndex b) (int ?n) = int (nat (db_currentIndex b) mod ?n)"
    using assms(1) False by (simp add: rem64_nonneg zmod_int)
  ultimately show ?thesis
    using False by (cases b) (simp add: addDuration_def db_push_def go_simps gstore_def)
qed (simp add: addDuration_def db_push_def go_simps)

lemma mset_update_last:
  assumes "i < length xs" "xs ! i = x" "mset xs = add_mset x M"
  shows "mset (xs[i := y]) = add_mset y M"
  using assms by (simp add: mset_update)

lemma latest_snoc:
  "length ds < cap \<Longrightarrow> latest cap (ds @ [d]) = latest cap ds @ [d]"
  "0 < cap \<Longrightarrow> cap \<le> length ds \<Longrightarrow>
     latest cap ds = ds ! (length ds - cap) # tl (latest cap ds) \<and> latest cap (ds @ [d]) = tl (latest cap ds) @ [d]"
  by (simp_all add: latest_def Cons_nth_drop_Suc tl_drop drop_Suc Suc_diff_le flip: drop_Suc)

text \<open>After \<open>ds\<close> was added, the slots handed out hold exactly the latest \<open>cap\<close> of \<open>ds\<close>.\<close>

definition ring_ok :: "nat \<Rightarrow> duration list \<Rightarrow> durationsBucket \<Rightarrow> bool" where
  "ring_ok cap ds b \<longleftrightarrow> length (db_durationsSomeInvalid b) = cap \<and> db_currentIndex b = int (length ds) \<and>
     (\<forall>k < length ds. length ds \<le> k + cap \<longrightarrow> db_durationsSomeInvalid b ! (k mod cap) = encodeDuration (ds ! k)) \<and>
     (\<forall>i < cap. length ds \<le> i \<longrightarrow> db_durationsSomeInvalid b ! i = unsetDuration) \<and>
     mset (take (length ds) (db_durationsSomeInvalid b)) = mset (map encodeDuration (latest cap ds))"

lemma ring_push:
  assumes ring: "ring_ok cap ds b" and cap: "0 < cap"
  shows "ring_ok cap (ds @ [d]) (db_push d b)"
proof -
  let ?s = "db_durationsSomeInvalid b" and ?L = "length ds" and ?v = "encodeDuration d"
  let ?s' = "?s[?L mod cap := ?v]"
  have len: "length ?s = cap" and cur: "db_currentIndex b = int ?L"
    and pos: "\<And>k. k < ?L \<Longrightarrow> ?L \<le> k + cap \<Longrightarrow> ?s ! (k mod cap) = encodeDuration (ds ! k)"
    and unset: "\<And>i. i < cap \<Longrightarrow> ?L \<le> i \<Longrightarrow> ?s ! i = unsetDuration"
    and vals: "mset (take ?L ?s) = mset (map encodeDuration (latest cap ds))"
    using ring by (auto simp: ring_ok_def)
  have push: "db_push d b = \<lparr>db_durationsSomeInvalid = ?s', db_currentIndex = int (Suc ?L)\<rparr>"
    using len cur cap by (auto simp: db_push_def)
  have pos': "?s' ! (k mod cap) = encodeDuration ((ds @ [d]) ! k)" if k: "k < Suc ?L" "Suc ?L \<le> k + cap" for k
  proof (cases "k = ?L")
    case False
    have "k mod cap \<noteq> ?L mod cap"
    proof
      assume "k mod cap = ?L mod cap"
      then have "cap dvd ?L - k" using k(1) by (metis less_Suc_eq_le mod_eq_dvd_iff_nat)
      then show False using False k nat_dvd_not_less [of "?L - k" cap] by auto
    qed
    then show ?thesis using False k pos [of k] by (simp add: nth_append)
  qed (use len cap in simp)
  have vals': "mset (take (Suc ?L) ?s') = mset (map encodeDuration (latest cap (ds @ [d])))"
  proof (cases "?L < cap")
    case True
    then show ?thesis
      using vals len latest_snoc(1) [OF True, of d] by (simp add: take_Suc_conv_app_nth)
  next
    case False
    have old: "?s ! (?L mod cap) = encodeDuration (ds ! (?L - cap))"
      using pos [of "?L - cap"] False cap by (simp add: le_mod_geq [symmetric] flip: mod_add_self2 [of "?L - cap" cap])
    have "mset ?s = add_mset (encodeDuration (ds ! (?L - cap))) (mset (map encodeDuration (tl (latest cap ds))))"
      using vals False len latest_snoc(2) [OF cap, of ds d] by (metis image_mset_add_mset leI list.simps(9) mset.simps(2) mset_map take_all)
    then have "mset ?s' = add_mset ?v (mset (map encodeDuration (tl (latest cap ds))))"
      using old len cap by (intro mset_update_last) auto
    then show ?thesis using False len latest_snoc(2) [OF cap, of ds d] by simp
  qed
  show ?thesis
    using len pos' vals' unset cap unfolding push ring_ok_def
    by (auto simp: nth_list_update)
qed

lemma ring: "0 < cap \<Longrightarrow> ring_ok cap ds (db_fill cap ds)"
proof (induction ds rule: rev_induct)
  case Nil
  then show ?case by (simp add: ring_ok_def empty_bucket_def latest_def)
next
  case (snoc d ds)
  then show ?case by (simp add: ring_push)
qed

text \<open>What a reader finds in a bucket.\<close>

lemma bucket_values:
  assumes "\<forall>d \<in> set ds. in_int64 d"
  shows "mset (appendDurations (db_fill cap ds) []) = mset (map (max 0) (latest cap ds))"
proof (cases "0 < cap")
  case True
  let ?b = "db_fill cap ds"
  let ?s = "db_durationsSomeInvalid ?b"
  have r: "length ?s = cap" "db_currentIndex ?b = int (length ds)"
    "mset (take (length ds) ?s) = mset (map encodeDuration (latest cap ds))"
    using ring [OF True, of ds] by (auto simp: ring_ok_def)
  have sub: "set (latest cap ds) \<subseteq> set ds" by (simp add: latest_def set_drop_subset)
  have "take (nat (db_size ?b)) ?s = take (length ds) ?s"
    using r(1,2) by (simp add: db_size_def min_def)
  moreover have "filter_mset (\<lambda>v. v \<noteq> unsetDuration) (mset (map encodeDuration (latest cap ds))) =
      mset (map encodeDuration (latest cap ds))"
    using assms sub encode_set by (auto simp: filter_mset_eq_conv)
  ultimately have "mset (appendDurations ?b []) =
      image_mset decodeDuration (mset (map encodeDuration (latest cap ds)))"
    using r(3) by (simp add: appendDurations_def mset_filter)
  also have "\<dots> = mset (map (max 0) (latest cap ds))"
    using assms sub decode_encode by (auto simp: multiset.map_comp o_def intro!: image_mset_cong)
  finally show ?thesis .
next
  case False
  then have "db_durationsSomeInvalid (db_fill cap ds) = []"
    by (induction ds rule: rev_induct) (simp_all add: empty_bucket_def db_push_def)
  then show ?thesis using False by (simp add: appendDurations_def latest_def)
qed

subsection \<open>The buckets satisfy the interface of the window\<close>

interpretation rpb: bucket_array rp_clearBucket "\<lambda>bs. int (length bs)" "\<lambda>bs j. bs ! nat j"
  "empty_bucket cap" "\<lambda>bs. \<forall>b \<in> set bs. db_ok cap b" for cap
proof
  fix bs i
  assume bs: "\<forall>b \<in> set bs. db_ok cap b" and i: "0 \<le> i" "i < int (length bs)"
  then have "db_clear (bs ! nat i) = empty_bucket cap" by (intro db_ok_clear) simp
  then show "\<exists>bs'. rp_clearBucket i bs = (Returns (), bs') \<and> (\<forall>b \<in> set bs'. db_ok cap b) \<and>
      int (length bs') = int (length bs) \<and> bs' ! nat i = empty_bucket cap \<and>
      (\<forall>j. 0 \<le> j \<and> j \<noteq> i \<longrightarrow> bs' ! nat j = bs ! nat j)"
    using bs i
    by (auto simp: rp_clearBucket_def gstore_def nth_list_update nat_eq_iff2
        dest!: subsetD [OF set_update_subset_insert])
qed

definition rp_sim :: "RollingBuckets \<Rightarrow> nat \<Rightarrow> sample_window \<Rightarrow> RollingPercentile \<Rightarrow> bool" where
  "rp_sim g cap w r \<longleftrightarrow> rb_inv (rp_rollingBucket r) \<and> same_geometry g (rp_rollingBucket r) \<and>
     int (length (rp_buckets r)) = rb_NumBuckets g \<and> rb_LastAbsIndex (rp_rollingBucket r) = sw_last w \<and>
     (\<forall>s \<in> set (sw_samples w). fst s \<le> sw_last w \<and> in_int64 (snd s)) \<and>
     (\<forall>j. 0 \<le> j \<and> j < rb_NumBuckets g \<longrightarrow>
        rp_buckets r ! nat j = db_fill cap (samples_at w (slot_index (rb_NumBuckets g) (sw_last w) j)))"

text \<open>The samples a counter can index without overflow.\<close>

definition sw_small :: "sample_window \<Rightarrow> bool" where
  "sw_small w \<longleftrightarrow> int (length (sw_samples w)) < max_int64"

lemma db_ok_fill: "db_ok cap (db_fill cap ds)"
proof (cases "0 < cap")
  case True
  then show ?thesis using ring [OF True, of ds] by (auto simp: ring_ok_def db_ok_def)
next
  case False
  then have "db_fill cap ds = empty_bucket cap"
    by (induction ds rule: rev_induct) (simp_all add: empty_bucket_def db_push_def)
  then show ?thesis by simp
qed

lemma sim_buckets_ok: "rp_sim g cap w r \<Longrightarrow> \<forall>b \<in> set (rp_buckets r). db_ok cap b"
proof
  fix b
  assume sim: "rp_sim g cap w r" and "b \<in> set (rp_buckets r)"
  then obtain i where i: "i < length (rp_buckets r)" "b = rp_buckets r ! i" by (auto simp: in_set_conv_nth)
  then have "0 \<le> int i \<and> int i < rb_NumBuckets g" using sim by (simp add: rp_sim_def)
  then have "rp_buckets r ! nat (int i) = db_fill cap (samples_at w (slot_index (rb_NumBuckets g) (sw_last w) (int i)))"
    using sim unfolding rp_sim_def by blast
  then show "db_ok cap b" using i by (simp add: db_ok_fill)
qed

lemma samples_at_none: "(\<And>s. s \<in> set (sw_samples w) \<Longrightarrow> fst s \<noteq> h) \<Longrightarrow> samples_at w h = []"
  by (simp add: samples_at_def filter_empty_conv)

lemma samples_at_advance [simp]: "samples_at (sw_advance g now w) = samples_at w"
  by (simp add: samples_at_def sw_advance_def fun_eq_iff)

lemma rp_Advance_sim:
  assumes sim: "rp_sim g cap w r"
  shows "\<exists>r'. rp_Advance now r =
      (Returns (if sw_counts g now w then abs_index g now mod rb_NumBuckets g else -1), r') \<and>
    rp_sim g cap (sw_advance g now w) r'"
proof -
  let ?rb = "rp_rollingBucket r" and ?n = "rb_NumBuckets g"
  let ?l = "sw_last w" and ?l' = "sw_last (sw_advance g now w)" and ?f = "\<lambda>h. db_fill cap (samples_at w h)"
  from sim have inv: "rb_inv ?rb" and geo: "same_geometry g ?rb" and len: "int (length (rp_buckets r)) = ?n"
    and last: "rb_LastAbsIndex ?rb = ?l"
    and ev: "\<forall>s \<in> set (sw_samples w). fst s \<le> ?l \<and> in_int64 (snd s)"
    and cells: "\<forall>j. 0 \<le> j \<and> j < ?n \<longrightarrow> rp_buckets r ! nat j = ?f (slot_index ?n ?l j)"
    by (auto simp: rp_sim_def)
  note geos = same_geometry_simps [OF geo]
  have nl: "new_last ?rb now = ?l'" by (simp add: new_last_def sw_advance_def last geos)
  have fresh: "?f h = empty_bucket cap" if "?l < h" for h
    using ev that samples_at_none [of w h] by fastforce
  obtain bs where bs: "Advance now rp_clearBucket (?rb, rp_buckets r) =
      (Returns (if sw_counts g now w then abs_index g now mod ?n else -1),
       (?rb\<lparr>rb_LastAbsIndex := ?l'\<rparr>, bs))"
    "int (length bs) = ?n" "rb_inv (?rb\<lparr>rb_LastAbsIndex := ?l'\<rparr>)"
    and cells': "\<forall>j. 0 \<le> j \<and> j < ?n \<longrightarrow> bs ! nat j = ?f (slot_index ?n ?l' j)"
    using rpb.Advance_cells [OF inv sim_buckets_ok [OF sim], of ?f now] cells fresh
    by (auto simp: nl geos len last sw_counts_def)
  let ?r' = "r\<lparr>rp_rollingBucket := ?rb\<lparr>rb_LastAbsIndex := ?l'\<rparr>, rp_buckets := bs\<rparr>"
  have "rp_sim g cap (sw_advance g now w) ?r'"
    using bs(2,3) cells' ev geo
    by (auto simp: rp_sim_def same_geometry_def) (auto simp: sw_advance_def)
  moreover have "rp_Advance now r = (Returns (if sw_counts g now w then abs_index g now mod ?n else -1), ?r')"
    by (simp add: rp_Advance_def go_simps bs(1))
  ultimately show ?thesis by blast
qed

lemma samples_at_snoc:
  "samples_at (w\<lparr>sw_samples := sw_samples w' @ [(a, d)]\<rparr>) h = samples_at w' h @ (if a = h then [d] else [])"
  by (simp add: samples_at_def)

lemma samples_at_length: "length (samples_at w h) \<le> length (sw_samples w)"
  by (simp add: samples_at_def)

lemma fill_index_small: "sw_small w \<Longrightarrow> 0 \<le> db_currentIndex (db_fill cap (samples_at w h)) \<and>
    db_currentIndex (db_fill cap (samples_at w h)) < max_int64"
proof (cases "0 < cap")
  case True
  assume "sw_small w"
  then show ?thesis
    using ring [OF True, of "samples_at w h"] samples_at_length [of w h] by (simp add: ring_ok_def sw_small_def)
next
  case False
  then have "db_fill cap ds = empty_bucket cap" for ds
    by (induction ds rule: rev_induct) (simp_all add: empty_bucket_def db_push_def)
  then show ?thesis by (simp add: empty_bucket_def max_int64_def)
qed

lemma rp_AddDuration_sim:
  assumes sim: "rp_sim g cap w r" and d: "in_int64 d" and small: "sw_small w"
  shows "\<exists>r'. rp_AddDuration d now r = (Returns (), r') \<and> rp_sim g cap (sw_step g (OpAdd d now) w) r'"
proof -
  let ?n = "rb_NumBuckets g" and ?a = "abs_index g now" and ?w = "sw_advance g now w"
  obtain r2 where r2: "rp_Advance now r = (Returns (if sw_counts g now w then ?a mod ?n else -1), r2)"
    and sim2: "rp_sim g cap ?w r2"
    using rp_Advance_sim [OF sim, of now] by blast
  have len: "int (length (rp_buckets r)) = ?n" "int (length (rp_buckets r2)) = ?n"
    using sim sim2 by (simp_all add: rp_sim_def)
  show ?thesis
  proof (cases "sw_counts g now w")
    case False
    have step: "sw_step g (OpAdd d now) w = ?w" using False by (simp add: sw_advance_def)
    show ?thesis
    proof (cases "?n = 0")
      case True
      then have "\<not> usable g now" by (simp add: usable_def)
      then have "?w = w" by (simp add: sw_advance_def)
      then show ?thesis using True len sim unfolding step by (simp add: rp_AddDuration_def go_simps)
    next
      case n: False
      then show ?thesis using len r2 sim2 False unfolding step by (auto simp: rp_AddDuration_def go_simps)
    qed
  next
    case True
    let ?l = "sw_last ?w" and ?i = "nat (?a mod ?n)"
    have n: "0 < ?n" and win: "in_window ?n ?l ?a" using True by (simp_all add: sw_counts_def usable_def)
    have idx: "0 \<le> ?a mod ?n" "?a mod ?n < int (length (rp_buckets r2))" using n len by simp_all
    have slot: "slot_index ?n ?l j = ?a \<longleftrightarrow> j = ?a mod ?n" if "0 \<le> j \<and> j < ?n" for j
      using slot_index_eq_iff [OF n] that win by blast
    let ?b = "db_fill cap (samples_at w ?a)"
    have old: "rp_buckets r2 ! ?i = ?b"
      using sim2 idx len slot [of "?a mod ?n"] by (auto simp: rp_sim_def)
    have push: "addDuration d ?b = (Returns (), db_push d ?b)"
      using fill_index_small [OF small] by (intro addDuration_push) auto
    let ?r3 = "r2\<lparr>rp_buckets := (rp_buckets r2)[?i := db_push d ?b]\<rparr>"
    have step: "sw_step g (OpAdd d now) w = ?w\<lparr>sw_samples := sw_samples w @ [(?a, d)]\<rparr>"
      using True by simp
    have "rp_buckets ?r3 ! nat j = db_fill cap (samples_at (sw_step g (OpAdd d now) w) (slot_index ?n ?l j))"
      if j: "0 \<le> j \<and> j < ?n" for j
      using sim2 j idx slot [OF j] unfolding step samples_at_snoc
      by (auto simp: rp_sim_def nth_list_update nat_eq_iff2)
    then have "rp_sim g cap (sw_step g (OpAdd d now) w) ?r3"
      using sim2 win d unfolding step by (auto simp: rp_sim_def in_window_def sw_advance_def)
    moreover have "rp_AddDuration d now r = (Returns (), ?r3)"
      using n len r2 True idx old push by (auto simp: rp_AddDuration_def go_simps gat_def)
    ultimately show ?thesis by blast
  qed
qed

lemma clear_all_buckets:
  "\<forall>b \<in> set (rp_buckets r). db_ok cap b \<Longrightarrow> m \<le> length (rp_buckets r) \<Longrightarrow>
   gforeach (\<lambda>i. gzoom rp_buckets (\<lambda>bs r. r\<lparr>rp_buckets := bs\<rparr>) (rp_clearBucket i)) (map int [0..<m]) r
   = (Returns (), r\<lparr>rp_buckets := replicate m (empty_bucket cap) @ drop m (rp_buckets r)\<rparr>)"
proof (induction m)
  case (Suc m)
  have "db_clear (rp_buckets r ! m) = empty_bucket cap" using Suc.prems by (intro db_ok_clear) simp
  with Suc show ?case
    by (simp add: gforeach_append go_simps rp_clearBucket_def gstore_def list_update_append
        Cons_nth_drop_Suc [symmetric] replicate_append_same nth_append flip: replicate_Suc)
qed (simp add: go_simps)

lemma upto_int: "[0..int m - 1] = map int [0..<m]"
  by (induction m) (simp_all add: upto_rec2)

lemma rp_Reset_sim:
  assumes sim: "rp_sim g cap w r"
  shows "\<exists>r'. rp_Reset now r = (Returns (), r') \<and> rp_sim g cap (sw_step g (OpClear now) w) r'"
proof -
  obtain x r1 where r1: "rp_Advance now r = (Returns x, r1)" and sim1: "rp_sim g cap (sw_advance g now w) r1"
    using rp_Advance_sim [OF sim] by blast
  let ?r2 = "r1\<lparr>rp_buckets := replicate (length (rp_buckets r1)) (empty_bucket cap)\<rparr>"
  have n: "rb_NumBuckets (rp_rollingBucket r1) = int (length (rp_buckets r1))"
    using sim1 by (auto simp: rp_sim_def same_geometry_def)
  have "rp_Reset now r = (Returns (), ?r2)"
    using clear_all_buckets [OF sim_buckets_ok [OF sim1], of "length (rp_buckets r1)"]
    by (simp add: rp_Reset_def go_simps r1 n upto_int)
  moreover have "rp_sim g cap (sw_step g (OpClear now) w) ?r2"
    using sim1 by (auto simp: rp_sim_def nat_less_iff samples_at_def)
  ultimately show ?thesis by blast
qed

lemma window_slots:
  assumes "0 < n"
  shows "mset (map (slot_index n l) [0..n - 1]) = mset [l - n + 1..l]"
proof -
  have "inj_on (slot_index n l) {0..n - 1}"
    using assms by (intro inj_onI) (metis atLeastAtMost_iff slot_index_eq_iff zle_diff1_eq)
  moreover have "slot_index n l ` {0..n - 1} = {l - n + 1..l}"
  proof
    show "slot_index n l ` {0..n - 1} \<subseteq> {l - n + 1..l}"
    proof
      fix h
      assume "h \<in> slot_index n l ` {0..n - 1}"
      then obtain j where "h = slot_index n l j" by blast
      then show "h \<in> {l - n + 1..l}" using slot_in_window [OF assms, of l j] by (simp add: in_window_def)
    qed
    show "{l - n + 1..l} \<subseteq> slot_index n l ` {0..n - 1}"
    proof
      fix h
      assume "h \<in> {l - n + 1..l}"
      then have "slot_index n l (h mod n) = h" using assms by (intro slot_unique) (auto simp: in_window_def)
      then show "h \<in> slot_index n l ` {0..n - 1}"
        using assms by (intro image_eqI [of _ _ "h mod n"]) auto
    qed
  qed
  ultimately show ?thesis
    by (subst set_eq_iff_mset_eq_distinct [symmetric]) (simp_all add: distinct_map)
qed

lemma mset_concat_cong: "mset xs = mset ys \<Longrightarrow> mset (concat (map f xs)) = mset (concat (map f ys))"
  by (simp add: mset_concat flip: sum_mset_sum_list) 

lemma fold_append: "fold appendDurations bs ret = ret @ concat (map (\<lambda>b. appendDurations b []) bs)"
  by (induction bs arbitrary: ret) (simp_all add: appendDurations_def)

lemma sizes_fit:
  assumes "\<forall>b \<in> set bs. db_ok cap b" "int (length bs) * int cap \<le> max_int64"
  shows "0 \<le> fold (\<lambda>b s. add64 s (db_size b)) bs 0"
proof -
  have size: "\<forall>b \<in> set bs. 0 \<le> db_size b \<and> db_size b \<le> int cap"
    using assms(1) by (auto simp: db_ok_def db_size_def)
  have "fold (\<lambda>b s. add64 s (db_size b)) bs 0 = fold (\<lambda>v ret. add64 ret v) (map db_size bs) 0"
    by (simp add: fold_map o_def)
  also have "\<dots> = wrap64 (\<Sum>b\<leftarrow>bs. db_size b)" by (simp add: fold_add64)
  also have "\<dots> = (\<Sum>b\<leftarrow>bs. db_size b)"
  proof -
    have "0 \<le> (\<Sum>b\<leftarrow>bs. db_size b)" using size by (intro sum_list_nonneg) auto
    moreover have "(\<Sum>b\<leftarrow>bs. db_size b) \<le> (\<Sum>b\<leftarrow>bs. int cap)" using size by (intro sum_list_mono) auto
    ultimately show ?thesis using assms(2) by (simp add: sum_list_triv in_int64_def min_int64_def)
  qed
  finally show ?thesis using size by (auto intro!: sum_list_nonneg)
qed

lemma length_sw_durations: "length (sw_durations g cap w) \<le> nat (rb_NumBuckets g) * cap"
proof -
  have "length (sw_durations g cap w) =
      (\<Sum>h\<leftarrow>[sw_last w - rb_NumBuckets g + 1..sw_last w]. length (latest cap (samples_at w h)))"
    by (simp add: sw_durations_def length_concat o_def)
  also have "\<dots> \<le> (\<Sum>h\<leftarrow>[sw_last w - rb_NumBuckets g + 1..sw_last w]. cap)"
    by (rule sum_list_mono) (simp add: latest_def)
  finally show ?thesis by (simp add: sum_list_triv)
qed

lemma rp_SortedDurations_sim:
  assumes sim: "rp_sim g cap w r" and mem: "rb_NumBuckets g * int cap \<le> max_int64"
  shows "\<exists>r'. rp_SortedDurations now r = (Returns (sort (sw_durations g cap (sw_advance g now w))), r') \<and>
    rp_sim g cap (sw_advance g now w) r'"
proof -
  let ?n = "rb_NumBuckets g" and ?w = "sw_advance g now w"
  have len: "int (length (rp_buckets r)) = ?n" using sim by (simp add: rp_sim_def)
  show ?thesis
  proof (cases "?n = 0")
    case True
    then have "?w = w" by (simp add: sw_advance_def usable_def)
    then show ?thesis using True len sim by (simp add: rp_SortedDurations_def go_simps sw_durations_def)
  next
    case False
    then have n: "0 < ?n" using len by linarith
    obtain x r1 where r1: "rp_Advance now r = (Returns x, r1)" and sim1: "rp_sim g cap ?w r1"
      using rp_Advance_sim [OF sim, of now] by blast
    have len1: "int (length (rp_buckets r1)) = ?n" using sim1 by (simp add: rp_sim_def)
    let ?F = "\<lambda>h. map (max 0) (latest cap (samples_at ?w h))"
    have bs: "rp_buckets r1 = map (\<lambda>j. db_fill cap (samples_at ?w (slot_index ?n (sw_last ?w) j))) [0..?n - 1]"
    proof (rule nth_equalityI)
      fix i
      assume i: "i < length (rp_buckets r1)"
      then have "0 \<le> int i \<and> int i < ?n" using len1 by simp
      then have "rp_buckets r1 ! nat (int i) = db_fill cap (samples_at ?w (slot_index ?n (sw_last ?w) (int i)))"
        using sim1 unfolding rp_sim_def by blast
      then show "rp_buckets r1 ! i =
          map (\<lambda>j. db_fill cap (samples_at ?w (slot_index ?n (sw_last ?w) j))) [0..?n - 1] ! i"
        using i len1 by simp
    qed (use len1 in simp)
    have vals: "mset (appendDurations (db_fill cap (samples_at ?w h)) []) = mset (?F h)" for h
      using sim by (intro bucket_values) (auto simp: rp_sim_def samples_at_def)
    have "mset (concat (map (\<lambda>b. appendDurations b []) (rp_buckets r1))) =
        mset (concat (map ?F (map (slot_index ?n (sw_last ?w)) [0..?n - 1])))"
      unfolding bs by (simp add: mset_concat o_def vals del: samples_at_advance mset_map)
    also have "\<dots> = mset (concat (map ?F [sw_last ?w - ?n + 1..sw_last ?w]))"
      using window_slots [OF n] by (rule mset_concat_cong)
    finally have "sort (fold appendDurations (rp_buckets r1) []) = sort (sw_durations g cap ?w)"
      by (intro properties_for_sort) (simp_all add: fold_append sw_durations_def)
    moreover have "0 \<le> fold (\<lambda>b s. add64 s (db_size b)) (rp_buckets r1) 0"
      using sizes_fit [OF sim_buckets_ok [OF sim1]] len1 mem by simp
    ultimately show ?thesis
      using len n r1 sim1 by (auto simp: rp_SortedDurations_def go_simps Let_def)
  qed
qed

lemma sw_small_step: "length (sw_samples (sw_step g op w)) \<le> Suc (length (sw_samples w))"
  by (cases op) (simp_all add: sw_advance_def)

fun representable :: "rp_op \<Rightarrow> bool" where
  "representable (OpAdd d t) = in_int64 d"
| "representable _ = True"

lemma rp_step_sim:
  assumes sim: "rp_sim g cap w r" and mem: "rb_NumBuckets g * int cap \<le> max_int64"
    and op: "representable op" "sw_small w"
  shows "\<exists>r'. rp_step op r = (Returns (), r') \<and> rp_sim g cap (sw_step g op w) r'"
proof (cases op)
  case (OpAdd d now)
  then show ?thesis using rp_AddDuration_sim [OF sim, of d now] op by (simp del: sw_step.simps)
next
  case (OpSnapshot now)
  then show ?thesis
    using rp_SortedDurations_sim [OF sim mem, of now] by (auto simp: go_simps rp_SnapshotAt_def)
next
  case (OpClear now)
  then show ?thesis using rp_Reset_sim [OF sim, of now] by (simp del: sw_step.simps)
qed

lemma rp_steps_sim:
  assumes "rp_sim g cap w r" "rb_NumBuckets g * int cap \<le> max_int64" "list_all representable ops"
    "int (length (sw_samples w) + length ops) \<le> max_int64"
  shows "\<exists>r'. gforeach rp_step ops r = (Returns (), r') \<and> rp_sim g cap (fold (sw_step g) ops w) r'"
  using assms
proof (induction ops arbitrary: w r)
  case (Cons op ops)
  have "sw_small w" using Cons.prems(4) by (simp add: sw_small_def)
  then obtain r1 where r1: "rp_step op r = (Returns (), r1)" "rp_sim g cap (sw_step g op w) r1"
    using rp_step_sim [OF Cons.prems(1,2)] Cons.prems(3) by auto
  have "int (length (sw_samples (sw_step g op w)) + length ops) \<le> max_int64"
    using sw_small_step [of g op w] Cons.prems(4) by simp
  with Cons.IH [OF r1(2)] r1(1) Cons.prems(2,3) show ?case by (simp add: go_simps)
qed (simp add: go_simps)

lemma makeBuckets_ok:
  "0 \<le> n \<Longrightarrow> makeBuckets n (int cap) s = (Returns (replicate (nat n) (empty_bucket cap)), s)"
proof -
  have "makeBuckets_loop m (int cap) s = (Returns (replicate m (empty_bucket cap)), s)" for m
    by (induction m) (simp_all add: go_simps newDurationsBucket_def empty_bucket_def unsetDuration_def)
  then show "0 \<le> n \<Longrightarrow> ?thesis" by (simp add: makeBuckets_def go_simps)
qed

lemma new_percentile_sim:
  assumes "sane_window w n"
  shows "\<exists>r. NewRollingPercentile w n (int cap) start s = (Returns r, s) \<and>
    rp_sim (window_geometry w n start) cap sw_init r"
proof -
  let ?r = "\<lparr>rp_buckets = replicate (nat n) (empty_bucket cap), rp_rollingBucket = window_geometry w n start\<rparr>"
  have n: "0 \<le> n" using assms by (simp add: sane_window_def)
  then have "NewRollingPercentile w n (int cap) start s = (Returns ?r, s)"
    by (simp add: NewRollingPercentile_def go_simps makeBuckets_ok window_geometry_def)
  moreover have "rp_sim (window_geometry w n start) cap sw_init ?r"
    using window_geometry_inv [OF assms] n
    by (auto simp: rp_sim_def same_geometry_def sw_init_def samples_at_def) (auto simp: window_geometry_def)
  ultimately show ?thesis by blast
qed

subsection \<open>Properties\<close>

text \<open>C34: A snapshot of a new rolling percentile after any sequence of additions, snapshots and resets at any
  times is the sorted list of the durations of the abstract window: those recorded since the last reset at
  the \<open>n\<close> most recent absolute indices, at most the latest \<open>cap\<close> of each, with negative ones read as zero.
  No call panics.\<close>

theorem rolling_percentile_refines_window:
  assumes "sane_window w n" "n * int cap \<le> max_int64"
    and "list_all representable ops" "int (length ops) \<le> max_int64"
  shows "\<exists>r0 r1 r2. NewRollingPercentile w n (int cap) start () = (Returns r0, ()) \<and>
    gforeach rp_step ops r0 = (Returns (), r1) \<and>
    rp_SnapshotAt now r1 = (Returns (let g = window_geometry w n start in
      sort (sw_durations g cap (sw_advance g now (sw_run g ops)))), r2)"
proof -
  let ?g = "window_geometry w n start"
  have mem: "rb_NumBuckets ?g * int cap \<le> max_int64" using assms(2) by (simp add: window_geometry_def)
  obtain r0 where r0: "NewRollingPercentile w n (int cap) start () = (Returns r0, ())" "rp_sim ?g cap sw_init r0"
    using new_percentile_sim [OF assms(1), of cap start "()"] by blast
  obtain r1 where r1: "gforeach rp_step ops r0 = (Returns (), r1)" "rp_sim ?g cap (sw_run ?g ops) r1"
    using rp_steps_sim [OF r0(2) mem assms(3)] assms(4) by (auto simp: sw_run_def sw_init_def)
  show ?thesis
    using rp_SortedDurations_sim [OF r1(2) mem, of now] r0(1) r1(1) by (auto simp: rp_SnapshotAt_def Let_def)
qed

theorem rolling_percentile_refines_window_witness:
  "\<exists>r0 r1 r2. NewRollingPercentile 10 2 2 5 () = (Returns r0, ()) \<and>
    gforeach rp_step [OpAdd 7 6, OpAdd 4 7, OpAdd 9 8, OpAdd (-3) 17] r0 = (Returns (), r1) \<and>
    rp_SnapshotAt 18 r1 = (Returns [0, 4, 9], r2)"
proof -
  let ?g = "window_geometry 10 2 5" and ?ops = "[OpAdd 7 6, OpAdd 4 7, OpAdd 9 8, OpAdd (-3) 17]"
  have "sort (sw_durations ?g 2 (sw_advance ?g 18 (sw_run ?g ?ops))) = [0, 4, 9]"
    by (simp add: sw_durations_def sw_run_def sw_init_def sw_advance_def sw_counts_def samples_at_def latest_def
        window_geometry_def usable_def abs_index_def time_Sub_def in_window_def max_int64_def min_int64_def upto.simps)
  then show ?thesis
    using rolling_percentile_refines_window [of 10 2 2 ?ops 5 18]
    by (simp add: sane_window_def max_int64_def Let_def in_int64_def min_int64_def)
qed

text \<open>C37: The slot encoding: every duration survives encoding and decoding with negative ones read as zero, no
  encoded duration looks like an unset slot, and different non-negative durations have different encodings,
  the largest \<^verbatim>\<open>int64\<close> included.\<close>

theorem duration_encoding_round_trip:
  assumes "in_int64 d" "in_int64 d'"
  shows "decodeDuration (encodeDuration d) = max 0 d \<and> encodeDuration d \<noteq> unsetDuration \<and>
    (0 \<le> d \<and> 0 \<le> d' \<and> encodeDuration d = encodeDuration d' \<longrightarrow> d = d')"
  using assms decode_encode encode_set by (metis max_absorb2)

theorem duration_encoding_round_trip_witness:
  "decodeDuration (encodeDuration max_int64) = max_int64 \<and> encodeDuration max_int64 \<noteq> unsetDuration"
  using duration_encoding_round_trip [of max_int64 0] by (simp add: in_int64_def min_int64_def max_int64_def)

subsection \<open>Percentiles of a sorted list\<close>

text \<open>Durations and numbers of durations that a double represents exactly.\<close>

definition exact_durations :: "duration list \<Rightarrow> bool" where
  "exact_durations s \<longleftrightarrow> (\<forall>d \<in> set s. 0 \<le> d \<and> d \<le> 2 ^ 53) \<and> int (length s) \<le> 2 ^ 53"

definition percentile_index :: "duration list \<Rightarrow> rat \<Rightarrow> rat" where
  "percentile_index s p = fl64 (fl64 (p / 100) * of_int (int (length s) - 1))"

definition percentile_value :: "duration list \<Rightarrow> rat \<Rightarrow> int" where
  "percentile_value s a = s ! nat \<lfloor>a\<rfloor> +
     \<lfloor>fl64 (of_int (s ! nat \<lceil>a\<rceil> - s ! nat \<lfloor>a\<rfloor>) * fl64 (a - of_int \<lfloor>a\<rfloor>))\<rfloor>"

lemma percentile_index_bounds:
  assumes "int (length s) \<le> 2 ^ 53" "1 < length s" "0 < p" "p < 100"
  shows "0 \<le> percentile_index s p \<and> percentile_index s p \<le> of_int (int (length s) - 1)"
proof -
  have q: "0 \<le> fl64 (p / 100)" "fl64 (p / 100) \<le> 1"
    using assms fl64.nonneg [of "p / 100"] fl64.bounded [of "p / 100" 1] by simp_all
  have "fl64 (p / 100) * of_int (int (length s) - 1) \<le> of_int (int (length s) - 1)"
    using q assms(2) by (intro mult_left_le_one_le) simp_all
  then have "percentile_index s p \<le> of_int (int (length s) - 1)"
    unfolding percentile_index_def using assms by (intro fl64.bounded) simp_all
  moreover have "0 \<le> percentile_index s p"
    unfolding percentile_index_def using q(1) assms(2) by (intro fl64.nonneg [of "_ * _"] mult_nonneg_nonneg) simp_all
  ultimately show ?thesis by simp
qed

text \<open>The indices around \<open>a\<close>, and the value between their entries.\<close>

lemma percentile_between:
  assumes s: "sorted s" "exact_durations s" and a: "0 \<le> a" "a \<le> of_int (int (length s) - 1)"
  shows "0 \<le> \<lfloor>a\<rfloor>" "\<lceil>a\<rceil> < int (length s)" "\<lfloor>a\<rfloor> \<le> \<lceil>a\<rceil>" "s ! nat \<lfloor>a\<rfloor> \<le> s ! nat \<lceil>a\<rceil>"
    "s ! nat \<lfloor>a\<rfloor> \<le> percentile_value s a" "percentile_value s a \<le> s ! nat \<lceil>a\<rceil>"
    "nat \<lfloor>a\<rfloor> < length s" "nat \<lceil>a\<rceil> < length s"
proof -
  show f: "0 \<le> \<lfloor>a\<rfloor>" and c: "\<lceil>a\<rceil> < int (length s)" and fc: "\<lfloor>a\<rfloor> \<le> \<lceil>a\<rceil>"
    using a by (simp_all add: floor_le_ceiling ceiling_le_iff flip: zle_diff1_eq)
  show le: "s ! nat \<lfloor>a\<rfloor> \<le> s ! nat \<lceil>a\<rceil>"
    using f c fc by (intro sorted_nth_mono [OF s(1)]) (simp_all add: nat_mono nat_less_iff)
  show fl: "nat \<lfloor>a\<rfloor> < length s" and cl: "nat \<lceil>a\<rceil> < length s" using f c fc by linarith+
  note mem = nth_mem [OF fl] nth_mem [OF cl]
  let ?d = "s ! nat \<lceil>a\<rceil> - s ! nat \<lfloor>a\<rfloor>" and ?w = "fl64 (a - of_int \<lfloor>a\<rfloor>)"
  have d: "0 \<le> ?d" "?d \<le> 2 ^ 53" using mem le s(2) by (auto simp: exact_durations_def) (smt (verit))
  have w: "0 \<le> ?w" "?w \<le> 1"
    using fl64.nonneg [of "a - of_int \<lfloor>a\<rfloor>"] fl64.bounded [of "a - of_int \<lfloor>a\<rfloor>" 1] floor_correct [of a] by simp_all
  have "of_int ?d * ?w \<le> of_int ?d" using d w by (intro mult_left_le) simp_all
  then have "fl64 (of_int ?d * ?w) \<le> of_int ?d" using d by (intro fl64.bounded) simp_all
  then have "\<lfloor>fl64 (of_int ?d * ?w)\<rfloor> \<le> ?d" by (simp add: floor_le_iff)
  moreover have "0 \<le> \<lfloor>fl64 (of_int ?d * ?w)\<rfloor>"
    using d w by (simp add: fl64.nonneg del: of_int_diff)
  ultimately show "s ! nat \<lfloor>a\<rfloor> \<le> percentile_value s a" "percentile_value s a \<le> s ! nat \<lceil>a\<rceil>"
    by (simp_all add: percentile_value_def)
qed

lemma percentile_value_mono:
  assumes s: "sorted s" "exact_durations s" and a: "0 \<le> a" "a \<le> b" "b \<le> of_int (int (length s) - 1)"
  shows "percentile_value s a \<le> percentile_value s b"
proof -
  have a': "a \<le> of_int (int (length s) - 1)" and b': "0 \<le> b" using a by linarith+
  note A = percentile_between [OF s a(1) a'] and B = percentile_between [OF s b' a(3)]
  show ?thesis
  proof (cases "\<lfloor>a\<rfloor> = \<lfloor>b\<rfloor>")
    case False
    then have "\<lceil>a\<rceil> \<le> \<lfloor>b\<rfloor>" using floor_mono [OF a(2)] by (simp add: ceiling_altdef)
    then have "s ! nat \<lceil>a\<rceil> \<le> s ! nat \<lfloor>b\<rfloor>"
      using B(7) by (intro sorted_nth_mono [OF s(1)] nat_mono)
    then show ?thesis using A(6) B(5) by linarith
  next
    case f: True
    show ?thesis
    proof (cases "\<lceil>a\<rceil> = \<lceil>b\<rceil>")
      case True
      have "fl64 (a - of_int \<lfloor>a\<rfloor>) \<le> fl64 (b - of_int \<lfloor>b\<rfloor>)" using f a(2) by (intro fl64.mono) simp
      then have "fl64 (of_int (s ! nat \<lceil>a\<rceil> - s ! nat \<lfloor>a\<rfloor>) * fl64 (a - of_int \<lfloor>a\<rfloor>)) \<le>
          fl64 (of_int (s ! nat \<lceil>b\<rceil> - s ! nat \<lfloor>b\<rfloor>) * fl64 (b - of_int \<lfloor>b\<rfloor>))"
        using A(4) f True by (intro fl64.mono) (simp add: mult_left_mono)
      then show ?thesis using f by (simp add: percentile_value_def floor_mono)
    next
      case False
      then have "\<lceil>a\<rceil> = \<lfloor>a\<rfloor>"
        using f ceiling_mono [OF a(2)] by (simp add: ceiling_altdef split: if_splits)
      then show ?thesis using A(6) B(5) f by simp
    qed
  qed
qed

lemma interpolate_value:
  assumes s: "sorted s" "exact_durations s" "1 < length s" and p: "0 < p" "p < 100"
  shows "interpolate s p st = (Returns (percentile_value s (percentile_index s p)), st)"
proof -
  let ?a = "percentile_index s p"
  have len: "int (length s) \<le> 2 ^ 53" using s(2) by (simp add: exact_durations_def)
  have a: "0 \<le> ?a" "?a \<le> of_int (int (length s) - 1)"
    using percentile_index_bounds [OF len s(3) p] by simp_all
  note B = percentile_between [OF s(1,2) a]
  let ?f = "s ! nat \<lfloor>?a\<rfloor>" and ?c = "s ! nat \<lceil>?a\<rceil>"
  have idx: "fl64 (fl64 (p / 100) * float_of_int (int (length s) - 1)) = ?a"
    using len s(3) fl64.exact [of "int (length s) - 1"] by (simp add: percentile_index_def float_of_int_def)
  note mem = nth_mem [OF B(7)] nth_mem [OF B(8)]
  then have fc: "0 \<le> ?f" "?c \<le> 2 ^ 53" using s(2) by (auto simp: exact_durations_def)
  then have d: "sub64 ?c ?f = ?c - ?f" using B(4) by (simp add: sub64_exact in_int64_def min_int64_def max_int64_def)
  have fd: "float_of_int (?c - ?f) = of_int (?c - ?f)"
    unfolding float_of_int_def using fc B(4) by (intro fl64.exact) linarith
  let ?x = "fl64 (of_int (?c - ?f) * fl64 (?a - of_int \<lfloor>?a\<rfloor>))"
  have x: "0 \<le> \<lfloor>?x\<rfloor>" "?f + \<lfloor>?x\<rfloor> \<le> ?c"
    using B(5,6) by (simp_all add: percentile_value_def)
  then have "\<lfloor>?x\<rfloor> \<le> 2 ^ 53" using fc by linarith
  then have "int_of_float ?x = \<lfloor>?x\<rfloor>" using x(1) by (rule int_of_float_small [rotated])
  moreover have "in_int64 (?f + \<lfloor>?x\<rfloor>)"
    by (rule in_int64_53) (use x fc in linarith)+
  ultimately have "add64 ?f (int_of_float ?x) = percentile_value s ?a"
    by (simp only: add64_exact percentile_value_def)
  moreover have fl: "\<lfloor>?a\<rfloor> < int (length s)" and cl: "0 \<le> \<lceil>?a\<rceil>" using B(1,3,7) by linarith+
  have "gindex s \<lfloor>?a\<rfloor> st = (Returns ?f, st)" "gindex s \<lceil>?a\<rceil> st = (Returns ?c, st)"
    by (simp_all only: gindex_run B(1,2) fl cl simp_thms if_True)
  ultimately show ?thesis
    unfolding interpolate_def idx Let_def by (simp add: go_simps d fd del: of_int_diff gindex_run)
qed

text \<open>A percentile of any list short enough is computed without a panic.\<close>

lemma sd_Percentile_returns:
  assumes "int (length s) \<le> 2 ^ 53"
  shows "\<exists>v. sd_Percentile (Finite p) s st = (Returns v, st)"
proof (cases "length s \<noteq> 0 \<and> length s \<noteq> 1 \<and> 0 < p \<and> p < 100")
  case True
  then have n: "1 < length s" by linarith
  let ?a = "percentile_index s p"
  have idx: "fl64 (fl64 (p / 100) * float_of_int (int (length s) - 1)) = ?a"
    using assms n fl64.exact [of "int (length s) - 1"] by (simp add: percentile_index_def float_of_int_def)
  have "0 \<le> ?a" "?a \<le> of_int (int (length s) - 1)" using percentile_index_bounds [OF assms n] True by simp_all
  then have "0 \<le> \<lfloor>?a\<rfloor>" "\<lceil>?a\<rceil> < int (length s)" "0 \<le> \<lceil>?a\<rceil>" "\<lfloor>?a\<rfloor> < int (length s)" by linarith+
  then have "\<exists>v. interpolate s p st = (Returns v, st)"
    unfolding interpolate_def idx Let_def by (simp add: go_simps)
  then show ?thesis using True by (auto simp: sd_Percentile_def go_simps)
qed (auto simp: sd_Percentile_def go_simps)

text \<open>C35: Percentiles. Of a sorted list of durations a double can represent (up to 104 days), the percentile at
  \<open>p\<close> is computed without a panic, lies between the least and the greatest duration, and does not decrease
  when \<open>p\<close> grows; rounding included. At 0 and below it is the least, at 100 and above the greatest.\<close>

theorem percentiles_are_ordered:
  assumes s: "sorted s" "s \<noteq> []" "exact_durations s" and pq: "p \<le> q"
  shows "\<exists>v v'. sd_Percentile (Finite p) s st = (Returns v, st) \<and> sd_Percentile (Finite q) s st = (Returns v', st) \<and>
    sd_Min s \<le> v \<and> v \<le> v' \<and> v' \<le> sd_Max s \<and> (p \<le> 0 \<longrightarrow> v = sd_Min s) \<and> (100 \<le> q \<longrightarrow> v' = sd_Max s)"
proof (cases "length s = 1")
  case True
  then show ?thesis by (simp add: sd_Percentile_def go_simps sd_Min_def sd_Max_def)
next
  case False
  then have n: "1 < length s" using s(2) by (cases s) auto
  have len: "int (length s) \<le> 2 ^ 53" using s(3) by (simp add: exact_durations_def)
  define V where "V x = (if x \<le> 0 then s ! 0 else if 100 \<le> x then s ! (length s - 1)
    else percentile_value s (percentile_index s x))" for x
  have run: "sd_Percentile (Finite x) s st = (Returns (V x), st)" for x
    using n s(2) interpolate_value [OF s(1,3) n, of x st] by (simp add: sd_Percentile_def V_def go_simps)
  have lo: "s ! 0 \<le> s ! i" and hi: "s ! i \<le> s ! (length s - 1)" if "i < length s" for i
    using that by (auto intro!: sorted_nth_mono [OF s(1)])
  have mid: "s ! 0 \<le> V x \<and> V x \<le> s ! (length s - 1)" for x
  proof (cases "0 < x \<and> x < 100")
    case True
    have a: "0 \<le> percentile_index s x" "percentile_index s x \<le> of_int (int (length s) - 1)"
      using percentile_index_bounds [OF len n] True by auto
    note B = percentile_between [OF s(1,3) a]
    show ?thesis
      using True B(7,8) lo [of "nat \<lfloor>percentile_index s x\<rfloor>"] hi [of "nat \<lceil>percentile_index s x\<rceil>"] B(5,6)
      by (simp add: V_def)
  qed (use n lo [of "length s - 1"] in \<open>auto simp: V_def\<close>)
  have "V p \<le> V q"
  proof (cases "0 < p \<and> q < 100")
    case True
    have "fl64 (p / 100) * of_int (int (length s) - 1) \<le> fl64 (q / 100) * of_int (int (length s) - 1)"
      using pq n by (intro mult_right_mono fl64.mono) (simp_all add: divide_right_mono)
    then have "percentile_index s p \<le> percentile_index s q" unfolding percentile_index_def by (rule fl64.mono)
    then show ?thesis
      using True pq percentile_index_bounds [OF len n] by (auto simp: V_def intro!: percentile_value_mono [OF s(1,3)])
  next
    case False
    then show ?thesis using mid [of p] mid [of q] pq by (auto simp: V_def)
  qed
  moreover have "sd_Min s = s ! 0" "sd_Max s = s ! (length s - 1)" using s(2) by (simp_all add: sd_Min_def sd_Max_def)
  moreover have "p \<le> 0 \<longrightarrow> V p = s ! 0" "100 \<le> q \<longrightarrow> V q = s ! (length s - 1)" by (auto simp: V_def)
  ultimately show ?thesis using run [of p] run [of q] mid [of p] mid [of q] by metis
qed

theorem percentiles_are_ordered_witness:
  "let s = [10, 20, 40 :: duration] in
   \<exists>v v'. sd_Percentile (Finite 50) s () = (Returns v, ()) \<and> sd_Percentile (Finite 75) s () = (Returns v', ()) \<and>
     10 \<le> v \<and> v \<le> v' \<and> v' \<le> 40"
  using percentiles_are_ordered [of "[10, 20, 40]" 50 75 "()"]
  by (auto simp: exact_durations_def sd_Min_def sd_Max_def)

end
