(* ===== verification/CircuitSetup.thy ===== *)
theory CircuitSetup
  imports CircuitLaws
begin

text \<open>
  Making and reconfiguring a circuit. The interface \<open>logic_factories\<close> is what a circuit relies on when it
  asks the factories of its configuration for its logic; under it, \<^verbatim>\<open>SetConfigNotThreadSafe\<close> and
  \<^verbatim>\<open>NewCircuitFromConfig\<close> return a circuit that is ready to execute, with exactly the settings asked for.
\<close>

text \<open>The circuit after the configuration: what is not about the logic.\<close>

definition configured :: "('p, 'q) Config \<Rightarrow> ('p, 'q) Circuit \<Rightarrow> ('p, 'q) Circuit" where
  "configured config c = c\<lparr>c_notThreadSafeConfig := config,
     c_lostErrors := gc_GoLostErrors (cf_General config),
     c_timeNow := tk_Now (gc_TimeKeeper (cf_General config)),
     c_CmdMetricCollector := [RcOpenToClose, RcClosedToOpen] @ map RcUser (mc_Run (cf_Metrics config)),
     c_FallbackMetricCollector := mc_Fallback (cf_Metrics config),
     c_CircuitMetricsCollector := mc_Circuit (cf_Metrics config),
     c_threadSafeConfig := ac_reset config (c_threadSafeConfig c)\<rparr>"

lemma call_factory_run: "call_factory (Some m) c = (case m (c_readings c) of (r, n) \<Rightarrow> (r, c\<lparr>c_readings := n\<rparr>))"
  by (simp add: call_factory_def go_simps)

lemma gmodify_gseq: "gseq (gmodify f) k s = k (f s)"
  by (simp add: go_simps)

lemma keeps_snd: "keeps I m \<Longrightarrow> I s \<Longrightarrow> I (snd (m s))"
  by (simp add: keeps_def)

text \<open>Configuring sets the name and the configuration, whatever the factories and the logic do.\<close>

definition for_config :: "string \<Rightarrow> ('p, 'q) Config \<Rightarrow> ('p, 'q) Circuit \<Rightarrow> bool" where
  "for_config nm config c \<longleftrightarrow> c_name c = nm \<and> c_notThreadSafeConfig c = config"

lemma for_config_keeps [keeps_intros]:
  "keeps (for_config nm config) (call_OpenToClose f)" "keeps (for_config nm config) (call_ClosedToOpen g)"
  "keeps (for_config nm config) (call_factory h)" "keeps (for_config nm config) c_now"
  "keeps (for_config nm config) (configure_OpenToClose sel cv)"
  "keeps (for_config nm config) (configure_ClosedToOpen sel' cv)"
  "keeps (for_config nm config) (SetConfigThreadSafe config)"
proof -
  let ?I = "for_config nm config"
  show c: "keeps ?I (call_OpenToClose f)" "keeps ?I (call_ClosedToOpen g)" for f g
    by (auto simp: keeps_def for_config_def call_OpenToClose_def call_ClosedToOpen_def split: option.splits prod.splits)
  show "keeps ?I (call_factory h)"
    by (cases h) (auto simp: keeps_def for_config_def call_factory_def go_simps split: prod.splits)
  show "keeps ?I c_now"
    by (auto simp: keeps_def for_config_def c_now_def split: option.splits)
  show k: "keeps ?I (configure_OpenToClose sel cv)" "keeps ?I (configure_ClosedToOpen sel' cv)" for sel sel' cv
    using c unfolding keeps_def configure_OpenToClose_def configure_ClosedToOpen_def by (auto split: option.splits)
  show "keeps ?I (SetConfigThreadSafe config)"
    unfolding SetConfigThreadSafe_def by (intro keeps_intros k keeps_gmodify) (simp add: for_config_def)
qed

lemma SetConfigNotThreadSafe_for_config:
  "for_config (c_name c) config (snd (SetConfigNotThreadSafe config c))"
proof -
  let ?c = "c\<lparr>c_notThreadSafeConfig := config, c_lostErrors := gc_GoLostErrors (cf_General config),
    c_timeNow := tk_Now (gc_TimeKeeper (cf_General config))\<rparr>"
  have "for_config (c_name c) config ?c" by (simp add: for_config_def)
  then show ?thesis
    unfolding SetConfigNotThreadSafe_def notifyStateMachines_def
    by (subst gmodify_gseq) (rule keeps_snd [rotated], assumption,
        (intro keeps_intros keeps_gmodify; simp add: for_config_def))
qed

lemma NewCircuitFromConfig_for_config:
  assumes "NewCircuitFromConfig wall u v nm config n = (Returns c, n')"
  shows "for_config nm (Config_Merge config (defaultCommandProperties wall u v)) c"
proof -
  let ?config = "Config_Merge config (defaultCommandProperties wall u v)"
  let ?c = "zero_Circuit\<lparr>c_name := nm, c_notThreadSafeConfig := ?config, c_readings := n\<rparr>"
  have "snd (SetConfigNotThreadSafe ?config ?c) = c"
    using assms by (auto simp: NewCircuitFromConfig_def Let_def split: prod.splits outcome.splits)
  then show ?thesis using SetConfigNotThreadSafe_for_config [of ?c ?config] by simp
qed

subsection \<open>Factories that make a working logic\<close>

lemma configured_select [simp]:
  "c_name (configured config c) = c_name c" "c_isOpen (configured config c) = c_isOpen c"
  "c_transitionMu (configured config c) = c_transitionMu c"
  "c_pendingTransitions (configured config c) = c_pendingTransitions c"
  "c_deliveringTransitions (configured config c) = c_deliveringTransitions c"
  "c_concurrentCommands (configured config c) = c_concurrentCommands c"
  "c_concurrentFallbacks (configured config c) = c_concurrentFallbacks c"
  "c_threadSafeConfig (configured config c) = ac_reset config (c_threadSafeConfig c)"
  "c_notThreadSafeConfig (configured config c) = config"
  "c_timeNow (configured config c) = tk_Now (gc_TimeKeeper (cf_General config))"
  "c_log (configured config c) = c_log c" "c_readings (configured config c) = c_readings c"
  by (simp_all add: configured_def)

lemma core_configure [simp]:
  "core (c\<lparr>c_CmdMetricCollector := rs\<rparr>) = (core c)\<lparr>c_CmdMetricCollector := rs\<rparr>"
  "core (c\<lparr>c_FallbackMetricCollector := fs\<rparr>) = (core c)\<lparr>c_FallbackMetricCollector := fs\<rparr>"
  "core (c\<lparr>c_CircuitMetricsCollector := ms\<rparr>) = (core c)\<lparr>c_CircuitMetricsCollector := ms\<rparr>"
  "core (c\<lparr>c_notThreadSafeConfig := config\<rparr>) = (core c)\<lparr>c_notThreadSafeConfig := config\<rparr>"
  "core (c\<lparr>c_threadSafeConfig := tsc\<rparr>) = (core c)\<lparr>c_threadSafeConfig := tsc\<rparr>"
  "core (c\<lparr>c_lostErrors := lost\<rparr>) = (core c)\<lparr>c_lostErrors := lost\<rparr>"
  "core (c\<lparr>c_timeNow := clk\<rparr>) = (core c)\<lparr>c_timeNow := clk\<rparr>"
  by (simp_all add: core_def)

locale logic_factories = circuit_logic cvt cok ovt ook
  for cvt :: "'p ClosedToOpen" and cok :: "'p \<Rightarrow> bool" and ovt :: "'q OpenToClosed" and ook :: "'q \<Rightarrow> bool" +
  fixes cfac :: "('p ClosedToOpen \<times> 'p, nat) go" and ofac :: "('q OpenToClosed \<times> 'q, nat) go"
  assumes cfac_makes: "\<exists>p n'. cfac n = (Returns (cvt, p), n') \<and> cok p"
    and ofac_makes: "\<exists>q n'. ofac n = (Returns (ovt, q), n') \<and> ook q"
begin

definition uses_factories :: "('p, 'q) Config \<Rightarrow> bool" where
  "uses_factories config \<longleftrightarrow> gc_ClosedToOpenFactory (cf_General config) = Some cfac \<and>
     gc_OpenToClosedFactory (cf_General config) = Some ofac \<and> tk_Now (gc_TimeKeeper (cf_General config)) \<noteq> None"

lemma configure_open_ready:
  assumes "ready c" "sel = sm_SetConfigThreadSafe \<or> sel = sm_SetConfigNotThreadSafe"
  shows "\<exists>c'. configure_OpenToClose sel cv c = (Returns (), c') \<and> ready c' \<and> core c' = core c"
proof -
  obtain q where q: "c_OpenToClose c = Some (ovt, q)" using assms(1) by (auto simp: logic_ready_def)
  have "safe ook (f cv)" if "sel ovt = Some f" for f
    using assms(2) that oc.config_safe oc.config'_safe by auto
  then show ?thesis
    using q assms(1) call_open_ready [OF assms(1)]
    by (fastforce simp: configure_OpenToClose_def split: option.split)
qed

lemma configure_closed_ready:
  assumes "ready c" "sel = sm_SetConfigThreadSafe \<or> sel = sm_SetConfigNotThreadSafe"
  shows "\<exists>c'. configure_ClosedToOpen sel cv c = (Returns (), c') \<and> ready c' \<and> core c' = core c"
proof -
  obtain p where p: "c_ClosedToOpen c = Some (cvt, p)" using assms(1) by (auto simp: logic_ready_def)
  have "safe cok (f cv)" if "sel cvt = Some f" for f
    using assms(2) that co.config_safe co.config'_safe by auto
  then show ?thesis
    using p assms(1) call_closed_ready [OF assms(1)]
    by (fastforce simp: configure_ClosedToOpen_def split: option.split)
qed

lemma SetConfigThreadSafe_ready:
  assumes "ready c"
  shows "\<exists>c'. SetConfigThreadSafe config c = (Returns (), c') \<and> ready c' \<and>
    core c' = core (c\<lparr>c_notThreadSafeConfig := config, c_threadSafeConfig := ac_reset config (c_threadSafeConfig c)\<rparr>)"
proof -
  let ?c = "c\<lparr>c_notThreadSafeConfig := config, c_threadSafeConfig := ac_reset config (c_threadSafeConfig c)\<rparr>"
  have "ready ?c" using assms by (simp add: logic_ready_def)
  then obtain c1 where c1: "configure_OpenToClose sm_SetConfigThreadSafe (config_view config) ?c = (Returns (), c1)"
    "ready c1" "core c1 = core ?c" using configure_open_ready [of ?c] by blast
  then obtain c2 where "configure_ClosedToOpen sm_SetConfigThreadSafe (config_view config) c1 = (Returns (), c2)"
    "ready c2" "core c2 = core c1" using configure_closed_ready [of c1] by blast
  with c1 show ?thesis by (simp add: SetConfigThreadSafe_def go_simps)
qed

lemma SetConfigNotThreadSafe_ready:
  assumes "uses_factories config"
  shows "\<exists>c' n. SetConfigNotThreadSafe config c = (Returns (), c') \<and> ready c' \<and>
    core c' = core ((configured config c)\<lparr>c_readings := n\<rparr>)"
proof -
  let ?c0 = "c\<lparr>c_notThreadSafeConfig := config, c_lostErrors := gc_GoLostErrors (cf_General config),
    c_timeNow := tk_Now (gc_TimeKeeper (cf_General config))\<rparr>"
  obtain q n1 where q: "ofac (c_readings c) = (Returns (ovt, q), n1)" "ook q" using ofac_makes by blast
  obtain p n2 where p: "cfac n1 = (Returns (cvt, p), n2)" "cok p" using cfac_makes by blast
  let ?c1 = "?c0\<lparr>c_OpenToClose := Some (ovt, q), c_readings := n2, c_ClosedToOpen := Some (cvt, p)\<rparr>"
  have "ready ?c1" using assms q p by (auto simp: logic_ready_def uses_factories_def)
  then obtain c2 where c2: "configure_OpenToClose sm_SetConfigNotThreadSafe (config_view config) ?c1 = (Returns (), c2)"
    "ready c2" "core c2 = core ?c1" using configure_open_ready [of ?c1] by blast
  obtain c3 where c3: "configure_ClosedToOpen sm_SetConfigNotThreadSafe (config_view config) c2 = (Returns (), c3)"
    "ready c3" "core c3 = core c2" using configure_closed_ready [OF c2(2)] by blast
  let ?c4 = "c3\<lparr>c_CmdMetricCollector := [RcOpenToClose, RcClosedToOpen] @ map RcUser (mc_Run (cf_Metrics config)),
     c_FallbackMetricCollector := mc_Fallback (cf_Metrics config),
     c_CircuitMetricsCollector := mc_Circuit (cf_Metrics config)\<rparr>"
  have "ready ?c4" using c3(2) by (simp add: logic_ready_def)
  then obtain c5 where c5: "SetConfigThreadSafe config ?c4 = (Returns (), c5)" "ready c5"
    "core c5 = core (?c4\<lparr>c_notThreadSafeConfig := config,
       c_threadSafeConfig := ac_reset config (c_threadSafeConfig ?c4)\<rparr>)"
    using SetConfigThreadSafe_ready by blast
  have cc: "core c5 = core ((configured config c)\<lparr>c_readings := n2\<rparr>)"
    using c5(3) c3(3) c2(3) core_fields(7) [OF trans [OF c3(3) c2(3)]] by (simp add: configured_def)
  have until: "SetConfigNotThreadSafe config c = gwhen (c_isOpen c5)
      (gbind c_now (\<lambda>now. notifyStateMachines ctx_Background now True)) c5"
    using assms p q c2(1) c3(1) c5(1)
    by (simp add: SetConfigNotThreadSafe_def go_run gbind_run gseq_run call_factory_run uses_factories_def)
  show ?thesis
  proof (cases "c_isOpen c5")
    case False
    then show ?thesis using until cc c5(2) by (auto simp: go_simps)
  next
    case True
    let ?c6 = "c5\<lparr>c_readings := Suc (c_readings c5)\<rparr>"
    obtain now where now: "c_now c5 = (Returns now, ?c6)" "ready ?c6" using now_ready [OF c5(2)] by blast
    obtain c7 where "notifyStateMachines ctx_Background now True ?c6 = (Returns (), c7)" "ready c7" "core c7 = core ?c6"
      using notify_ready [OF now(2)] by blast
    moreover have "core ?c6 = core ((configured config c)\<lparr>c_readings := Suc (c_readings c5)\<rparr>)"
      using cc by simp
    ultimately show ?thesis using until True now(1) by (auto simp: go_simps)
  qed
qed

text \<open>A new circuit is closed, idle and ready, and has the configuration merged with the defaults.\<close>

lemma NewCircuitFromConfig_ready:
  assumes "uses_factories (Config_Merge config (defaultCommandProperties wall u v))"
  shows "\<exists>c. NewCircuitFromConfig wall u v nm config n = (Returns c, c_readings c) \<and> ready c \<and>
    core c = core ((configured (Config_Merge config (defaultCommandProperties wall u v))
      (zero_Circuit\<lparr>c_name := nm\<rparr>))\<lparr>c_readings := c_readings c\<rparr>)"
proof -
  let ?config = "Config_Merge config (defaultCommandProperties wall u v)"
  let ?c = "zero_Circuit\<lparr>c_name := nm, c_notThreadSafeConfig := ?config, c_readings := n\<rparr>"
  obtain c n' where c: "SetConfigNotThreadSafe ?config ?c = (Returns (), c)" "ready c"
    "core c = core ((configured ?config ?c)\<lparr>c_readings := n'\<rparr>)"
    using SetConfigNotThreadSafe_ready [OF assms, of ?c] by blast
  have "c_readings c = n'" using core_fields(15) [OF c(3)] by simp
  then have "core c = core ((configured ?config (zero_Circuit\<lparr>c_name := nm\<rparr>))\<lparr>c_readings := c_readings c\<rparr>)"
    using c(3) by (simp add: configured_def core_def)
  then show ?thesis using c by (simp add: NewCircuitFromConfig_def Let_def)
qed

end

text \<open>The factories of the default configuration.\<close>

interpretation default_factories:
  logic_factories neverOpens "\<lambda>_. True" neverCloses "\<lambda>_. True" "neverOpensFactory u" "neverClosesFactory v"
proof
  show "\<exists>p n'. neverOpensFactory u n = (Returns (neverOpens, p), n') \<and> True" for n
    by (simp add: neverOpensFactory_def go_simps)
  show "\<exists>q n'. neverClosesFactory v n = (Returns (neverCloses, q), n') \<and> True" for n
    by (simp add: neverClosesFactory_def go_simps)
qed

end
