(* ===== verification/Manager.thy ===== *)
theory Manager
  imports CircuitSetup "HOL-Library.AList" "HOL-Library.Multiset"
begin

text \<open>
  Model of \<^verbatim>\<open>manager.go\<close>: the registry of circuits with unique names.

  \<^verbatim>\<open>circuitMap\<close> is an association list of names and pointers, \<open>None\<close> while the map is nil; a pointer is
  an index of \<open>mg_circuits\<close>, the circuits the manager has made. \<open>mg_createMu\<close> says whether \<^verbatim>\<open>createMu\<close>
  is held; the lock \<^verbatim>\<open>mu\<close> is held for single accesses of the map only, never while a constructor runs,
  so that one call at a time does not see it. The constructors of \<^verbatim>\<open>DefaultCircuitProperties\<close> are user code:
  each is named by a number, and its behaviour, any computation over the manager, is the parameter
  \<open>ctor\<close>. \<open>mg_calls\<close> records which of them were called.
\<close>

record ('p, 'q) Manager =
  mg_DefaultCircuitProperties :: "nat list"
  mg_circuitMap :: "(string \<times> nat) list option"
  mg_createMu :: bool
  mg_circuits :: "('p, 'q) Circuit list"
  mg_readings :: nat
  mg_calls :: "(nat \<times> string) list"

type_synonym ('a, 'p, 'q) mgo = "('a, ('p, 'q) Manager) go"
type_synonym ('p, 'q) constructors = "nat \<Rightarrow> string \<Rightarrow> (('p, 'q) Config, 'p, 'q) mgo"

definition mg_entries :: "('p, 'q) Manager \<Rightarrow> (string \<times> nat) list" where
  "mg_entries m = (case mg_circuitMap m of None \<Rightarrow> [] | Some es \<Rightarrow> es)"

text \<open>
  \<^verbatim>\<open>AllCircuits\<close> and \<^verbatim>\<open>GetCircuit\<close> accept a nil receiver. Go visits a map in any order: \<open>visit\<close>, a
  parameter, is the order it takes.
\<close>

definition AllCircuits ::
  "((string \<times> nat) list \<Rightarrow> (string \<times> nat) list) \<Rightarrow> ('p, 'q) Manager option \<Rightarrow> nat list" where
  "AllCircuits visit h = (case h of None \<Rightarrow> [] | Some m \<Rightarrow> map snd (visit (mg_entries m)))"

definition GetCircuit :: "('p, 'q) Manager option \<Rightarrow> string \<Rightarrow> nat option" where
  "GetCircuit h nm = (case h of None \<Rightarrow> None | Some m \<Rightarrow> map_of (mg_entries m) nm)"

definition errCircuitExists :: err where
  "errCircuitExists = OtherErr ''circuit with that name already exists'' None NoAs NoUnwrap"

text \<open>
  The loop over the constructors, from the last one to the first; \<open>i\<close> is the number of those left. The
  list is read anew in every iteration.
\<close>

definition call_constructor :: "('p, 'q) constructors \<Rightarrow> nat \<Rightarrow> string \<Rightarrow> (('p, 'q) Config, 'p, 'q) mgo" where
  "call_constructor ctor k nm =
     gseq (gmodify (\<lambda>m. m\<lparr>mg_calls := mg_calls m @ [(k, nm)]\<rparr>)) (ctor k nm)"

fun merge_constructors ::
  "('p, 'q) constructors \<Rightarrow> string \<Rightarrow> nat \<Rightarrow> ('p, 'q) Config \<Rightarrow> (('p, 'q) Config, 'p, 'q) mgo" where
  "merge_constructors ctor nm 0 finalConfig = greturn finalConfig"
| "merge_constructors ctor nm (Suc i) finalConfig =
     gbind (gget mg_DefaultCircuitProperties) (\<lambda>ds.
     gbind (gindex ds (int i)) (\<lambda>k.
     gbind (call_constructor ctor k nm) (\<lambda>cfg.
     merge_constructors ctor nm i (Config_Merge finalConfig cfg))))"

definition lock_create :: "(unit, 'p, 'q) mgo" where
  "lock_create = (\<lambda>m. if mg_createMu m then (Blocks, m) else (Returns (), m\<lparr>mg_createMu := True\<rparr>))"

definition unlock_create :: "(unit, 'p, 'q) mgo" where
  "unlock_create = (\<lambda>m. if mg_createMu m then (Returns (), m\<lparr>mg_createMu := False\<rparr>)
     else (Panics (UserPanic ''sync: unlock of unlocked mutex''), m))"

text \<open>The final section: the circuit gets its place in memory and its entry.\<close>

definition register :: "string \<Rightarrow> ('p, 'q) Circuit \<Rightarrow> (nat, 'p, 'q) mgo" where
  "register nm created = (\<lambda>m.
     let p = length (mg_circuits m);
         es = (case mg_circuitMap m of None \<Rightarrow> [] | Some es \<Rightarrow> es)
     in (Returns p, m\<lparr>mg_circuits := mg_circuits m @ [created], mg_circuitMap := Some (AList.update nm p es)\<rparr>))"

text \<open>
  \<open>wall\<close>, \<open>u\<close> and \<open>v\<close> are those of \<open>NewCircuitFromConfig\<close>. A nil receiver panics at the first
  statement; the model is about the others.
\<close>

definition CreateCircuit ::
  "clock \<Rightarrow> 'p \<Rightarrow> 'q \<Rightarrow> ('p, 'q) constructors \<Rightarrow> string \<Rightarrow> ('p, 'q) Config list \<Rightarrow>
   (nat option \<times> err option, 'p, 'q) mgo" where
  "CreateCircuit wall u v ctor nm configs =
     gseq lock_create (gdefer unlock_create (
       gbind (gget (\<lambda>m. GetCircuit (Some m) nm)) (\<lambda>existing.
       if existing \<noteq> None then greturn (None, Some errCircuitExists)
       else
         let finalConfig = foldl Config_Merge zero_Config configs in
         gbind (gget (length \<circ> mg_DefaultCircuitProperties)) (\<lambda>n.
         gbind (merge_constructors ctor nm n finalConfig) (\<lambda>finalConfig.
         gbind (gzoom mg_readings (\<lambda>r m. m\<lparr>mg_readings := r\<rparr>) (NewCircuitFromConfig wall u v nm finalConfig))
           (\<lambda>created.
         gbind (register nm created) (\<lambda>p.
         greturn (Some p, None))))))))"

definition MustCreateCircuit ::
  "clock \<Rightarrow> 'p \<Rightarrow> 'q \<Rightarrow> ('p, 'q) constructors \<Rightarrow> string \<Rightarrow> ('p, 'q) Config list \<Rightarrow> (nat option, 'p, 'q) mgo" where
  "MustCreateCircuit wall u v ctor nm configs =
     gbind (CreateCircuit wall u v ctor nm configs) (\<lambda>(c, e). case e of
       Some e \<Rightarrow> gpanic (UserPanic (Error e))
     | None \<Rightarrow> greturn c)"

definition zero_Manager :: "('p, 'q) Manager" where
  "zero_Manager = \<lparr>mg_DefaultCircuitProperties = [], mg_circuitMap = None, mg_createMu = False,
     mg_circuits = [], mg_readings = 0, mg_calls = []\<rparr>"

subsection \<open>The registry\<close>

text \<open>
  The invariant: names are unique, every entry points to a circuit, and no two entries share one; the
  circuit of an entry carries its name.
\<close>

definition registry :: "('p, 'q) Manager \<Rightarrow> bool" where
  "registry m \<longleftrightarrow> distinct (map fst (mg_entries m)) \<and> distinct (map snd (mg_entries m)) \<and>
     (\<forall>(nm, p) \<in> set (mg_entries m). p < length (mg_circuits m) \<and> c_name (mg_circuits m ! p) = nm)"

text \<open>A constructor that only computes: it may take readings of the clock, but leaves the manager alone.\<close>

definition same_registry :: "('p, 'q) Manager \<Rightarrow> ('p, 'q) Manager \<Rightarrow> bool" where
  "same_registry m m' \<longleftrightarrow> mg_circuitMap m' = mg_circuitMap m \<and> mg_circuits m' = mg_circuits m \<and>
     mg_createMu m' = mg_createMu m \<and> mg_DefaultCircuitProperties m' = mg_DefaultCircuitProperties m"

definition leaves_manager :: "('p, 'q) constructors \<Rightarrow> bool" where
  "leaves_manager ctor \<longleftrightarrow> (\<forall>k nm m. same_registry m (snd (ctor k nm m)) \<and> mg_calls (snd (ctor k nm m)) = mg_calls m)"

lemma same_registry_refl [simp]: "same_registry m m"
  by (simp add: same_registry_def)

lemma same_registry_trans: "same_registry a b \<Longrightarrow> same_registry b c \<Longrightarrow> same_registry a c"
  by (simp add: same_registry_def)

lemma same_registry_registry: "same_registry m m' \<Longrightarrow> registry m' = registry m"
  by (simp add: same_registry_def registry_def mg_entries_def)

lemma same_registry_GetCircuit: "same_registry m m' \<Longrightarrow> GetCircuit (Some m') = GetCircuit (Some m)"
  by (simp add: same_registry_def GetCircuit_def mg_entries_def fun_eq_iff)

lemma merge_constructors_same_registry:
  assumes "leaves_manager ctor"
  shows "same_registry m (snd (merge_constructors ctor nm i fc m))"
proof (induction i arbitrary: fc m)
  case 0
  then show ?case by (simp add: go_simps)
next
  case (Suc i)
  let ?ds = "mg_DefaultCircuitProperties m"
  let ?m0 = "m\<lparr>mg_calls := mg_calls m @ [(?ds ! i, nm)]\<rparr>"
  obtain r m1 where r: "ctor (?ds ! i) nm ?m0 = (r, m1)" by fastforce
  have "same_registry ?m0 m1"
    using assms unfolding leaves_manager_def by (metis r snd_conv)
  then have "same_registry m m1" by (simp add: same_registry_def)
  then show ?case
    using r Suc.IH [where m = m1]
    by (cases r) (auto simp: go_simps call_constructor_def intro: same_registry_trans)
qed

text \<open>The entry of a fresh name goes to the end of the list.\<close>

lemma update_fresh: "k \<notin> fst ` set xs \<Longrightarrow> AList.update k v xs = xs @ [(k, v)]"
  by (induction xs) auto

lemma GetCircuit_None_iff: "GetCircuit (Some m) nm = None \<longleftrightarrow> nm \<notin> fst ` set (mg_entries m)"
  by (simp add: GetCircuit_def map_of_eq_None_iff)

lemma register_fresh:
  assumes "registry m" "GetCircuit (Some m) nm = None" "c_name created = nm"
    and "register nm created m = (r, m')"
  shows "registry m'" and "r = Returns (length (mg_circuits m))"
    and "GetCircuit (Some m') = (GetCircuit (Some m))(nm \<mapsto> length (mg_circuits m))"
    and "mg_circuits m' = mg_circuits m @ [created]"
    and "mg_entries m' = mg_entries m @ [(nm, length (mg_circuits m))]"
    and "mg_createMu m' = mg_createMu m" "mg_calls m' = mg_calls m"
    and "mg_DefaultCircuitProperties m' = mg_DefaultCircuitProperties m"
proof -
  have fresh: "nm \<notin> fst ` set (mg_entries m)"
    using assms(2) by (simp add: GetCircuit_None_iff)
  have m': "m' = m\<lparr>mg_circuits := mg_circuits m @ [created],
      mg_circuitMap := Some (mg_entries m @ [(nm, length (mg_circuits m))])\<rparr>"
    and r: "r = Returns (length (mg_circuits m))"
    using assms(4) update_fresh [OF fresh]
    by (auto simp: register_def mg_entries_def Let_def split: option.splits)
  show "r = Returns (length (mg_circuits m))" by (fact r)
  show es: "mg_entries m' = mg_entries m @ [(nm, length (mg_circuits m))]"
    by (simp add: m' mg_entries_def)
  let ?ok = "\<lambda>cs (n, p). p < length cs \<and> c_name (cs ! p) = n"
  have old: "\<forall>e \<in> set (mg_entries m). ?ok (mg_circuits m') e"
    using assms(1) by (auto simp: registry_def m' nth_append)
  have "length (mg_circuits m) \<notin> set (map snd (mg_entries m))"
    using assms(1) by (auto simp: registry_def)
  then show "registry m'"
    using assms(1) fresh old assms(3)
    by (simp add: registry_def es) (simp add: m' nth_append)
  show "GetCircuit (Some m') = (GetCircuit (Some m))(nm \<mapsto> length (mg_circuits m))"
    using assms(2) by (auto simp: GetCircuit_def es fun_eq_iff map_add_def split: option.splits)
qed (use assms(4) in \<open>auto simp: register_def Let_def\<close>)

subsection \<open>Creating a circuit\<close>

text \<open>A failed creation leaves the registry as it was; the lock is free again whenever the call is over.\<close>

lemma lock_create_run: "\<not> mg_createMu m \<Longrightarrow> lock_create m = (Returns (), m\<lparr>mg_createMu := True\<rparr>)"
  by (simp add: lock_create_def)

lemma unlock_create_run: "mg_createMu m \<Longrightarrow> unlock_create m = (Returns (), m\<lparr>mg_createMu := False\<rparr>)"
  by (simp add: unlock_create_def)

lemma CreateCircuit_exists:
  assumes "\<not> mg_createMu m" "GetCircuit (Some m) nm = Some p"
  shows "CreateCircuit wall u v ctor nm configs m = (Returns (None, Some errCircuitExists), m)"
proof -
  have "GetCircuit (Some (m\<lparr>mg_createMu := True\<rparr>)) nm = Some p"
    using assms(2) by (simp add: GetCircuit_def mg_entries_def)
  then show ?thesis
    using assms(1)
    by (simp add: CreateCircuit_def go_run gseq_run gbind_run gdefer_def lock_create_run unlock_create_run)
qed

text \<open>The critical section of a creation of a fresh name.\<close>

definition creating :: "clock \<Rightarrow> 'p \<Rightarrow> 'q \<Rightarrow> ('p, 'q) constructors \<Rightarrow> string \<Rightarrow> ('p, 'q) Config list \<Rightarrow>
   (nat option \<times> err option, 'p, 'q) mgo" where
  "creating wall u v ctor nm configs =
     gbind (gget (length \<circ> mg_DefaultCircuitProperties)) (\<lambda>n.
     gbind (merge_constructors ctor nm n (foldl Config_Merge zero_Config configs)) (\<lambda>finalConfig.
     gbind (gzoom mg_readings (\<lambda>r m. m\<lparr>mg_readings := r\<rparr>) (NewCircuitFromConfig wall u v nm finalConfig))
       (\<lambda>created. gbind (register nm created) (\<lambda>p. greturn (Some p, None)))))"

lemma CreateCircuit_fresh:
  assumes "\<not> mg_createMu m" "GetCircuit (Some m) nm = None"
  shows "CreateCircuit wall u v ctor nm configs m =
    gdefer unlock_create (creating wall u v ctor nm configs) (m\<lparr>mg_createMu := True\<rparr>)"
proof -
  have "GetCircuit (Some (m\<lparr>mg_createMu := True\<rparr>)) nm = None"
    using assms(2) by (simp add: GetCircuit_def mg_entries_def)
  then show ?thesis
    using assms(1)
    by (simp add: CreateCircuit_def creating_def go_run gseq_run gbind_run gdefer_def lock_create_run)
qed

text \<open>How a creation under the lock ends: with the new entry, or with the registry of before.\<close>

definition created :: "string \<Rightarrow> ('p, 'q) Manager \<Rightarrow> ('p, 'q) Manager \<Rightarrow> (nat option \<times> err option) outcome \<Rightarrow> bool" where
  "created nm m m' r \<longleftrightarrow>
     (\<exists>c. r = Returns (Some (length (mg_circuits m)), None) \<and> c_name c = nm \<and> registry m' \<and>
        mg_circuits m' = mg_circuits m @ [c] \<and> mg_entries m' = mg_entries m @ [(nm, length (mg_circuits m))] \<and>
        GetCircuit (Some m') = (GetCircuit (Some m))(nm \<mapsto> length (mg_circuits m))) \<or>
     r \<notin> range Returns \<and> mg_circuits m' = mg_circuits m \<and> mg_entries m' = mg_entries m"

lemma creating_cases:
  assumes "leaves_manager ctor" "registry m" "GetCircuit (Some m) nm = None"
    and "creating wall u v ctor nm configs m = (r, m')"
  shows "created nm m m' r" and "mg_createMu m' = mg_createMu m"
    and "mg_DefaultCircuitProperties m' = mg_DefaultCircuitProperties m"
proof -
  obtain r1 m1 where r1: "merge_constructors ctor nm (length (mg_DefaultCircuitProperties m))
      (foldl Config_Merge zero_Config configs) m = (r1, m1)" by fastforce
  then have sm: "same_registry m m1"
    using merge_constructors_same_registry [OF assms(1), of m nm] by (metis snd_conv)
  have "created nm m m' r \<and> mg_createMu m' = mg_createMu m \<and>
    mg_DefaultCircuitProperties m' = mg_DefaultCircuitProperties m"
  proof (cases r1)
    case (Returns cfg)
    obtain r2 k where r2: "NewCircuitFromConfig wall u v nm cfg (mg_readings m1) = (r2, k)" by fastforce
    let ?m2 = "m1\<lparr>mg_readings := k\<rparr>"
    have sm2: "same_registry m ?m2" using sm by (simp add: same_registry_def)
    show ?thesis
    proof (cases r2)
      case (Returns c)
      have "c_name c = nm"
        using NewCircuitFromConfig_for_config r2 Returns by (fastforce simp: for_config_def)
      moreover obtain r3 m3 where r3: "register nm c ?m2 = (r3, m3)" by fastforce
      moreover have "registry ?m2" "GetCircuit (Some ?m2) nm = None"
        using same_registry_registry [OF sm2] same_registry_GetCircuit [OF sm2] assms(2,3) by simp_all
      moreover have "mg_circuits ?m2 = mg_circuits m" "mg_entries ?m2 = mg_entries m"
        "mg_createMu ?m2 = mg_createMu m" "mg_DefaultCircuitProperties ?m2 = mg_DefaultCircuitProperties m"
        using sm2 by (simp_all add: same_registry_def mg_entries_def)
      ultimately show ?thesis
        using register_fresh [of ?m2 nm c r3 m3] same_registry_GetCircuit [OF sm2] r1 r2 Returns \<open>r1 = _\<close> assms(4)
        by (auto simp: creating_def created_def go_run gbind_run gzoom_run)
    qed (use r1 r2 \<open>r1 = _\<close> assms(4) sm2 in
      \<open>auto simp: creating_def created_def go_run gbind_run gzoom_run same_registry_def mg_entries_def\<close>)
  qed (use r1 assms(4) sm in
    \<open>auto simp: creating_def created_def go_run gbind_run gzoom_run same_registry_def mg_entries_def\<close>)
  then show "created nm m m' r" "mg_createMu m' = mg_createMu m"
    "mg_DefaultCircuitProperties m' = mg_DefaultCircuitProperties m" by auto
qed

text \<open>Constructors that always return: the loop merges their configurations, the last appended first.\<close>

lemma merge_constructors_run:
  assumes "\<And>k n m. ctor k n m = (Returns (cfg k n), m)" "i \<le> length (mg_DefaultCircuitProperties m)"
  shows "merge_constructors ctor nm i fc m =
    (Returns (foldl Config_Merge fc (map (\<lambda>k. cfg k nm) (rev (take i (mg_DefaultCircuitProperties m))))),
     m\<lparr>mg_calls := mg_calls m @ map (\<lambda>k. (k, nm)) (rev (take i (mg_DefaultCircuitProperties m)))\<rparr>)"
  using assms(2)
proof (induction i arbitrary: fc m)
  case (Suc i)
  then show ?case by (simp add: go_simps call_constructor_def assms(1) take_Suc_conv_app_nth)
qed (simp add: go_simps)

text \<open>
  What the lookups say together: in whatever order the map is visited, \<^verbatim>\<open>AllCircuits\<close> lists every circuit
  that a name finds, once.
\<close>

lemma AllCircuits_are_the_named:
  assumes "registry m" "\<And>es. mset (visit es) = mset es"
  shows "distinct (AllCircuits visit (Some m))"
    and "p \<in> set (AllCircuits visit (Some m)) \<longleftrightarrow> (\<exists>nm. GetCircuit (Some m) nm = Some p)"
proof -
  have eq: "mset (AllCircuits visit (Some m)) = mset (map snd (mg_entries m))"
    by (simp add: AllCircuits_def assms(2))
  show "distinct (AllCircuits visit (Some m))"
    using assms(1) mset_eq_imp_distinct_iff [OF eq] by (simp add: registry_def)
  have "set (AllCircuits visit (Some m)) = snd ` set (mg_entries m)"
    using mset_eq_setD [OF eq] by simp
  moreover have "(nm, p) \<in> set (mg_entries m) \<longleftrightarrow> GetCircuit (Some m) nm = Some p" for nm
    using assms(1) by (simp add: GetCircuit_def registry_def)
  ultimately show "p \<in> set (AllCircuits visit (Some m)) \<longleftrightarrow> (\<exists>nm. GetCircuit (Some m) nm = Some p)"
    by force
qed

lemma MustCreateCircuit_taken:
  assumes "\<not> mg_createMu m" "GetCircuit (Some m) nm = Some p"
  shows "MustCreateCircuit wall u v ctor nm configs m =
    (Panics (UserPanic ''circuit with that name already exists''), m)"
  by (simp add: MustCreateCircuit_def gbind_run go_run CreateCircuit_exists [OF assms] errCircuitExists_def)

text \<open>A creation whose constructors return: the circuit it makes, and its entry.\<close>

lemma CreateCircuit_run:
  fixes ctor :: "('p, 'q) constructors"
  assumes "logic_factories cvt cok ovt ook cfac ofac" "\<And>k n m. ctor k n m = (Returns (cfg k n), m)"
    and "\<not> mg_createMu m" "GetCircuit (Some m) nm = None"
    and "config = Config_Merge (foldl Config_Merge zero_Config
           (configs @ map (\<lambda>k. cfg k nm) (rev (mg_DefaultCircuitProperties m)))) (defaultCommandProperties wall u v)"
    and "logic_factories.uses_factories cfac ofac config"
  shows "\<exists>c m'. CreateCircuit wall u v ctor nm configs m = (Returns (Some (length (mg_circuits m)), None), m') \<and>
    mg_circuits m' = mg_circuits m @ [c] \<and> logic_ready cvt cok ovt ook c \<and>
    core c = core ((configured config (zero_Circuit\<lparr>c_name := nm\<rparr>))\<lparr>c_readings := c_readings c\<rparr>) \<and>
    mg_calls m' = mg_calls m @ map (\<lambda>k. (k, nm)) (rev (mg_DefaultCircuitProperties m)) \<and> \<not> mg_createMu m' \<and>
    mg_DefaultCircuitProperties m' = mg_DefaultCircuitProperties m \<and>
    mg_entries m' = mg_entries m @ [(nm, length (mg_circuits m))]"
proof -
  let ?ds = "mg_DefaultCircuitProperties m" and ?fc = "foldl Config_Merge zero_Config configs"
  let ?merged = "foldl Config_Merge ?fc (map (\<lambda>k. cfg k nm) (rev ?ds))"
  let ?m = "m\<lparr>mg_createMu := True, mg_calls := mg_calls m @ map (\<lambda>k. (k, nm)) (rev ?ds)\<rparr>"
  have config: "config = Config_Merge ?merged (defaultCommandProperties wall u v)"
    using assms(5) by simp
  obtain c where c: "NewCircuitFromConfig wall u v nm ?merged (mg_readings m) = (Returns c, c_readings c)"
    "logic_ready cvt cok ovt ook c"
    "core c = core ((configured config (zero_Circuit\<lparr>c_name := nm\<rparr>))\<lparr>c_readings := c_readings c\<rparr>)"
    using logic_factories.NewCircuitFromConfig_ready [OF assms(1), of ?merged wall u v nm "mg_readings m"]
      assms(6) config by auto
  have merged: "merge_constructors ctor nm (length ?ds) ?fc (m\<lparr>mg_createMu := True\<rparr>) = (Returns ?merged, ?m)"
    using merge_constructors_run [where ctor = ctor and cfg = cfg, OF assms(2),
        of "length ?ds" "m\<lparr>mg_createMu := True\<rparr>" nm ?fc] by simp
  have "creating wall u v ctor nm configs (m\<lparr>mg_createMu := True\<rparr>) =
    (Returns (Some (length (mg_circuits m)), None), snd (register nm c (?m\<lparr>mg_readings := c_readings c\<rparr>)))"
    using merged c(1) by (simp add: creating_def go_run gbind_run gzoom_run register_def Let_def)
  then have "CreateCircuit wall u v ctor nm configs m = (Returns (Some (length (mg_circuits m)), None),
    (snd (register nm c (?m\<lparr>mg_readings := c_readings c\<rparr>)))\<lparr>mg_createMu := False\<rparr>)"
    using CreateCircuit_fresh [OF assms(3,4), of wall u v ctor configs]
    by (simp add: gdefer_def unlock_create_def register_def Let_def)
  moreover have "nm \<notin> fst ` set (mg_entries m)" using assms(4) by (simp add: GetCircuit_None_iff)
  ultimately show ?thesis
    using c(2,3) update_fresh [of nm "mg_entries m"]
    by (fastforce simp: register_def Let_def mg_entries_def split: option.splits)
qed

subsection \<open>Properties\<close>

text \<open>C16: The registry, for constructors that leave the manager alone but may panic or hang: creating a circuit
  with a name that is taken gives the error and changes nothing, so no constructor was called; with a new
  name, either the call returns the new circuit, which has that name, and lookup finds it under its name and
  every other circuit as before, or it does not return and no circuit was added. Names stay unique, and the
  lock on creations is held after the call only if the call never ends.\<close>

theorem manager_keeps_names_unique:
  assumes "leaves_manager ctor" "registry m" "\<not> mg_createMu m"
    and "CreateCircuit wall u v ctor nm configs m = (r, m')"
  shows "registry m' \<and> (mg_createMu m' \<longleftrightarrow> r = Blocks) \<and>
    (if GetCircuit (Some m) nm \<noteq> None then r = Returns (None, Some errCircuitExists) \<and> m' = m
     else (\<exists>c. r = Returns (Some (length (mg_circuits m)), None) \<and> c_name c = nm \<and>
             mg_circuits m' = mg_circuits m @ [c] \<and>
             GetCircuit (Some m') = (GetCircuit (Some m))(nm \<mapsto> length (mg_circuits m))) \<or>
          r \<notin> range Returns \<and> mg_circuits m' = mg_circuits m \<and> GetCircuit (Some m') = GetCircuit (Some m))"
proof (cases "GetCircuit (Some m) nm")
  case (Some p)
  then have "r = Returns (None, Some errCircuitExists)" "m' = m"
    using CreateCircuit_exists [OF assms(3) Some, of wall u v ctor configs] assms(4) by simp_all
  then show ?thesis using Some assms(2,3) by simp
next
  case None
  let ?m = "m\<lparr>mg_createMu := True\<rparr>"
  obtain r1 m1 where r1: "creating wall u v ctor nm configs ?m = (r1, m1)" by fastforce
  have "registry ?m" "GetCircuit (Some ?m) = GetCircuit (Some m)" "mg_entries ?m = mg_entries m"
    using assms(2) by (simp_all add: registry_def GetCircuit_def mg_entries_def fun_eq_iff)
  then have c: "created nm ?m m1 r1" "mg_createMu m1"
    using creating_cases [OF assms(1) _ _ r1] None by simp_all
  have m': "r = r1" "m' = (if r1 = Blocks then m1 else m1\<lparr>mg_createMu := False\<rparr>)"
    using assms(4) CreateCircuit_fresh [OF assms(3) None] r1 c(2)
    by (auto simp: gdefer_def unlock_create_run split: outcome.splits)
  have "GetCircuit (Some m') = GetCircuit (Some m1)" "mg_entries m' = mg_entries m1"
    "registry m' = registry m1" "mg_circuits m' = mg_circuits m1" "mg_createMu m' \<longleftrightarrow> r = Blocks"
    using m' c(2) by (simp_all add: registry_def GetCircuit_def mg_entries_def fun_eq_iff)
  moreover have "registry m1" if "mg_circuits m1 = mg_circuits m" "mg_entries m1 = mg_entries m"
    using assms(2) that by (simp add: registry_def)
  moreover have "GetCircuit (Some m1) = GetCircuit (Some m)" if "mg_entries m1 = mg_entries m"
    using that by (simp add: GetCircuit_def fun_eq_iff)
  ultimately show ?thesis
    using c(1) None \<open>GetCircuit (Some ?m) = _\<close> \<open>mg_entries ?m = _\<close> m'(1) by (auto simp: created_def)
qed

theorem manager_keeps_names_unique_witness:
  "registry (zero_Manager\<lparr>mg_DefaultCircuitProperties := [3]\<rparr> :: (unit, unit) Manager) \<and>
   (let r = CreateCircuit int () () (\<lambda>k n. gpanic (UserPanic n)) ''a'' []
         (zero_Manager\<lparr>mg_DefaultCircuitProperties := [3]\<rparr> :: (unit, unit) Manager)
    in fst r \<notin> range Returns \<and> registry (snd r) \<and> GetCircuit (Some (snd r)) ''a'' = None)"
proof -
  let ?m = "zero_Manager\<lparr>mg_DefaultCircuitProperties := [3]\<rparr> :: (unit, unit) Manager"
  let ?ctor = "\<lambda>k n. gpanic (UserPanic n) :: ((unit, unit) Config, unit, unit) mgo"
  let ?r = "CreateCircuit int () () ?ctor ''a'' [] ?m"
  have m: "leaves_manager ?ctor" "registry ?m" "\<not> mg_createMu ?m" "GetCircuit (Some ?m) ''a'' = None"
    by (simp_all add: leaves_manager_def registry_def zero_Manager_def mg_entries_def GetCircuit_def go_simps)
  have "fst ?r = Panics (UserPanic ''a'')"
    using CreateCircuit_fresh [OF m(3,4), of int "()" "()" ?ctor "[]"]
    by (simp add: creating_def gdefer_def go_run gbind_run gseq_run gindex_run call_constructor_def zero_Manager_def
        unlock_create_def)
  moreover have "registry (snd ?r) \<and> (fst ?r \<notin> range Returns \<longrightarrow> GetCircuit (Some (snd ?r)) = GetCircuit (Some ?m))"
    using manager_keeps_names_unique [OF m(1-3), of int "()" "()" "''a''" "[]" "fst ?r" "snd ?r"] m(4)
    by (auto simp del: fun_upd_apply)
  ultimately show ?thesis using m(2,4) unfolding Let_def by auto
qed

text \<open>C17: What a new circuit is configured with: creating a circuit returns a circuit that is ready, closed and
  idle, whose configuration is the merge of the configurations of the call in their order, then those of the
  constructors from the most recently appended one to the first, then the defaults; each constructor was
  called exactly once, with the circuit's name.\<close>

theorem CreateCircuit_configures:
  fixes ctor :: "('p, 'q) constructors"
  assumes "logic_factories cvt cok ovt ook cfac ofac" "\<And>k n m. ctor k n m = (Returns (cfg k n), m)"
    and "\<not> mg_createMu m" "GetCircuit (Some m) nm = None"
    and "config = Config_Merge (foldl Config_Merge zero_Config
           (configs @ map (\<lambda>k. cfg k nm) (rev (mg_DefaultCircuitProperties m)))) (defaultCommandProperties wall u v)"
    and "logic_factories.uses_factories cfac ofac config"
  shows "\<exists>c m'. CreateCircuit wall u v ctor nm configs m = (Returns (Some (length (mg_circuits m)), None), m') \<and>
    mg_circuits m' = mg_circuits m @ [c] \<and>
    mg_calls m' = mg_calls m @ map (\<lambda>k. (k, nm)) (rev (mg_DefaultCircuitProperties m)) \<and>
    logic_ready cvt cok ovt ook c \<and> c_name c = nm \<and> c_notThreadSafeConfig c = config \<and> \<not> c_isOpen c \<and>
    c_concurrentCommands c = 0 \<and> c_log c = []"
proof -
  from CreateCircuit_run [where ctor = ctor and cfg = cfg, OF assms]
  obtain c m' where "CreateCircuit wall u v ctor nm configs m = (Returns (Some (length (mg_circuits m)), None), m')"
    "mg_circuits m' = mg_circuits m @ [c]" "logic_ready cvt cok ovt ook c"
    and core: "core c = core ((configured config (zero_Circuit\<lparr>c_name := nm\<rparr>))\<lparr>c_readings := c_readings c\<rparr>)"
    and "mg_calls m' = mg_calls m @ map (\<lambda>k. (k, nm)) (rev (mg_DefaultCircuitProperties m))" by blast
  then show ?thesis using core_fields [OF core] by (simp add: zero_Circuit_def)
qed

text \<open>Two constructors and a call that set three different settings; the last constructor wins over the first.\<close>

theorem CreateCircuit_configures_witness:
  "\<exists>c m'. CreateCircuit int () () (\<lambda>k n. greturn (zero_Config\<lparr>cf_Execution := zero_ExecutionConfig\<lparr>
        ec_Timeout := int k\<rparr>\<rparr>)) ''a'' [zero_Config\<lparr>cf_Fallback := zero_FallbackConfig\<lparr>fc_Disabled := True\<rparr>\<rparr>]
      (zero_Manager\<lparr>mg_DefaultCircuitProperties := [3, 5]\<rparr>) = (Returns (Some 0, None), m') \<and>
    mg_circuits m' = [c] \<and> mg_calls m' = [(5, ''a''), (3, ''a'')] \<and> \<not> c_isOpen c \<and>
    ec_Timeout (cf_Execution (c_notThreadSafeConfig c)) = 5 \<and> fc_Disabled (cf_Fallback (c_notThreadSafeConfig c)) \<and>
    ec_MaxConcurrentRequests (cf_Execution (c_notThreadSafeConfig c)) = 10"
proof -
  let ?cfg = "\<lambda>k (n :: string). zero_Config\<lparr>cf_Execution := zero_ExecutionConfig\<lparr>ec_Timeout := int k\<rparr>\<rparr> :: (unit, unit) Config"
  let ?configs = "[zero_Config\<lparr>cf_Fallback := zero_FallbackConfig\<lparr>fc_Disabled := True\<rparr>\<rparr>] :: (unit, unit) Config list"
  let ?m = "zero_Manager\<lparr>mg_DefaultCircuitProperties := [3, 5]\<rparr> :: (unit, unit) Manager"
  let ?config = "Config_Merge (foldl Config_Merge zero_Config (?configs @
    map (\<lambda>k. ?cfg k ''a'') (rev (mg_DefaultCircuitProperties ?m)))) (defaultCommandProperties int () ())"
  note defs = zero_Config_def zero_GeneralConfig_def zero_ExecutionConfig_def zero_FallbackConfig_def
    defaultCommandProperties_def defaultGoSpecificConfig_def defaultExecutionConfig_def defaultFallbackConfig_def
    Config_Merge_def gc_merge_def ec_merge_def fc_merge_def mc_merge_def tk_merge_def mergeCustomConfig_def
  have u: "logic_factories.uses_factories (neverOpensFactory ()) (neverClosesFactory ()) ?config"
    by (simp add: default_factories.uses_factories_def defs)
  have m: "\<not> mg_createMu ?m" "GetCircuit (Some ?m) ''a'' = None"
    by (simp_all add: zero_Manager_def GetCircuit_def mg_entries_def)
  have "ec_Timeout (cf_Execution ?config) = 5" "fc_Disabled (cf_Fallback ?config)"
    "ec_MaxConcurrentRequests (cf_Execution ?config) = 10"
    by (simp_all add: defs)
  then show ?thesis
    using CreateCircuit_configures [OF default_factories.logic_factories_axioms greturn_def [THEN fun_cong] m refl u]
    by (auto simp: zero_Manager_def)
qed

end
