(* ===== verification/GoWrapper.thy ===== *)
theory GoWrapper
  imports CircuitExecution "HOL-Library.Multiset"
begin

text \<open>
  Model of \<^verbatim>\<open>gowrapper.go\<close> and of \<^verbatim>\<open>Circuit.Go\<close>: a run function in a goroutine of its own, so that the
  caller can leave when its context ends.

  One wrapped call is a system of three goroutines, the caller in its \<^verbatim>\<open>select\<close>, the runner, and the waiter
  \<^verbatim>\<open>waitForErrors\<close>, around two channels with a buffer of one element. \<open>gw_step\<close> is one atomic action of one
  of them, or the end of the context; every interleaving is a sequence of such steps. A step of the
  runner picks how the run function ends: it may return, panic, or call \<^verbatim>\<open>runtime.Goexit\<close>; it may also
  never end, which is the absence of the step.
\<close>

subsection \<open>Channels\<close>

text \<open>A channel with a buffer of one element.\<close>

record 'a chan =
  ch_buf :: "'a list"
  ch_closed :: bool

definition make_chan :: "'a chan" where
  "make_chan = \<lparr>ch_buf = [], ch_closed = False\<rparr>"

datatype 'a send_result = Sent "'a chan" | SendBlocks | SendPanics

definition chan_send :: "'a \<Rightarrow> 'a chan \<Rightarrow> 'a send_result" where
  "chan_send v ch = (if ch_closed ch then SendPanics
     else if length (ch_buf ch) < 1 then Sent (ch\<lparr>ch_buf := ch_buf ch @ [v]\<rparr>) else SendBlocks)"

text \<open>A receive takes the first element, the zero value \<open>z\<close> of a closed empty channel, or blocks.\<close>

definition chan_recv :: "'a \<Rightarrow> 'a chan \<Rightarrow> ('a \<times> 'a chan) option" where
  "chan_recv z ch = (case ch_buf ch of
     v # vs \<Rightarrow> Some (v, ch\<lparr>ch_buf := vs\<rparr>)
   | [] \<Rightarrow> if ch_closed ch then Some (z, ch) else None)"

subsection \<open>The three goroutines\<close>

record goroutineWrapper =
  gw_skipCatchPanics :: bool
  gw_lostErrors :: "nat option"

datatype run_end = RunReturns "err option" | RunPanics panic_value | RunExits

datatype caller = Selecting | GaveUp err | GotErr "err option" | GotPanic panic_value

datatype runner = RunnerRuns | SendingErr "err option" | SendingPanic panic_value | RunnerDone | ProgramCrashed

datatype waiter = NoWaiter | Waiting | ClosingErr | ClosingPanics | WaiterDone

text \<open>
  \<open>gs_outcome\<close> records how the run function ended, \<open>gs_lost\<close> the calls of \<^verbatim>\<open>lostErrors\<close>; \<open>gs_ctx\<close> is
  \<^verbatim>\<open>ctx.Err()\<close>, and \<open>gs_panicResult\<close> is \<open>None\<close> for the nil channel, on which nothing is ever received.
\<close>

record goroutines =
  gs_caller :: caller
  gs_runner :: runner
  gs_waiter :: waiter
  gs_runFuncErr :: "err option chan"
  gs_panicResult :: "panic_value option chan option"
  gs_ctx :: "err option"
  gs_outcome :: "run_end option"
  gs_lost :: "(err option \<times> panic_value option) list"

definition gw_start :: "goroutineWrapper \<Rightarrow> goroutines" where
  "gw_start g = \<lparr>gs_caller = Selecting, gs_runner = RunnerRuns, gs_waiter = NoWaiter,
     gs_runFuncErr = make_chan, gs_panicResult = (if gw_skipCatchPanics g then None else Some make_chan),
     gs_ctx = None, gs_outcome = None, gs_lost = []\<rparr>"

definition closed_channel :: panic_value where
  "closed_channel = UserPanic ''send on closed channel''"

text \<open>A panic in the runner: recovered when there is a channel for it, the end of the program otherwise.\<close>

definition runner_panics :: "panic_value \<Rightarrow> goroutines \<Rightarrow> runner" where
  "runner_panics p s = (if gs_panicResult s = None then ProgramCrashed else SendingPanic p)"

inductive gw_step :: "goroutineWrapper \<Rightarrow> goroutines \<Rightarrow> goroutines \<Rightarrow> bool" for g where
  run_returns: "gs_runner s = RunnerRuns \<Longrightarrow>
    gw_step g s (s\<lparr>gs_runner := SendingErr e, gs_outcome := Some (RunReturns e)\<rparr>)"
| run_panics: "gs_runner s = RunnerRuns \<Longrightarrow>
    gw_step g s (s\<lparr>gs_runner := runner_panics p s, gs_outcome := Some (RunPanics p)\<rparr>)"
| run_exits: "gs_runner s = RunnerRuns \<Longrightarrow>
    gw_step g s (s\<lparr>gs_runner := RunnerDone, gs_outcome := Some RunExits\<rparr>)"
| send_err: "gs_runner s = SendingErr e \<Longrightarrow> chan_send e (gs_runFuncErr s) = Sent ch \<Longrightarrow>
    gw_step g s (s\<lparr>gs_runner := RunnerDone, gs_runFuncErr := ch\<rparr>)"
| send_err_closed: "gs_runner s = SendingErr e \<Longrightarrow> chan_send e (gs_runFuncErr s) = SendPanics \<Longrightarrow>
    gw_step g s (s\<lparr>gs_runner := runner_panics closed_channel s\<rparr>)"
| send_panic: "gs_runner s = SendingPanic p \<Longrightarrow> gs_panicResult s = Some pc \<Longrightarrow> chan_send (Some p) pc = Sent ch \<Longrightarrow>
    gw_step g s (s\<lparr>gs_runner := RunnerDone, gs_panicResult := Some ch\<rparr>)"
| send_panic_closed: "gs_runner s = SendingPanic p \<Longrightarrow> gs_panicResult s = Some pc \<Longrightarrow>
    chan_send (Some p) pc = SendPanics \<Longrightarrow> gw_step g s (s\<lparr>gs_runner := ProgramCrashed\<rparr>)"
| context_ends: "gs_runner s \<noteq> ProgramCrashed \<Longrightarrow> gs_ctx s = None \<Longrightarrow> gw_step g s (s\<lparr>gs_ctx := Some e\<rparr>)"
| select_done: "gs_runner s \<noteq> ProgramCrashed \<Longrightarrow> gs_caller s = Selecting \<Longrightarrow> gs_ctx s = Some e \<Longrightarrow>
    gw_step g s (s\<lparr>gs_caller := GaveUp e, gs_waiter := (if gw_lostErrors g = None then NoWaiter else Waiting)\<rparr>)"
| select_err: "gs_runner s \<noteq> ProgramCrashed \<Longrightarrow> gs_caller s = Selecting \<Longrightarrow>
    chan_recv None (gs_runFuncErr s) = Some (e, ch) \<Longrightarrow>
    gw_step g s (s\<lparr>gs_caller := GotErr e, gs_runFuncErr := ch\<rparr>)"
| select_panic: "gs_runner s \<noteq> ProgramCrashed \<Longrightarrow> gs_caller s = Selecting \<Longrightarrow> gs_panicResult s = Some pc \<Longrightarrow>
    chan_recv None pc = Some (pv, ch) \<Longrightarrow>
    gw_step g s (s\<lparr>gs_caller := GotPanic (case pv of Some p \<Rightarrow> p | None \<Rightarrow> UserPanic ''nil''),
      gs_panicResult := Some ch\<rparr>)"
| wait_err: "gs_runner s \<noteq> ProgramCrashed \<Longrightarrow> gs_waiter s = Waiting \<Longrightarrow>
    chan_recv None (gs_runFuncErr s) = Some (e, ch) \<Longrightarrow>
    gw_step g s (s\<lparr>gs_waiter := ClosingErr, gs_runFuncErr := ch, gs_lost := gs_lost s @ [(e, None)]\<rparr>)"
| wait_panic: "gs_runner s \<noteq> ProgramCrashed \<Longrightarrow> gs_waiter s = Waiting \<Longrightarrow> gs_panicResult s = Some pc \<Longrightarrow>
    chan_recv None pc = Some (pv, ch) \<Longrightarrow>
    gw_step g s (s\<lparr>gs_waiter := ClosingErr, gs_panicResult := Some ch, gs_lost := gs_lost s @ [(None, pv)]\<rparr>)"
| close_err: "gs_runner s \<noteq> ProgramCrashed \<Longrightarrow> gs_waiter s = ClosingErr \<Longrightarrow>
    gw_step g s (s\<lparr>gs_waiter := ClosingPanics, gs_runFuncErr := (gs_runFuncErr s)\<lparr>ch_closed := True\<rparr>\<rparr>)"
| close_panics: "gs_runner s \<noteq> ProgramCrashed \<Longrightarrow> gs_waiter s = ClosingPanics \<Longrightarrow>
    gw_step g s (s\<lparr>gs_waiter := WaiterDone,
      gs_panicResult := map_option (\<lambda>pc. pc\<lparr>ch_closed := True\<rparr>) (gs_panicResult s)\<rparr>)"

text \<open>The states that \<open>n\<close> steps reach.\<close>

inductive gw_reach :: "goroutineWrapper \<Rightarrow> nat \<Rightarrow> goroutines \<Rightarrow> bool" for g where
  gw_init: "gw_reach g 0 (gw_start g)"
| gw_more: "gw_reach g n s \<Longrightarrow> gw_step g s s' \<Longrightarrow> gw_reach g (Suc n) s'"

subsection \<open>Where the outcome of the run function is\<close>

fun runner_holds :: "runner \<Rightarrow> run_end list" where
  "runner_holds (SendingErr e) = [RunReturns e]"
| "runner_holds (SendingPanic p) = [RunPanics p]"
| "runner_holds _ = []"

definition buffered :: "goroutines \<Rightarrow> run_end list" where
  "buffered s = map RunReturns (ch_buf (gs_runFuncErr s)) @
     (case gs_panicResult s of None \<Rightarrow> []
      | Some pc \<Rightarrow> map (\<lambda>pv. case pv of Some p \<Rightarrow> RunPanics p | None \<Rightarrow> RunExits) (ch_buf pc))"

fun caller_got :: "caller \<Rightarrow> run_end list" where
  "caller_got (GotErr e) = [RunReturns e]"
| "caller_got (GotPanic p) = [RunPanics p]"
| "caller_got _ = []"

fun lost_end :: "err option \<times> panic_value option \<Rightarrow> run_end" where
  "lost_end (e, None) = RunReturns e"
| "lost_end (e, Some p) = RunPanics p"

text \<open>What was told to somebody: to the caller, or to the receiver of lost errors.\<close>

definition received :: "goroutines \<Rightarrow> run_end list" where
  "received s = caller_got (gs_caller s) @ map lost_end (gs_lost s)"

definition to_tell :: "goroutines \<Rightarrow> run_end list" where
  "to_tell s = (if gs_runner s = ProgramCrashed then [] else case gs_outcome s of
     Some (RunReturns e) \<Rightarrow> [RunReturns e] | Some (RunPanics p) \<Rightarrow> [RunPanics p] | _ \<Rightarrow> [])"

text \<open>
  The invariant. The outcome is in exactly one place; a channel is closed only by a waiter that has told
  it, so that the runner has nothing left to send.
\<close>

definition gw_inv :: "goroutineWrapper \<Rightarrow> goroutines \<Rightarrow> bool" where
  "gw_inv g s \<longleftrightarrow>
     mset (runner_holds (gs_runner s)) + mset (buffered s) + mset (received s) = mset (to_tell s) \<and>
     (gs_runner s = RunnerRuns \<longleftrightarrow> gs_outcome s = None) \<and>
     (gs_waiter s \<in> {NoWaiter, Waiting} \<longleftrightarrow> gs_lost s = []) \<and>
     (ch_closed (gs_runFuncErr s) \<longrightarrow> gs_lost s \<noteq> []) \<and>
     (\<forall>pc. gs_panicResult s = Some pc \<longrightarrow> ch_closed pc \<longrightarrow> gs_lost s \<noteq> []) \<and>
     (gs_panicResult s = None \<longleftrightarrow> gw_skipCatchPanics g) \<and>
     (\<forall>p. gs_runner s = SendingPanic p \<longrightarrow> gs_panicResult s \<noteq> None) \<and>
     (gs_waiter s \<noteq> NoWaiter \<longleftrightarrow> (\<exists>e. gs_caller s = GaveUp e) \<and> gw_lostErrors g \<noteq> None) \<and>
     (\<forall>e. gs_caller s = GaveUp e \<longrightarrow> gs_ctx s = Some e) \<and>
     (gs_runner s = ProgramCrashed \<longrightarrow> gw_skipCatchPanics g \<and> (\<exists>p. gs_outcome s = Some (RunPanics p)))"

lemma gw_start_inv: "gw_inv g (gw_start g)"
  by (simp add: gw_inv_def gw_start_def buffered_def received_def to_tell_def make_chan_def)

lemmas chan_defs = chan_send_def chan_recv_def

lemma chan_send_Sent: "chan_send v ch = Sent ch' \<longleftrightarrow>
    \<not> ch_closed ch \<and> ch_buf ch = [] \<and> ch' = ch\<lparr>ch_buf := [v]\<rparr>"
  by (cases "ch_buf ch") (auto simp: chan_send_def)

lemma chan_send_SendPanics: "chan_send v ch = SendPanics \<longleftrightarrow> ch_closed ch"
  by (simp add: chan_send_def)

lemma chan_recv_Some: "chan_recv z ch = Some (v, ch') \<longleftrightarrow>
    (\<exists>vs. ch_buf ch = v # vs \<and> ch' = ch\<lparr>ch_buf := vs\<rparr>) \<or> ch_buf ch = [] \<and> ch_closed ch \<and> v = z \<and> ch' = ch"
  by (auto simp: chan_recv_def split: list.splits)

text \<open>The outcome is one thing: what was told, what is buffered and what is being sent exclude one another.\<close>

lemma to_tell_le_1: "size (mset (to_tell s)) \<le> 1"
  by (auto simp: to_tell_def split: option.split run_end.split)

lemma gw_inv_excludes:
  assumes "gw_inv g s"
  shows "gs_lost s \<noteq> [] \<Longrightarrow> runner_holds (gs_runner s) = [] \<and> buffered s = [] \<and> caller_got (gs_caller s) = []"
    and "buffered s \<noteq> [] \<Longrightarrow> runner_holds (gs_runner s) = [] \<and> received s = []"
    and "runner_holds (gs_runner s) \<noteq> [] \<Longrightarrow> buffered s = [] \<and> received s = []"
proof -
  have "size (mset (runner_holds (gs_runner s)) + mset (buffered s) + mset (received s)) \<le> 1"
    using assms to_tell_le_1 [of s] by (simp only: gw_inv_def)
  then have len: "length (runner_holds (gs_runner s)) + length (buffered s) + length (received s) \<le> 1"
    by simp
  show "gs_lost s \<noteq> [] \<Longrightarrow> runner_holds (gs_runner s) = [] \<and> buffered s = [] \<and> caller_got (gs_caller s) = []"
    using len by (cases "gs_lost s") (simp_all add: received_def)
  show "buffered s \<noteq> [] \<Longrightarrow> runner_holds (gs_runner s) = [] \<and> received s = []"
    using len by (cases "buffered s") simp_all
  show "runner_holds (gs_runner s) \<noteq> [] \<Longrightarrow> buffered s = [] \<and> received s = []"
    using len by (cases "runner_holds (gs_runner s)") simp_all
qed

lemma gw_inv_parts: "gw_inv g s \<Longrightarrow>
    mset (runner_holds (gs_runner s)) + mset (buffered s) + mset (received s) = mset (to_tell s)"
  by (simp only: gw_inv_def)

lemma to_tell_cases: "to_tell s = [] \<or> (\<exists>out. gs_outcome s = Some out \<and> to_tell s = [out])"
  by (simp add: to_tell_def split: option.split run_end.split)

lemma mset_singleton_list: "mset xs = mset ys \<Longrightarrow> size (mset ys) \<le> 1 \<Longrightarrow> xs = ys"
  by (cases ys) auto

lemma received_to_tell:
  assumes "gw_inv g s"
  shows "received s = [] \<or> received s = to_tell s"
proof (cases "received s = []")
  case False
  then have "runner_holds (gs_runner s) = []" "buffered s = []"
    using gw_inv_excludes(2,3) [OF assms] by blast+
  then have "mset (received s) = mset (to_tell s)"
    using gw_inv_parts [OF assms] by simp
  then show ?thesis using mset_singleton_list [OF _ to_tell_le_1] by simp
qed simp

text \<open>Nothing is ever sent on a closed channel, nor read from one.\<close>

lemma gw_inv_no_send_panic:
  assumes "gw_inv g s" "runner_holds (gs_runner s) \<noteq> []"
  shows "\<not> ch_closed (gs_runFuncErr s)" "gs_panicResult s = Some pc \<Longrightarrow> \<not> ch_closed pc"
  using gw_inv_excludes(1) [OF assms(1)] assms by (auto simp: gw_inv_def)

lemma gw_inv_recv:
  assumes "gw_inv g s" "gs_caller s = Selecting \<or> gs_waiter s = Waiting"
  shows "\<not> ch_closed (gs_runFuncErr s)" "gs_panicResult s = Some pc \<Longrightarrow> \<not> ch_closed pc"
proof -
  have "gs_lost s = []"
    using assms by (auto simp: gw_inv_def)
  then show "\<not> ch_closed (gs_runFuncErr s)" "gs_panicResult s = Some pc \<Longrightarrow> \<not> ch_closed pc"
    using assms(1) by (auto simp: gw_inv_def)
qed

lemma gw_inv_panics_buffered:
  assumes "gw_inv g s" "gs_panicResult s = Some pc"
  shows "None \<notin> set (ch_buf pc)"
proof
  assume n: "None \<in> set (ch_buf pc)"
  have "(case None of Some p \<Rightarrow> RunPanics p | None \<Rightarrow> RunExits) \<in> set (buffered s)"
    unfolding buffered_def set_append assms(2) option.case set_map by (intro UnI2 image_eqI [OF _ n]) simp
  moreover have "mset (runner_holds (gs_runner s)) + mset (buffered s) + mset (received s) = mset (to_tell s)"
    using assms(1) by (simp only: gw_inv_def)
  ultimately have "RunExits \<in># mset (to_tell s)"
    by (metis option.case(1) set_mset_mset union_iff)
  moreover have "RunExits \<notin> set (to_tell s)"
    by (simp add: to_tell_def split: option.split run_end.split)
  ultimately show False by simp
qed

lemmas gw_defs = gw_inv_def to_tell_def received_def buffered_def

lemma gw_step_inv: "gw_step g s s' \<Longrightarrow> gw_inv g s \<Longrightarrow> gw_inv g s'"
proof (induction rule: gw_step.induct)
  case (run_returns s e)
  then show ?case by (simp add: gw_defs)
next
  case (run_panics s p)
  then show ?case by (auto simp: gw_defs runner_panics_def)
next
  case (run_exits s)
  then show ?case by (simp add: gw_defs)
next
  case (send_err s e ch)
  then show ?case by (auto simp: gw_defs chan_send_Sent)
next
  case (send_err_closed s e)
  then show ?case using gw_inv_no_send_panic(1) [of g s] by (simp add: chan_send_SendPanics)
next
  case (send_panic s p pc ch)
  then show ?case by (auto simp: gw_defs chan_send_Sent)
next
  case (send_panic_closed s p pc)
  then show ?case using gw_inv_no_send_panic(2) [of g s pc] by (simp add: chan_send_SendPanics)
next
  case (context_ends s e)
  then show ?case by (auto simp: gw_defs)
next
  case (select_done s e)
  then show ?case by (auto simp: gw_defs)
next
  case (select_err s e ch)
  then show ?case using gw_inv_recv(1) [of g s] by (auto simp: gw_defs chan_recv_Some)
next
  case (select_panic s pc pv ch)
  then obtain q where "pv = Some q"
    using gw_inv_recv(2) [of g s pc] gw_inv_panics_buffered [of g s pc]
    by (cases pv) (auto simp: chan_recv_Some)
  then show ?case using select_panic gw_inv_recv(2) [of g s pc] by (auto simp: gw_defs chan_recv_Some)
next
  case (wait_err s e ch)
  then show ?case using gw_inv_recv(1) [of g s] by (auto simp: gw_defs chan_recv_Some)
next
  case (wait_panic s pc pv ch)
  then obtain q where "pv = Some q"
    using gw_inv_recv(2) [of g s pc] gw_inv_panics_buffered [of g s pc]
    by (cases pv) (auto simp: chan_recv_Some)
  then show ?case using wait_panic gw_inv_recv(2) [of g s pc] by (auto simp: gw_defs chan_recv_Some)
next
  case (close_err s)
  then show ?case by (auto simp: gw_defs)
next
  case (close_panics s)
  then show ?case by (auto simp: gw_defs split: option.splits)
qed

lemma gw_reach_inv: "gw_reach g n s \<Longrightarrow> gw_inv g s"
  by (induction rule: gw_reach.induct) (auto intro: gw_start_inv gw_step_inv)

subsection \<open>Every execution ends\<close>

fun runner_work :: "runner \<Rightarrow> nat" where
  "runner_work RunnerRuns = 3"
| "runner_work (SendingErr e) = 2"
| "runner_work (SendingPanic p) = 1"
| "runner_work _ = 0"

fun waiter_work :: "waiter \<Rightarrow> nat" where
  "waiter_work Waiting = 3"
| "waiter_work ClosingErr = 2"
| "waiter_work ClosingPanics = 1"
| "waiter_work _ = 0"

definition gw_work :: "goroutines \<Rightarrow> nat" where
  "gw_work s = runner_work (gs_runner s) + waiter_work (gs_waiter s) + (if gs_caller s = Selecting then 4 else 0) +
     (if gs_ctx s = None then 1 else 0)"

lemma gw_step_work:
  assumes "gw_step g s s'" "gw_inv g s"
  shows "gw_work s' < gw_work s"
  using assms
proof (induction rule: gw_step.induct)
  case (select_done s e)
  then have "gs_waiter s = NoWaiter" by (auto simp: gw_inv_def)
  then show ?case using select_done by (simp add: gw_work_def)
qed (simp_all add: gw_work_def runner_panics_def)

lemma gw_reach_work: "gw_reach g n s \<Longrightarrow> gw_work s + n \<le> 8"
proof (induction rule: gw_reach.induct)
  case gw_init
  then show ?case by (simp add: gw_work_def gw_start_def)
next
  case (gw_more n s s')
  then show ?case using gw_step_work [OF gw_more(2) gw_reach_inv [OF gw_more(1)]] by simp
qed

text \<open>No goroutine can move: only the run function or the context could still do something.\<close>

definition settled :: "goroutineWrapper \<Rightarrow> goroutines \<Rightarrow> bool" where
  "settled g s \<longleftrightarrow> (\<forall>s'. gw_step g s s' \<longrightarrow> gs_outcome s' \<noteq> gs_outcome s \<or> gs_ctx s' \<noteq> gs_ctx s)"

lemma settledE: "settled g s \<Longrightarrow> gw_step g s s' \<Longrightarrow> gs_outcome s' = gs_outcome s \<Longrightarrow> gs_ctx s' = gs_ctx s \<Longrightarrow> P"
  by (auto simp: settled_def)

lemma settled_sent:
  assumes "settled g s" "gw_inv g s"
  shows "runner_holds (gs_runner s) = []"
proof (cases "gs_runner s")
  case (SendingErr e)
  then have "buffered s = []" using gw_inv_excludes(3) [OF assms(2)] by simp
  then have "chan_send e (gs_runFuncErr s) = Sent ((gs_runFuncErr s)\<lparr>ch_buf := [e]\<rparr>)"
    using gw_inv_no_send_panic(1) [OF assms(2)] SendingErr by (simp add: chan_send_Sent buffered_def)
  then show ?thesis by (rule settledE [OF assms(1) send_err [OF SendingErr]]) simp_all
next
  case (SendingPanic p)
  then have n: "buffered s = []" using gw_inv_excludes(3) [OF assms(2)] by simp
  have "gs_panicResult s \<noteq> None"
    using assms(2) SendingPanic by (fastforce simp: gw_inv_def)
  then obtain pc where pc: "gs_panicResult s = Some pc" by blast
  then have "chan_send (Some p) pc = Sent (pc\<lparr>ch_buf := [Some p]\<rparr>)"
    using gw_inv_no_send_panic(2) [OF assms(2) _ pc] SendingPanic n by (simp add: chan_send_Sent buffered_def)
  then show ?thesis by (rule settledE [OF assms(1) send_panic [OF SendingPanic pc]]) simp_all
qed simp_all

lemma settled_received:
  assumes "settled g s" "gw_inv g s" "gs_runner s \<noteq> ProgramCrashed" "gs_caller s = Selecting \<or> gs_waiter s = Waiting"
  shows "buffered s = []"
proof (rule ccontr)
  assume "buffered s \<noteq> []"
  then consider e vs where "ch_buf (gs_runFuncErr s) = e # vs"
    | pc pv vs where "gs_panicResult s = Some pc" "ch_buf pc = pv # vs"
    by (cases "ch_buf (gs_runFuncErr s)"; cases "gs_panicResult s") (auto simp: buffered_def neq_Nil_conv)
  then show False
  proof cases
    case (1 e vs)
    then have r: "chan_recv None (gs_runFuncErr s) = Some (e, (gs_runFuncErr s)\<lparr>ch_buf := vs\<rparr>)"
      by (simp add: chan_recv_Some)
    show False
      using assms(4)
    proof
      assume "gs_caller s = Selecting"
      then show False by (rule settledE [OF assms(1) select_err [OF assms(3) _ r]]) simp_all
    next
      assume "gs_waiter s = Waiting"
      then show False by (rule settledE [OF assms(1) wait_err [OF assms(3) _ r]]) simp_all
    qed
  next
    case (2 pc pv vs)
    then have r: "chan_recv None pc = Some (pv, pc\<lparr>ch_buf := vs\<rparr>)"
      by (simp add: chan_recv_Some)
    show False
      using assms(4)
    proof
      assume "gs_caller s = Selecting"
      then show False by (rule settledE [OF assms(1) select_panic [OF assms(3) _ 2(1) r]]) simp_all
    next
      assume "gs_waiter s = Waiting"
      then show False by (rule settledE [OF assms(1) wait_panic [OF assms(3) _ 2(1) r]]) simp_all
    qed
  qed
qed

subsection \<open>The wrapped functions of a circuit\<close>

text \<open>
  \<open>goroutineWrapper_run\<close> is the function \<^verbatim>\<open>run\<close> makes, as one call of a run function. \<open>gives_up\<close>, a
  parameter, says when the \<^verbatim>\<open>select\<close> takes the end of the context: with the error of the context, and the
  circuit as it is at that moment, which the run function may still be working on. An uncaught panic ends
  the program: the call never returns.
\<close>

type_synonym ('p, 'q) schedule = "ctx \<Rightarrow> ('p, 'q) Circuit \<Rightarrow> (err \<times> ('p, 'q) Circuit) option"

definition goroutineWrapper_run ::
  "('p, 'q) schedule \<Rightarrow> goroutineWrapper \<Rightarrow> ('p, 'q) runFunc option \<Rightarrow> ('p, 'q) runFunc option" where
  "goroutineWrapper_run gives_up g runFunc = map_option (\<lambda>rf ctx c. case gives_up ctx c of
       Some (e, c') \<Rightarrow> (Returns (Some e), c')
     | None \<Rightarrow> (case rf ctx c of
           (Panics p, c') \<Rightarrow> (if gw_skipCatchPanics g then Blocks else Panics p, c')
         | r \<Rightarrow> r)) runFunc"

definition goroutineWrapper_fallback ::
  "('p, 'q) schedule \<Rightarrow> goroutineWrapper \<Rightarrow> ('p, 'q) fallbackFunc option \<Rightarrow> ('p, 'q) fallbackFunc option" where
  "goroutineWrapper_fallback gives_up g fallbackFunc = map_option (\<lambda>f ctx e.
     the (goroutineWrapper_run gives_up g (Some (\<lambda>funcCtx. f funcCtx e))) ctx) fallbackFunc"

text \<open>\<^verbatim>\<open>Circuit.Go\<close>. The circuit's wrapper catches panics and has the lost errors receiver of the configuration.\<close>

definition Go ::
  "nat \<Rightarrow> ('p, 'q) Env \<Rightarrow> ('p, 'q) schedule \<Rightarrow> ctx \<Rightarrow> ('p, 'q) runFunc option \<Rightarrow> ('p, 'q) fallbackFunc option \<Rightarrow>
   (err option, 'p, 'q) cgo" where
  "Go fuel env gives_up ctx runFunc fallbackFunc = (\<lambda>c.
     let g = \<lparr>gw_skipCatchPanics = False, gw_lostErrors = c_lostErrors c\<rparr>
     in Execute fuel env ctx (goroutineWrapper_run gives_up g runFunc)
          (goroutineWrapper_fallback gives_up g fallbackFunc) c)"

text \<open>
  Wrapping keeps what the run function and the schedule keep, so that what holds of \<^verbatim>\<open>Execute\<close> for any
  user code holds of \<^verbatim>\<open>Go\<close>; the counters, for one.
\<close>

definition schedule_keeps :: "(('p, 'q) Circuit \<Rightarrow> bool) \<Rightarrow> ('p, 'q) schedule \<Rightarrow> bool" where
  "schedule_keeps I gives_up \<longleftrightarrow> (\<forall>ctx c e c'. I c \<longrightarrow> gives_up ctx c = Some (e, c') \<longrightarrow> I c')"

lemma goroutineWrapper_run_keeps:
  assumes "schedule_keeps I gives_up" "keeps I (rf ctx)"
  shows "keeps I (the (goroutineWrapper_run gives_up g (Some rf)) ctx)"
proof (rule keepsI)
  fix c
  assume c: "I c"
  obtain r c' where "rf ctx c = (r, c')" "I c'" using keepsD [OF assms(2) c] by (metis surj_pair)
  then show "I (snd (the (goroutineWrapper_run gives_up g (Some rf)) ctx c))"
    using assms(1) c
    by (cases r) (auto simp: goroutineWrapper_run_def schedule_keeps_def split: option.split)
qed

lemma Go_restores_counters:
  assumes "\<forall>k. env_keeps (\<lambda>c. counters c = k) env" "\<forall>k. schedule_keeps (\<lambda>c. counters c = k) gives_up"
    and "\<forall>f ctx k. rfo = Some f \<longrightarrow> keeps (\<lambda>c. counters c = k) (f ctx)"
    and "\<forall>f ctx e k. fbo = Some f \<longrightarrow> keeps (\<lambda>c. counters c = k) (f ctx e)"
    and "in_int64 (c_concurrentCommands c)" "in_int64 (c_concurrentFallbacks c)"
    and "Go fuel env gives_up ctx rfo fbo c = (r, c')" "r \<noteq> Blocks"
  shows "counters c' = counters c"
proof -
  let ?g = "\<lparr>gw_skipCatchPanics = False, gw_lostErrors = c_lostErrors c\<rparr>"
  have wrapped: "keeps (\<lambda>c. counters c = k) (the (goroutineWrapper_run gives_up ?g (Some rf)) ctx)"
    if "keeps (\<lambda>c. counters c = k) (rf ctx)" for rf ctx k
    using that assms(2) by (intro goroutineWrapper_run_keeps) blast+
  have "\<forall>f ctx k. goroutineWrapper_run gives_up ?g rfo = Some f \<longrightarrow> keeps (\<lambda>c. counters c = k) (f ctx)"
  proof (intro allI impI)
    fix f ctx k
    assume f: "goroutineWrapper_run gives_up ?g rfo = Some f"
    then obtain rf where rf: "rfo = Some rf" by (auto simp: goroutineWrapper_run_def)
    then show "keeps (\<lambda>c. counters c = k) (f ctx)" using wrapped [of k rf ctx] assms(3) f by simp
  qed
  moreover have "\<forall>f ctx e k. goroutineWrapper_fallback gives_up ?g fbo = Some f \<longrightarrow>
      keeps (\<lambda>c. counters c = k) (f ctx e)"
  proof (intro allI impI)
    fix f ctx e k
    assume f: "goroutineWrapper_fallback gives_up ?g fbo = Some f"
    then obtain fb where fb: "fbo = Some fb" by (auto simp: goroutineWrapper_fallback_def)
    then have "f ctx e = the (goroutineWrapper_run gives_up ?g (Some (\<lambda>funcCtx. fb funcCtx e))) ctx"
      using f by (auto simp: goroutineWrapper_fallback_def)
    then show "keeps (\<lambda>c. counters c = k) (f ctx e)" using wrapped [of k "\<lambda>funcCtx. fb funcCtx e"] assms(4) fb by simp
  qed
  ultimately have "restores (\<lambda>d. counters d = (c_concurrentCommands c, c_concurrentFallbacks c))
      (Execute fuel env ctx (goroutineWrapper_run gives_up ?g rfo) (goroutineWrapper_fallback gives_up ?g fbo))"
    by (rule Execute_restores [OF assms(1) _ _ assms(5,6)])
  moreover have "Execute fuel env ctx (goroutineWrapper_run gives_up ?g rfo)
      (goroutineWrapper_fallback gives_up ?g fbo) c = (r, c')"
    using assms(7) by (simp add: Go_def Let_def)
  ultimately have "counters c' = (c_concurrentCommands c, c_concurrentFallbacks c)"
    by (rule restores_counters [OF _ counters_def _ assms(8)])
  then show ?thesis by (simp add: counters_def)
qed

subsection \<open>Properties\<close>

text \<open>
  An execution: the context ends, the caller leaves and a waiter is started, then the run function panics, and
  the panic reaches the receiver of lost errors.
\<close>

definition late_panic :: "goroutineWrapper \<Rightarrow> goroutines" where
  "late_panic g = (gw_start g)\<lparr>gs_caller := GaveUp err_Canceled, gs_runner := RunnerDone, gs_waiter := ClosingErr,
     gs_ctx := Some err_Canceled, gs_outcome := Some (RunPanics (UserPanic ''boom'')),
     gs_lost := [(None, Some (UserPanic ''boom''))]\<rparr>"

definition wrapper_example :: goroutineWrapper where
  "wrapper_example = \<lparr>gw_skipCatchPanics = False, gw_lostErrors = Some 1\<rparr>"

lemma late_panic_reached: "gw_reach wrapper_example 5 (late_panic wrapper_example)"
proof -
  let ?g = wrapper_example and ?p = "UserPanic ''boom''"
  let ?s1 = "(gw_start ?g)\<lparr>gs_ctx := Some err_Canceled\<rparr>"
  let ?s2 = "?s1\<lparr>gs_caller := GaveUp err_Canceled, gs_waiter := Waiting\<rparr>"
  let ?s3 = "?s2\<lparr>gs_runner := SendingPanic ?p, gs_outcome := Some (RunPanics ?p)\<rparr>"
  let ?s4 = "?s3\<lparr>gs_runner := RunnerDone, gs_panicResult := Some (make_chan\<lparr>ch_buf := [Some ?p]\<rparr>)\<rparr>"
  note defs = gw_start_def wrapper_example_def runner_panics_def chan_send_Sent chan_recv_Some make_chan_def late_panic_def
  have "gw_step ?g (gw_start ?g) ?s1"
    by (rule context_ends) (simp_all add: defs)
  moreover have "gw_step ?g ?s1 ?s2"
    using select_done [of ?s1 err_Canceled ?g] by (simp add: defs)
  moreover have "gw_step ?g ?s2 ?s3"
    using run_panics [of ?s2 ?g ?p] by (simp add: defs)
  moreover have "gw_step ?g ?s3 ?s4"
    using send_panic [of ?s3 ?p make_chan "make_chan\<lparr>ch_buf := [Some ?p]\<rparr>" ?g] by (simp add: defs)
  moreover have "gw_step ?g ?s4 (late_panic ?g)"
    using wait_panic [of ?s4 "make_chan\<lparr>ch_buf := [Some ?p]\<rparr>" "Some ?p" make_chan ?g] by (simp add: defs)
  ultimately have "gw_reach ?g (Suc (Suc (Suc (Suc (Suc 0))))) (late_panic ?g)"
    by (intro gw_more [OF gw_more [OF gw_more [OF gw_more [OF gw_more [OF gw_init]]]]])
  then show ?thesis by (simp add: eval_nat_numeral)
qed

text \<open>C14: A wrapped call, in every interleaving of its goroutines with the end of its context: how the run function
  ended is told to at most one of the caller and the receiver of lost errors, and it is told truly; the
  caller leaves without it only when the context has ended, with the context's error, and only then is the
  receiver of lost errors called; and the program crashes only when the run function panics in a wrapper
  that does not catch panics, never because of a send on a closed channel.\<close>

theorem run_outcome_told_at_most_once:
  assumes "gw_reach g n s"
  shows "(received s = [] \<or> (\<exists>out. gs_outcome s = Some out \<and> received s = [out])) \<and>
    (\<forall>e. gs_caller s = GaveUp e \<longrightarrow> gs_ctx s = Some e) \<and>
    (gs_lost s \<noteq> [] \<longrightarrow> (\<exists>e. gs_caller s = GaveUp e) \<and> gw_lostErrors g \<noteq> None) \<and>
    (gs_runner s = ProgramCrashed \<longrightarrow> gw_skipCatchPanics g \<and> (\<exists>p. gs_outcome s = Some (RunPanics p)))"
proof -
  have inv: "gw_inv g s" using gw_reach_inv [OF assms] .
  have "received s = [] \<or> (\<exists>out. gs_outcome s = Some out \<and> received s = [out])"
    using received_to_tell [OF inv] to_tell_cases [of s] by auto
  then show ?thesis using inv by (auto simp: gw_inv_def)
qed

theorem run_outcome_told_at_most_once_witness:
  "received (late_panic wrapper_example) = [RunPanics (UserPanic ''boom'')] \<and>
   gs_outcome (late_panic wrapper_example) = Some (RunPanics (UserPanic ''boom'')) \<and>
   gs_caller (late_panic wrapper_example) = GaveUp err_Canceled"
  using run_outcome_told_at_most_once [OF late_panic_reached]
  by (auto simp: late_panic_def received_def gw_start_def)

text \<open>C15: Every wrapped call settles, after at most eight steps of its goroutines. Once nobody can move: the caller is
  still waiting only if its context has not ended and the run function has not ended either (or has ended
  its goroutine); and if the run function returned or panicked, that was told, to the caller, or to the
  receiver of lost errors if the caller had left and there is one.\<close>

theorem wrapped_call_settles:
  assumes "gw_reach g n s"
  shows "n \<le> 8 \<and> (settled g s \<and> gs_runner s \<noteq> ProgramCrashed \<longrightarrow>
    (gs_caller s = Selecting \<longrightarrow> gs_ctx s = None \<and> gs_outcome s \<in> {None, Some RunExits}) \<and>
    (\<forall>out. gs_outcome s = Some out \<and> out \<noteq> RunExits \<and> (gw_lostErrors g \<noteq> None \<or> (\<nexists>e. gs_caller s = GaveUp e)) \<longrightarrow>
       received s = [out]))"
proof (intro conjI impI)
  show "n \<le> 8" using gw_reach_work [OF assms] by simp
next
  assume "settled g s \<and> gs_runner s \<noteq> ProgramCrashed"
  then have st: "settled g s" "gs_runner s \<noteq> ProgramCrashed" by simp_all
  have inv: "gw_inv g s" using gw_reach_inv [OF assms] .
  note sent = settled_sent [OF st(1) inv]
  have all: "received s = to_tell s" if "buffered s = []"
    using gw_inv_parts [OF inv] sent that mset_singleton_list [OF _ to_tell_le_1] by simp
  have tells: "to_tell s = [out]" if "gs_outcome s = Some out" "out \<noteq> RunExits" for out
    using that st(2) by (cases out) (simp_all add: to_tell_def)
  show "gs_ctx s = None" if "gs_caller s = Selecting"
    using settledE [OF st(1) select_done [OF st(2) that]] by fastforce
  show "gs_outcome s \<in> {None, Some RunExits}" if sel: "gs_caller s = Selecting"
  proof (rule ccontr)
    assume "gs_outcome s \<notin> {None, Some RunExits}"
    then obtain out where "to_tell s = [out]" using tells by fastforce
    moreover have "received s = []" using inv sel by (auto simp: received_def gw_inv_def)
    moreover have "buffered s = []" using settled_received [OF st(1) inv st(2)] sel by simp
    ultimately show False using all by simp
  qed
  show "\<forall>out. gs_outcome s = Some out \<and> out \<noteq> RunExits \<and> (gw_lostErrors g \<noteq> None \<or> (\<nexists>e. gs_caller s = GaveUp e)) \<longrightarrow>
       received s = [out]"
  proof (intro allI impI; elim conjE)
    fix out
    assume o: "gs_outcome s = Some out" "out \<noteq> RunExits" and l: "gw_lostErrors g \<noteq> None \<or> (\<nexists>e. gs_caller s = GaveUp e)"
    have "gs_caller s = Selecting \<or> gs_waiter s = Waiting \<or> received s \<noteq> []"
      using inv l by (cases "gs_caller s") (auto simp: received_def gw_inv_def)
    then have "buffered s = []"
      using settled_received [OF st(1) inv st(2)] gw_inv_excludes(2) [OF inv] by blast
    then show "received s = [out]" using all tells [OF o] by simp
  qed
qed

theorem wrapped_call_settles_witness:
  "\<exists>s. gw_reach wrapper_example 7 s \<and> settled wrapper_example s \<and> gs_caller s = GaveUp err_Canceled \<and>
     received s = [RunPanics (UserPanic ''boom'')]"
proof -
  let ?s = "(late_panic wrapper_example)\<lparr>gs_waiter := WaiterDone, gs_runFuncErr := make_chan\<lparr>ch_closed := True\<rparr>,
    gs_panicResult := Some (make_chan\<lparr>ch_closed := True\<rparr>)\<rparr>"
  note defs = late_panic_def gw_start_def wrapper_example_def make_chan_def
  have "gw_step wrapper_example (late_panic wrapper_example) ((late_panic wrapper_example)\<lparr>gs_waiter := ClosingPanics,
      gs_runFuncErr := make_chan\<lparr>ch_closed := True\<rparr>\<rparr>)"
    using close_err [of "late_panic wrapper_example"] by (simp add: defs)
  moreover have "gw_step wrapper_example ((late_panic wrapper_example)\<lparr>gs_waiter := ClosingPanics,
      gs_runFuncErr := make_chan\<lparr>ch_closed := True\<rparr>\<rparr>) ?s"
    using close_panics [of "(late_panic wrapper_example)\<lparr>gs_waiter := ClosingPanics,
      gs_runFuncErr := make_chan\<lparr>ch_closed := True\<rparr>\<rparr>"] by (simp add: defs)
  ultimately have r: "gw_reach wrapper_example 7 ?s"
    using gw_more [OF gw_more [OF late_panic_reached]] by (simp add: eval_nat_numeral)
  have "settled wrapper_example ?s"
    unfolding settled_def by (auto simp: defs elim: gw_step.cases)
  then show ?thesis
    using wrapped_call_settles [OF r] r by (intro exI [of _ ?s]) (simp add: defs)
qed

end
