(* ===== verification/RollingStats.thy ===== *)
theory RollingStats
  imports RollingCounter RollingPercentile CircuitConfig
begin

text \<open>
  Model of the collectors of \<^verbatim>\<open>metrics/rolling/rolling.go\<close>: \<^verbatim>\<open>RunStats\<close>, seven rolling counters and the
  latencies of a command, and \<^verbatim>\<open>FallbackStats\<close>. The record mirrors the struct; \<open>stat\<close> names its counters,
  and \<open>rs_counter\<close>, \<open>rs_set\<close> are the access to the field of that name. The clock counter of the world is
  the second component of the state where a method reads the clock. The mutex of the configuration guards
  single accesses and is not modelled.
\<close>

datatype stat =
    Successes
  | ErrConcurrencyLimitRejects
  | ErrFailures
  | ErrShortCircuits
  | ErrTimeouts
  | ErrBadRequests
  | ErrInterrupts

record RunStatsConfig =
  rsc_Now :: "clock option"
  rsc_RollingStatsDuration :: duration
  rsc_RollingStatsNumBuckets :: int
  rsc_RollingPercentileDuration :: duration
  rsc_RollingPercentileNumBuckets :: int
  rsc_RollingPercentileBucketSize :: int

record RunStats =
  rs_Successes :: RollingCounter
  rs_ErrConcurrencyLimitRejects :: RollingCounter
  rs_ErrFailures :: RollingCounter
  rs_ErrShortCircuits :: RollingCounter
  rs_ErrTimeouts :: RollingCounter
  rs_ErrBadRequests :: RollingCounter
  rs_ErrInterrupts :: RollingCounter
  rs_Latencies :: RollingPercentile
  rs_config :: RunStatsConfig

fun rs_counter :: "stat \<Rightarrow> RunStats \<Rightarrow> RollingCounter" where
  "rs_counter Successes r = rs_Successes r"
| "rs_counter ErrConcurrencyLimitRejects r = rs_ErrConcurrencyLimitRejects r"
| "rs_counter ErrFailures r = rs_ErrFailures r"
| "rs_counter ErrShortCircuits r = rs_ErrShortCircuits r"
| "rs_counter ErrTimeouts r = rs_ErrTimeouts r"
| "rs_counter ErrBadRequests r = rs_ErrBadRequests r"
| "rs_counter ErrInterrupts r = rs_ErrInterrupts r"

fun rs_set :: "stat \<Rightarrow> RollingCounter \<Rightarrow> RunStats \<Rightarrow> RunStats" where
  "rs_set Successes c r = r\<lparr>rs_Successes := c\<rparr>"
| "rs_set ErrConcurrencyLimitRejects c r = r\<lparr>rs_ErrConcurrencyLimitRejects := c\<rparr>"
| "rs_set ErrFailures c r = r\<lparr>rs_ErrFailures := c\<rparr>"
| "rs_set ErrShortCircuits c r = r\<lparr>rs_ErrShortCircuits := c\<rparr>"
| "rs_set ErrTimeouts c r = r\<lparr>rs_ErrTimeouts := c\<rparr>"
| "rs_set ErrBadRequests c r = r\<lparr>rs_ErrBadRequests := c\<rparr>"
| "rs_set ErrInterrupts c r = r\<lparr>rs_ErrInterrupts := c\<rparr>"

definition on_counter :: "stat \<Rightarrow> ('a, RollingCounter) go \<Rightarrow> ('a, RunStats) go" where
  "on_counter k = gzoom (rs_counter k) (rs_set k)"

definition on_latencies :: "('a, RollingPercentile) go \<Rightarrow> ('a, RunStats) go" where
  "on_latencies = gzoom rs_Latencies (\<lambda>l r. r\<lparr>rs_Latencies := l\<rparr>)"

subsection \<open>Configuration\<close>

definition rsc_Merge :: "RunStatsConfig \<Rightarrow> RunStatsConfig \<Rightarrow> RunStatsConfig" where
  "rsc_Merge r other =
     (let r = (if rsc_Now r = None then r\<lparr>rsc_Now := rsc_Now other\<rparr> else r);
          r = (if rsc_RollingStatsDuration r = 0 then r\<lparr>rsc_RollingStatsDuration := rsc_RollingStatsDuration other\<rparr> else r);
          r = (if rsc_RollingStatsNumBuckets r = 0 then r\<lparr>rsc_RollingStatsNumBuckets := rsc_RollingStatsNumBuckets other\<rparr> else r);
          r = (if rsc_RollingPercentileDuration r = 0
               then r\<lparr>rsc_RollingPercentileDuration := rsc_RollingPercentileDuration other\<rparr> else r);
          r = (if rsc_RollingPercentileNumBuckets r = 0
               then r\<lparr>rsc_RollingPercentileNumBuckets := rsc_RollingPercentileNumBuckets other\<rparr> else r)
      in (if rsc_RollingPercentileBucketSize r = 0
          then r\<lparr>rsc_RollingPercentileBucketSize := rsc_RollingPercentileBucketSize other\<rparr> else r))"

definition rsc_sanitize :: "RunStatsConfig \<Rightarrow> RunStatsConfig" where
  "rsc_sanitize r =
     (let r = (if rsc_RollingStatsDuration r < 0 then r\<lparr>rsc_RollingStatsDuration := 0\<rparr> else r);
          r = (if rsc_RollingStatsNumBuckets r < 0 then r\<lparr>rsc_RollingStatsNumBuckets := 0\<rparr> else r);
          r = (if rsc_RollingPercentileDuration r < 0 then r\<lparr>rsc_RollingPercentileDuration := 0\<rparr> else r);
          r = (if rsc_RollingPercentileNumBuckets r < 0 then r\<lparr>rsc_RollingPercentileNumBuckets := 0\<rparr> else r)
      in (if rsc_RollingPercentileBucketSize r < 0 then r\<lparr>rsc_RollingPercentileBucketSize := 0\<rparr> else r))"

text \<open>\<open>wall\<close> is \<^verbatim>\<open>time.Now\<close>.\<close>

definition defaultRunStatsConfig :: "clock \<Rightarrow> RunStatsConfig" where
  "defaultRunStatsConfig wall = \<lparr>rsc_Now = Some wall, rsc_RollingStatsDuration = 10 * second,
     rsc_RollingStatsNumBuckets = 10, rsc_RollingPercentileDuration = 60 * second,
     rsc_RollingPercentileNumBuckets = 6, rsc_RollingPercentileBucketSize = 100\<rparr>"

definition rs_Config :: "RunStats \<Rightarrow> RunStatsConfig" where
  "rs_Config r = rs_config r"

text \<open>Calls on the stats, and readings of the clock, in the pair of both.\<close>

definition on_stats :: "('a, 's) go \<Rightarrow> ('a, 's \<times> nat) go" where
  "on_stats = gzoom fst (\<lambda>s (_, n). (s, n))"

definition call_clock :: "clock option \<Rightarrow> (gotime, 's \<times> nat) go" where
  "call_clock clk = (case clk of None \<Rightarrow> gpanic NilDereference | Some f \<Rightarrow> gzoom snd (\<lambda>n (s, _). (s, n)) (read_clock f))"

definition rs_now :: "clock \<Rightarrow> (gotime, RunStats \<times> nat) go" where
  "rs_now wall = gbind (gget (rsc_Now \<circ> rs_config \<circ> fst)) (\<lambda>nowFunc. case nowFunc of
     None \<Rightarrow> call_clock (Some wall)
   | Some f \<Rightarrow> call_clock (Some f))"

definition rs_SetConfigNotThreadSafe :: "clock \<Rightarrow> RunStatsConfig \<Rightarrow> (unit, RunStats \<times> nat) go" where
  "rs_SetConfigNotThreadSafe wall config =
     (let config = rsc_Merge (rsc_sanitize config) (defaultRunStatsConfig wall) in
      gseq (on_stats (gmodify (\<lambda>r. r\<lparr>rs_config := config\<rparr>)))
     (gbind (call_clock (rsc_Now config)) (\<lambda>now.
      gbind (gquo (rsc_RollingStatsDuration config) (rsc_RollingStatsNumBuckets config)) (\<lambda>bucketWidth.
      let numBuckets = rsc_RollingStatsNumBuckets config in
      gbind (gquo (rsc_RollingPercentileDuration config) (rsc_RollingPercentileNumBuckets config)) (\<lambda>pctWidth.
      gseq (gforeach (\<lambda>k. gbind (NewRollingCounter bucketWidth numBuckets now) (\<lambda>c. on_stats (gmodify (rs_set k c))))
             [Successes, ErrConcurrencyLimitRejects, ErrFailures, ErrShortCircuits, ErrTimeouts, ErrBadRequests, ErrInterrupts])
     (gbind (NewRollingPercentile pctWidth (rsc_RollingPercentileNumBuckets config)
               (rsc_RollingPercentileBucketSize config) now) (\<lambda>l.
      on_stats (gmodify (\<lambda>r. r\<lparr>rs_Latencies := l\<rparr>)))))))))"

subsection \<open>Counting\<close>

definition rs_timed :: "stat \<Rightarrow> ctx \<Rightarrow> gotime \<Rightarrow> duration \<Rightarrow> (unit, RunStats) go" where
  "rs_timed k ctx now d = gseq (on_counter k (rc_Inc now)) (on_latencies (rp_AddDuration d now))"

definition rs_untimed :: "stat \<Rightarrow> ctx \<Rightarrow> gotime \<Rightarrow> (unit, RunStats) go" where
  "rs_untimed k ctx now = on_counter k (rc_Inc now)"

definition RunStats_vt :: "RunStats RunMetrics" where
  "RunStats_vt = \<lparr>rm_Success = rs_timed Successes, rm_ErrFailure = rs_timed ErrFailures,
     rm_ErrTimeout = rs_timed ErrTimeouts, rm_ErrBadRequest = rs_timed ErrBadRequests,
     rm_ErrInterrupt = rs_timed ErrInterrupts, rm_ErrConcurrencyLimitReject = rs_untimed ErrConcurrencyLimitRejects,
     rm_ErrShortCircuit = rs_untimed ErrShortCircuits\<rparr>"

definition rs_ErrorsAt :: "gotime \<Rightarrow> (int64, RunStats) go" where
  "rs_ErrorsAt now =
     gbind (on_counter ErrFailures (rc_RollingSumAt now)) (\<lambda>f.
     gbind (on_counter ErrTimeouts (rc_RollingSumAt now)) (\<lambda>t.
     greturn (add64 f t)))"

definition rs_LegitimateAttemptsAt :: "gotime \<Rightarrow> (int64, RunStats) go" where
  "rs_LegitimateAttemptsAt now =
     gbind (on_counter Successes (rc_RollingSumAt now)) (\<lambda>s.
     gbind (rs_ErrorsAt now) (\<lambda>e.
     greturn (add64 s e)))"

definition rs_ErrorPercentageAt :: "gotime \<Rightarrow> (rat, RunStats) go" where
  "rs_ErrorPercentageAt now =
     gbind (rs_LegitimateAttemptsAt now) (\<lambda>attemptCount.
     if attemptCount = 0 then greturn 0
     else gbind (rs_ErrorsAt now) (\<lambda>errCount.
       greturn (fl64 (float_of_int errCount / float_of_int attemptCount))))"

definition rs_ErrorPercentage :: "clock \<Rightarrow> (rat, RunStats \<times> nat) go" where
  "rs_ErrorPercentage wall = gbind (rs_now wall) (\<lambda>now. on_stats (rs_ErrorPercentageAt now))"

definition rollingCounters :: "stat list" where
  "rollingCounters = [Successes, ErrConcurrencyLimitRejects, ErrFailures, ErrShortCircuits, ErrTimeouts,
     ErrBadRequests, ErrInterrupts]"

text \<open>The value \<^verbatim>\<open>Var\<close> exposes: the counters as JSON and the snapshot of the latencies, all rolled forward.\<close>

definition rs_Var :: "clock \<Rightarrow> (jsonCounter list \<times> duration list, RunStats \<times> nat) go" where
  "rs_Var wall =
     gbind (rs_now wall) (\<lambda>now.
     gseq (gforeach (\<lambda>k. gseq (on_stats (on_counter k (rc_RollingSumAt now))) (greturn ())) rollingCounters)
    (gbind (gget (\<lambda>(r, _). map (\<lambda>k. rc_MarshalJSON (rs_counter k r)) rollingCounters)) (\<lambda>cs.
     gbind (on_stats (on_latencies (rp_SnapshotAt now))) (\<lambda>snap.
     greturn (cs, snap)))))"

subsection \<open>Fallback statistics\<close>

record FallbackStatsConfig =
  fsc_RollingStatsDuration :: duration
  fsc_Now :: "clock option"
  fsc_RollingStatsNumBuckets :: int

record FallbackStats =
  fs_Successes :: RollingCounter
  fs_ErrConcurrencyLimitRejects :: RollingCounter
  fs_ErrFailures :: RollingCounter

definition fsc_Merge :: "FallbackStatsConfig \<Rightarrow> FallbackStatsConfig \<Rightarrow> FallbackStatsConfig" where
  "fsc_Merge r other =
     (let r = (if fsc_Now r = None then r\<lparr>fsc_Now := fsc_Now other\<rparr> else r);
          r = (if fsc_RollingStatsDuration r = 0 then r\<lparr>fsc_RollingStatsDuration := fsc_RollingStatsDuration other\<rparr> else r)
      in (if fsc_RollingStatsNumBuckets r = 0
          then r\<lparr>fsc_RollingStatsNumBuckets := fsc_RollingStatsNumBuckets other\<rparr> else r))"

definition fsc_sanitize :: "FallbackStatsConfig \<Rightarrow> FallbackStatsConfig" where
  "fsc_sanitize r =
     (let r = (if fsc_RollingStatsDuration r < 0 then r\<lparr>fsc_RollingStatsDuration := 0\<rparr> else r)
      in (if fsc_RollingStatsNumBuckets r < 0 then r\<lparr>fsc_RollingStatsNumBuckets := 0\<rparr> else r))"

definition defaultFallbackStatsConfig :: "clock \<Rightarrow> FallbackStatsConfig" where
  "defaultFallbackStatsConfig wall =
     \<lparr>fsc_RollingStatsDuration = 10 * second, fsc_Now = Some wall, fsc_RollingStatsNumBuckets = 10\<rparr>"

definition fs_Success :: "ctx \<Rightarrow> gotime \<Rightarrow> duration \<Rightarrow> (unit, FallbackStats) go" where
  "fs_Success ctx now d = gzoom fs_Successes (\<lambda>c r. r\<lparr>fs_Successes := c\<rparr>) (rc_Inc now)"

definition fs_ErrConcurrencyLimitReject :: "ctx \<Rightarrow> gotime \<Rightarrow> (unit, FallbackStats) go" where
  "fs_ErrConcurrencyLimitReject ctx now =
     gzoom fs_ErrConcurrencyLimitRejects (\<lambda>c r. r\<lparr>fs_ErrConcurrencyLimitRejects := c\<rparr>) (rc_Inc now)"

definition fs_ErrFailure :: "ctx \<Rightarrow> gotime \<Rightarrow> duration \<Rightarrow> (unit, FallbackStats) go" where
  "fs_ErrFailure ctx now d = gzoom fs_ErrFailures (\<lambda>c r. r\<lparr>fs_ErrFailures := c\<rparr>) (rc_Inc now)"

fun fs_send :: "fallback_event \<Rightarrow> ctx \<Rightarrow> gotime \<Rightarrow> (unit, FallbackStats) go" where
  "fs_send (FbSuccess d) ctx now = fs_Success ctx now d"
| "fs_send (FbErrFailure d) ctx now = fs_ErrFailure ctx now d"
| "fs_send FbErrConcurrencyLimitReject ctx now = fs_ErrConcurrencyLimitReject ctx now"

definition fs_Var :: "FallbackStats \<Rightarrow> int64 \<times> int64 \<times> int64" where
  "fs_Var r = (rc_TotalSum (fs_Successes r), rc_TotalSum (fs_ErrConcurrencyLimitRejects r),
     rc_TotalSum (fs_ErrFailures r))"

definition fs_SetConfigNotThreadSafe :: "clock \<Rightarrow> FallbackStatsConfig \<Rightarrow> (unit, FallbackStats \<times> nat) go" where
  "fs_SetConfigNotThreadSafe wall config =
     (let config = fsc_Merge (fsc_sanitize config) (defaultFallbackStatsConfig wall) in
      gbind (call_clock (fsc_Now config)) (\<lambda>now.
      gbind (gquo (fsc_RollingStatsDuration config) (fsc_RollingStatsNumBuckets config)) (\<lambda>bucketWidth.
      let numBuckets = fsc_RollingStatsNumBuckets config in
      gbind (NewRollingCounter bucketWidth numBuckets now) (\<lambda>c1.
      gseq (on_stats (gmodify (\<lambda>r. r\<lparr>fs_Successes := c1\<rparr>)))
     (gbind (NewRollingCounter bucketWidth numBuckets now) (\<lambda>c2.
      gseq (on_stats (gmodify (\<lambda>r. r\<lparr>fs_ErrConcurrencyLimitRejects := c2\<rparr>)))
     (gbind (NewRollingCounter bucketWidth numBuckets now) (\<lambda>c3.
      on_stats (gmodify (\<lambda>r. r\<lparr>fs_ErrFailures := c3\<rparr>))))))))))"

text \<open>The zero values, of collectors and of their configurations.\<close>

definition zero_RunStatsConfig :: RunStatsConfig where
  "zero_RunStatsConfig = \<lparr>rsc_Now = None, rsc_RollingStatsDuration = 0, rsc_RollingStatsNumBuckets = 0,
     rsc_RollingPercentileDuration = 0, rsc_RollingPercentileNumBuckets = 0, rsc_RollingPercentileBucketSize = 0\<rparr>"

definition zero_FallbackStatsConfig :: FallbackStatsConfig where
  "zero_FallbackStatsConfig = \<lparr>fsc_RollingStatsDuration = 0, fsc_Now = None, fsc_RollingStatsNumBuckets = 0\<rparr>"

definition zero_RollingPercentile :: RollingPercentile where
  "zero_RollingPercentile = \<lparr>rp_buckets = [], rp_rollingBucket = rc_rollingBucket zero_RollingCounter\<rparr>"

definition zero_RunStats :: RunStats where
  "zero_RunStats = \<lparr>rs_Successes = zero_RollingCounter, rs_ErrConcurrencyLimitRejects = zero_RollingCounter,
     rs_ErrFailures = zero_RollingCounter, rs_ErrShortCircuits = zero_RollingCounter,
     rs_ErrTimeouts = zero_RollingCounter, rs_ErrBadRequests = zero_RollingCounter,
     rs_ErrInterrupts = zero_RollingCounter, rs_Latencies = zero_RollingPercentile, rs_config = zero_RunStatsConfig\<rparr>"

definition zero_FallbackStats :: FallbackStats where
  "zero_FallbackStats = \<lparr>fs_Successes = zero_RollingCounter, fs_ErrConcurrencyLimitRejects = zero_RollingCounter,
     fs_ErrFailures = zero_RollingCounter\<rparr>"

subsection \<open>What a history counts\<close>

type_synonym run_history = "(run_event \<times> ctx \<times> gotime) list"

fun stat_of :: "run_event \<Rightarrow> stat" where
  "stat_of (EvSuccess d) = Successes"
| "stat_of (EvErrFailure d) = ErrFailures"
| "stat_of (EvErrTimeout d) = ErrTimeouts"
| "stat_of (EvErrBadRequest d) = ErrBadRequests"
| "stat_of (EvErrInterrupt d) = ErrInterrupts"
| "stat_of EvErrConcurrencyLimitReject = ErrConcurrencyLimitRejects"
| "stat_of EvErrShortCircuit = ErrShortCircuits"

fun latency_of :: "run_event \<Rightarrow> duration option" where
  "latency_of (EvSuccess d) = Some d"
| "latency_of (EvErrFailure d) = Some d"
| "latency_of (EvErrTimeout d) = Some d"
| "latency_of (EvErrBadRequest d) = Some d"
| "latency_of (EvErrInterrupt d) = Some d"
| "latency_of _ = None"

text \<open>The times of the events of one kind, latest first, and the latencies in order.\<close>

definition times_of :: "stat \<Rightarrow> run_history \<Rightarrow> gotime list" where
  "times_of k h = map (\<lambda>(ev, ctx, t). t) (filter (\<lambda>(ev, ctx, t). stat_of ev = k) (rev h))"

fun latency_ops :: "run_history \<Rightarrow> rp_op list" where
  "latency_ops [] = []"
| "latency_ops ((ev, ctx, t) # h) = (case latency_of ev of Some d \<Rightarrow> [OpAdd d t] | None \<Rightarrow> []) @ latency_ops h"

definition rs_history :: "run_history \<Rightarrow> (unit, RunStats) go" where
  "rs_history = gforeach (\<lambda>(ev, ctx, now). rm_send ev ctx now RunStats_vt)"

fun run_in_order :: "gotime \<Rightarrow> run_history \<Rightarrow> bool" where
  "run_in_order t [] = True"
| "run_in_order t ((ev, ctx, t') # h) = (t \<le> t' \<and> run_in_order t' h)"

fun run_end_time :: "gotime \<Rightarrow> run_history \<Rightarrow> gotime" where
  "run_end_time t [] = t"
| "run_end_time t ((ev, ctx, t') # h) = run_end_time t' h"

lemma run_end_time_ge: "run_in_order t h \<Longrightarrow> t \<le> run_end_time t h"
  by (induction t h rule: run_in_order.induct) auto

definition latencies_fit :: "run_history \<Rightarrow> bool" where
  "latencies_fit h \<longleftrightarrow> (\<forall>(ev, ctx, t) \<in> set h. \<forall>d. latency_of ev = Some d \<longrightarrow> in_int64 d)"

lemma times_of_snoc: "times_of k (h @ [(ev, ctx, t)]) = (if stat_of ev = k then t # times_of k h else times_of k h)"
  by (simp add: times_of_def)

lemma length_times_of: "length (times_of k h) \<le> length h"
  unfolding times_of_def length_map by (rule order_trans [OF length_filter_le]) simp

lemma times_of_disjoint: "j \<noteq> k \<Longrightarrow> length (times_of j h) + length (times_of k h) \<le> length h"
  by (induction h rule: rev_induct) (auto simp: times_of_def)

lemma latency_ops_append: "latency_ops (h @ h') = latency_ops h @ latency_ops h'"
  by (induction h rule: latency_ops.induct) (auto split: option.split)

lemma length_latency_ops: "length (latency_ops h) \<le> length h"
  by (induction h rule: latency_ops.induct) (auto split: option.split)

subsection \<open>The simulation\<close>

lemma rs_counter_set [simp]: "rs_counter k (rs_set k' c r) = (if k = k' then c else rs_counter k r)"
  by (cases k; cases k') simp_all

lemma rs_set_others [simp]: "rs_Latencies (rs_set k c r) = rs_Latencies r" "rs_config (rs_set k c r) = rs_config r"
  by (cases k; simp)+

lemma rs_counter_update [simp]: "rs_counter k (r\<lparr>rs_Latencies := l\<rparr>) = rs_counter k r"
  "rs_counter k (r\<lparr>rs_config := cfg\<rparr>) = rs_counter k r"
  by (cases k; simp)+

lemma on_counter_run: "on_counter k m r = (case m (rs_counter k r) of (x, c) \<Rightarrow> (x, rs_set k c r))"
  by (simp add: on_counter_def go_simps)

lemma on_latencies_run: "on_latencies m r = (case m (rs_Latencies r) of (x, l) \<Rightarrow> (x, r\<lparr>rs_Latencies := l\<rparr>))"
  by (simp add: on_latencies_def go_simps)

lemma on_stats_run: "on_stats m (r, n) = (case m r of (x, r') \<Rightarrow> (x, (r', n)))"
  by (simp add: on_stats_def go_simps split: prod.split)

lemma call_clock_run: "call_clock (Some f) (r, n) = (Returns (f n), (r, Suc n))"
  by (simp add: call_clock_def go_simps)

lemmas rs_runs = on_counter_run on_latencies_run on_stats_run call_clock_run

text \<open>
  Stats after the history \<open>h\<close>, the last call of which was at \<open>t\<close>: each counter has counted the events of
  its kind, in the rolling window and in total, and the latencies are the samples of the history.
\<close>

definition rs_counted :: "RollingBuckets \<Rightarrow> run_history \<Rightarrow> gotime \<Rightarrow> RunStats \<Rightarrow> bool" where
  "rs_counted g h t r \<longleftrightarrow> (\<forall>k. counted g (times_of k h) t (rs_counter k r) \<and>
     rc_totalSum (rs_counter k r) = wrap64 (int (length (times_of k h))))"

definition rs_sim :: "RollingBuckets \<Rightarrow> RollingBuckets \<Rightarrow> nat \<Rightarrow> run_history \<Rightarrow> gotime \<Rightarrow> RunStats \<Rightarrow> bool" where
  "rs_sim g gp cap h t r \<longleftrightarrow> rs_counted g h t r \<and> rp_sim gp cap (sw_run gp (latency_ops h)) (rs_Latencies r)"

lemma rc_Advance_total: "rc_Advance now c = (x, c') \<Longrightarrow> rc_totalSum c' = rc_totalSum c"
  by (auto simp: rc_Advance_def go_simps split: prod.splits)

lemma rc_Inc_total: "rc_Inc now c = (x, c') \<Longrightarrow> rc_totalSum c' = add64 (rc_totalSum c) 1"
  by (auto simp: rc_Inc_def go_simps dest!: rc_Advance_total split: prod.splits outcome.splits if_splits)

lemma rc_RollingSumAt_total: "rc_RollingSumAt now c = (x, c') \<Longrightarrow> rc_totalSum c' = rc_totalSum c"
  by (auto simp: rc_RollingSumAt_def go_simps dest!: rc_Advance_total split: prod.splits outcome.splits)

lemma sw_samples_fold: "length (sw_samples (fold (sw_step g) ops w)) \<le> length (sw_samples w) + length ops"
proof (induction ops arbitrary: w)
  case (Cons op ops)
  show ?case using Cons [of "sw_step g op w"] sw_small_step [of g op w] by simp
qed simp

lemma sw_small_run: "int (length ops) < max_int64 \<Longrightarrow> sw_small (sw_run g ops)"
  using sw_samples_fold [of g ops sw_init] by (simp add: sw_small_def sw_run_def sw_init_def)

lemma Inc_sim:
  assumes "rs_sim g gp cap h t r" "t \<le> t'" "usable g t'" "stat_of ev = k"
  obtains c where "rc_Inc t' (rs_counter k r) = (Returns (), c)"
    "\<forall>j. counted g (times_of j (h @ [(ev, ctx, t')])) t' (rs_counter j (rs_set k c r)) \<and>
       rc_totalSum (rs_counter j (rs_set k c r)) = wrap64 (int (length (times_of j (h @ [(ev, ctx, t')]))))"
proof -
  have cs: "counted g (times_of j h) t (rs_counter j r)"
    "rc_totalSum (rs_counter j r) = wrap64 (int (length (times_of j h)))" for j
    using assms(1) by (simp_all add: rs_sim_def rs_counted_def)
  obtain c where c: "rc_Inc t' (rs_counter k r) = (Returns (), c)" "counted g (t' # times_of k h) t' c"
    using counted_Inc [OF cs(1) assms(2,3)] by blast
  have "rc_totalSum c = wrap64 (int (length (times_of k h)) + 1)"
    using rc_Inc_total [OF c(1)] cs(2) [of k] by (simp add: add64_def)
  then show ?thesis
    using that [OF c(1)] c(2) counted_later [OF cs(1) assms(2,3)] cs(2) assms(4)
    by (auto simp: times_of_snoc add.commute)
qed

lemma rs_send_sim:
  assumes sim: "rs_sim g gp cap h t r" and t: "t \<le> t'" "usable g t'"
    and fit: "latencies_fit [(ev, ctx, t')]" "int (length h) < max_int64"
  shows "\<exists>r'. rm_send ev ctx t' RunStats_vt r = (Returns (), r') \<and> rs_sim g gp cap (h @ [(ev, ctx, t')]) t' r'"
proof -
  obtain c where c: "rc_Inc t' (rs_counter (stat_of ev) r) = (Returns (), c)"
    "\<forall>j. counted g (times_of j (h @ [(ev, ctx, t')])) t' (rs_counter j (rs_set (stat_of ev) c r)) \<and>
       rc_totalSum (rs_counter j (rs_set (stat_of ev) c r)) = wrap64 (int (length (times_of j (h @ [(ev, ctx, t')]))))"
    using Inc_sim [OF sim t refl] by blast
  let ?w = "sw_run gp (latency_ops h)" and ?r = "rs_set (stat_of ev) c r"
  have l: "rp_sim gp cap ?w (rs_Latencies r)" using sim by (simp add: rs_sim_def rs_counted_def)
  have small: "sw_small ?w" using length_latency_ops [of h] fit(2) by (intro sw_small_run) simp
  show ?thesis
  proof (cases "latency_of ev")
    case None
    then have "rm_send ev ctx t' RunStats_vt r = (Returns (), ?r)"
      using c(1) by (cases ev) (simp_all add: RunStats_vt_def rs_untimed_def rs_runs del: rs_set.simps)
    then show ?thesis using c(2) l None by (simp add: rs_sim_def rs_counted_def latency_ops_append)
  next
    case (Some d)
    then have "in_int64 d" using fit(1) by (simp add: latencies_fit_def)
    then obtain l' where l': "rp_AddDuration d t' (rs_Latencies r) = (Returns (), l')"
      "rp_sim gp cap (sw_step gp (OpAdd d t') ?w) l'"
      using rp_AddDuration_sim [OF l _ small] by blast
    then have "rm_send ev ctx t' RunStats_vt r = (Returns (), ?r\<lparr>rs_Latencies := l'\<rparr>)"
      using c(1) Some by (cases ev) (simp_all add: RunStats_vt_def rs_timed_def rs_runs go_simps del: rs_set.simps)
    moreover have "sw_run gp (latency_ops (h @ [(ev, ctx, t')])) = sw_step gp (OpAdd d t') ?w"
      using Some by (simp add: latency_ops_append sw_run_def del: sw_step.simps)
    ultimately show ?thesis using c(2) l'(2) by (simp add: rs_sim_def rs_counted_def del: sw_step.simps)
  qed
qed

lemma rs_history_sim:
  assumes "rs_sim g gp cap h t r" "run_in_order t h'" "usable g t" "latencies_fit h'"
    "int (length h + length h') \<le> max_int64"
  shows "\<exists>r'. rs_history h' r = (Returns (), r') \<and> rs_sim g gp cap (h @ h') (run_end_time t h') r'"
  using assms
proof (induction h' arbitrary: h t r)
  case (Cons x h')
  obtain ev ctx t' where x: "x = (ev, ctx, t')" by (cases x)
  have t: "t \<le> t'" "run_in_order t' h'" "usable g t'" "latencies_fit [(ev, ctx, t')]" "latencies_fit h'"
    using Cons.prems x by (auto simp: usable_def latencies_fit_def)
  obtain r1 where r1: "rm_send ev ctx t' RunStats_vt r = (Returns (), r1)" "rs_sim g gp cap (h @ [(ev, ctx, t')]) t' r1"
    using rs_send_sim [OF Cons.prems(1) t(1,3,4)] Cons.prems(5) by auto
  obtain r2 where "rs_history h' r1 = (Returns (), r2)"
    "rs_sim g gp cap ((h @ [(ev, ctx, t')]) @ h') (run_end_time t' h') r2"
    using Cons.IH [OF r1(2) t(2,3,5)] Cons.prems(5) by auto
  then show ?case using r1 by (simp add: rs_history_def go_simps x)
qed (simp add: rs_history_def go_simps)

subsection \<open>Stats as they are configured\<close>

definition rs_effective :: "clock \<Rightarrow> RunStatsConfig \<Rightarrow> RunStatsConfig" where
  "rs_effective wall config = rsc_Merge (rsc_sanitize config) (defaultRunStatsConfig wall)"

lemma rs_effective_positive:
  "0 < rsc_RollingStatsDuration (rs_effective wall config)" "0 < rsc_RollingStatsNumBuckets (rs_effective wall config)"
  "0 < rsc_RollingPercentileDuration (rs_effective wall config)"
  "0 < rsc_RollingPercentileNumBuckets (rs_effective wall config)"
  "0 < rsc_RollingPercentileBucketSize (rs_effective wall config)"
  by (auto simp: rs_effective_def rsc_Merge_def rsc_sanitize_def defaultRunStatsConfig_def Let_def)

lemma rs_effective_Now: "rsc_Now (rs_effective wall config) = Some (case rsc_Now config of None \<Rightarrow> wall | Some now \<Rightarrow> now)"
  by (auto simp: rs_effective_def rsc_Merge_def rsc_sanitize_def defaultRunStatsConfig_def Let_def split: option.split)

definition stats_width :: "RunStatsConfig \<Rightarrow> duration" where
  "stats_width c = quo64 (rsc_RollingStatsDuration c) (rsc_RollingStatsNumBuckets c)"

definition latencies_width :: "RunStatsConfig \<Rightarrow> duration" where
  "latencies_width c = quo64 (rsc_RollingPercentileDuration c) (rsc_RollingPercentileNumBuckets c)"

text \<open>
  A configuration the windows can be indexed with: buckets at least a nanosecond wide, indices and numbers
  of samples within 64 bits. Every configuration of a sensible size is one.
\<close>

definition sane_stats :: "RunStatsConfig \<Rightarrow> bool" where
  "sane_stats c \<longleftrightarrow> sane_window (stats_width c) (rsc_RollingStatsNumBuckets c) \<and>
     sane_window (latencies_width c) (rsc_RollingPercentileNumBuckets c) \<and>
     rsc_RollingPercentileNumBuckets c * rsc_RollingPercentileBucketSize c \<le> max_int64"

abbreviation stats_window :: "RunStatsConfig \<Rightarrow> gotime \<Rightarrow> RollingBuckets" where
  "stats_window c start \<equiv> window_geometry (stats_width c) (rsc_RollingStatsNumBuckets c) start"

abbreviation latencies_window :: "RunStatsConfig \<Rightarrow> gotime \<Rightarrow> RollingBuckets" where
  "latencies_window c start \<equiv> window_geometry (latencies_width c) (rsc_RollingPercentileNumBuckets c) start"

lemma set_counters:
  assumes "\<And>s. m s = (Returns c, s)"
  shows "gforeach (\<lambda>k. gbind m (\<lambda>c. on_stats (gmodify (rs_set k c)))) ks (r, n) =
    (Returns (), (fold (\<lambda>k. rs_set k c) ks r, n))"
  by (induction ks arbitrary: r) (simp_all add: go_simps rs_runs assms del: rs_set.simps)

lemma counters_after_set:
  "rs_counter k (fold (\<lambda>k. rs_set k c) ks r) = (if k \<in> set ks then c else rs_counter k r)"
  "rs_config (fold (\<lambda>k. rs_set k c) ks r) = rs_config r"
  by (induction ks arbitrary: r) (auto simp del: rs_set.simps)

lemma rs_SetConfig_run:
  fixes wall :: clock and config :: RunStatsConfig
  defines "c \<equiv> rs_effective wall config"
  assumes sane: "sane_stats c" and start: "start = (case rsc_Now config of None \<Rightarrow> wall | Some now \<Rightarrow> now) n"
  shows "\<exists>r. rs_SetConfigNotThreadSafe wall config (r0, n) = (Returns (), (r, Suc n)) \<and> rs_config r = c \<and>
    rs_sim (stats_window c start) (latencies_window c start) (nat (rsc_RollingPercentileBucketSize c)) [] start r"
proof -
  let ?nb = "rsc_RollingStatsNumBuckets c" and ?pb = "rsc_RollingPercentileNumBuckets c"
  let ?sz = "rsc_RollingPercentileBucketSize c" and ?r0 = "r0\<lparr>rs_config := c\<rparr>"
  note pos = rs_effective_positive [of wall config, folded c_def]
  define rc where "rc = \<lparr>rc_buckets = replicate (nat ?nb) 0, rc_totalSum = 0, rc_rollingBucket = stats_window c start\<rparr>"
  have new: "NewRollingCounter (stats_width c) ?nb start = (greturn rc :: (RollingCounter, 's) go)"
    using NewRollingCounter_greturn [of ?nb] pos(2) by (simp add: rc_def)
  have rc: "counted (stats_window c start) [] start rc" "rc_totalSum rc = 0"
    using new_counter_counted [of "stats_width c" ?nb start "()"] sane pos(2)
    by (auto simp: sane_stats_def new go_simps rc_def)
  define ks where "ks = [Successes, ErrConcurrencyLimitRejects, ErrFailures, ErrShortCircuits, ErrTimeouts,
    ErrBadRequests, ErrInterrupts]"
  have all: "k \<in> set ks" for k by (cases k) (simp_all add: ks_def)
  let ?r1 = "fold (\<lambda>k. rs_set k rc) ks ?r0"
  have "int (nat ?sz) = ?sz" using pos(5) by simp
  then obtain l where l: "NewRollingPercentile (latencies_width c) ?pb ?sz start (?r1, Suc n) = (Returns l, (?r1, Suc n))"
    "rp_sim (latencies_window c start) (nat ?sz) sw_init l"
    using new_percentile_sim [of "latencies_width c" ?pb "nat ?sz" start "(?r1, Suc n)"] sane
    by (auto simp: sane_stats_def)
  have now: "call_clock (rsc_Now c) (?r0, n) = (Returns start, (?r0, Suc n))"
    using start by (simp add: c_def rs_effective_Now rs_runs)
  have set: "gforeach (\<lambda>k. gbind (NewRollingCounter (stats_width c) ?nb start) (\<lambda>c. on_stats (gmodify (rs_set k c))))
      ks (?r0, Suc n) = (Returns (), (?r1, Suc n))"
    by (rule set_counters) (simp add: new go_simps)
  have "rs_SetConfigNotThreadSafe wall config (r0, n) = (Returns (), (?r1\<lparr>rs_Latencies := l\<rparr>, Suc n))"
    unfolding rs_SetConfigNotThreadSafe_def rs_effective_def [symmetric] c_def [symmetric] ks_def [symmetric] Let_def
    using now pos l(1) set
    by (simp add: go_simps rs_runs stats_width_def latencies_width_def)
  moreover have "rs_sim (stats_window c start) (latencies_window c start) (nat ?sz) [] start (?r1\<lparr>rs_Latencies := l\<rparr>)"
    using rc l(2) all by (simp add: rs_sim_def rs_counted_def counters_after_set times_of_def sw_run_def)
  ultimately show ?thesis by (simp add: counters_after_set)
qed

subsection \<open>Reading the counters\<close>

definition recent :: "RollingBuckets \<Rightarrow> gotime \<Rightarrow> run_history \<Rightarrow> stat \<Rightarrow> int" where
  "recent g now h k = int (length (recent_events g now (times_of k h)))"

lemma recent_bounds: "0 \<le> recent g now h k" "recent g now h k \<le> int (length (times_of k h))"
  using length_recent_events by (simp_all add: recent_def)

lemma rs_sim_counted: "rs_sim g gp cap h t r \<Longrightarrow> rs_counted g h t r"
  by (simp add: rs_sim_def)

lemma rs_sum_sim:
  assumes sim: "rs_counted g h t r" and t: "t \<le> now" "usable g now" and small: "int (length h) \<le> max_int64"
  shows "\<exists>r'. on_counter k (rc_RollingSumAt now) r = (Returns (recent g now h k), r') \<and> rs_counted g h now r'"
proof -
  have cs: "counted g (times_of j h) t (rs_counter j r)" for j using sim by (simp add: rs_counted_def)
  obtain c where c: "rc_RollingSumAt now (rs_counter k r) = (Returns (wrap64 (recent g now h k)), c)"
    "counted g (times_of k h) now c"
    using counted_Sum [OF cs t] by (auto simp: recent_def)
  have "in_int64 (recent g now h k)"
    using recent_bounds [of g now h k] length_times_of [of k h] small by (simp add: in_int64_def min_int64_def)
  then show ?thesis
    using c counted_later [OF cs t] rc_RollingSumAt_total [OF c(1)] sim by (auto simp: rs_counted_def rs_runs)
qed

lemma kind_sums:
  "recent g now h ErrFailures + recent g now h ErrTimeouts \<le> int (length h)"
  "recent g now h Successes + (recent g now h ErrFailures + recent g now h ErrTimeouts) \<le> int (length h)"
proof -
  have "length (times_of Successes h) + (length (times_of ErrFailures h) + length (times_of ErrTimeouts h)) \<le> length h"
  proof (induction h rule: rev_induct)
    case (snoc x h)
    then show ?case by (cases x) (auto simp: times_of_snoc)
  qed (simp add: times_of_def)
  then have "int (length (times_of Successes h)) + (int (length (times_of ErrFailures h)) +
      int (length (times_of ErrTimeouts h))) \<le> int (length h)" by linarith
  then show "recent g now h ErrFailures + recent g now h ErrTimeouts \<le> int (length h)"
    "recent g now h Successes + (recent g now h ErrFailures + recent g now h ErrTimeouts) \<le> int (length h)"
    using recent_bounds [of g now h Successes] recent_bounds [of g now h ErrFailures]
      recent_bounds [of g now h ErrTimeouts] by linarith+
qed

text \<open>The errors and the attempts in the window at \<open>now\<close>, after the history \<open>h\<close>.\<close>

definition recent_errors :: "RollingBuckets \<Rightarrow> gotime \<Rightarrow> run_history \<Rightarrow> int" where
  "recent_errors g now h = recent g now h ErrFailures + recent g now h ErrTimeouts"

definition recent_attempts :: "RollingBuckets \<Rightarrow> gotime \<Rightarrow> run_history \<Rightarrow> int" where
  "recent_attempts g now h = recent g now h Successes + recent_errors g now h"

lemma recent_attempts_bounds:
  "0 \<le> recent_errors g now h" "recent_errors g now h \<le> recent_attempts g now h" "recent_attempts g now h \<le> int (length h)"
  using kind_sums(2) [of g now h] recent_bounds [of g now h] by (simp_all add: recent_errors_def recent_attempts_def)

lemma rs_ErrorsAt_sim:
  assumes "rs_counted g h t r" "t \<le> now" "usable g now" "int (length h) \<le> max_int64"
  shows "\<exists>r'. rs_ErrorsAt now r = (Returns (recent_errors g now h), r') \<and> rs_counted g h now r'"
proof -
  obtain r1 where r1: "on_counter ErrFailures (rc_RollingSumAt now) r = (Returns (recent g now h ErrFailures), r1)"
    "rs_counted g h now r1" using rs_sum_sim [OF assms] by blast
  obtain r2 where r2: "on_counter ErrTimeouts (rc_RollingSumAt now) r1 = (Returns (recent g now h ErrTimeouts), r2)"
    "rs_counted g h now r2" using rs_sum_sim [OF r1(2) order_refl assms(3,4)] by blast
  have "add64 (recent g now h ErrFailures) (recent g now h ErrTimeouts) = recent_errors g now h"
    using recent_attempts_bounds [of g now h] assms(4)
    by (simp add: add64_exact in_int64_def min_int64_def flip: recent_errors_def)
  then show ?thesis using r1 r2 by (simp add: rs_ErrorsAt_def go_simps)
qed

lemma rs_LegitimateAttemptsAt_sim:
  assumes "rs_counted g h t r" "t \<le> now" "usable g now" "int (length h) \<le> max_int64"
  shows "\<exists>r'. rs_LegitimateAttemptsAt now r = (Returns (recent_attempts g now h), r') \<and> rs_counted g h now r'"
proof -
  obtain r1 where r1: "on_counter Successes (rc_RollingSumAt now) r = (Returns (recent g now h Successes), r1)"
    "rs_counted g h now r1" using rs_sum_sim [OF assms] by blast
  obtain r2 where r2: "rs_ErrorsAt now r1 = (Returns (recent_errors g now h), r2)" "rs_counted g h now r2"
    using rs_ErrorsAt_sim [OF r1(2) order_refl assms(3,4)] by blast
  have "add64 (recent g now h Successes) (recent_errors g now h) = recent_attempts g now h"
    using recent_attempts_bounds [of g now h] assms(4)
    by (simp add: add64_exact in_int64_def min_int64_def flip: recent_attempts_def)
  then show ?thesis using r1 r2 by (simp add: rs_LegitimateAttemptsAt_def go_simps)
qed

text \<open>The ratio as a double, for numbers a double holds exactly.\<close>

definition error_ratio :: "RollingBuckets \<Rightarrow> gotime \<Rightarrow> run_history \<Rightarrow> rat" where
  "error_ratio g now h = (if recent_attempts g now h = 0 then 0
     else fl64 (of_int (recent_errors g now h) / of_int (recent_attempts g now h)))"

lemma error_ratio_bounds: "0 \<le> error_ratio g now h" "error_ratio g now h \<le> 1"
proof -
  let ?e = "of_int (recent_errors g now h) :: rat" and ?a = "of_int (recent_attempts g now h) :: rat"
  have "0 \<le> ?e / ?a" "?e / ?a \<le> of_int 1"
    using recent_attempts_bounds [of g now h] by (simp_all add: divide_le_eq)
  then show "0 \<le> error_ratio g now h" "error_ratio g now h \<le> 1"
    using fl64.nonneg fl64.bounded [of "?e / ?a" 1] by (simp_all add: error_ratio_def)
qed

lemma rs_ErrorPercentageAt_sim:
  assumes "rs_counted g h t r" "t \<le> now" "usable g now" "int (length h) \<le> 2 ^ 53"
  shows "\<exists>r'. rs_ErrorPercentageAt now r = (Returns (error_ratio g now h), r') \<and> rs_counted g h now r'"
proof -
  have small: "int (length h) \<le> max_int64" using assms(4) by (simp add: max_int64_def)
  obtain r1 where r1: "rs_LegitimateAttemptsAt now r = (Returns (recent_attempts g now h), r1)"
    "rs_counted g h now r1" using rs_LegitimateAttemptsAt_sim [OF assms(1-3) small] by blast
  obtain r2 where r2: "rs_ErrorsAt now r1 = (Returns (recent_errors g now h), r2)" "rs_counted g h now r2"
    using rs_ErrorsAt_sim [OF r1(2) order_refl assms(3) small] by blast
  have "float_of_int (recent_errors g now h) = of_int (recent_errors g now h)"
    "float_of_int (recent_attempts g now h) = of_int (recent_attempts g now h)"
    using recent_attempts_bounds [of g now h] assms(4) by (simp_all add: float_of_int_def fl64_exact)
  then show ?thesis using r1 r2 by (simp add: rs_ErrorPercentageAt_def go_simps error_ratio_def)
qed

subsection \<open>Fallback statistics count every event\<close>

datatype fallback_stat = FallbackSuccesses | FallbackRejects | FallbackFailures

fun fs_counter :: "fallback_stat \<Rightarrow> FallbackStats \<Rightarrow> RollingCounter" where
  "fs_counter FallbackSuccesses r = fs_Successes r"
| "fs_counter FallbackRejects r = fs_ErrConcurrencyLimitRejects r"
| "fs_counter FallbackFailures r = fs_ErrFailures r"

fun fs_set :: "fallback_stat \<Rightarrow> RollingCounter \<Rightarrow> FallbackStats \<Rightarrow> FallbackStats" where
  "fs_set FallbackSuccesses c r = r\<lparr>fs_Successes := c\<rparr>"
| "fs_set FallbackRejects c r = r\<lparr>fs_ErrConcurrencyLimitRejects := c\<rparr>"
| "fs_set FallbackFailures c r = r\<lparr>fs_ErrFailures := c\<rparr>"

lemma fs_counter_set [simp]: "fs_counter k (fs_set k' c r) = (if k = k' then c else fs_counter k r)"
  by (cases k; cases k') simp_all

fun fallback_stat_of :: "fallback_event \<Rightarrow> fallback_stat" where
  "fallback_stat_of (FbSuccess d) = FallbackSuccesses"
| "fallback_stat_of (FbErrFailure d) = FallbackFailures"
| "fallback_stat_of FbErrConcurrencyLimitReject = FallbackRejects"

definition fs_times :: "fallback_stat \<Rightarrow> (fallback_event \<times> gotime) list \<Rightarrow> gotime list" where
  "fs_times k h = map snd (filter (\<lambda>(ev, t). fallback_stat_of ev = k) (rev h))"

definition fs_sim :: "RollingBuckets \<Rightarrow> (fallback_event \<times> gotime) list \<Rightarrow> gotime \<Rightarrow> FallbackStats \<Rightarrow> bool" where
  "fs_sim g h t r \<longleftrightarrow> (\<forall>k. counted g (fs_times k h) t (fs_counter k r) \<and>
     rc_totalSum (fs_counter k r) = wrap64 (int (length (fs_times k h))))"

definition fs_effective :: "clock \<Rightarrow> FallbackStatsConfig \<Rightarrow> FallbackStatsConfig" where
  "fs_effective wall config = fsc_Merge (fsc_sanitize config) (defaultFallbackStatsConfig wall)"

lemma fs_effective_facts:
  "0 < fsc_RollingStatsNumBuckets (fs_effective wall config)"
  "fsc_Now (fs_effective wall config) = Some (case fsc_Now config of None \<Rightarrow> wall | Some now \<Rightarrow> now)"
  by (auto simp: fs_effective_def fsc_Merge_def fsc_sanitize_def defaultFallbackStatsConfig_def Let_def split: option.split)

definition fallback_width :: "FallbackStatsConfig \<Rightarrow> duration" where
  "fallback_width c = quo64 (fsc_RollingStatsDuration c) (fsc_RollingStatsNumBuckets c)"

abbreviation fallback_window :: "FallbackStatsConfig \<Rightarrow> gotime \<Rightarrow> RollingBuckets" where
  "fallback_window c start \<equiv> window_geometry (fallback_width c) (fsc_RollingStatsNumBuckets c) start"

lemma fs_SetConfig_run:
  fixes wall :: clock and config :: FallbackStatsConfig
  defines "c \<equiv> fs_effective wall config"
  assumes sane: "sane_window (fallback_width c) (fsc_RollingStatsNumBuckets c)"
    and start: "start = (case fsc_Now config of None \<Rightarrow> wall | Some now \<Rightarrow> now) n"
  shows "\<exists>r. fs_SetConfigNotThreadSafe wall config (r0, n) = (Returns (), (r, Suc n)) \<and>
    fs_sim (fallback_window c start) [] start r"
proof -
  let ?nb = "fsc_RollingStatsNumBuckets c"
  define rc where "rc = \<lparr>rc_buckets = replicate (nat ?nb) 0, rc_totalSum = 0, rc_rollingBucket = fallback_window c start\<rparr>"
  have pos: "0 < ?nb" using fs_effective_facts(1) by (simp add: c_def)
  have new: "NewRollingCounter (fallback_width c) ?nb start = (greturn rc :: (RollingCounter, 's) go)"
    using NewRollingCounter_greturn [of ?nb] pos by (simp add: rc_def)
  have rc: "counted (fallback_window c start) [] start rc" "rc_totalSum rc = 0"
    using new_counter_counted [OF sane pos, of start "()"] by (auto simp: new go_simps rc_def)
  have newS: "NewRollingCounter (fallback_width c) ?nb start s = (Returns rc, s)" for s :: "FallbackStats \<times> nat"
    by (simp add: new go_simps)
  let ?r = "r0\<lparr>fs_Successes := rc, fs_ErrConcurrencyLimitRejects := rc, fs_ErrFailures := rc\<rparr>"
  have now: "call_clock (fsc_Now c) (r0, n) = (Returns start, (r0, Suc n))"
    using start by (simp add: c_def fs_effective_facts(2) rs_runs)
  have "fs_SetConfigNotThreadSafe wall config (r0, n) = (Returns (), (?r, Suc n))"
    unfolding fs_SetConfigNotThreadSafe_def fs_effective_def [symmetric] c_def [symmetric] Let_def
    using now pos newS by (simp add: go_simps rs_runs flip: fallback_width_def)
  moreover have "fs_counter k ?r = rc" for k by (cases k) simp_all
  then have "fs_sim (fallback_window c start) [] start ?r" using rc by (simp add: fs_sim_def fs_times_def)
  ultimately show ?thesis by blast
qed

lemma fs_send_sim:
  assumes sim: "fs_sim g h t r" and t: "t \<le> t'" "usable g t'"
  shows "\<exists>r'. fs_send ev ctx t' r = (Returns (), r') \<and> fs_sim g (h @ [(ev, t')]) t' r'"
proof -
  have cs: "counted g (fs_times j h) t (fs_counter j r)"
    "rc_totalSum (fs_counter j r) = wrap64 (int (length (fs_times j h)))" for j
    using sim by (simp_all add: fs_sim_def)
  let ?k = "fallback_stat_of ev"
  obtain c where c: "rc_Inc t' (fs_counter ?k r) = (Returns (), c)" "counted g (t' # fs_times ?k h) t' c"
    using counted_Inc [OF cs(1) t] by blast
  then have r': "fs_send ev ctx t' r = (Returns (), fs_set ?k c r)"
    by (cases ev) (simp_all add: fs_Success_def fs_ErrFailure_def fs_ErrConcurrencyLimitReject_def go_simps)
  have "rc_totalSum c = wrap64 (int (length (fs_times ?k h)) + 1)"
    using rc_Inc_total [OF c(1)] cs(2) [of ?k] by (simp add: add64_def)
  then have "fs_sim g (h @ [(ev, t')]) t' (fs_set ?k c r)"
    using c(2) counted_later [OF cs(1) t] cs(2) by (auto simp: fs_sim_def fs_times_def add.commute)
  then show ?thesis using r' by blast
qed

text \<open>The fallback events of one kind in the window at \<open>now\<close>.\<close>

definition recent_fallbacks :: "RollingBuckets \<Rightarrow> gotime \<Rightarrow> (fallback_event \<times> gotime) list \<Rightarrow> fallback_stat \<Rightarrow> int" where
  "recent_fallbacks g now h k = int (length (recent_events g now (fs_times k h)))"

lemma length_fs_times: "length (fs_times k h) \<le> length h"
  using length_filter_le [of "\<lambda>(ev, t). fallback_stat_of ev = k" "rev h"] by (simp add: fs_times_def)

lemma fs_sum_sim:
  assumes sim: "fs_sim g h t r" and t: "t \<le> now" "usable g now" and small: "int (length h) \<le> max_int64"
  shows "\<exists>r'. gzoom (fs_counter k) (fs_set k) (rc_RollingSumAt now) r = (Returns (recent_fallbacks g now h k), r') \<and>
    fs_sim g h now r'"
proof -
  have cs: "counted g (fs_times j h) t (fs_counter j r)" for j using sim by (simp add: fs_sim_def)
  obtain c where c: "rc_RollingSumAt now (fs_counter k r) = (Returns (wrap64 (recent_fallbacks g now h k)), c)"
    "counted g (fs_times k h) now c"
    using counted_Sum [OF cs t] by (auto simp: recent_fallbacks_def)
  have "recent_fallbacks g now h k \<le> int (length (fs_times k h))"
    using length_recent_events by (simp add: recent_fallbacks_def)
  then have "in_int64 (recent_fallbacks g now h k)"
    using length_fs_times [of k h] small by (simp add: in_int64_def min_int64_def) (simp add: recent_fallbacks_def)
  then show ?thesis
    using c counted_later [OF cs t] rc_RollingSumAt_total [OF c(1)] sim by (auto simp: fs_sim_def go_simps)
qed

subsection \<open>Properties\<close>

lemma sane_usable: "sane_stats (rs_effective wall config) \<Longrightarrow> start \<le> t \<Longrightarrow>
    usable (stats_window (rs_effective wall config) start) t"
  using rs_effective_positive(2) [of wall config]
  by (simp add: usable_def window_geometry_def sane_stats_def sane_window_def)

text \<open>C23: Newly configured stats, after any history of reports in the order of time: at every later moment, the
  rolling sum of each counter is the number of events of its kind in the rolling window of the configuration
  with negative sizes dropped and the defaults filled in, its total is the number of all of them, and the
  latencies are the sorted durations of the window of samples. No call panics.\<close>

theorem run_stats_count_every_event:
  assumes "c = rs_effective wall config" "sane_stats c"
    and "start = (case rsc_Now config of None \<Rightarrow> wall | Some now \<Rightarrow> now) n"
    and "run_in_order start h" "run_end_time start h \<le> now" "latencies_fit h" "int (length h) \<le> max_int64"
  shows "\<exists>r0 r1. rs_SetConfigNotThreadSafe wall config (r, n) = (Returns (), (r0, Suc n)) \<and>
    rs_history h r0 = (Returns (), r1) \<and>
    (\<forall>k. fst (on_counter k (rc_RollingSumAt now) r1) =
           Returns (int (length (recent_events (stats_window c start) now (times_of k h)))) \<and>
         rc_TotalSum (rs_counter k r1) = int (length (times_of k h))) \<and>
    fst (on_latencies (rp_SnapshotAt now) r1) = Returns (let g = latencies_window c start in
      sort (sw_durations g (nat (rsc_RollingPercentileBucketSize c)) (sw_advance g now (sw_run g (latency_ops h)))))"
proof -
  let ?g = "stats_window c start" and ?gp = "latencies_window c start" and ?cap = "nat (rsc_RollingPercentileBucketSize c)"
  obtain r0 where r0: "rs_SetConfigNotThreadSafe wall config (r, n) = (Returns (), (r0, Suc n))"
    "rs_sim ?g ?gp ?cap [] start r0"
    using rs_SetConfig_run [of wall config start n r] assms(1-3) by blast
  have us: "usable ?g t" if "start \<le> t" for t using sane_usable that assms(1,2) by blast
  obtain r1 where r1: "rs_history h r0 = (Returns (), r1)" "rs_sim ?g ?gp ?cap h (run_end_time start h) r1"
    using rs_history_sim [OF r0(2) assms(4) us assms(6)] assms(7) by auto
  have now: "usable ?g now" using us run_end_time_ge [OF assms(4)] assms(5) by simp
  have sums: "fst (on_counter k (rc_RollingSumAt now) r1) = Returns (recent ?g now h k)" for k
    using rs_sum_sim [OF rs_sim_counted [OF r1(2)] assms(5) now assms(7)] by (metis fst_conv)
  have totals: "rc_TotalSum (rs_counter k r1) = int (length (times_of k h))" for k
    using r1(2) length_times_of [of k h] assms(7)
    by (simp add: rs_sim_def rs_counted_def rc_TotalSum_def in_int64_def min_int64_def)
  have "rb_NumBuckets ?gp * int ?cap \<le> max_int64"
    using assms(2) rs_effective_positive(5) [of wall config]
    by (simp add: sane_stats_def window_geometry_def assms(1))
  then have "fst (on_latencies (rp_SnapshotAt now) r1) =
      Returns (sort (sw_durations ?gp ?cap (sw_advance ?gp now (sw_run ?gp (latency_ops h)))))"
    using rp_SortedDurations_sim [of ?gp ?cap "sw_run ?gp (latency_ops h)" "rs_Latencies r1" now] r1(2)
    by (auto simp: rs_sim_def rs_runs rp_SnapshotAt_def)
  then show ?thesis using r0(1) r1(1) sums totals by (simp add: recent_def Let_def)
qed

text \<open>The default configuration, on a clock that stands at 1000, and a history with a success and two errors.\<close>

lemma default_stats:
  "rs_effective (\<lambda>_. 1000) zero_RunStatsConfig = defaultRunStatsConfig (\<lambda>_. 1000)"
  "stats_width (defaultRunStatsConfig wall) = second" "latencies_width (defaultRunStatsConfig wall) = 10 * second"
  "sane_stats (defaultRunStatsConfig wall)"
  by (simp_all add: rs_effective_def rsc_Merge_def rsc_sanitize_def zero_RunStatsConfig_def defaultRunStatsConfig_def
      stats_width_def latencies_width_def sane_stats_def sane_window_def quo64_nonneg max_int64_def)

definition stats_example :: run_history where
  "stats_example = [(EvSuccess 7, ctx_Background, 1000), (EvErrFailure 5, ctx_Background, 1001),
     (EvErrShortCircuit, ctx_Background, 1002), (EvErrTimeout 9, ctx_Background, 2000000000)]"

lemma stats_example_ok: "run_in_order 1000 stats_example" "run_end_time 1000 stats_example \<le> 2000000001"
  "latencies_fit stats_example" "length stats_example = 4"
  by (simp_all add: stats_example_def latencies_fit_def in_int64_def min_int64_def max_int64_def)

lemmas stats_eval = stats_example_def times_of_def recent_events_def window_geometry_def abs_index_def time_Sub_def
  max_int64_def min_int64_def

theorem run_stats_count_every_event_witness:
  "\<exists>r0 r1. rs_SetConfigNotThreadSafe (\<lambda>_. 1000) zero_RunStatsConfig (zero_RunStats, 0) = (Returns (), (r0, Suc 0)) \<and>
    rs_history stats_example r0 = (Returns (), r1) \<and>
    fst (on_counter ErrFailures (rc_RollingSumAt 2000000001) r1) = Returns 1 \<and>
    fst (on_counter ErrInterrupts (rc_RollingSumAt 2000000001) r1) = Returns 0 \<and>
    rc_TotalSum (rs_counter ErrShortCircuits r1) = 1 \<and>
    fst (on_latencies (rp_SnapshotAt 2000000001) r1) = Returns [5, 7, 9]"
proof -
  let ?c = "defaultRunStatsConfig (\<lambda>_. 1000)" and ?now = "2000000001 :: int"
  let ?g = "stats_window ?c 1000" and ?gp = "latencies_window ?c 1000"
  have counts: "length (recent_events ?g ?now (times_of ErrFailures stats_example)) = 1"
    "length (recent_events ?g ?now (times_of ErrInterrupts stats_example)) = 0"
    "length (times_of ErrShortCircuits stats_example) = 1"
    by (simp_all add: default_stats stats_eval) (simp add: defaultRunStatsConfig_def)
  have gp: "?gp = window_geometry 10000000000 6 1000"
    by (simp add: default_stats) (simp add: defaultRunStatsConfig_def)
  have ops: "latency_ops stats_example = [OpAdd 7 1000, OpAdd 5 1001, OpAdd 9 2000000000]"
    by (simp add: stats_example_def)
  have "sort (sw_durations ?gp 100 (sw_advance ?gp ?now (sw_run ?gp (latency_ops stats_example)))) = [5, 7, 9]"
    unfolding gp ops
    by (simp add: sw_durations_def sw_run_def sw_init_def sw_advance_def sw_counts_def samples_at_def latest_def
        window_geometry_def usable_def abs_index_def time_Sub_def in_window_def max_int64_def min_int64_def upto.simps)
  moreover have "nat (rsc_RollingPercentileBucketSize ?c) = 100" by (simp add: defaultRunStatsConfig_def)
  moreover have "(1000 :: int) = (case rsc_Now zero_RunStatsConfig of None \<Rightarrow> (\<lambda>_. 1000) | Some now \<Rightarrow> now) 0"
    by (simp add: zero_RunStatsConfig_def)
  ultimately obtain r0 r1 where r: "rs_SetConfigNotThreadSafe (\<lambda>_. 1000) zero_RunStatsConfig (zero_RunStats, 0) = (Returns (), (r0, Suc 0))"
    "rs_history stats_example r0 = (Returns (), r1)"
    "\<forall>k. fst (on_counter k (rc_RollingSumAt ?now) r1) =
         Returns (int (length (recent_events ?g ?now (times_of k stats_example)))) \<and>
       rc_TotalSum (rs_counter k r1) = int (length (times_of k stats_example))"
    "fst (on_latencies (rp_SnapshotAt ?now) r1) = Returns [5, 7, 9]"
    using run_stats_count_every_event [OF default_stats(1) [symmetric] default_stats(4) _ stats_example_ok(1-3),
        of 0 zero_RunStats] stats_example_ok(4) unfolding Let_def by (simp only: max_int64_def) force
  then show ?thesis using counts r(3) [rule_format, of ErrFailures] r(3) [rule_format, of ErrInterrupts]
    r(3) [rule_format, of ErrShortCircuits] by auto
qed

text \<open>The error percentage of newly configured stats after any history of reports in the order of time is
  the number of failures and timeouts in the rolling window, divided by the number of these and the
  successes, rounded to a double, and 0 when there are none; it lies between 0 and 1.\<close>

theorem error_percentage_is_rounded_ratio:
  assumes "c = rs_effective wall config" "sane_stats c"
    and "start = (case rsc_Now config of None \<Rightarrow> wall | Some now \<Rightarrow> now) n"
    and "run_in_order start h" "run_end_time start h \<le> now" "latencies_fit h" "int (length h) \<le> 2 ^ 53"
  shows "\<exists>r0 r1. rs_SetConfigNotThreadSafe wall config (r, n) = (Returns (), (r0, Suc n)) \<and>
    rs_history h r0 = (Returns (), r1) \<and>
    fst (rs_ErrorPercentageAt now r1) = Returns (let g = stats_window c start;
        errors = recent g now h ErrFailures + recent g now h ErrTimeouts; attempts = recent g now h Successes + errors in
      if attempts = 0 then 0 else fl64 (of_int errors / of_int attempts)) \<and>
    (\<exists>q. fst (rs_ErrorPercentageAt now r1) = Returns q \<and> 0 \<le> q \<and> q \<le> 1)"
proof -
  let ?g = "stats_window c start" and ?gp = "latencies_window c start" and ?cap = "nat (rsc_RollingPercentileBucketSize c)"
  have small: "int (length h) \<le> max_int64" using assms(7) by (simp add: max_int64_def)
  obtain r0 where r0: "rs_SetConfigNotThreadSafe wall config (r, n) = (Returns (), (r0, Suc n))"
    "rs_sim ?g ?gp ?cap [] start r0"
    using rs_SetConfig_run [of wall config start n r] assms(1-3) by blast
  have us: "usable ?g t" if "start \<le> t" for t using sane_usable that assms(1,2) by blast
  obtain r1 where r1: "rs_history h r0 = (Returns (), r1)" "rs_sim ?g ?gp ?cap h (run_end_time start h) r1"
    using rs_history_sim [OF r0(2) assms(4) us assms(6)] small by auto
  have "usable ?g now" using us run_end_time_ge [OF assms(4)] assms(5) by simp
  then have "fst (rs_ErrorPercentageAt now r1) = Returns (error_ratio ?g now h)"
    using rs_ErrorPercentageAt_sim [OF rs_sim_counted [OF r1(2)] assms(5) _ assms(7)] by (metis fst_conv)
  then show ?thesis
    using r0(1) r1(1) error_ratio_bounds [of ?g now h]
    by (simp add: error_ratio_def recent_errors_def recent_attempts_def Let_def)
qed

theorem error_percentage_is_rounded_ratio_witness:
  "\<exists>r0 r1. rs_SetConfigNotThreadSafe (\<lambda>_. 1000) zero_RunStatsConfig (zero_RunStats, 0) = (Returns (), (r0, Suc 0)) \<and>
    rs_history stats_example r0 = (Returns (), r1) \<and>
    fst (rs_ErrorPercentageAt 2000000001 r1) = Returns (fl64 (2 / 3))"
proof -
  let ?c = "defaultRunStatsConfig (\<lambda>_. 1000)" and ?now = "2000000001 :: int"
  let ?g = "stats_window ?c 1000"
  have counts: "recent ?g ?now stats_example ErrFailures = 1" "recent ?g ?now stats_example ErrTimeouts = 1"
    "recent ?g ?now stats_example Successes = 1"
    by (simp_all add: recent_def default_stats stats_eval) (simp_all add: defaultRunStatsConfig_def)
  have "(1000 :: int) = (case rsc_Now zero_RunStatsConfig of None \<Rightarrow> (\<lambda>_. 1000) | Some now \<Rightarrow> now) 0"
    by (simp add: zero_RunStatsConfig_def)
  then show ?thesis
    using error_percentage_is_rounded_ratio [OF default_stats(1) [symmetric] default_stats(4) _ stats_example_ok(1-3),
        of 0 zero_RunStats] counts stats_example_ok(4)
    by (fastforce simp: Let_def)
qed

end
