(* ===== verification/StatFactory.thy ===== *)
theory StatFactory
  imports RollingStats CircuitSetup
begin

text \<open>
  Model of \<^verbatim>\<open>StatFactory\<close> of \<^verbatim>\<open>metrics/rolling/rolling.go\<close>, which makes stats for circuits by name, and of
  the search of a circuit for its stats.

  A pointer to stats is the number by which the circuit knows the collector: \<open>sf_run_objects\<close> and
  \<open>sf_fallback_objects\<close> are the memory behind the pointers, \<open>sf_next\<close> the first number not in use. A
  collector is a \<^verbatim>\<open>*RunStats\<close> exactly when its number has an object there.
\<close>

record StatFactory =
  sf_RunConfig :: RunStatsConfig
  sf_FallbackConfig :: FallbackStatsConfig
  sf_runStatsByCircuit :: "(string \<rightharpoonup> nat) option"
  sf_fallbackStatsByCircuit :: "(string \<rightharpoonup> nat) option"
  sf_run_objects :: "nat \<rightharpoonup> RunStats"
  sf_fallback_objects :: "nat \<rightharpoonup> FallbackStats"
  sf_next :: nat
  sf_readings :: nat

text \<open>A local variable with the zero value, configured by a method that reads the clock.\<close>

definition configure_new :: "'r \<Rightarrow> (unit, 'r \<times> nat) go \<Rightarrow> ('r, StatFactory) go" where
  "configure_new z m = (\<lambda>s. case m (z, sf_readings s) of
     (Returns _, (r, n)) \<Rightarrow> (Returns r, s\<lparr>sf_readings := n\<rparr>)
   | (Panics p, (r, n)) \<Rightarrow> (Panics p, s\<lparr>sf_readings := n\<rparr>)
   | (Blocks, (r, n)) \<Rightarrow> (Blocks, s\<lparr>sf_readings := n\<rparr>))"

text \<open>The part of \<^verbatim>\<open>CreateConfig\<close> under the lock, which nothing else can take: the objects get their places.\<close>

definition sf_register :: "string \<Rightarrow> RunStats \<Rightarrow> FallbackStats \<Rightarrow> (nat \<times> nat, StatFactory) go" where
  "sf_register circuitName rs fs = (\<lambda>s.
     let k = sf_next s; j = Suc k;
         runs = (case sf_runStatsByCircuit s of None \<Rightarrow> Map.empty | Some m \<Rightarrow> m);
         fallbacks = (case sf_fallbackStatsByCircuit s of None \<Rightarrow> Map.empty | Some m \<Rightarrow> m)
     in (Returns (k, j), s\<lparr>sf_next := Suc j, sf_run_objects := (sf_run_objects s)(k \<mapsto> rs),
          sf_fallback_objects := (sf_fallback_objects s)(j \<mapsto> fs),
          sf_runStatsByCircuit := Some (runs(circuitName \<mapsto> k)),
          sf_fallbackStatsByCircuit := Some (fallbacks(circuitName \<mapsto> j))\<rparr>))"

definition sf_CreateConfig :: "clock \<Rightarrow> string \<Rightarrow> (('p, 'q) Config, StatFactory) go" where
  "sf_CreateConfig wall circuitName =
     gbind (gget sf_RunConfig) (\<lambda>rc.
     gbind (configure_new zero_RunStats (rs_SetConfigNotThreadSafe wall (rsc_Merge zero_RunStatsConfig rc))) (\<lambda>rs.
     gbind (gget sf_FallbackConfig) (\<lambda>fc.
     gbind (configure_new zero_FallbackStats (fs_SetConfigNotThreadSafe wall (fsc_Merge zero_FallbackStatsConfig fc)))
       (\<lambda>fs.
     gbind (sf_register circuitName rs fs) (\<lambda>(k, j).
     greturn (zero_Config\<lparr>cf_Metrics := \<lparr>mc_Run = [k], mc_Fallback = [j], mc_Circuit = []\<rparr>\<rparr>))))))"

definition sf_RunStats :: "StatFactory \<Rightarrow> string \<Rightarrow> nat option" where
  "sf_RunStats s circuitName = (case sf_runStatsByCircuit s of None \<Rightarrow> None | Some m \<Rightarrow> m circuitName)"

definition sf_FallbackStats :: "StatFactory \<Rightarrow> string \<Rightarrow> nat option" where
  "sf_FallbackStats s circuitName = (case sf_fallbackStatsByCircuit s of None \<Rightarrow> None | Some m \<Rightarrow> m circuitName)"

fun find_run :: "(nat \<rightharpoonup> RunStats) \<Rightarrow> run_collector list \<Rightarrow> nat option" where
  "find_run objs [] = None"
| "find_run objs (RcUser k # rs) = (if objs k \<noteq> None then Some k else find_run objs rs)"
| "find_run objs (_ # rs) = find_run objs rs"

definition FindCommandMetrics :: "(nat \<rightharpoonup> RunStats) \<Rightarrow> ('p, 'q) Circuit \<Rightarrow> nat option" where
  "FindCommandMetrics objs c = find_run objs (c_CmdMetricCollector c)"

definition FindFallbackMetrics :: "(nat \<rightharpoonup> FallbackStats) \<Rightarrow> ('p, 'q) Circuit \<Rightarrow> nat option" where
  "FindFallbackMetrics objs c = List.find (\<lambda>k. objs k \<noteq> None) (c_FallbackMetricCollector c)"

subsection \<open>A circuit finds the stats made for it\<close>

definition fresh_objects :: "StatFactory \<Rightarrow> bool" where
  "fresh_objects s \<longleftrightarrow> (\<forall>k. sf_next s \<le> k \<longrightarrow> sf_run_objects s k = None \<and> sf_fallback_objects s k = None)"

lemma merge_zero: "rsc_Merge zero_RunStatsConfig rc = rc" "fsc_Merge zero_FallbackStatsConfig fc = fc"
  by (simp_all add: rsc_Merge_def fsc_Merge_def zero_RunStatsConfig_def zero_FallbackStatsConfig_def Let_def)

lemma sf_CreateConfig_run:
  assumes "rs_SetConfigNotThreadSafe wall (sf_RunConfig s) (zero_RunStats, sf_readings s) = (Returns (), (rs, n1))"
    and "fs_SetConfigNotThreadSafe wall (sf_FallbackConfig s) (zero_FallbackStats, n1) = (Returns (), (fs, n2))"
  shows "sf_CreateConfig wall nm s = (Returns (zero_Config\<lparr>cf_Metrics := \<lparr>mc_Run = [sf_next s],
      mc_Fallback = [Suc (sf_next s)], mc_Circuit = []\<rparr>\<rparr>), snd (sf_register nm rs fs (s\<lparr>sf_readings := n2\<rparr>)))"
  using assms
  by (simp add: sf_CreateConfig_def go_simps configure_new_def merge_zero sf_register_def Let_def)

text \<open>The stats of a circuit: the configuration the factory makes for a name gives a circuit in which the searches
  find exactly the two collectors the factory answers for that name; they are new, so no other circuit
  shares them, they have counted nothing yet, and the answers for other names and the objects behind them are
  untouched.\<close>

theorem stat_factory_finds_its_stats:
  assumes "fresh_objects s" "rc = rs_effective wall (sf_RunConfig s)" "sane_stats rc"
    and "fc = fs_effective wall (sf_FallbackConfig s)" "sane_window (fallback_width fc) (fsc_RollingStatsNumBuckets fc)"
  shows "\<exists>cfg s' c k j rs fs start start'.
    (sf_CreateConfig wall nm :: (('p, 'q) Config, StatFactory) go) s = (Returns cfg, s') \<and>
    NewCircuitFromConfig wall u v nm cfg n = (Returns c, c_readings c) \<and>
    FindCommandMetrics (sf_run_objects s') c = Some k \<and> sf_RunStats s' nm = Some k \<and>
    FindFallbackMetrics (sf_fallback_objects s') c = Some j \<and> sf_FallbackStats s' nm = Some j \<and>
    sf_run_objects s k = None \<and> sf_fallback_objects s j = None \<and>
    sf_run_objects s' = (sf_run_objects s)(k \<mapsto> rs) \<and> sf_fallback_objects s' = (sf_fallback_objects s)(j \<mapsto> fs) \<and>
    rs_sim (stats_window rc start) (latencies_window rc start) (nat (rsc_RollingPercentileBucketSize rc)) [] start rs \<and>
    fs_sim (fallback_window fc start') [] start' fs \<and>
    (\<forall>nm'. nm' \<noteq> nm \<longrightarrow> sf_RunStats s' nm' = sf_RunStats s nm' \<and> sf_FallbackStats s' nm' = sf_FallbackStats s nm') \<and>
    fresh_objects s'"
proof -
  obtain start where start: "start = (case rsc_Now (sf_RunConfig s) of None \<Rightarrow> wall | Some now \<Rightarrow> now) (sf_readings s)"
    by blast
  obtain rs where rs: "rs_SetConfigNotThreadSafe wall (sf_RunConfig s) (zero_RunStats, sf_readings s) =
      (Returns (), (rs, Suc (sf_readings s)))"
    "rs_sim (stats_window rc start) (latencies_window rc start) (nat (rsc_RollingPercentileBucketSize rc)) [] start rs"
    using rs_SetConfig_run [of wall "sf_RunConfig s" start "sf_readings s" zero_RunStats] assms(2,3) start by blast
  obtain start' where start': "start' = (case fsc_Now (sf_FallbackConfig s) of None \<Rightarrow> wall | Some now \<Rightarrow> now)
      (Suc (sf_readings s))" by blast
  obtain fs where fs: "fs_SetConfigNotThreadSafe wall (sf_FallbackConfig s) (zero_FallbackStats, Suc (sf_readings s)) =
      (Returns (), (fs, Suc (Suc (sf_readings s))))" "fs_sim (fallback_window fc start') [] start' fs"
    using fs_SetConfig_run [of wall "sf_FallbackConfig s" start' "Suc (sf_readings s)" zero_FallbackStats]
      assms(4,5) start' by blast
  let ?k = "sf_next s" and ?j = "Suc (sf_next s)"
  let ?cfg = "zero_Config\<lparr>cf_Metrics := \<lparr>mc_Run = [?k], mc_Fallback = [?j], mc_Circuit = []\<rparr>\<rparr> :: ('p, 'q) Config"
  let ?s' = "snd (sf_register nm rs fs (s\<lparr>sf_readings := Suc (Suc (sf_readings s))\<rparr>))"
  let ?config = "Config_Merge ?cfg (defaultCommandProperties wall u v)"
  note made = sf_CreateConfig_run [OF rs(1) fs(1), of nm]
  note defs = zero_Config_def zero_GeneralConfig_def zero_ExecutionConfig_def zero_FallbackConfig_def
    defaultCommandProperties_def defaultGoSpecificConfig_def defaultExecutionConfig_def defaultFallbackConfig_def
    Config_Merge_def gc_merge_def mc_merge_def tk_merge_def mergeCustomConfig_def
  have uses: "logic_factories.uses_factories (neverOpensFactory u) (neverClosesFactory v) ?config"
    by (simp add: default_factories.uses_factories_def defs)
  obtain c where c: "NewCircuitFromConfig wall u v nm ?cfg n = (Returns c, c_readings c)"
    "core c = core ((configured ?config (zero_Circuit\<lparr>c_name := nm\<rparr>))\<lparr>c_readings := c_readings c\<rparr>)"
    using default_factories.NewCircuitFromConfig_ready [OF uses, of nm n] by blast
  have col: "c_CmdMetricCollector c = [RcOpenToClose, RcClosedToOpen, RcUser ?k]" "c_FallbackMetricCollector c = [?j]"
    using core_fields(1,2) [OF c(2)] by (simp_all add: configured_def defs)
  have s': "sf_run_objects ?s' = (sf_run_objects s)(?k \<mapsto> rs)" "sf_fallback_objects ?s' = (sf_fallback_objects s)(?j \<mapsto> fs)"
    "sf_RunStats ?s' nm = Some ?k" "sf_FallbackStats ?s' nm = Some ?j" "fresh_objects ?s'"
    "\<forall>nm'. nm' \<noteq> nm \<longrightarrow> sf_RunStats ?s' nm' = sf_RunStats s nm' \<and> sf_FallbackStats ?s' nm' = sf_FallbackStats s nm'"
    using assms(1)
    by (auto simp: sf_register_def sf_RunStats_def sf_FallbackStats_def fresh_objects_def Let_def split: option.split)
  moreover have "FindCommandMetrics (sf_run_objects ?s') c = Some ?k" "FindFallbackMetrics (sf_fallback_objects ?s') c = Some ?j"
    using col s'(1,2) by (simp_all add: FindCommandMetrics_def FindFallbackMetrics_def)
  moreover have "sf_run_objects s ?k = None" "sf_fallback_objects s ?j = None"
    using assms(1) by (simp_all add: fresh_objects_def)
  ultimately show ?thesis using made c(1) rs(2) fs(2) by blast
qed

text \<open>A second circuit of a factory that has already made stats for another.\<close>

definition factory_example :: StatFactory where
  "factory_example = \<lparr>sf_RunConfig = zero_RunStatsConfig, sf_FallbackConfig = zero_FallbackStatsConfig,
     sf_runStatsByCircuit = Some [''a'' \<mapsto> 0], sf_fallbackStatsByCircuit = Some [''a'' \<mapsto> 1],
     sf_run_objects = [0 \<mapsto> zero_RunStats], sf_fallback_objects = [1 \<mapsto> zero_FallbackStats],
     sf_next = 2, sf_readings = 5\<rparr>"

theorem stat_factory_finds_its_stats_witness:
  "\<exists>cfg s' c. (sf_CreateConfig (\<lambda>_. 1000) ''b'' :: ((unit, unit) Config, StatFactory) go) factory_example = (Returns cfg, s') \<and>
    NewCircuitFromConfig (\<lambda>_. 1000) () () ''b'' cfg 7 = (Returns c, c_readings c) \<and>
    FindCommandMetrics (sf_run_objects s') c = sf_RunStats s' ''b'' \<and> sf_RunStats s' ''a'' = Some 0"
proof -
  have rc: "defaultRunStatsConfig (\<lambda>_. 1000) = rs_effective (\<lambda>_. 1000) (sf_RunConfig factory_example)"
    by (simp add: factory_example_def default_stats)
  have fc: "defaultFallbackStatsConfig (\<lambda>_. 1000) = fs_effective (\<lambda>_. 1000) (sf_FallbackConfig factory_example)"
    by (simp add: factory_example_def fs_effective_def fsc_Merge_def fsc_sanitize_def zero_FallbackStatsConfig_def
        defaultFallbackStatsConfig_def Let_def)
  have w: "sane_window (fallback_width (defaultFallbackStatsConfig (\<lambda>_. 1000)))
      (fsc_RollingStatsNumBuckets (defaultFallbackStatsConfig (\<lambda>_. 1000)))"
    by (simp add: fallback_width_def defaultFallbackStatsConfig_def sane_window_def quo64_nonneg max_int64_def)
  have "fresh_objects factory_example" "sf_RunStats factory_example ''a'' = Some 0"
    by (simp_all add: fresh_objects_def factory_example_def sf_RunStats_def)
  then show ?thesis
    using stat_factory_finds_its_stats [OF _ rc default_stats(4) fc w, of "''b''" "()" "()" 7] by fastforce
qed

end
