(* ===== verification/ResponseTimeSLO.thy ===== *)
theory ResponseTimeSLO
  imports CircuitConfig
begin

text \<open>
  Model of \<^verbatim>\<open>metrics/responsetimeslo/responsetime.go\<close>: a collector that counts which requests meet a
  response time objective, and the factory that makes one per circuit.

  The \<^verbatim>\<open>Collectors\<close> a tracker forwards to are user code: each is named by a number, its methods are the
  parameter \<open>col\<close> (with \<open>True\<close> for \<^verbatim>\<open>Passed\<close> and \<open>False\<close> for \<^verbatim>\<open>Failed\<close>), and \<open>slo_calls\<close> records the
  calls. The mutex of the configuration guards single accesses and is not modelled.
\<close>

record SLOConfig =
  slc_MaximumHealthyTime :: duration

record Tracker =
  slo_MaximumHealthyTime :: int64
  slo_MeetsSLOCount :: int64
  slo_FailsSLOCount :: int64
  slo_Collectors :: "nat list"
  slo_config :: SLOConfig
  slo_calls :: "(nat \<times> bool) list"

type_synonym collectors = "nat \<Rightarrow> bool \<Rightarrow> (unit, Tracker) go"

definition slc_Merge :: "SLOConfig \<Rightarrow> SLOConfig \<Rightarrow> SLOConfig" where
  "slc_Merge c other = (if slc_MaximumHealthyTime c = 0
     then c\<lparr>slc_MaximumHealthyTime := slc_MaximumHealthyTime other\<rparr> else c)"

definition defaultSLOConfig :: SLOConfig where
  "defaultSLOConfig = \<lparr>slc_MaximumHealthyTime = millisecond * 250\<rparr>"

definition slo_tell :: "collectors \<Rightarrow> bool \<Rightarrow> (unit, Tracker) go" where
  "slo_tell col ok = gbind (gget slo_Collectors) (gforeach (\<lambda>k.
     gseq (gmodify (\<lambda>r. r\<lparr>slo_calls := slo_calls r @ [(k, ok)]\<rparr>)) (col k ok)))"

definition slo_failure :: "collectors \<Rightarrow> (unit, Tracker) go" where
  "slo_failure col =
     gseq (gmodify (\<lambda>r. r\<lparr>slo_FailsSLOCount := add64 (slo_FailsSLOCount r) 1\<rparr>)) (slo_tell col False)"

definition slo_healthy :: "collectors \<Rightarrow> (unit, Tracker) go" where
  "slo_healthy col =
     gseq (gmodify (\<lambda>r. r\<lparr>slo_MeetsSLOCount := add64 (slo_MeetsSLOCount r) 1\<rparr>)) (slo_tell col True)"

definition slo_Success :: "collectors \<Rightarrow> ctx \<Rightarrow> gotime \<Rightarrow> duration \<Rightarrow> (unit, Tracker) go" where
  "slo_Success col ctx now d = gbind (gget slo_MaximumHealthyTime) (\<lambda>m.
     if d \<le> m then slo_healthy col else slo_failure col)"

definition slo_ErrFailure :: "collectors \<Rightarrow> ctx \<Rightarrow> gotime \<Rightarrow> duration \<Rightarrow> (unit, Tracker) go" where
  "slo_ErrFailure col ctx now d = slo_failure col"

definition slo_ErrTimeout :: "collectors \<Rightarrow> ctx \<Rightarrow> gotime \<Rightarrow> duration \<Rightarrow> (unit, Tracker) go" where
  "slo_ErrTimeout col ctx now d = slo_failure col"

definition slo_ErrConcurrencyLimitReject :: "collectors \<Rightarrow> ctx \<Rightarrow> gotime \<Rightarrow> (unit, Tracker) go" where
  "slo_ErrConcurrencyLimitReject col ctx now = slo_failure col"

definition slo_ErrShortCircuit :: "collectors \<Rightarrow> ctx \<Rightarrow> gotime \<Rightarrow> (unit, Tracker) go" where
  "slo_ErrShortCircuit col ctx now = slo_failure col"

definition slo_ErrBadRequest :: "ctx \<Rightarrow> gotime \<Rightarrow> duration \<Rightarrow> (unit, Tracker) go" where
  "slo_ErrBadRequest ctx now d = greturn ()"

definition slo_ErrInterrupt :: "collectors \<Rightarrow> ctx \<Rightarrow> gotime \<Rightarrow> duration \<Rightarrow> (unit, Tracker) go" where
  "slo_ErrInterrupt col ctx now d = gbind (gget slo_MaximumHealthyTime) (\<lambda>m.
     gwhen (m < d) (slo_failure col))"

definition Tracker_vt :: "collectors \<Rightarrow> Tracker RunMetrics" where
  "Tracker_vt col = \<lparr>rm_Success = slo_Success col, rm_ErrFailure = slo_ErrFailure col,
     rm_ErrTimeout = slo_ErrTimeout col, rm_ErrBadRequest = slo_ErrBadRequest,
     rm_ErrInterrupt = slo_ErrInterrupt col, rm_ErrConcurrencyLimitReject = slo_ErrConcurrencyLimitReject col,
     rm_ErrShortCircuit = slo_ErrShortCircuit col\<rparr>"

definition slo_SetConfigThreadSafe :: "SLOConfig \<Rightarrow> (unit, Tracker) go" where
  "slo_SetConfigThreadSafe config =
     gseq (gmodify (\<lambda>r. r\<lparr>slo_config := config\<rparr>))
          (gmodify (\<lambda>r. r\<lparr>slo_MaximumHealthyTime := slc_MaximumHealthyTime config\<rparr>))"

definition slo_Config :: "Tracker \<Rightarrow> SLOConfig" where
  "slo_Config r = slo_config r"

text \<open>The value \<^verbatim>\<open>Var\<close> exposes: the configuration, the passes and the failures.\<close>

definition slo_Var :: "Tracker \<Rightarrow> SLOConfig \<times> int64 \<times> int64" where
  "slo_Var r = (slo_Config r, slo_MeetsSLOCount r, slo_FailsSLOCount r)"

text \<open>
  The factory. Constructors are functions of the circuit's name. \<open>slf_CommandProperties\<close> gives the tracker
  and, for the number \<open>k\<close> by which the circuit will know it, the configuration that installs it.
\<close>

record SLOFactory =
  slf_Config :: SLOConfig
  slf_ConfigConstructor :: "(string \<Rightarrow> SLOConfig) list"
  slf_CollectorConstructors :: "(string \<Rightarrow> nat) list"

definition slf_getConfig :: "SLOFactory \<Rightarrow> string \<Rightarrow> SLOConfig" where
  "slf_getConfig r circuitName =
     (let finalConfig = foldl (\<lambda>cfg f. slc_Merge cfg (f circuitName)) \<lparr>slc_MaximumHealthyTime = 0\<rparr>
            (rev (slf_ConfigConstructor r));
          finalConfig = slc_Merge finalConfig (slf_Config r)
      in slc_Merge finalConfig defaultSLOConfig)"

definition slf_CommandProperties :: "SLOFactory \<Rightarrow> nat \<Rightarrow> string \<Rightarrow> Tracker \<times> ('p, 'q) Config" where
  "slf_CommandProperties r k circuitName =
     (let tracker = \<lparr>slo_MaximumHealthyTime = 0, slo_MeetsSLOCount = 0, slo_FailsSLOCount = 0,
            slo_Collectors = map (\<lambda>constructor. constructor circuitName) (slf_CollectorConstructors r),
            slo_config = \<lparr>slc_MaximumHealthyTime = 0\<rparr>, slo_calls = []\<rparr>;
          cfg = slf_getConfig r circuitName
      in (snd (slo_SetConfigThreadSafe cfg tracker),
          zero_Config\<lparr>cf_Metrics := \<lparr>mc_Run = [k], mc_Fallback = [], mc_Circuit = []\<rparr>\<rparr>))"

subsection \<open>What counts\<close>

text \<open>
  The objective, as the documentation of \<^verbatim>\<open>Tracker\<close> has it: an event passes, fails or does not count. A request that
  was interrupted or had bad input does not count. The code agrees unless the request was interrupted after
  the healthy time (\<open>slow_interrupt\<close>); what it does then is in \<open>slow_interrupt_fails\<close>.
\<close>

datatype slo_verdict = Passes | Fails | NotCounted

fun slo_judge :: "duration \<Rightarrow> run_event \<Rightarrow> slo_verdict" where
  "slo_judge m (EvSuccess d) = (if d \<le> m then Passes else Fails)"
| "slo_judge m (EvErrFailure d) = Fails"
| "slo_judge m (EvErrTimeout d) = Fails"
| "slo_judge m (EvErrBadRequest d) = NotCounted"
| "slo_judge m (EvErrInterrupt d) = NotCounted"
| "slo_judge m EvErrConcurrencyLimitReject = Fails"
| "slo_judge m EvErrShortCircuit = Fails"

fun slow_interrupt :: "duration \<Rightarrow> run_event \<Rightarrow> bool" where
  "slow_interrupt m (EvErrInterrupt d) = (m < d)"
| "slow_interrupt m _ = False"

definition slo_count :: "duration \<Rightarrow> slo_verdict \<Rightarrow> run_event list \<Rightarrow> nat" where
  "slo_count m v evs = length (filter (\<lambda>ev. slo_judge m ev = v) evs)"

lemma slo_count_total: "slo_count m Passes evs + slo_count m Fails evs + slo_count m NotCounted evs = length evs"
proof (induction evs)
  case (Cons ev evs)
  then show ?case by (cases "slo_judge m ev") (simp_all add: slo_count_def)
qed (simp add: slo_count_def)

text \<open>Collectors that leave the tracker alone; they may panic, or never return.\<close>

definition tracker_counts :: "Tracker \<Rightarrow> int64 \<times> int64 \<times> int64 \<times> nat list" where
  "tracker_counts r = (slo_MaximumHealthyTime r, slo_MeetsSLOCount r, slo_FailsSLOCount r, slo_Collectors r)"

definition leaves_tracker :: "collectors \<Rightarrow> bool" where
  "leaves_tracker col \<longleftrightarrow> (\<forall>k ok x. keeps (\<lambda>r. tracker_counts r = x) (col k ok))"

lemma slo_tell_keeps:
  assumes "leaves_tracker col"
  shows "keeps (\<lambda>r. tracker_counts r = x) (slo_tell col ok)"
proof -
  have "keeps (\<lambda>r. tracker_counts r = x) (gmodify (\<lambda>r. r\<lparr>slo_calls := slo_calls r @ l\<rparr>))" for l
    by (rule keeps_gmodify) (simp add: tracker_counts_def)
  moreover have "keeps (\<lambda>r. tracker_counts r = x) (col k ok)" for k
    using assms unfolding leaves_tracker_def by blast
  ultimately show ?thesis
    unfolding slo_tell_def by (intro keeps_intros)
qed

lemma slo_tell_counts: "leaves_tracker col \<Longrightarrow> tracker_counts (snd (slo_tell col ok r)) = tracker_counts r"
  using slo_tell_keeps [of col "tracker_counts r" ok] by (simp add: keeps_def)

text \<open>What one event adds to the counts, whatever the collectors do with the news.\<close>

lemma slo_tally_counts:
  assumes "leaves_tracker col"
  shows "tracker_counts (snd (slo_failure col r)) =
      (slo_MaximumHealthyTime r, slo_MeetsSLOCount r, add64 (slo_FailsSLOCount r) 1, slo_Collectors r)"
    "tracker_counts (snd (slo_healthy col r)) =
      (slo_MaximumHealthyTime r, add64 (slo_MeetsSLOCount r) 1, slo_FailsSLOCount r, slo_Collectors r)"
  using slo_tell_counts [OF assms] by (simp_all add: slo_failure_def slo_healthy_def go_simps tracker_counts_def)

lemma slo_send_counts:
  assumes "leaves_tracker col" "\<not> slow_interrupt (slo_MaximumHealthyTime r) ev"
  shows "tracker_counts (snd (rm_send ev ctx now (Tracker_vt col) r)) =
    (slo_MaximumHealthyTime r,
     if slo_judge (slo_MaximumHealthyTime r) ev = Passes then add64 (slo_MeetsSLOCount r) 1 else slo_MeetsSLOCount r,
     if slo_judge (slo_MaximumHealthyTime r) ev = Fails then add64 (slo_FailsSLOCount r) 1 else slo_FailsSLOCount r,
     slo_Collectors r)"
  using slo_tally_counts [OF assms(1), of r] assms(2)
  by (cases ev) (simp_all add: Tracker_vt_def slo_Success_def slo_ErrFailure_def slo_ErrTimeout_def
      slo_ErrConcurrencyLimitReject_def slo_ErrShortCircuit_def slo_ErrBadRequest_def slo_ErrInterrupt_def
      go_simps tracker_counts_def)

text \<open>Past the healthy time an interrupt does count, as a failure, though the documentation says it does not.\<close>

lemma slow_interrupt_fails:
  assumes "leaves_tracker col" "slo_MaximumHealthyTime r < d"
  shows "tracker_counts (snd (rm_send (EvErrInterrupt d) ctx now (Tracker_vt col) r)) =
    (slo_MaximumHealthyTime r, slo_MeetsSLOCount r, add64 (slo_FailsSLOCount r) 1, slo_Collectors r)"
  using slo_tally_counts(1) [OF assms(1), of r] assms(2)
  by (simp add: Tracker_vt_def slo_ErrInterrupt_def go_simps)

text \<open>A history of reports; the circuit's caller may have recovered from the panics of collectors.\<close>

definition slo_history :: "collectors \<Rightarrow> (run_event \<times> ctx \<times> gotime) list \<Rightarrow> Tracker \<Rightarrow> Tracker" where
  "slo_history col = fold (\<lambda>(ev, ctx, now) r. snd (rm_send ev ctx now (Tracker_vt col) r))"

definition no_slow_interrupts :: "duration \<Rightarrow> (run_event \<times> ctx \<times> gotime) list \<Rightarrow> bool" where
  "no_slow_interrupts m h \<longleftrightarrow> (\<forall>x \<in> set h. \<not> slow_interrupt m (fst x))"

lemma slo_history_counts:
  assumes "leaves_tracker col" "no_slow_interrupts (slo_MaximumHealthyTime r) h"
  shows "slo_MaximumHealthyTime (slo_history col h r) = slo_MaximumHealthyTime r \<and>
    wrap64 (slo_MeetsSLOCount (slo_history col h r)) =
      wrap64 (slo_MeetsSLOCount r + int (slo_count (slo_MaximumHealthyTime r) Passes (map fst h))) \<and>
    wrap64 (slo_FailsSLOCount (slo_history col h r)) =
      wrap64 (slo_FailsSLOCount r + int (slo_count (slo_MaximumHealthyTime r) Fails (map fst h)))"
  using assms(2)
proof (induction h arbitrary: r)
  case (Cons x h)
  obtain ev ctx now where x: "x = (ev, ctx, now)" by (cases x)
  let ?r = "snd (rm_send ev ctx now (Tracker_vt col) r)" and ?v = "slo_judge (slo_MaximumHealthyTime r) ev"
  have c: "slo_MaximumHealthyTime ?r = slo_MaximumHealthyTime r"
    "slo_MeetsSLOCount ?r = (if ?v = Passes then add64 (slo_MeetsSLOCount r) 1 else slo_MeetsSLOCount r)"
    "slo_FailsSLOCount ?r = (if ?v = Fails then add64 (slo_FailsSLOCount r) 1 else slo_FailsSLOCount r)"
    using slo_send_counts [OF assms(1), of r ev ctx now] Cons.prems
    by (simp_all add: tracker_counts_def no_slow_interrupts_def x)
  show ?case
    using Cons.IH [of ?r] Cons.prems c
    by (simp add: slo_history_def x slo_count_def add64_def add.assoc no_slow_interrupts_def)
qed (simp add: slo_history_def slo_count_def)

lemma slo_history_in_int64:
  assumes "leaves_tracker col" "no_slow_interrupts (slo_MaximumHealthyTime r) h"
    and "in_int64 (slo_MeetsSLOCount r) \<and> in_int64 (slo_FailsSLOCount r)"
  shows "in_int64 (slo_MeetsSLOCount (slo_history col h r)) \<and> in_int64 (slo_FailsSLOCount (slo_history col h r))"
  using assms(2,3)
proof (induction h arbitrary: r)
  case (Cons x h)
  obtain ev ctx now where x: "x = (ev, ctx, now)" by (cases x)
  let ?r = "snd (rm_send ev ctx now (Tracker_vt col) r)"
  have "in_int64 (slo_MeetsSLOCount ?r) \<and> in_int64 (slo_FailsSLOCount ?r) \<and> slo_MaximumHealthyTime ?r = slo_MaximumHealthyTime r"
    using slo_send_counts [OF assms(1), of r ev ctx now] Cons.prems
    by (simp add: tracker_counts_def no_slow_interrupts_def x)
  then show ?case using Cons.IH [of ?r] Cons.prems by (simp add: slo_history_def x no_slow_interrupts_def)
qed (simp add: slo_history_def)

lemma slf_getConfig_first_set:
  "slc_MaximumHealthyTime (slf_getConfig f nm) = first_set 0 (map (\<lambda>g. slc_MaximumHealthyTime (g nm))
     (rev (slf_ConfigConstructor f)) @ [slc_MaximumHealthyTime (slf_Config f), 250 * millisecond])"
proof -
  have m: "slc_MaximumHealthyTime (slc_Merge a b) =
      (if slc_MaximumHealthyTime a = 0 then slc_MaximumHealthyTime b else slc_MaximumHealthyTime a)" for a b
    by (simp add: slc_Merge_def)
  have "slc_MaximumHealthyTime (foldl (\<lambda>cfg g. slc_Merge cfg (g nm)) c gs) =
      first_set 0 (slc_MaximumHealthyTime c # map (\<lambda>g. slc_MaximumHealthyTime (g nm)) gs)" for c gs
    by (induction gs arbitrary: c) (simp_all add: m)
  moreover have "first_set 0 (xs @ ys) = (if first_set 0 xs = 0 then first_set 0 ys else first_set 0 xs)" for xs ys :: "int list"
    by (induction xs) auto
  ultimately show ?thesis
    by (simp add: slf_getConfig_def Let_def m defaultSLOConfig_def)
qed

text \<open>C24: The counts of a tracker made by the factory, after any history of reports in which no interrupted request had
  run for longer than the healthy time, and whatever its collectors do short of writing to it: the passes are the
  successes within the healthy time, the failures are the slower successes, the errors, timeouts, rejections
  and short circuits, and every report is a pass, a failure or one of those that do not count, the interrupts and the
  bad requests. The healthy time is the first set one of the constructors, the last appended first, the fixed
  configuration, and 250 milliseconds.\<close>

theorem slo_counts_history:
  assumes "leaves_tracker col" "int (length h) \<le> max_int64"
    and "m = first_set 0 (map (\<lambda>g. slc_MaximumHealthyTime (g nm)) (rev (slf_ConfigConstructor f)) @
           [slc_MaximumHealthyTime (slf_Config f), 250 * millisecond])"
    and "tracker = fst (slf_CommandProperties f k nm :: Tracker \<times> ('p, 'q) Config)"
    and "no_slow_interrupts m h"
  shows "slo_MeetsSLOCount (slo_history col h tracker) = int (slo_count m Passes (map fst h)) \<and>
    slo_FailsSLOCount (slo_history col h tracker) = int (slo_count m Fails (map fst h)) \<and>
    slo_count m Passes (map fst h) + slo_count m Fails (map fst h) + slo_count m NotCounted (map fst h) = length h"
proof -
  have t: "slo_MaximumHealthyTime tracker = m" "slo_MeetsSLOCount tracker = 0" "slo_FailsSLOCount tracker = 0"
    using slf_getConfig_first_set [of f nm]
    by (simp_all add: assms(3,4) slf_CommandProperties_def slo_SetConfigThreadSafe_def go_simps Let_def)
  have n: "in_int64 (int (slo_count m v (map fst h)))" for v
    using slo_count_total [of m "map fst h"] assms(2) by (cases v) (simp_all add: in_int64_def min_int64_def)
  have i: "in_int64 (slo_MeetsSLOCount (slo_history col h tracker)) \<and> in_int64 (slo_FailsSLOCount (slo_history col h tracker))"
    using slo_history_in_int64 [OF assms(1), of tracker h] assms(5) t by simp
  show ?thesis
    using slo_history_counts [OF assms(1), of tracker h] assms(5) t n i slo_count_total [of m "map fst h"]
    by simp
qed

theorem slo_counts_history_witness:
  "let f = \<lparr>slf_Config = \<lparr>slc_MaximumHealthyTime = 9\<rparr>, slf_ConfigConstructor = [\<lambda>_. \<lparr>slc_MaximumHealthyTime = 7\<rparr>,
         \<lambda>_. \<lparr>slc_MaximumHealthyTime = 0\<rparr>], slf_CollectorConstructors = [\<lambda>_. 4]\<rparr>;
       h = [(EvSuccess 7, ctx_Background, 1), (EvErrFailure 1, ctx_Background, 2), (EvErrInterrupt 7, ctx_Background, 3),
         (EvErrBadRequest 1, ctx_Background, 4), (EvSuccess 8, ctx_Background, 5)];
       r = slo_history (\<lambda>_ _. gpanic (UserPanic ''boom'')) h (fst (slf_CommandProperties f 3 ''a'' :: Tracker \<times> (unit, unit) Config))
   in slo_MeetsSLOCount r = 1 \<and> slo_FailsSLOCount r = 2"
proof -
  let ?f = "\<lparr>slf_Config = \<lparr>slc_MaximumHealthyTime = 9\<rparr>, slf_ConfigConstructor = [\<lambda>_ :: string. \<lparr>slc_MaximumHealthyTime = 7\<rparr>,
         \<lambda>_. \<lparr>slc_MaximumHealthyTime = 0\<rparr>], slf_CollectorConstructors = [\<lambda>_ :: string. 4 :: nat]\<rparr>"
  have "leaves_tracker (\<lambda>_ _. gpanic (UserPanic ''boom''))"
    by (simp add: leaves_tracker_def keeps_basic)
  note slo_counts_history [OF this _ refl refl, where f = ?f and nm = "''a''" and k = 3 and h = "[(EvSuccess 7, ctx_Background, 1), (EvErrFailure 1, ctx_Background, 2),
      (EvErrInterrupt 7, ctx_Background, 3), (EvErrBadRequest 1, ctx_Background, 4), (EvSuccess 8, ctx_Background, 5)]"]
  then show ?thesis by (simp add: Let_def max_int64_def slo_count_def no_slow_interrupts_def)
qed

end
