(* ===== verification/MetricEventStream.thy ===== *)
theory MetricEventStream
  imports StatFactory HystrixFactory Manager "HOL-Library.Sublist"
begin

text \<open>
  Model of \<^verbatim>\<open>metriceventstream/metriceventstream.go\<close>: what is reported of a circuit, and how events reach
  the listeners.

  \<^verbatim>\<open>collectCommandMetrics\<close> is a computation over a circuit and the two collectors it finds, which rolling
  their windows forward changes. The type assertions on the circuit's logic are the parameters
  \<open>as_Opener\<close> and \<open>as_Closer\<close>; the JSON encoder, the parameter \<open>encode\<close>, may fail. A listener is an open
  HTTP request with its buffered channel; writing to the network is not modelled.
\<close>

record streamCmdLatency =
  sl_Timing0 :: int64
  sl_Timing25 :: int64
  sl_Timing50 :: int64
  sl_Timing75 :: int64
  sl_Timing90 :: int64
  sl_Timing95 :: int64
  sl_Timing99 :: int64
  sl_Timing995 :: int64
  sl_Timing100 :: int64

text \<open>The last eight fields are never set: they keep the zero value in every event.\<close>

record streamCmdMetric =
  sm_Type :: string
  sm_Name :: string
  sm_Group :: string
  sm_Time :: int64
  sm_ReportingHosts :: int64
  sm_RequestCount :: int64
  sm_ErrorCount :: int64
  sm_ErrorPct :: int64
  sm_CircuitBreakerOpen :: bool
  sm_RollingCountFallbackSuccess :: int64
  sm_RollingCountFallbackFailure :: int64
  sm_RollingCountFallbackRejection :: int64
  sm_RollingCountSuccess :: int64
  sm_RollingCountSemaphoreRejected :: int64
  sm_RollingCountFailure :: int64
  sm_RollingCountShortCircuited :: int64
  sm_RollingCountTimeout :: int64
  sm_RollingCountBadRequests :: int64
  sm_TotalCountFallbackSuccess :: int64
  sm_TotalCountFallbackFailure :: int64
  sm_TotalCountFallbackRejection :: int64
  sm_TotalCountSuccess :: int64
  sm_TotalCountSemaphoreRejected :: int64
  sm_TotalCountFailure :: int64
  sm_TotalCountShortCircuited :: int64
  sm_TotalCountTimeout :: int64
  sm_TotalCountBadRequests :: int64
  sm_LatencyTotal :: streamCmdLatency
  sm_LatencyTotalMean :: int64
  sm_LatencyExecute :: streamCmdLatency
  sm_LatencyExecuteMean :: int64
  sm_CurrentConcurrentExecutionCount :: int64
  sm_ExecutionIsolationStrategy :: string
  sm_CircuitBreakerEnabled :: bool
  sm_CircuitBreakerForceClosed :: bool
  sm_CircuitBreakerForceOpen :: bool
  sm_ExecutionIsolationSemaphoreMaxConcurrentRequests :: int64
  sm_ExecutionIsolationThreadTimeout :: int64
  sm_FallbackIsolationSemaphoreMaxConcurrentRequests :: int64
  sm_RollingStatsWindow :: int64
  sm_CircuitBreakerErrorThresholdPercent :: int64
  sm_CircuitBreakerRequestVolumeThreshold :: int64
  sm_CircuitBreakerSleepWindow :: int64
  sm_RollingCountCollapsedRequests :: int64
  sm_RollingCountExceptionsThrown :: int64
  sm_RollingCountResponsesFromCache :: int64
  sm_RollingCountThreadPoolRejected :: int64
  sm_ExecutionIsolationThreadPoolKeyOverride :: string
  sm_ExecutionIsolationThreadInterruptOnTimeout :: bool
  sm_RequestCacheEnabled :: bool
  sm_RequestLogEnabled :: bool

subsection \<open>Collecting\<close>

text \<open>Whole milliseconds of a duration, and of an instant since the Unix epoch; the zero time is the year 1.\<close>

definition to_ms :: "duration \<Rightarrow> int64" where
  "to_ms d = quo64 d millisecond"

definition unix_epoch :: gotime where
  "unix_epoch = 62135596800 * second"

definition time_UnixNano :: "gotime \<Rightarrow> int64" where
  "time_UnixNano t = wrap64 (t - unix_epoch)"

definition percentile_ms :: "rat \<Rightarrow> duration list \<Rightarrow> (int64, 's) go" where
  "percentile_ms p snap = gbind (sd_Percentile (Finite p) snap) (\<lambda>d. greturn (to_ms d))"

definition generateLatencyTimings :: "duration list \<Rightarrow> (streamCmdLatency, 's) go" where
  "generateLatencyTimings snap =
     gbind (percentile_ms 0 snap) (\<lambda>t0.
     gbind (percentile_ms 25 snap) (\<lambda>t25.
     gbind (percentile_ms 50 snap) (\<lambda>t50.
     gbind (percentile_ms 75 snap) (\<lambda>t75.
     gbind (percentile_ms 90 snap) (\<lambda>t90.
     gbind (percentile_ms 95 snap) (\<lambda>t95.
     gbind (percentile_ms 99 snap) (\<lambda>t99.
     gbind (percentile_ms (199 / 2) snap) (\<lambda>t995.
     gbind (percentile_ms 100 snap) (\<lambda>t100.
     greturn \<lparr>sl_Timing0 = t0, sl_Timing25 = t25, sl_Timing50 = t50, sl_Timing75 = t75, sl_Timing90 = t90,
       sl_Timing95 = t95, sl_Timing99 = t99, sl_Timing995 = t995, sl_Timing100 = t100\<rparr>)))))))))"

definition attachHystrixProperties ::
  "('p ClosedToOpen \<times> 'p \<Rightarrow> Opener option) \<Rightarrow> ('q OpenToClosed \<times> 'q \<Rightarrow> Closer option) \<Rightarrow>
   ('p, 'q) Circuit \<Rightarrow> streamCmdMetric \<Rightarrow> streamCmdMetric" where
  "attachHystrixProperties as_Opener as_Closer cb into =
     (let into = (case Option.bind (c_ClosedToOpen cb) as_Opener of
            None \<Rightarrow> into
          | Some e \<Rightarrow> into\<lparr>sm_CircuitBreakerErrorThresholdPercent := cop_ErrorThresholdPercentage (op_Config e),
              sm_CircuitBreakerRequestVolumeThreshold := cop_RequestVolumeThreshold (op_Config e)\<rparr>)
      in (case Option.bind (c_OpenToClose cb) as_Closer of
            None \<Rightarrow> into
          | Some s \<Rightarrow> into\<lparr>sm_CircuitBreakerSleepWindow := to_ms (ccl_SleepWindow (cl_Config s))\<rparr>))"

definition on_run :: "('a, RunStats) go \<Rightarrow> ('a, RunStats \<times> FallbackStats) go" where
  "on_run = gzoom fst (\<lambda>r (_, f). (r, f))"

definition on_fallback :: "('a, FallbackStats) go \<Rightarrow> ('a, RunStats \<times> FallbackStats) go" where
  "on_fallback = gzoom snd (\<lambda>f (r, _). (r, f))"

definition run_sum :: "gotime \<Rightarrow> stat \<Rightarrow> (int64, RunStats \<times> FallbackStats) go" where
  "run_sum now k = on_run (on_counter k (rc_RollingSumAt now))"

definition fallback_sum :: "gotime \<Rightarrow> fallback_stat \<Rightarrow> (int64, RunStats \<times> FallbackStats) go" where
  "fallback_sum now k = on_fallback (gzoom (fs_counter k) (fs_set k) (rc_RollingSumAt now))"

text \<open>The total of a counter, read at the moment it is asked.\<close>

definition fallback_total :: "fallback_stat \<Rightarrow> (int64, RunStats \<times> FallbackStats) go" where
  "fallback_total k = gget (\<lambda>(r, f). rc_TotalSum (fs_counter k f))"

text \<open>The event of a circuit at \<open>now\<close>, from its collectors; the calls are in the order of the literal.\<close>

definition command_event :: "('p, 'q) Circuit \<Rightarrow> gotime \<Rightarrow> (streamCmdMetric, RunStats \<times> FallbackStats) go" where
  "command_event cb now =
     gbind (on_run (on_latencies (rp_SnapshotAt now))) (\<lambda>snap.
     let circuitConfig = c_Config cb in
     gbind (on_run (rs_LegitimateAttemptsAt now)) (\<lambda>attempts.
     gbind (run_sum now ErrInterrupts) (\<lambda>interrupts.
     gbind (on_run (rs_ErrorsAt now)) (\<lambda>errors.
     gbind (on_run (rs_ErrorPercentageAt now)) (\<lambda>pct.
     gbind (fallback_sum now FallbackSuccesses) (\<lambda>fb_success.
     gbind (fallback_sum now FallbackFailures) (\<lambda>fb_failure.
     gbind (fallback_sum now FallbackRejects) (\<lambda>fb_rejection.
     gbind (run_sum now Successes) (\<lambda>success.
     gbind (run_sum now ErrConcurrencyLimitRejects) (\<lambda>rejected.
     gbind (run_sum now ErrFailures) (\<lambda>failure.
     gbind (run_sum now ErrShortCircuits) (\<lambda>short.
     gbind (run_sum now ErrTimeouts) (\<lambda>timeout.
     gbind (run_sum now ErrBadRequests) (\<lambda>bad.
     gbind (run_sum now ErrInterrupts) (\<lambda>interrupted.
     gbind (fallback_total FallbackSuccesses) (\<lambda>tot_fb_success.
     gbind (fallback_total FallbackFailures) (\<lambda>tot_fb_failure.
     gbind (fallback_total FallbackRejects) (\<lambda>tot_fb_rejection.
     gbind (gget (\<lambda>(r, f) k. rc_TotalSum (rs_counter k r))) (\<lambda>tot.
     gbind (generateLatencyTimings snap) (\<lambda>latency_total.
     gbind (generateLatencyTimings snap) (\<lambda>latency_execute.
     gbind (gget (rs_Config \<circ> fst)) (\<lambda>stats_config.
     greturn \<lparr>sm_Type = ''HystrixCommand'', sm_Name = c_name cb, sm_Group = [],
       sm_Time = to_ms (time_UnixNano now), sm_ReportingHosts = 1,
       sm_RequestCount = add64 attempts interrupts, sm_ErrorCount = errors,
       sm_ErrorPct = int_of_float (fl64 (100 * pct)), sm_CircuitBreakerOpen = IsOpen cb,
       sm_RollingCountFallbackSuccess = fb_success, sm_RollingCountFallbackFailure = fb_failure,
       sm_RollingCountFallbackRejection = fb_rejection,
       sm_RollingCountSuccess = success, sm_RollingCountSemaphoreRejected = rejected,
       sm_RollingCountFailure = failure, sm_RollingCountShortCircuited = short, sm_RollingCountTimeout = timeout,
       sm_RollingCountBadRequests = add64 bad interrupted,
       sm_TotalCountFallbackSuccess = tot_fb_success, sm_TotalCountFallbackFailure = tot_fb_failure,
       sm_TotalCountFallbackRejection = tot_fb_rejection,
       sm_TotalCountSuccess = tot Successes, sm_TotalCountSemaphoreRejected = tot ErrConcurrencyLimitRejects,
       sm_TotalCountFailure = tot ErrFailures, sm_TotalCountShortCircuited = tot ErrShortCircuits,
       sm_TotalCountTimeout = tot ErrTimeouts,
       sm_TotalCountBadRequests = add64 (tot ErrBadRequests) (tot ErrInterrupts),
       sm_LatencyTotal = latency_total, sm_LatencyTotalMean = to_ms (sd_Mean snap),
       sm_LatencyExecute = latency_execute, sm_LatencyExecuteMean = to_ms (sd_Mean snap),
       sm_CurrentConcurrentExecutionCount = c_concurrentCommands cb,
       sm_ExecutionIsolationStrategy = ''SEMAPHORE'',
       sm_CircuitBreakerEnabled = (\<not> gc_Disabled (cf_General circuitConfig)),
       sm_CircuitBreakerForceClosed = gc_ForcedClosed (cf_General circuitConfig),
       sm_CircuitBreakerForceOpen = gc_ForceOpen (cf_General circuitConfig),
       sm_ExecutionIsolationSemaphoreMaxConcurrentRequests = ec_MaxConcurrentRequests (cf_Execution circuitConfig),
       sm_ExecutionIsolationThreadTimeout = to_ms (ec_Timeout (cf_Execution circuitConfig)),
       sm_FallbackIsolationSemaphoreMaxConcurrentRequests = fc_MaxConcurrentRequests (cf_Fallback circuitConfig),
       sm_RollingStatsWindow = to_ms (rsc_RollingStatsDuration stats_config),
       sm_CircuitBreakerErrorThresholdPercent = 0, sm_CircuitBreakerRequestVolumeThreshold = 0,
       sm_CircuitBreakerSleepWindow = 0,
       sm_RollingCountCollapsedRequests = 0, sm_RollingCountExceptionsThrown = 0, sm_RollingCountResponsesFromCache = 0,
       sm_RollingCountThreadPoolRejected = 0, sm_ExecutionIsolationThreadPoolKeyOverride = [],
       sm_ExecutionIsolationThreadInterruptOnTimeout = False, sm_RequestCacheEnabled = False,
       sm_RequestLogEnabled = False\<rparr>))))))))))))))))))))))"

text \<open>A circuit with the memory of the collectors behind its pointers.\<close>

record ('p, 'q) Monitored =
  mon_circuit :: "('p, 'q) Circuit"
  mon_run :: "nat \<rightharpoonup> RunStats"
  mon_fallback :: "nat \<rightharpoonup> FallbackStats"

text \<open>
  \<^verbatim>\<open>collectCommandMetrics\<close>: the collectors found, or zero ones that are thrown away afterwards; then the
  clock of the circuit's configuration; then the event.
\<close>

definition lookup_stats :: "'r \<Rightarrow> (nat \<rightharpoonup> 'r) \<Rightarrow> nat option \<Rightarrow> 'r" where
  "lookup_stats z objs k = (case Option.bind k objs of None \<Rightarrow> z | Some r \<Rightarrow> r)"

definition store_stats :: "nat option \<Rightarrow> 'r \<Rightarrow> (nat \<rightharpoonup> 'r) \<Rightarrow> (nat \<rightharpoonup> 'r)" where
  "store_stats k r objs = (case k of None \<Rightarrow> objs | Some k \<Rightarrow> objs(k \<mapsto> r))"

definition config_now :: "(gotime, ('p, 'q) Monitored) go" where
  "config_now = (\<lambda>m. case tk_Now (gc_TimeKeeper (cf_General (c_Config (mon_circuit m)))) of
     None \<Rightarrow> (Panics NilDereference, m)
   | Some clk \<Rightarrow> (case read_clock clk (c_readings (mon_circuit m)) of
       (r, n) \<Rightarrow> (r, m\<lparr>mon_circuit := (mon_circuit m)\<lparr>c_readings := n\<rparr>\<rparr>)))"

definition collectCommandMetrics ::
  "('p ClosedToOpen \<times> 'p \<Rightarrow> Opener option) \<Rightarrow> ('q OpenToClosed \<times> 'q \<Rightarrow> Closer option) \<Rightarrow>
   (streamCmdMetric, ('p, 'q) Monitored) go" where
  "collectCommandMetrics as_Opener as_Closer =
     gbind (gget (\<lambda>m. FindCommandMetrics (mon_run m) (mon_circuit m))) (\<lambda>k.
     gbind (gget (\<lambda>m. FindFallbackMetrics (mon_fallback m) (mon_circuit m))) (\<lambda>j.
     gbind config_now (\<lambda>now.
     gbind (gget mon_circuit) (\<lambda>cb.
     gbind (gzoom (\<lambda>m. (lookup_stats zero_RunStats (mon_run m) k, lookup_stats zero_FallbackStats (mon_fallback m) j))
              (\<lambda>(r, f) m. m\<lparr>mon_run := store_stats k r (mon_run m), mon_fallback := store_stats j f (mon_fallback m)\<rparr>)
              (command_event cb now)) (\<lambda>ev.
     greturn (attachHystrixProperties as_Opener as_Closer cb ev))))))"

subsection \<open>The stream\<close>

text \<open>
  \<open>es_eventStreams\<close> are the requests that listen, with the events buffered for each and not yet written.
  \<open>es_once\<close> and \<open>es_closeOnce\<close> say that the two \<^verbatim>\<open>sync.Once\<close> have run, \<open>es_closed\<close> that the channel is closed.
\<close>

record MetricEventStream =
  es_TickDuration :: duration
  es_eventStreams :: "(nat \<times> string list) list"
  es_once :: bool
  es_closeOnce :: bool
  es_closed :: bool

definition tickDuration :: "MetricEventStream \<Rightarrow> duration" where
  "tickDuration m = (if es_TickDuration m = 0 then second else es_TickDuration m)"

definition es_doOnce :: "MetricEventStream \<Rightarrow> MetricEventStream" where
  "es_doOnce m = (if es_once m then m
     else m\<lparr>es_once := True, es_eventStreams := [], es_closed := False\<rparr>)"

definition listenerCount :: "MetricEventStream \<Rightarrow> nat" where
  "listenerCount m = length (es_eventStreams m)"

definition stream_capacity :: nat where
  "stream_capacity = 1024"

text \<open>The send of one event to one listener: dropped when its channel is full.\<close>

definition offer :: "string \<Rightarrow> string list \<Rightarrow> string list" where
  "offer event ch = (if length ch < stream_capacity then ch @ [event] else ch)"

definition sendEvent :: "string \<Rightarrow> MetricEventStream \<Rightarrow> MetricEventStream" where
  "sendEvent event m = m\<lparr>es_eventStreams := map (\<lambda>(req, ch). (req, offer event ch)) (es_eventStreams m)\<rparr>"

text \<open>
  A request that starts to listen, which is refused when its writer cannot flush; a request that is gone;
  and one step of a writer that takes an event.
\<close>

definition es_listen :: "bool \<Rightarrow> nat \<Rightarrow> MetricEventStream \<Rightarrow> MetricEventStream" where
  "es_listen flushes req m = (let m = es_doOnce m in
     if \<not> flushes then m else m\<lparr>es_eventStreams := AList.update req [] (es_eventStreams m)\<rparr>)"

definition es_gone :: "nat \<Rightarrow> MetricEventStream \<Rightarrow> MetricEventStream" where
  "es_gone req m = m\<lparr>es_eventStreams := filter (\<lambda>(r, ch). r \<noteq> req) (es_eventStreams m)\<rparr>"

definition es_take :: "nat \<Rightarrow> MetricEventStream \<Rightarrow> string option \<times> MetricEventStream" where
  "es_take req m = (case map_of (es_eventStreams m) req of
     Some (e # ch) \<Rightarrow> (Some e, m\<lparr>es_eventStreams := AList.update req ch (es_eventStreams m)\<rparr>)
   | _ \<Rightarrow> (None, m))"

text \<open>\<^verbatim>\<open>Close\<close>: closing the channel a second time would panic.\<close>

definition es_Close :: "(unit, MetricEventStream) go" where
  "es_Close = gseq (gmodify es_doOnce)
    (gbind (gget es_closeOnce) (\<lambda>closed. if closed then greturn ()
     else gseq (gmodify (\<lambda>m. m\<lparr>es_closeOnce := True\<rparr>))
         (gbind (gget es_closed) (\<lambda>closed. if closed then gpanic (UserPanic ''close of closed channel'')
          else gmodify (\<lambda>m. m\<lparr>es_closed := True\<rparr>)))))"

text \<open>
  One tick of \<^verbatim>\<open>Start\<close>: nothing is collected when nobody listens; otherwise every circuit of the manager
  is reported, in the order \<^verbatim>\<open>AllCircuits\<close> lists them, and an event that cannot be encoded is skipped.
  \<open>collected p\<close> is what \<^verbatim>\<open>collectCommandMetrics\<close> gives for the circuit behind the pointer \<open>p\<close>.
\<close>

definition event_bytes :: "(streamCmdMetric \<Rightarrow> string option) \<Rightarrow> streamCmdMetric \<Rightarrow> string option" where
  "event_bytes encode metric = map_option (\<lambda>json. ''data:'' @ json @ ''\<newline>'') (encode metric)"

definition es_tick ::
  "(streamCmdMetric \<Rightarrow> string option) \<Rightarrow> (nat \<Rightarrow> streamCmdMetric) \<Rightarrow> nat list \<Rightarrow> MetricEventStream \<Rightarrow> MetricEventStream" where
  "es_tick encode collected circuits m = (if listenerCount m = 0 then m
     else fold (\<lambda>p m. case event_bytes encode (collected p) of None \<Rightarrow> m | Some b \<Rightarrow> sendEvent b m) circuits m)"

subsection \<open>Calls that answer\<close>

text \<open>\<open>responds I m Q\<close>: from a state with \<open>I\<close>, the call returns a value with \<open>Q\<close> and keeps \<open>I\<close>.\<close>

definition responds :: "('s \<Rightarrow> bool) \<Rightarrow> ('a, 's) go \<Rightarrow> ('a \<Rightarrow> bool) \<Rightarrow> bool" where
  "responds I m Q \<longleftrightarrow> (\<forall>s. I s \<longrightarrow> (\<exists>a s'. m s = (Returns a, s') \<and> I s' \<and> Q a))"

lemma responds_gbind:
  "responds I m P \<Longrightarrow> (\<And>a. P a \<Longrightarrow> responds I (k a) Q) \<Longrightarrow> responds I (gbind m k) Q"
  unfolding responds_def gbind_def
proof (intro allI impI)
  fix s
  assume m: "\<forall>s. I s \<longrightarrow> (\<exists>a s'. m s = (Returns a, s') \<and> I s' \<and> P a)"
    and k: "\<And>a. P a \<Longrightarrow> \<forall>s. I s \<longrightarrow> (\<exists>b s'. k a s = (Returns b, s') \<and> I s' \<and> Q b)" and s: "I s"
  obtain a s' where "m s = (Returns a, s')" "I s'" "P a" using m s by blast
  then show "\<exists>b s'. (case m s of (Returns a, s') \<Rightarrow> k a s' | (Panics p, s') \<Rightarrow> (Panics p, s')
      | (Blocks, s') \<Rightarrow> (Blocks, s')) = (Returns b, s') \<and> I s' \<and> Q b" using k by simp
qed

lemma responds_value: "responds I m (\<lambda>v. v = a) \<Longrightarrow> responds I (k a) Q \<Longrightarrow> responds I (gbind m k) Q"
  by (erule responds_gbind) simp

lemma responds_any: "responds I m (\<lambda>_. True) \<Longrightarrow> (\<And>a. responds I (k a) Q) \<Longrightarrow> responds I (gbind m k) Q"
  by (erule responds_gbind) simp

lemma responds_greturn: "Q a \<Longrightarrow> responds I (greturn a) Q"
  by (simp add: responds_def go_simps)

lemma responds_gget: "(\<And>s. I s \<Longrightarrow> f s = a) \<Longrightarrow> responds I (gget f) (\<lambda>v. v = a)"
  by (simp add: responds_def go_simps)

lemma generateLatencyTimings_responds:
  assumes "int (length snap) \<le> 2 ^ 53"
  shows "responds I (generateLatencyTimings snap) (\<lambda>_. True)"
proof -
  have ms: "responds I (percentile_ms p snap) (\<lambda>_. True)" for p
    unfolding responds_def percentile_ms_def
  proof (intro allI impI)
    fix s
    assume "I s"
    moreover obtain v where "sd_Percentile (Finite p) snap s = (Returns v, s)"
      using sd_Percentile_returns [OF assms, of p s] by blast
    ultimately show "\<exists>a s'. gbind (sd_Percentile (Finite p) snap) (\<lambda>d. greturn (to_ms d)) s = (Returns a, s') \<and>
        I s' \<and> True" by (simp add: go_simps)
  qed
  show ?thesis unfolding generateLatencyTimings_def
    by (rule responds_any [OF ms] | rule responds_greturn)+ simp
qed

text \<open>
  What collecting keeps: the counters of the run collector have counted the history \<open>h\<close>, those of the
  fallback collector \<open>fh\<close>, and the configuration is \<open>c\<close>.
\<close>

definition collecting :: "RollingBuckets \<Rightarrow> run_history \<Rightarrow> RollingBuckets \<Rightarrow> (fallback_event \<times> gotime) list \<Rightarrow>
    RunStatsConfig \<Rightarrow> gotime \<Rightarrow> RunStats \<times> FallbackStats \<Rightarrow> bool" where
  "collecting g h gf fh c now s \<longleftrightarrow> (\<exists>t t'. t \<le> now \<and> t' \<le> now \<and> rs_counted g h t (fst s) \<and> fs_sim gf fh t' (snd s)) \<and>
     rs_config (fst s) = c"

lemma collecting_total:
  assumes "collecting g h gf fh c now s" "int (length h) \<le> max_int64" "int (length fh) \<le> max_int64"
  shows "rc_TotalSum (rs_counter k (fst s)) = int (length (times_of k h))"
    "rc_TotalSum (fs_counter j (snd s)) = int (length (fs_times j fh))" "rs_config (fst s) = c"
  using assms length_times_of [of k h] length_fs_times [of j fh]
  by (auto simp: collecting_def rs_counted_def fs_sim_def rc_TotalSum_def in_int64_def min_int64_def)

lemma on_run_responds:
  assumes m: "\<And>r t. rs_counted g h t r \<Longrightarrow> t \<le> now \<Longrightarrow> \<exists>r'. m r = (Returns v, r') \<and> rs_counted g h now r'"
    and c: "keeps (\<lambda>r. rs_config r = c) m"
  shows "responds (collecting g h gf fh c now) (on_run m) (\<lambda>a. a = v)"
  unfolding responds_def
proof (intro allI impI)
  fix s
  assume s: "collecting g h gf fh c now s"
  then obtain t t' where t: "t \<le> now" "t' \<le> now" "rs_counted g h t (fst s)" "fs_sim gf fh t' (snd s)" "rs_config (fst s) = c"
    by (auto simp: collecting_def)
  obtain r' where r': "m (fst s) = (Returns v, r')" "rs_counted g h now r'" using m [OF t(3,1)] by blast
  then have "rs_config r' = c" using keepsD [OF c t(5) r'(1)] by simp
  then have "collecting g h gf fh c now (r', snd s)" using r'(2) t(2,4) by (auto simp: collecting_def)
  then show "\<exists>a s'. on_run m s = (Returns a, s') \<and> collecting g h gf fh c now s' \<and> a = v"
    using r'(1) by (cases s) (simp add: on_run_def go_simps)
qed

lemma on_counter_keeps_config: "keeps (\<lambda>r. rs_config r = c) (on_counter k m)"
  by (rule keepsI) (simp add: on_counter_run split: prod.split)

lemmas stats_keep_config = on_counter_keeps_config keeps_gbind keeps_if keeps_basic

lemma sums_keep_config:
  "keeps (\<lambda>r. rs_config r = c) (rs_ErrorsAt now)" "keeps (\<lambda>r. rs_config r = c) (rs_LegitimateAttemptsAt now)"
  "keeps (\<lambda>r. rs_config r = c) (rs_ErrorPercentageAt now)"
  unfolding rs_LegitimateAttemptsAt_def rs_ErrorPercentageAt_def rs_ErrorsAt_def
  by (intro stats_keep_config)+

lemma fallback_sum_responds:
  assumes "usable gf now" "int (length fh) \<le> max_int64"
  shows "responds (collecting g h gf fh c now) (fallback_sum now k) (\<lambda>a. a = recent_fallbacks gf now fh k)"
  unfolding responds_def
proof (intro allI impI)
  fix s
  assume "collecting g h gf fh c now s"
  then obtain t t' where t: "t \<le> now" "t' \<le> now" "rs_counted g h t (fst s)" "fs_sim gf fh t' (snd s)" "rs_config (fst s) = c"
    by (auto simp: collecting_def)
  obtain f' where f': "gzoom (fs_counter k) (fs_set k) (rc_RollingSumAt now) (snd s) =
      (Returns (recent_fallbacks gf now fh k), f')" "fs_sim gf fh now f'"
    using fs_sum_sim [OF t(4,2) assms] by blast
  then have "collecting g h gf fh c now (fst s, f')" using t by (auto simp: collecting_def)
  then show "\<exists>a s'. fallback_sum now k s = (Returns a, s') \<and> collecting g h gf fh c now s' \<and> a = recent_fallbacks gf now fh k"
    using f'(1) by (cases s) (simp add: fallback_sum_def on_fallback_def go_simps)
qed

text \<open>
  What an event says of a circuit whose collectors have counted \<open>h\<close> and \<open>fh\<close>. Interrupted requests are
  shown among the requests and the bad requests.
\<close>

definition event_shows :: "('p, 'q) Circuit \<Rightarrow> RollingBuckets \<Rightarrow> run_history \<Rightarrow> RollingBuckets \<Rightarrow>
    (fallback_event \<times> gotime) list \<Rightarrow> RunStatsConfig \<Rightarrow> gotime \<Rightarrow> streamCmdMetric \<Rightarrow> bool" where
  "event_shows cb g h gf fh c now ev \<longleftrightarrow>
     sm_Name ev = c_name cb \<and> sm_CircuitBreakerOpen ev = IsOpen cb \<and>
     sm_CurrentConcurrentExecutionCount ev = c_concurrentCommands cb \<and>
     sm_RequestCount ev = recent_attempts g now h + recent g now h ErrInterrupts \<and>
     sm_ErrorCount ev = recent_errors g now h \<and>
     sm_ErrorPct ev = int_of_float (fl64 (100 * error_ratio g now h)) \<and>
     sm_RollingCountFallbackSuccess ev = recent_fallbacks gf now fh FallbackSuccesses \<and>
     sm_RollingCountFallbackFailure ev = recent_fallbacks gf now fh FallbackFailures \<and>
     sm_RollingCountFallbackRejection ev = recent_fallbacks gf now fh FallbackRejects \<and>
     sm_RollingCountSuccess ev = recent g now h Successes \<and>
     sm_RollingCountSemaphoreRejected ev = recent g now h ErrConcurrencyLimitRejects \<and>
     sm_RollingCountFailure ev = recent g now h ErrFailures \<and>
     sm_RollingCountShortCircuited ev = recent g now h ErrShortCircuits \<and>
     sm_RollingCountTimeout ev = recent g now h ErrTimeouts \<and>
     sm_RollingCountBadRequests ev = recent g now h ErrBadRequests + recent g now h ErrInterrupts \<and>
     sm_TotalCountFallbackSuccess ev = int (length (fs_times FallbackSuccesses fh)) \<and>
     sm_TotalCountFallbackFailure ev = int (length (fs_times FallbackFailures fh)) \<and>
     sm_TotalCountFallbackRejection ev = int (length (fs_times FallbackRejects fh)) \<and>
     sm_TotalCountSuccess ev = int (length (times_of Successes h)) \<and>
     sm_TotalCountSemaphoreRejected ev = int (length (times_of ErrConcurrencyLimitRejects h)) \<and>
     sm_TotalCountFailure ev = int (length (times_of ErrFailures h)) \<and>
     sm_TotalCountShortCircuited ev = int (length (times_of ErrShortCircuits h)) \<and>
     sm_TotalCountTimeout ev = int (length (times_of ErrTimeouts h)) \<and>
     sm_TotalCountBadRequests ev = int (length (times_of ErrBadRequests h)) + int (length (times_of ErrInterrupts h)) \<and>
     sm_RollingStatsWindow ev = to_ms (rsc_RollingStatsDuration c)"

lemma small_add: "0 \<le> a \<Longrightarrow> a < 2 ^ 45 \<Longrightarrow> 0 \<le> b \<Longrightarrow> b < 2 ^ 45 \<Longrightarrow> add64 a b = a + b"
  by (simp add: add64_exact in_int64_def min_int64_def max_int64_def)

lemma small_sums:
  assumes "int (length h) < 2 ^ 45"
  shows "add64 (recent_attempts g now h) (recent g now h k) = recent_attempts g now h + recent g now h k"
    "add64 (recent g now h j) (recent g now h k) = recent g now h j + recent g now h k"
    "add64 (int (length (times_of j h))) (int (length (times_of k h))) = int (length (times_of j h)) + int (length (times_of k h))"
proof -
  have "0 \<le> recent g now h k" "recent g now h k < 2 ^ 45" "int (length (times_of k h)) < 2 ^ 45" for k
    using recent_bounds [of g now h k] length_times_of [of k h] assms by linarith+
  then show "add64 (recent_attempts g now h) (recent g now h k) = recent_attempts g now h + recent g now h k"
    "add64 (recent g now h j) (recent g now h k) = recent g now h j + recent g now h k"
    "add64 (int (length (times_of j h))) (int (length (times_of k h))) = int (length (times_of j h)) + int (length (times_of k h))"
    using recent_attempts_bounds [of g now h] assms by (intro small_add; simp; linarith?)+
qed

lemma gbind_responds:
  "m s = (Returns a, s') \<Longrightarrow> I s' \<Longrightarrow> responds I (k a) Q \<Longrightarrow>
    \<exists>v s''. gbind m k s = (Returns v, s'') \<and> Q v \<and> I s''"
  by (auto simp: responds_def go_simps)

lemma command_event_responds:
  assumes r: "rs_sim g gp cap h t r" "t \<le> now" "usable g now" "int (length h) < 2 ^ 45" "rb_NumBuckets gp * int cap \<le> 2 ^ 53"
    and f: "fs_sim gf fh t' f" "t' \<le> now" "usable gf now" "int (length fh) \<le> max_int64" and c: "rs_config r = c"
  shows "\<exists>ev s'. command_event cb now (r, f) = (Returns ev, s') \<and> event_shows cb g h gf fh c now ev \<and>
    collecting g h gf fh c now s'"
proof -
  let ?I = "collecting g h gf fh c now"
  have small: "int (length h) \<le> max_int64" "int (length h) \<le> 2 ^ 53" using r(4) by (simp_all add: max_int64_def)
  have sums: "responds ?I (run_sum now k) (\<lambda>a. a = recent g now h k)" for k
    unfolding run_sum_def using rs_sum_sim [OF _ _ r(3) small(1)] by (intro on_run_responds on_counter_keeps_config) blast
  have attempts: "responds ?I (on_run (rs_LegitimateAttemptsAt now)) (\<lambda>a. a = recent_attempts g now h)"
    using rs_LegitimateAttemptsAt_sim [OF _ _ r(3) small(1)] by (intro on_run_responds sums_keep_config) blast
  have errors: "responds ?I (on_run (rs_ErrorsAt now)) (\<lambda>a. a = recent_errors g now h)"
    using rs_ErrorsAt_sim [OF _ _ r(3) small(1)] by (intro on_run_responds sums_keep_config) blast
  have pct: "responds ?I (on_run (rs_ErrorPercentageAt now)) (\<lambda>a. a = error_ratio g now h)"
    using rs_ErrorPercentageAt_sim [OF _ _ r(3) small(2)] by (intro on_run_responds sums_keep_config) blast
  note totals = collecting_total [OF _ small(1) f(4)]
  have fb: "responds ?I (fallback_total k) (\<lambda>a. a = int (length (fs_times k fh)))" for k
    unfolding fallback_total_def using totals(2) by (intro responds_gget) force
  have tot: "responds ?I (gget (\<lambda>(r, f) k. rc_TotalSum (rs_counter k r))) (\<lambda>a. a = (\<lambda>k. int (length (times_of k h))))"
    using totals(1) by (intro responds_gget) (auto simp: fun_eq_iff)
  have cfg: "responds ?I (gget (rs_Config \<circ> fst)) (\<lambda>a. a = c)"
    using totals(3) by (intro responds_gget) (simp add: rs_Config_def)
  note fallbacks = fallback_sum_responds [OF f(3,4)]
  let ?snap = "sort (sw_durations gp cap (sw_advance gp now (sw_run gp (latency_ops h))))"
  have "rb_NumBuckets gp * int cap \<le> max_int64" using r(5) by (simp add: max_int64_def)
  then obtain l where l: "rp_SnapshotAt now (rs_Latencies r) = (Returns ?snap, l)"
    using rp_SortedDurations_sim [of gp cap "sw_run gp (latency_ops h)" "rs_Latencies r" now] r(1)
    by (auto simp: rs_sim_def rp_SnapshotAt_def)
  have "int (length ?snap) \<le> 2 ^ 53"
    using length_sw_durations [of gp cap "sw_advance gp now (sw_run gp (latency_ops h))"] r(5)
    by (cases "0 \<le> rb_NumBuckets gp") (auto dest: of_nat_mono [where 'a = int])
  note timings = generateLatencyTimings_responds [OF this]
  have start: "?I (r\<lparr>rs_Latencies := l\<rparr>, f)"
    using r(1,2) f(1,2) c by (auto simp: collecting_def rs_sim_def rs_counted_def)
  have snap: "on_run (on_latencies (rp_SnapshotAt now)) (r, f) = (Returns ?snap, (r\<lparr>rs_Latencies := l\<rparr>, f))"
    by (simp add: go_simps on_run_def on_latencies_run l)
  note vals = attempts sums errors pct fallbacks fb tot cfg
  show ?thesis
    unfolding command_event_def Let_def
    apply (rule gbind_responds, rule snap, rule start)
    apply (rule vals [THEN responds_value] timings [THEN responds_any])+
    apply (rule responds_greturn)
    apply (simp add: event_shows_def small_sums [OF r(4)])
    done
qed

lemma attachHystrixProperties_shows [simp]:
  "event_shows cb g h gf fh c now (attachHystrixProperties as_Opener as_Closer cb' ev) = event_shows cb g h gf fh c now ev"
  by (simp add: attachHystrixProperties_def event_shows_def Let_def split: option.split)

lemma event_shows_readings [simp]:
  "event_shows (cb\<lparr>c_readings := n\<rparr>) g h gf fh c now ev = event_shows cb g h gf fh c now ev"
  by (simp add: event_shows_def IsOpen_def)

lemma attachHystrixProperties_thresholds:
  "Option.bind (c_ClosedToOpen cb) as_Opener = Some e \<Longrightarrow>
     sm_CircuitBreakerErrorThresholdPercent (attachHystrixProperties as_Opener as_Closer cb ev) = cop_ErrorThresholdPercentage (op_Config e) \<and>
     sm_CircuitBreakerRequestVolumeThreshold (attachHystrixProperties as_Opener as_Closer cb ev) = cop_RequestVolumeThreshold (op_Config e)"
  "Option.bind (c_OpenToClose cb) as_Closer = Some s \<Longrightarrow>
     sm_CircuitBreakerSleepWindow (attachHystrixProperties as_Opener as_Closer cb ev) = to_ms (ccl_SleepWindow (cl_Config s))"
  "sm_ErrorPct (attachHystrixProperties as_Opener as_Closer cb ev) = sm_ErrorPct ev"
  by (simp_all add: attachHystrixProperties_def Let_def split: option.split)

lemma collect_run:
  assumes "tk_Now (gc_TimeKeeper (cf_General (c_Config (mon_circuit m)))) = Some clk"
    and "cb = (mon_circuit m)\<lparr>c_readings := Suc (c_readings (mon_circuit m))\<rparr>"
    and "k = FindCommandMetrics (mon_run m) (mon_circuit m)" "j = FindFallbackMetrics (mon_fallback m) (mon_circuit m)"
    and "command_event cb (clk (c_readings (mon_circuit m))) (lookup_stats zero_RunStats (mon_run m) k,
      lookup_stats zero_FallbackStats (mon_fallback m) j) = (Returns ev, (r, f))"
  shows "collectCommandMetrics as_Opener as_Closer m = (Returns (attachHystrixProperties as_Opener as_Closer cb ev),
    \<lparr>mon_circuit = cb, mon_run = store_stats k r (mon_run m), mon_fallback = store_stats j f (mon_fallback m)\<rparr>)"
  using assms by (simp add: collectCommandMetrics_def config_now_def go_simps)

text \<open>A circuit without collectors is shown too, with every count zero.\<close>

lemma zero_counter_sum: "rc_RollingSumAt now zero_RollingCounter = (Returns 0, zero_RollingCounter)"
  by (simp add: rc_RollingSumAt_def rc_Advance_def Advance_def rc_sumBuckets_def zero_RollingCounter_def go_simps)

lemma zero_counters: "rs_counter k zero_RunStats = zero_RollingCounter" "fs_counter j zero_FallbackStats = zero_RollingCounter"
  "rs_set k zero_RollingCounter zero_RunStats = zero_RunStats" "fs_set j zero_RollingCounter zero_FallbackStats = zero_FallbackStats"
  by (cases k; cases j; simp add: zero_RunStats_def zero_FallbackStats_def)+

lemma zero_totals: "rc_TotalSum zero_RollingCounter = 0" "rs_Config zero_RunStats = zero_RunStatsConfig"
  by (simp_all add: rc_TotalSum_def zero_RollingCounter_def rs_Config_def zero_RunStats_def)

lemma zero_event:
  "\<exists>ev. command_event cb now (zero_RunStats, zero_FallbackStats) = (Returns ev, (zero_RunStats, zero_FallbackStats)) \<and>
     (\<forall>g gf. event_shows cb g [] gf [] zero_RunStatsConfig now ev)"
proof -
  let ?I = "\<lambda>s. s = (zero_RunStats, zero_FallbackStats)"
  have k: "on_counter k (rc_RollingSumAt now) zero_RunStats = (Returns 0, zero_RunStats)" for k
    by (simp add: on_counter_run zero_counters zero_counter_sum)
  have "rs_ErrorsAt now zero_RunStats = (Returns 0, zero_RunStats)"
    "rs_LegitimateAttemptsAt now zero_RunStats = (Returns 0, zero_RunStats)"
    "rs_ErrorPercentageAt now zero_RunStats = (Returns 0, zero_RunStats)"
    by (simp_all add: rs_ErrorPercentageAt_def rs_LegitimateAttemptsAt_def rs_ErrorsAt_def go_simps k add64_def wrap64_def)
  with k have run: "responds ?I (run_sum now k) (\<lambda>a. a = 0)" "responds ?I (on_run (rs_LegitimateAttemptsAt now)) (\<lambda>a. a = 0)"
    "responds ?I (on_run (rs_ErrorsAt now)) (\<lambda>a. a = 0)" "responds ?I (on_run (rs_ErrorPercentageAt now)) (\<lambda>a. a = 0)" for k
    by (simp_all add: responds_def run_sum_def on_run_def go_simps)
  have fb: "responds ?I (fallback_sum now j) (\<lambda>a. a = 0)" for j
    by (simp add: responds_def fallback_sum_def on_fallback_def go_simps zero_counters zero_counter_sum)
  have tot: "responds ?I (fallback_total j) (\<lambda>a. a = 0)"
    "responds ?I (gget (\<lambda>(r, f) k. rc_TotalSum (rs_counter k r))) (\<lambda>a. a = (\<lambda>_. 0))"
    "responds ?I (gget (rs_Config \<circ> fst)) (\<lambda>a. a = zero_RunStatsConfig)" for j
    by (simp_all add: responds_def fallback_total_def go_simps zero_counters zero_totals)
  note timings = generateLatencyTimings_responds [of "[]"]
  have snap: "on_run (on_latencies (rp_SnapshotAt now)) (zero_RunStats, zero_FallbackStats) =
      (Returns [], (zero_RunStats, zero_FallbackStats))"
    by (simp add: on_run_def on_latencies_run rp_SnapshotAt_def rp_SortedDurations_def zero_RunStats_def
        zero_RollingPercentile_def go_simps)
  have "\<exists>v s. command_event cb now (zero_RunStats, zero_FallbackStats) = (Returns v, s) \<and>
      (\<forall>g gf. event_shows cb g [] gf [] zero_RunStatsConfig now v) \<and> s = (zero_RunStats, zero_FallbackStats)"
    unfolding command_event_def Let_def
    apply (rule gbind_responds, rule snap, rule refl)
    apply (rule run [THEN responds_value] fb [THEN responds_value] tot [THEN responds_value] timings [THEN responds_any], simp?)+
    apply (rule responds_greturn)
    apply (simp add: event_shows_def recent_def recent_attempts_def recent_errors_def recent_fallbacks_def error_ratio_def
        times_of_def fs_times_def recent_events_def add64_def wrap64_def int_of_float_def fl64_def trunc_def)
    done
  then show ?thesis by blast
qed

subsection \<open>What a listener gets\<close>

datatype stream_op = SListen bool nat | SGone nat | STake nat | SSend string | SClose

fun es_step :: "stream_op \<Rightarrow> MetricEventStream \<Rightarrow> (nat \<times> string) list \<times> MetricEventStream" where
  "es_step (SListen flushes r) m = ([], es_listen flushes r m)"
| "es_step (SGone r) m = ([], es_gone r m)"
| "es_step (STake r) m = (case es_take r m of (None, m') \<Rightarrow> ([], m') | (Some e, m') \<Rightarrow> ([(r, e)], m'))"
| "es_step (SSend e) m = ([], sendEvent e m)"
| "es_step SClose m = ([], snd (es_Close m))"

text \<open>A sequence of steps, with the events written to each request.\<close>

fun es_run :: "stream_op list \<Rightarrow> MetricEventStream \<Rightarrow> (nat \<times> string) list \<times> MetricEventStream" where
  "es_run [] m = ([], m)"
| "es_run (op # ops) m = (let (w, m') = es_step op m; (ws, m'') = es_run ops m' in (w @ ws, m''))"

definition written :: "nat \<Rightarrow> (nat \<times> string) list \<Rightarrow> string list" where
  "written req ws = map snd (filter (\<lambda>(r, e). r = req) ws)"

fun sent :: "stream_op list \<Rightarrow> string list" where
  "sent [] = []"
| "sent (SSend e # ops) = e # sent ops"
| "sent (_ # ops) = sent ops"

fun about :: "nat \<Rightarrow> stream_op \<Rightarrow> bool" where
  "about req (SListen flushes r) = (r = req)"
| "about req (SGone r) = (r = req)"
| "about req _ = False"

definition zero_stream :: "duration \<Rightarrow> MetricEventStream" where
  "zero_stream tick = \<lparr>es_TickDuration = tick, es_eventStreams = [], es_once = False, es_closeOnce = False, es_closed = False\<rparr>"

lemma map_of_gone: "r \<noteq> req \<Longrightarrow> map_of (filter (\<lambda>(r', ch). r' \<noteq> r) xs) req = map_of xs req"
  by (induction xs) auto

lemma map_of_offers: "map_of (map (\<lambda>(r, ch). (r, offer e ch)) xs) req = map_option (offer e) (map_of xs req)"
  by (induction xs) auto

lemma written_simps [simp]: "written req [] = []" "written req (ws @ ws') = written req ws @ written req ws'"
  "written req [(r, e)] = (if r = req then [e] else [])"
  by (simp_all add: written_def)

text \<open>One step of others, of the listener, and of the sender.\<close>

lemma es_step_buffer:
  assumes "es_once m" "\<not> about req op" "map_of (es_eventStreams m) req = Some ch" "es_step op m = (w, m')"
  shows "es_once m'" "\<exists>ch'. map_of (es_eventStreams m') req = Some ch' \<and>
    written req w @ ch' = (case op of SSend e \<Rightarrow> offer e ch | _ \<Rightarrow> ch)"
  using assms
  by (cases op; auto simp: es_listen_def es_doOnce_def es_gone_def map_of_gone sendEvent_def map_of_offers es_Close_def
      go_simps es_take_def update_conv' split: option.splits list.splits if_splits)+

lemma es_run_buffer:
  assumes "es_once m" "list_all (\<lambda>op. \<not> about req op) ops" "map_of (es_eventStreams m) req = Some ch"
    "length ch \<le> stream_capacity" "es_run ops m = (ws, m')"
  shows "\<exists>ch'. map_of (es_eventStreams m') req = Some ch' \<and> length ch' \<le> stream_capacity \<and>
    subseq (written req ws @ ch') (ch @ sent ops) \<and>
    (length ch + length (sent ops) \<le> stream_capacity \<longrightarrow> written req ws @ ch' = ch @ sent ops)"
  using assms
proof (induction ops arbitrary: m ch ws)
  case (Cons op ops)
  obtain w m1 where w: "es_step op m = (w, m1)" by fastforce
  obtain ws' where ws': "es_run ops m1 = (ws', m')" "ws = w @ ws'"
    using Cons.prems(5) w by (auto simp: Let_def split: prod.splits)
  note step = es_step_buffer [OF Cons.prems(1) _ Cons.prems(3) w]
  define X where "X = (case op of SSend e \<Rightarrow> offer e ch | _ \<Rightarrow> ch)"
  obtain ch1 where ch1: "map_of (es_eventStreams m1) req = Some ch1" "written req w @ ch1 = X" and m1: "es_once m1"
    using step Cons.prems(2) unfolding X_def by auto
  have X: "length X \<le> stream_capacity" "subseq (X @ sent ops) (ch @ sent (op # ops))"
    "length ch + length (sent (op # ops)) \<le> stream_capacity \<Longrightarrow> X @ sent ops = ch @ sent (op # ops)"
    using Cons.prems(4)
    by (auto simp: X_def offer_def subseq_append_iff intro: list_emb_append_mono split: stream_op.split)
  have len: "length (written req w) + length ch1 = length X" using ch1(2) by (metis length_append)
  then obtain ch' where ch': "map_of (es_eventStreams m') req = Some ch'" "length ch' \<le> stream_capacity"
    "subseq (written req ws' @ ch') (ch1 @ sent ops)"
    "length ch1 + length (sent ops) \<le> stream_capacity \<Longrightarrow> written req ws' @ ch' = ch1 @ sent ops"
    using Cons.IH [OF m1 _ ch1(1) _ ws'(1)] Cons.prems(2) X(1) by auto
  have eq: "written req ws @ ch' = written req w @ (written req ws' @ ch')" "written req w @ (ch1 @ sent ops) = X @ sent ops"
    by (simp_all add: ws'(2) flip: ch1(2))
  have "subseq (written req ws @ ch') (X @ sent ops)"
    unfolding eq(1) eq(2) [symmetric] by (rule list_emb_append_mono [OF subseq_order.order_refl ch'(3)])
  then have "subseq (written req ws @ ch') (ch @ sent (op # ops))" using X(2) by (rule subseq_order.order_trans)
  moreover have "written req ws @ ch' = ch @ sent (op # ops)" if "length ch + length (sent (op # ops)) \<le> stream_capacity"
  proof -
    have "length ch1 + length (sent ops) \<le> stream_capacity" using len that arg_cong [OF X(3) [OF that], of length] by simp
    then show ?thesis using ch'(4) eq X(3) [OF that] by simp
  qed
  ultimately show ?case using ch'(1,2) by blast
qed simp

lemma es_run_append: "es_run (a @ b) m = (let (w, m1) = es_run a m; (w', m2) = es_run b m1 in (w @ w', m2))"
  by (induction a arbitrary: m) (auto simp: Let_def split: prod.splits)

text \<open>The channel is closed only by the function the once guards.\<close>

definition close_guarded :: "MetricEventStream \<Rightarrow> bool" where
  "close_guarded m \<longleftrightarrow> (es_closed m \<longrightarrow> es_closeOnce m)"

lemma es_step_close_guarded: "close_guarded m \<Longrightarrow> close_guarded (snd (es_step op m))"
  by (cases op) (auto simp: close_guarded_def es_listen_def es_doOnce_def es_gone_def sendEvent_def es_Close_def go_simps
      es_take_def Let_def split: option.splits list.splits)

lemma es_run_close_guarded: "close_guarded m \<Longrightarrow> es_run ops m = (ws, m') \<Longrightarrow> close_guarded m'"
proof (induction ops arbitrary: m ws)
  case (Cons op ops)
  then show ?case using es_step_close_guarded [OF Cons.prems(1), of op] by (auto simp: Let_def split: prod.splits)
qed simp

lemma es_Close_returns: "close_guarded m \<Longrightarrow> \<exists>m'. es_Close m = (Returns (), m')"
  by (auto simp: close_guarded_def es_Close_def es_doOnce_def go_simps)

subsection \<open>Properties\<close>

text \<open>C25: The event of a monitored circuit. When its collectors have counted the histories \<open>h\<close> and \<open>fh\<close>, collecting
  returns an event that shows the counts of the rolling windows and the totals (\<open>event_shows\<close>), and the
  settings of a hystrix opener and closer. The error percentage is the exact one rounded down, but a whole
  percentage may be shown one too low. Collecting does not change what was counted.\<close>

theorem event_reports_the_window:
  assumes cb: "cb = mon_circuit m" "tk_Now (gc_TimeKeeper (cf_General (c_Config cb))) = Some clk" "now = clk (c_readings cb)"
    and k: "FindCommandMetrics (mon_run m) cb = Some k" "mon_run m k = Some r"
    and j: "FindFallbackMetrics (mon_fallback m) cb = Some j" "mon_fallback m j = Some f"
    and r: "rs_sim g gp cap h t r" "t \<le> now" "usable g now" "int (length h) < 2 ^ 45" "rb_NumBuckets gp * int cap \<le> 2 ^ 53"
    and f: "fs_sim gf fh t' f" "t' \<le> now" "usable gf now" "int (length fh) \<le> max_int64"
  shows "\<exists>ev m'. collectCommandMetrics as_Opener as_Closer m = (Returns ev, m') \<and>
    event_shows cb g h gf fh (rs_Config r) now ev \<and>
    (let P = 100 * of_int (recent_errors g now h) / rat_of_int (recent_attempts g now h)
     in \<lceil>P\<rceil> - 1 \<le> sm_ErrorPct ev \<and> sm_ErrorPct ev \<le> \<lfloor>P\<rfloor> \<and> 0 \<le> sm_ErrorPct ev \<and> sm_ErrorPct ev \<le> 100) \<and>
    (\<forall>e. Option.bind (c_ClosedToOpen cb) as_Opener = Some e \<longrightarrow>
       sm_CircuitBreakerErrorThresholdPercent ev = cop_ErrorThresholdPercentage (op_Config e) \<and>
       sm_CircuitBreakerRequestVolumeThreshold ev = cop_RequestVolumeThreshold (op_Config e)) \<and>
    (\<forall>s. Option.bind (c_OpenToClose cb) as_Closer = Some s \<longrightarrow>
       sm_CircuitBreakerSleepWindow ev = to_ms (ccl_SleepWindow (cl_Config s))) \<and>
    (\<exists>r' f'. mon_run m' = (mon_run m)(k \<mapsto> r') \<and> mon_fallback m' = (mon_fallback m)(j \<mapsto> f') \<and>
       collecting g h gf fh (rs_Config r) now (r', f'))"
proof -
  let ?cb = "cb\<lparr>c_readings := Suc (c_readings cb)\<rparr>"
  obtain ev r' f' where ev: "command_event ?cb now (r, f) = (Returns ev, (r', f'))"
    "event_shows ?cb g h gf fh (rs_Config r) now ev" "collecting g h gf fh (rs_Config r) now (r', f')"
    using command_event_responds [OF r f, of "rs_Config r" ?cb] by (auto simp: rs_Config_def)
  let ?ev = "attachHystrixProperties as_Opener as_Closer ?cb ev"
  let ?m' = "\<lparr>mon_circuit = ?cb, mon_run = (mon_run m)(k \<mapsto> r'), mon_fallback = (mon_fallback m)(j \<mapsto> f')\<rparr>"
  have "collectCommandMetrics as_Opener as_Closer m = (Returns ?ev, ?m')"
    using collect_run [of m clk ?cb "Some k" "Some j" ev r' f'] cb k j ev(1) by (simp add: lookup_stats_def store_stats_def)
  moreover have shown: "event_shows cb g h gf fh (rs_Config r) now ?ev"
    using ev(2) by simp
  moreover have "let P = 100 * of_int (recent_errors g now h) / rat_of_int (recent_attempts g now h)
     in \<lceil>P\<rceil> - 1 \<le> sm_ErrorPct ?ev \<and> sm_ErrorPct ?ev \<le> \<lfloor>P\<rfloor> \<and> 0 \<le> sm_ErrorPct ?ev \<and> sm_ErrorPct ?ev \<le> 100"
  proof (cases "recent_attempts g now h = 0")
    case True
    then show ?thesis using shown by (simp add: event_shows_def error_ratio_def int_of_float_def fl64_def trunc_def wrap64_def)
  next
    case False
    then have "0 < recent_attempts g now h" "recent_attempts g now h < 2 ^ 45"
      using recent_attempts_bounds [of g now h] r(4) by linarith+
    note T = truncated_percentage [OF recent_attempts_bounds(1,2) this]
    then show ?thesis using shown False by (simp add: event_shows_def error_ratio_def Let_def)
  qed
  moreover note attachHystrixProperties_thresholds(1,2) [of ?cb]
  ultimately show ?thesis using ev(3) by (intro exI [of _ ?ev] exI [of _ ?m'] conjI) auto
qed

text \<open>The circuit of the example, with the collectors at the places 0 and 1, on a clock that stands still.\<close>

definition monitored_example :: "RunStats \<Rightarrow> FallbackStats \<Rightarrow> (unit, unit) Monitored" where
  "monitored_example r f = \<lparr>mon_circuit = zero_Circuit\<lparr>c_name := ''c'', c_CmdMetricCollector := [RcUser 0],
       c_FallbackMetricCollector := [1], c_notThreadSafeConfig := zero_Config\<lparr>cf_General :=
         zero_GeneralConfig\<lparr>gc_TimeKeeper := \<lparr>tk_Now = Some (\<lambda>_. 2000000001), tk_AfterFunc = None\<rparr>\<rparr>\<rparr>\<rparr>,
     mon_run = [0 \<mapsto> r], mon_fallback = [1 \<mapsto> f]\<rparr>"

lemma example_collectors: "\<exists>r0 r f. rs_SetConfigNotThreadSafe (\<lambda>_. 1000) zero_RunStatsConfig (zero_RunStats, 0) = (Returns (), (r0, 1)) \<and>
    rs_history stats_example r0 = (Returns (), r) \<and>
    fs_SetConfigNotThreadSafe (\<lambda>_. 1000) zero_FallbackStatsConfig (zero_FallbackStats, 0) = (Returns (), (f, 1)) \<and>
    rs_sim (window_geometry second 10 1000) (window_geometry (10 * second) 6 1000) 100 stats_example 2000000000 r \<and>
    fs_sim (window_geometry second 10 1000) [] 1000 f"
proof -
  let ?c = "defaultRunStatsConfig (\<lambda>_. 1000)" and ?f = "defaultFallbackStatsConfig (\<lambda>_. 1000)"
  have geo: "stats_window ?c 1000 = window_geometry second 10 1000"
    "latencies_window ?c 1000 = window_geometry (10 * second) 6 1000"
    by (simp add: default_stats, simp add: defaultRunStatsConfig_def)+
  have size: "nat (rsc_RollingPercentileBucketSize ?c) = 100" by (simp add: defaultRunStatsConfig_def)
  obtain r0 where r0: "rs_SetConfigNotThreadSafe (\<lambda>_. 1000) zero_RunStatsConfig (zero_RunStats, 0) = (Returns (), (r0, 1))"
    "rs_sim (window_geometry second 10 1000) (window_geometry (10 * second) 6 1000) 100 [] 1000 r0"
    using rs_SetConfig_run [of "\<lambda>_. 1000" zero_RunStatsConfig 1000 0 zero_RunStats] default_stats(1,4) geo size
    by (auto simp: zero_RunStatsConfig_def)
  have us: "usable (window_geometry second 10 1000) 1000" by (simp add: usable_def window_geometry_def)
  have "run_end_time 1000 stats_example = 2000000000" by (simp add: stats_example_def)
  then obtain r where r: "rs_history stats_example r0 = (Returns (), r)"
    "rs_sim (window_geometry second 10 1000) (window_geometry (10 * second) 6 1000) 100 stats_example 2000000000 r"
    using rs_history_sim [OF r0(2) stats_example_ok(1) us stats_example_ok(3)] stats_example_ok(4) by (auto simp: max_int64_def)
  have fc: "fs_effective (\<lambda>_. 1000) zero_FallbackStatsConfig = ?f" "fallback_width ?f = second" "fsc_RollingStatsNumBuckets ?f = 10"
    by (simp_all add: fs_effective_def fsc_Merge_def fsc_sanitize_def zero_FallbackStatsConfig_def defaultFallbackStatsConfig_def
        fallback_width_def quo64_nonneg max_int64_def Let_def)
  have now': "1000 = (case fsc_Now zero_FallbackStatsConfig of None \<Rightarrow> \<lambda>_. 1000 | Some now \<Rightarrow> now) 0"
    by (simp add: zero_FallbackStatsConfig_def)
  obtain f where "fs_SetConfigNotThreadSafe (\<lambda>_. 1000) zero_FallbackStatsConfig (zero_FallbackStats, 0) = (Returns (), (f, 1))"
    "fs_sim (window_geometry second 10 1000) [] 1000 f"
    using fs_SetConfig_run [of "\<lambda>_. 1000" zero_FallbackStatsConfig 1000 0 zero_FallbackStats] now'
    by (auto simp: fc sane_window_def max_int64_def)
  then show ?thesis using r0(1) r by blast
qed

theorem event_reports_the_window_witness:
  "\<exists>r0 r f ev m'. rs_SetConfigNotThreadSafe (\<lambda>_. 1000) zero_RunStatsConfig (zero_RunStats, 0) = (Returns (), (r0, 1)) \<and>
    rs_history stats_example r0 = (Returns (), r) \<and>
    collectCommandMetrics (\<lambda>_. None) (\<lambda>_. None) (monitored_example r f) = (Returns ev, m') \<and>
    sm_Name ev = ''c'' \<and> sm_RequestCount ev = 3 \<and> sm_ErrorCount ev = 2 \<and> sm_ErrorPct ev = 66 \<and>
    sm_RollingCountShortCircuited ev = 1 \<and> sm_TotalCountSuccess ev = 1 \<and> sm_RollingCountBadRequests ev = 0"
proof -
  let ?g = "window_geometry second 10 1000" and ?now = "2000000001 :: int"
  have counts: "recent ?g ?now stats_example k = (if k \<in> {Successes, ErrFailures, ErrShortCircuits, ErrTimeouts} then 1 else 0)" for k
    by (cases k) (simp_all add: recent_def stats_eval)
  have total: "length (times_of Successes stats_example) = 1" by (simp add: stats_eval)
  obtain r0 r f where rf: "rs_SetConfigNotThreadSafe (\<lambda>_. 1000) zero_RunStatsConfig (zero_RunStats, 0) = (Returns (), (r0, 1))"
    "rs_history stats_example r0 = (Returns (), r)"
    "rs_sim ?g (window_geometry (10 * second) 6 1000) 100 stats_example 2000000000 r" "fs_sim ?g [] 1000 f"
    using example_collectors by blast
  let ?m = "monitored_example r f"
  have pre: "tk_Now (gc_TimeKeeper (cf_General (c_Config (mon_circuit ?m)))) = Some (\<lambda>_. ?now)"
    "FindCommandMetrics (mon_run ?m) (mon_circuit ?m) = Some 0" "mon_run ?m 0 = Some r"
    "FindFallbackMetrics (mon_fallback ?m) (mon_circuit ?m) = Some 1" "mon_fallback ?m 1 = Some f" "c_name (mon_circuit ?m) = ''c''"
    by (simp_all add: monitored_example_def c_Config_def FindCommandMetrics_def FindFallbackMetrics_def)
  have us: "usable ?g ?now" "int (length stats_example) < 2 ^ 45" "rb_NumBuckets (window_geometry (10 * second) 6 1000) * int 100 \<le> 2 ^ 53"
    by (simp_all add: usable_def window_geometry_def stats_example_ok)
  note attempts = recent_attempts_def recent_errors_def counts
  obtain ev m' where ev: "collectCommandMetrics (\<lambda>_. None) (\<lambda>_. None) ?m = (Returns ev, m')"
    "event_shows (mon_circuit ?m) ?g stats_example ?g [] (rs_Config r) ?now ev"
    "let P = 100 * of_int (recent_errors ?g ?now stats_example) / rat_of_int (recent_attempts ?g ?now stats_example)
     in \<lceil>P\<rceil> - 1 \<le> sm_ErrorPct ev \<and> sm_ErrorPct ev \<le> \<lfloor>P\<rfloor>"
    using event_reports_the_window [OF refl pre(1) refl pre(2-5) rf(3) _ us(1-3) rf(4) _ us(1), of "\<lambda>_. None" "\<lambda>_. None"]
    by (auto simp: Let_def max_int64_def)
  moreover have "\<lceil>200 / 3 :: rat\<rceil> = 67" "\<lfloor>200 / 3 :: rat\<rfloor> = 66" by (simp_all add: ceiling_unique floor_unique)
  ultimately have "sm_ErrorPct ev = 66" by (simp add: attempts Let_def)
  moreover have "sm_Name ev = ''c'' \<and> sm_RequestCount ev = 3 \<and> sm_ErrorCount ev = 2 \<and> sm_RollingCountShortCircuited ev = 1 \<and>
      sm_TotalCountSuccess ev = 1 \<and> sm_RollingCountBadRequests ev = 0"
    using ev(2) pre(6) total by (simp add: event_shows_def attempts)
  ultimately show ?thesis using rf(1,2) ev(1) by blast
qed

text \<open>The percentage can be one too low: of 100 requests, 29 errors are shown as 28 per cent.\<close>

lemma whole_percentage_shown_low: "int_of_float (fl64 (100 * fl64 (29 / 100))) = 28"
  by code_simp

text \<open>A circuit that nobody monitors is still shown, with zero for every count; nothing is stored.\<close>

theorem unmonitored_circuit_is_shown:
  assumes "cb = mon_circuit m" "tk_Now (gc_TimeKeeper (cf_General (c_Config cb))) = Some clk"
    and "FindCommandMetrics (mon_run m) cb = None" "FindFallbackMetrics (mon_fallback m) cb = None"
  shows "\<exists>ev. collectCommandMetrics as_Opener as_Closer m =
      (Returns ev, m\<lparr>mon_circuit := cb\<lparr>c_readings := Suc (c_readings cb)\<rparr>\<rparr>) \<and>
    (\<forall>g gf. event_shows cb g [] gf [] zero_RunStatsConfig (clk (c_readings cb)) ev)"
proof -
  let ?cb = "cb\<lparr>c_readings := Suc (c_readings cb)\<rparr>"
  obtain ev where ev: "command_event ?cb (clk (c_readings cb)) (zero_RunStats, zero_FallbackStats) =
      (Returns ev, (zero_RunStats, zero_FallbackStats))"
    "\<And>g gf. event_shows ?cb g [] gf [] zero_RunStatsConfig (clk (c_readings cb)) ev"
    using zero_event by blast
  then have "\<forall>g gf. event_shows cb g [] gf [] zero_RunStatsConfig (clk (c_readings cb)) ev"
    by simp
  then show ?thesis
    using collect_run [of m clk ?cb None None ev zero_RunStats zero_FallbackStats] assms ev(1)
    by (fastforce simp: lookup_stats_def store_stats_def)
qed

theorem unmonitored_circuit_is_shown_witness:
  "\<exists>ev m'. collectCommandMetrics (\<lambda>_. None) (\<lambda>_. None)
      ((monitored_example zero_RunStats zero_FallbackStats)\<lparr>mon_run := Map.empty, mon_fallback := Map.empty\<rparr>) = (Returns ev, m') \<and>
    sm_Name ev = ''c'' \<and> sm_RequestCount ev = 0 \<and> mon_run m' = Map.empty"
proof -
  let ?m = "(monitored_example zero_RunStats zero_FallbackStats)\<lparr>mon_run := Map.empty, mon_fallback := Map.empty\<rparr>"
  have pre: "tk_Now (gc_TimeKeeper (cf_General (c_Config (mon_circuit ?m)))) = Some (\<lambda>_. 2000000001)"
    "FindCommandMetrics (mon_run ?m) (mon_circuit ?m) = None" "FindFallbackMetrics (mon_fallback ?m) (mon_circuit ?m) = None"
    "c_name (mon_circuit ?m) = ''c''" "mon_run ?m = Map.empty"
    by (simp_all add: monitored_example_def c_Config_def FindCommandMetrics_def FindFallbackMetrics_def)
  let ?cb = "mon_circuit ?m"
  obtain ev where ev: "collectCommandMetrics (\<lambda>_. None) (\<lambda>_. None) ?m =
      (Returns ev, ?m\<lparr>mon_circuit := ?cb\<lparr>c_readings := Suc (c_readings ?cb)\<rparr>\<rparr>)"
    "\<forall>g gf. event_shows ?cb g [] gf [] zero_RunStatsConfig 2000000001 ev"
    using unmonitored_circuit_is_shown [OF refl pre(1-3), of "\<lambda>_. None" "\<lambda>_. None"] by (elim exE conjE)
  then have "sm_Name ev = ''c''" "sm_RequestCount ev = 0"
    by (simp_all only: event_shows_def pre(4)) (simp add: recent_def recent_attempts_def recent_errors_def times_of_def recent_events_def)
  moreover have "mon_run (?m\<lparr>mon_circuit := ?cb\<lparr>c_readings := Suc (c_readings ?cb)\<rparr>\<rparr>) = Map.empty" by simp
  ultimately show ?thesis using ev(1) by blast
qed

text \<open>What a listener gets. From the moment a request listens until it is gone, whatever other requests, writers,
  closes and events come in between: the events written to it and those still buffered are events sent
  meanwhile, in the order they were sent; no more than 1024 are buffered, and as long as no more have been
  sent, none is missing. Closing never panics, however often it is called.\<close>

theorem listeners_get_events_in_order:
  assumes "list_all (\<lambda>op. \<not> about req op) ops" "es_run (before @ SListen True req # ops) (zero_stream tick) = (ws, m)"
    and "es_run (before @ [SListen True req]) (zero_stream tick) = (ws0, m0)"
  shows "\<exists>ws1 ch. ws = ws0 @ ws1 \<and> map_of (es_eventStreams m) req = Some ch \<and> length ch \<le> stream_capacity \<and>
    subseq (written req ws1 @ ch) (sent ops) \<and>
    (length (sent ops) \<le> stream_capacity \<longrightarrow> written req ws1 @ ch = sent ops) \<and>
    (\<exists>m'. es_Close m = (Returns (), m'))"
proof -
  obtain ws1 where ws1: "es_run ops m0 = (ws1, m)" "ws = ws0 @ ws1"
    using assms(2,3) es_run_append [of "before @ [SListen True req]" ops "zero_stream tick"]
    by (auto simp: Let_def split: prod.splits)
  obtain mb wb where "es_run before (zero_stream tick) = (wb, mb)" by fastforce
  then have "m0 = es_listen True req mb"
    using assms(3) es_run_append [of before "[SListen True req]" "zero_stream tick"] by (simp add: Let_def)
  then have m0: "es_once m0" "map_of (es_eventStreams m0) req = Some []"
    by (auto simp: es_listen_def es_doOnce_def update_conv' Let_def)
  have "close_guarded (zero_stream tick)" by (simp add: close_guarded_def zero_stream_def)
  then have "\<exists>m'. es_Close m = (Returns (), m')" using es_Close_returns es_run_close_guarded assms(2) by blast
  then show ?thesis using es_run_buffer [OF m0(1) assms(1) m0(2) _ ws1(1)] ws1(2) by simp
qed

theorem listeners_get_events_in_order_witness:
  "\<exists>ws m ch. es_run [SListen True 7, SSend ''a'', SListen True 8, STake 7, SSend ''b''] (zero_stream 0) = (ws, m) \<and>
    map_of (es_eventStreams m) 7 = Some ch \<and> written 7 ws @ ch = [''a'', ''b'']"
proof -
  let ?ops = "[SSend ''a'', SListen True 8, STake 7, SSend ''b'']"
  obtain ws m where run: "es_run (SListen True 7 # ?ops) (zero_stream 0) = (ws, m)" by fastforce
  have start: "es_run [SListen True 7] (zero_stream 0) = ([], es_listen True 7 (zero_stream 0))" by (simp add: Let_def)
  have "list_all (\<lambda>op. \<not> about 7 op) ?ops" "length (sent ?ops) \<le> stream_capacity" by (simp_all add: stream_capacity_def)
  then obtain ch where "map_of (es_eventStreams m) 7 = Some ch" "written 7 ws @ ch = sent ?ops"
    using listeners_get_events_in_order [of 7 ?ops "[]" 0 ws m] run start by (force simp: stream_capacity_def)
  then show ?thesis using run by auto
qed

end
