(* ===== verification/MockClock.thy ===== *)
theory MockClock
  imports Go_Prelude "HOL-Library.Multiset"
begin

text \<open>
  Model of \<^verbatim>\<open>internal/clock/clock.go\<close>: a clock that moves when it is told to, and calls the callbacks
  that become due.

  A callback is user code, given by a number that the parameter \<open>user\<close> interprets: it may use the clock
  again, and panic. \<open>mk_memory\<close> is what the user code remembers, \<open>mk_fired\<close> records the callbacks
  started, with their deadlines, and \<open>mk_scheduled\<close> all that were ever asked for. \<^verbatim>\<open>After\<close> makes a
  channel of capacity one, kept by its number. The mutex is explicit, since a callback that ran while
  it is held could not use the clock.
\<close>

datatype timer_func = UserFunc nat | SendNow nat

type_synonym timedCallbacks = "gotime \<times> timer_func"

record 'u MockClock =
  mk_currentTime :: gotime
  mk_callbacks :: "timedCallbacks list"
  mk_mu :: bool
  mk_chans :: "gotime list list"
  mk_fired :: "timedCallbacks list"
  mk_scheduled :: "timedCallbacks list"
  mk_memory :: 'u

type_synonym ('a, 'u) kgo = "('a, 'u MockClock) go"

definition mk_Lock :: "(unit, 'u) kgo" where
  "mk_Lock = (\<lambda>m. if mk_mu m then (Blocks, m) else (Returns (), m\<lparr>mk_mu := True\<rparr>))"

definition mk_Unlock :: "(unit, 'u) kgo" where
  "mk_Unlock = (\<lambda>m. if mk_mu m then (Returns (), m\<lparr>mk_mu := False\<rparr>)
     else (Panics (UserPanic ''sync: unlock of unlocked mutex''), m))"

definition mk_Now :: "(gotime, 'u) kgo" where
  "mk_Now = gseq mk_Lock (gdefer mk_Unlock (gget mk_currentTime))"

text \<open>\<^verbatim>\<open>c <- m.Now()\<close> on a channel of capacity one.\<close>

definition send_now :: "nat \<Rightarrow> (unit, 'u) kgo" where
  "send_now c = gbind mk_Now (\<lambda>t.
     gbind (gget (\<lambda>m. mk_chans m ! c)) (\<lambda>ch. if length ch < 1
       then gmodify (\<lambda>m. m\<lparr>mk_chans := (mk_chans m)[c := ch @ [t]]\<rparr>) else gblock))"

definition call_func :: "(nat \<Rightarrow> (unit, 'u) kgo) \<Rightarrow> timedCallbacks \<Rightarrow> (unit, 'u) kgo" where
  "call_func user cb = gseq (gmodify (\<lambda>m. m\<lparr>mk_fired := mk_fired m @ [cb]\<rparr>))
     (case snd cb of UserFunc k \<Rightarrow> user k | SendNow c \<Rightarrow> send_now c)"

text \<open>The callbacks to call are those whose deadline the clock is not before; the sort is stable.\<close>

definition triggerCallbacks :: "(nat \<Rightarrow> (unit, 'u) kgo) \<Rightarrow> (unit, 'u) kgo" where
  "triggerCallbacks user =
     gseq mk_Lock
    (gbind (gget (\<lambda>m. filter (\<lambda>c. \<not> time_Before (mk_currentTime m) (fst c)) (mk_callbacks m))) (\<lambda>toCall.
     gseq (gmodify (\<lambda>m. m\<lparr>mk_callbacks := filter (\<lambda>c. time_Before (mk_currentTime m) (fst c)) (mk_callbacks m)\<rparr>))
    (gseq mk_Unlock
    (gforeach (call_func user) (sort_key fst toCall)))))"

definition mk_Set :: "(nat \<Rightarrow> (unit, 'u) kgo) \<Rightarrow> gotime \<Rightarrow> (gotime, 'u) kgo" where
  "mk_Set user t = gdefer (triggerCallbacks user)
     (gseq mk_Lock (gdefer mk_Unlock
       (gseq (gmodify (\<lambda>m. m\<lparr>mk_currentTime := t\<rparr>)) (gget mk_currentTime))))"

definition mk_Add :: "(nat \<Rightarrow> (unit, 'u) kgo) \<Rightarrow> duration \<Rightarrow> (gotime, 'u) kgo" where
  "mk_Add user d =
     gseq mk_Lock
    (gseq (gmodify (\<lambda>m. m\<lparr>mk_currentTime := time_Add (mk_currentTime m) d\<rparr>))
    (gbind (gget mk_currentTime) (\<lambda>ret.
     gseq mk_Unlock
    (gseq (triggerCallbacks user) (greturn ret)))))"

text \<open>A callback asked for with no delay is called at once, after the lock is released.\<close>

definition mk_AfterFunc :: "(nat \<Rightarrow> (unit, 'u) kgo) \<Rightarrow> duration \<Rightarrow> timer_func \<Rightarrow> (unit, 'u) kgo" where
  "mk_AfterFunc user d f =
     gseq mk_Lock
    (gbind (gget mk_currentTime) (\<lambda>now.
     if d \<le> 0
     then gseq (gmodify (\<lambda>m. m\<lparr>mk_scheduled := mk_scheduled m @ [(now, f)]\<rparr>))
         (gseq mk_Unlock (call_func user (now, f)))
     else gseq (gmodify (\<lambda>m. m\<lparr>mk_callbacks := mk_callbacks m @ [(time_Add now d, f)],
                              mk_scheduled := mk_scheduled m @ [(time_Add now d, f)]\<rparr>))
          mk_Unlock))"

definition mk_After :: "(nat \<Rightarrow> (unit, 'u) kgo) \<Rightarrow> duration \<Rightarrow> (nat, 'u) kgo" where
  "mk_After user d =
     gbind (gget (length \<circ> mk_chans)) (\<lambda>c.
     gseq (gmodify (\<lambda>m. m\<lparr>mk_chans := mk_chans m @ [[]]\<rparr>))
    (gseq (mk_AfterFunc user d (SendNow c)) (greturn c)))"

text \<open>The loop of \<^verbatim>\<open>TickUntil\<close>, which may run forever; the real sleep is not modelled.\<close>

fun TickUntil :: "nat \<Rightarrow> (nat \<Rightarrow> (unit, 'u) kgo) \<Rightarrow> (bool, 'u) kgo \<Rightarrow> duration \<Rightarrow> (unit, 'u) kgo" where
  "TickUntil 0 user shouldStop mockIncr = gblock"
| "TickUntil (Suc fuel) user shouldStop mockIncr = gbind shouldStop (\<lambda>stop. if stop then greturn ()
     else gseq (mk_Add user mockIncr) (TickUntil fuel user shouldStop mockIncr))"

subsection \<open>Stable sorting\<close>

lemma sort_key_stable' [simp]: "filter (\<lambda>x. k = f x) (sort_key f xs) = filter (\<lambda>x. k = f x) xs"
  using sort_key_stable [of f k xs] by (simp add: eq_commute)

lemma sort_key_append_le:
  assumes "\<And>a b. a \<in> set xs \<Longrightarrow> b \<in> set ys \<Longrightarrow> f a \<le> f b"
  shows "sort_key f (xs @ ys) = sort_key f xs @ sort_key f ys"
  using assms by (intro properties_for_sort_key) (auto simp: sorted_append simp del: filter_sort)

lemma sort_key_split:
  fixes f :: "'x \<Rightarrow> 'k :: linorder"
  shows "sort_key f xs = sort_key f (filter (\<lambda>x. f x \<le> s) xs) @ sort_key f (filter (\<lambda>x. s < f x) xs)"
proof (rule properties_for_sort_key)
  show "mset (sort_key f (filter (\<lambda>x. f x \<le> s) xs) @ sort_key f (filter (\<lambda>x. s < f x) xs)) = mset xs"
    by (simp flip: mset_filter) (induction xs; auto)
  show "filter (\<lambda>x. f k = f x) (sort_key f (filter (\<lambda>x. f x \<le> s) xs) @ sort_key f (filter (\<lambda>x. s < f x) xs)) =
      filter (\<lambda>x. f k = f x) xs" for k
  proof -
    have "filter (\<lambda>x. f k = f x) (filter (\<lambda>x. f x \<le> s) xs) = (if f k \<le> s then filter (\<lambda>x. f k = f x) xs else [])"
      "filter (\<lambda>x. f k = f x) (filter (\<lambda>x. s < f x) xs) = (if f k \<le> s then [] else filter (\<lambda>x. f k = f x) xs)"
      by (induction xs; auto)+
    then show ?thesis by (simp del: filter_filter filter_sort)
  qed
qed (auto simp: sorted_append)

subsection \<open>The clock as a queue of timers\<close>

text \<open>
  The abstract clock: of all the callbacks ever asked for, those with a deadline up to now have been
  called, in the order of their deadlines and, for one deadline, in the order they were asked for; the
  others wait.
\<close>

definition timers_at :: "gotime \<Rightarrow> timedCallbacks list \<Rightarrow> timedCallbacks list \<times> timedCallbacks list" where
  "timers_at now asked = (sort_key fst (filter (\<lambda>c. fst c \<le> now) asked), filter (\<lambda>c. now < fst c) asked)"

fun sends :: "timedCallbacks list \<Rightarrow> nat list" where
  "sends [] = []"
| "sends ((w, SendNow c) # cbs) = c # sends cbs"
| "sends ((w, UserFunc k) # cbs) = sends cbs"

text \<open>The channels after the callbacks \<open>cbs\<close> have run at \<open>now\<close>.\<close>

definition fill :: "gotime \<Rightarrow> timedCallbacks list \<Rightarrow> gotime list list \<Rightarrow> gotime list list" where
  "fill now cbs chs = fold (\<lambda>c chs. chs[c := [now]]) (sends cbs) chs"

text \<open>
  Every channel belongs to one callback; it is empty until that is called, and then holds the time of
  the call, which is not before the deadline.
\<close>

definition chans_ok :: "'u MockClock \<Rightarrow> bool" where
  "chans_ok m \<longleftrightarrow> distinct (sends (mk_scheduled m)) \<and> (\<forall>c \<in> set (sends (mk_scheduled m)). c < length (mk_chans m)) \<and>
     (\<forall>c \<in> set (sends (mk_callbacks m)). mk_chans m ! c = []) \<and>
     (\<forall>(w, f) \<in> set (mk_fired m). \<forall>c. f = SendNow c \<longrightarrow> (\<exists>t. mk_chans m ! c = [t] \<and> w \<le> t \<and> t \<le> mk_currentTime m))"

definition clock_inv :: "'u MockClock \<Rightarrow> bool" where
  "clock_inv m \<longleftrightarrow> \<not> mk_mu m \<and> (mk_fired m, mk_callbacks m) = timers_at (mk_currentTime m) (mk_scheduled m) \<and> chans_ok m"

text \<open>User code that does not use the clock: it returns, and changes only its own memory.\<close>

definition plain :: "(nat \<Rightarrow> (unit, 'u) kgo) \<Rightarrow> bool" where
  "plain user \<longleftrightarrow> (\<forall>k m. \<exists>u. user k m = (Returns (), m\<lparr>mk_memory := u\<rparr>))"

lemma timers_later:
  assumes "now \<le> t"
  shows "timers_at t asked = (fst (timers_at now asked) @ sort_key fst (filter (\<lambda>c. fst c \<le> t) (snd (timers_at now asked))),
    filter (\<lambda>c. t < fst c) (snd (timers_at now asked)))"
proof -
  have "filter (\<lambda>c. fst c \<le> now) (filter (\<lambda>c. fst c \<le> t) asked) = filter (\<lambda>c. fst c \<le> now) asked"
    "filter (\<lambda>c. now < fst c) (filter (\<lambda>c. fst c \<le> t) asked) = filter (\<lambda>c. fst c \<le> t) (filter (\<lambda>c. now < fst c) asked)"
    "filter (\<lambda>c. t < fst c) (filter (\<lambda>c. now < fst c) asked) = filter (\<lambda>c. t < fst c) asked"
    using assms by (auto intro!: filter_cong)
  then show ?thesis
    using sort_key_split [of fst "filter (\<lambda>c. fst c \<le> t) asked" now] by (simp add: timers_at_def del: filter_filter)
qed

lemma timers_ask:
  "now < w \<Longrightarrow> timers_at now (asked @ [(w, f)]) = (fst (timers_at now asked), snd (timers_at now asked) @ [(w, f)])"
    "timers_at now (asked @ [(now, f)]) = (fst (timers_at now asked) @ [(now, f)], snd (timers_at now asked))"
  using sort_key_append_le [of "filter (\<lambda>c. fst c \<le> now) asked" "[(now, f)]" fst] by (auto simp: timers_at_def)

lemma mk_runs [go_simps]:
  "mk_Lock m = (if mk_mu m then (Blocks, m) else (Returns (), m\<lparr>mk_mu := True\<rparr>))"
  "mk_Unlock m = (if mk_mu m then (Returns (), m\<lparr>mk_mu := False\<rparr>)
     else (Panics (UserPanic ''sync: unlock of unlocked mutex''), m))"
  by (simp_all add: mk_Lock_def mk_Unlock_def)

lemma mk_Now_run: "\<not> mk_mu m \<Longrightarrow> mk_Now m = (Returns (mk_currentTime m), m)"
  by (simp add: mk_Now_def go_simps gdefer_def)

lemma sends_append [simp]: "sends (xs @ ys) = sends xs @ sends ys"
  by (induction xs rule: sends.induct) auto

lemma set_sends: "c \<in> set (sends cbs) \<longleftrightarrow> (\<exists>w. (w, SendNow c) \<in> set cbs)"
  by (induction cbs rule: sends.induct) auto

lemma mset_sends_cong: "mset xs = mset ys \<Longrightarrow> mset (sends xs) = mset (sends ys)"
proof -
  have "mset (sends zs) = image_mset (\<lambda>cb. case snd cb of SendNow c \<Rightarrow> c | UserFunc k \<Rightarrow> 0)
      (filter_mset (\<lambda>cb. \<exists>c. snd cb = SendNow c) (mset zs))" for zs
    by (induction zs rule: sends.induct) auto
  then show "mset xs = mset ys \<Longrightarrow> mset (sends xs) = mset (sends ys)" by metis
qed

lemma fold_update_length [simp]: "length (fold (\<lambda>c chs. chs[c := x]) cs chs) = length chs"
  by (induction cs arbitrary: chs) simp_all

lemma length_fill [simp]: "length (fill now cbs chs) = length chs"
  by (simp add: fill_def)

lemma fold_update_nth: "(\<forall>c \<in> set cs. c < length chs) \<Longrightarrow>
    fold (\<lambda>c chs. chs[c := x]) cs chs ! c = (if c \<in> set cs then x else chs ! c)"
  by (induction cs rule: rev_induct) (auto simp: nth_list_update fold_update_length)

lemma fill_nth: "(\<forall>c \<in> set (sends cbs). c < length chs) \<Longrightarrow>
    fill now cbs chs ! c = (if c \<in> set (sends cbs) then [now] else chs ! c)"
  by (simp add: fill_def fold_update_nth)

text \<open>Calling a list of callbacks with plain user code, when the channels they send to are empty.\<close>

lemma call_funcs_run:
  assumes "plain user" "\<not> mk_mu m" "distinct (sends cbs)"
    "\<forall>c \<in> set (sends cbs). c < length (mk_chans m) \<and> mk_chans m ! c = []"
  shows "\<exists>u. gforeach (call_func user) cbs m = (Returns (), m\<lparr>mk_chans := fill (mk_currentTime m) cbs (mk_chans m),
    mk_fired := mk_fired m @ cbs, mk_memory := u\<rparr>)"
  using assms(2-)
proof (induction cbs arbitrary: m rule: sends.induct)
  case 1
  then show ?case by (intro exI [of _ "mk_memory m"]) (simp add: go_simps fill_def)
next
  case (2 w c cbs)
  let ?m = "m\<lparr>mk_chans := (mk_chans m)[c := [mk_currentTime m]], mk_fired := mk_fired m @ [(w, SendNow c)]\<rparr>"
  have "call_func user (w, SendNow c) m = (Returns (), ?m)"
    using 2 by (simp add: call_func_def send_now_def go_simps mk_Now_run)
  moreover have "\<not> mk_mu ?m" "\<forall>c' \<in> set (sends cbs). c' < length (mk_chans ?m) \<and> mk_chans ?m ! c' = []" "distinct (sends cbs)"
    using 2 by (auto simp: nth_list_update)
  then obtain u where "gforeach (call_func user) cbs ?m = (Returns (), ?m\<lparr>mk_chans := fill (mk_currentTime ?m) cbs (mk_chans ?m),
      mk_fired := mk_fired ?m @ cbs, mk_memory := u\<rparr>)" using 2(1) by blast
  ultimately show ?case by (intro exI [of _ u]) (simp add: go_simps fill_def)
next
  case (3 w k cbs)
  let ?m0 = "m\<lparr>mk_fired := mk_fired m @ [(w, UserFunc k)]\<rparr>"
  obtain u where u: "user k ?m0 = (Returns (), ?m0\<lparr>mk_memory := u\<rparr>)" using assms(1) unfolding plain_def by blast
  let ?m = "?m0\<lparr>mk_memory := u\<rparr>"
  have pre: "\<not> mk_mu ?m" "distinct (sends cbs)" "\<forall>c \<in> set (sends cbs). c < length (mk_chans ?m) \<and> mk_chans ?m ! c = []"
    using 3(2-) by simp_all
  obtain u' where "gforeach (call_func user) cbs ?m = (Returns (), ?m\<lparr>mk_chans := fill (mk_currentTime ?m) cbs (mk_chans ?m),
      mk_fired := mk_fired ?m @ cbs, mk_memory := u'\<rparr>)"
    using 3(1) [OF pre] by blast
  moreover have "call_func user (w, UserFunc k) m = (Returns (), ?m)" using u by (simp add: call_func_def go_simps)
  ultimately show ?case by (intro exI [of _ u']) (simp add: go_simps fill_def)
qed

lemma timers_mset: "mset (fst (timers_at now asked)) + mset (snd (timers_at now asked)) = mset asked"
  by (induction asked) (auto simp: timers_at_def)

lemma clock_inv_sends:
  assumes "clock_inv m"
  shows "distinct (sends (mk_callbacks m))" "set (sends (mk_callbacks m)) \<subseteq> set (sends (mk_scheduled m))"
    "set (sends (mk_fired m)) \<inter> set (sends (mk_callbacks m)) = {}"
proof -
  have "mset (mk_fired m @ mk_callbacks m) = mset (mk_scheduled m)"
    using assms timers_mset [of "mk_currentTime m" "mk_scheduled m"] by (simp add: clock_inv_def prod_eq_iff)
  from mset_sends_cong [OF this] have "mset (sends (mk_fired m) @ sends (mk_callbacks m)) = mset (sends (mk_scheduled m))"
    by simp
  note eq = mset_eq_imp_distinct_iff [OF this] mset_eq_setD [OF this]
  have "distinct (sends (mk_fired m) @ sends (mk_callbacks m))"
    using assms by (simp only: eq(1) clock_inv_def chans_ok_def)
  note this eq(2)
  then show "distinct (sends (mk_callbacks m))" "set (sends (mk_callbacks m)) \<subseteq> set (sends (mk_scheduled m))"
    "set (sends (mk_fired m)) \<inter> set (sends (mk_callbacks m)) = {}" by (simp_all add: eq(2) [symmetric])
qed

lemma sends_sublist:
  assumes "sends cbs = cs" shows "set (sends (filter P cbs)) \<subseteq> set cs" "distinct cs \<Longrightarrow> distinct (sends (filter P cbs))"
  unfolding assms [symmetric] by (induction cbs rule: sends.induct) auto

lemma sends_disjoint: "distinct (sends cbs) \<Longrightarrow>
    set (sends (filter P cbs)) \<inter> set (sends (filter (\<lambda>c. \<not> P c) cbs)) = {}"
proof (induction cbs rule: sends.induct)
  case (2 w c cbs)
  then show ?case using sends_sublist(1) [OF refl, of P cbs] sends_sublist(1) [OF refl, of "\<lambda>c. \<not> P c" cbs] by auto
qed auto

lemma sends_sort: "set (sends (sort_key fst cbs)) = set (sends cbs)" "distinct (sends (sort_key fst cbs)) = distinct (sends cbs)"
  using mset_sends_cong [of "sort_key fst cbs" cbs] by (metis mset_eq_setD mset_sort, metis mset_eq_imp_distinct_iff mset_sort)

text \<open>Moving the clock forward calls what has become due, and keeps the invariant.\<close>

lemma trigger_keeps_inv:
  assumes "clock_inv m" "plain user" "mk_currentTime m \<le> t"
  shows "\<exists>m'. triggerCallbacks user (m\<lparr>mk_currentTime := t, mk_mu := False\<rparr>) = (Returns (), m') \<and> clock_inv m' \<and>
    mk_currentTime m' = t \<and> mk_scheduled m' = mk_scheduled m \<and> length (mk_chans m') = length (mk_chans m)"
proof -
  let ?due = "sort_key fst (filter (\<lambda>c. fst c \<le> t) (mk_callbacks m))" and ?wait = "filter (\<lambda>c. t < fst c) (mk_callbacks m)"
  let ?m = "m\<lparr>mk_currentTime := t, mk_callbacks := ?wait, mk_mu := False\<rparr>"
  note S = clock_inv_sends [OF assms(1)] and I = assms(1) [unfolded clock_inv_def chans_ok_def]
  have due: "set (sends ?due) \<subseteq> set (sends (mk_callbacks m))" "distinct (sends ?due)"
    using sends_sublist [OF refl] S(1) by (auto simp: sends_sort)
  have empty: "c < length (mk_chans m) \<and> mk_chans m ! c = []" if "c \<in> set (sends (mk_callbacks m))" for c
    using that S(2) I by blast
  then have pre: "\<forall>c \<in> set (sends ?due). c < length (mk_chans ?m) \<and> mk_chans ?m ! c = []" using due(1) by auto
  obtain u where u: "gforeach (call_func user) ?due ?m = (Returns (), ?m\<lparr>mk_chans := fill t ?due (mk_chans m),
      mk_fired := mk_fired m @ ?due, mk_memory := u\<rparr>)"
    using call_funcs_run [OF assms(2), of ?m ?due] due(2) pre I by auto
  let ?m' = "?m\<lparr>mk_chans := fill t ?due (mk_chans m), mk_fired := mk_fired m @ ?due, mk_memory := u\<rparr>"
  have "triggerCallbacks user (m\<lparr>mk_currentTime := t, mk_mu := False\<rparr>) = (Returns (), ?m')"
    using u I by (simp add: triggerCallbacks_def go_simps time_Before_def not_less)
  moreover have timers: "mk_fired m = fst (timers_at (mk_currentTime m) (mk_scheduled m))"
    "mk_callbacks m = snd (timers_at (mk_currentTime m) (mk_scheduled m))" using I by (simp_all add: prod_eq_iff)
  have "(mk_fired ?m', mk_callbacks ?m') = timers_at t (mk_scheduled m)"
    using timers_later [OF assms(3), of "mk_scheduled m"] by (simp flip: timers)
  moreover have "chans_ok ?m'"
  proof -
    have nth: "fill t ?due (mk_chans m) ! c = (if c \<in> set (sends ?due) then [t] else mk_chans m ! c)" for c
      using pre by (intro fill_nth) simp
    have disj: "set (sends ?due) \<inter> set (sends ?wait) = {}"
      using sends_disjoint [OF S(1), of "\<lambda>c. fst c \<le> t"] by (simp add: sends_sort not_le)
    have wait: "\<forall>c \<in> set (sends ?wait). fill t ?due (mk_chans m) ! c = []"
      using disj sends_sublist(1) [OF refl] empty by (fastforce simp: nth)
    have "\<exists>t'. fill t ?due (mk_chans m) ! c = [t'] \<and> w \<le> t' \<and> t' \<le> t" if "(w, SendNow c) \<in> set (mk_fired m @ ?due)" for w c
    proof (cases "c \<in> set (sends ?due)")
      case True
      then have "c \<notin> set (sends (mk_fired m))" using due(1) S(3) by blast
      then have "(w, SendNow c) \<in> set ?due" using that by (auto simp: set_sends)
      then show ?thesis using True by (auto simp: nth)
    next
      case False
      then have "(w, SendNow c) \<in> set (mk_fired m)" using that by (auto simp: set_sends)
      then obtain t' where "mk_chans m ! c = [t']" "w \<le> t'" "t' \<le> mk_currentTime m" using I by blast
      then show ?thesis using False assms(3) by (auto simp: nth)
    qed
    then show ?thesis using I wait by (auto simp: chans_ok_def)
  qed
  ultimately show ?thesis using I by (intro exI [of _ ?m']) (simp add: clock_inv_def)
qed

lemma mk_Set_keeps_inv:
  assumes "clock_inv m" "plain user" "mk_currentTime m \<le> t"
  shows "\<exists>m'. mk_Set user t m = (Returns t, m') \<and> clock_inv m' \<and> mk_currentTime m' = t \<and>
    mk_scheduled m' = mk_scheduled m \<and> length (mk_chans m') = length (mk_chans m)"
proof -
  obtain m' where m': "triggerCallbacks user (m\<lparr>mk_currentTime := t, mk_mu := False\<rparr>) = (Returns (), m')" "clock_inv m'"
    "mk_currentTime m' = t" "mk_scheduled m' = mk_scheduled m" "length (mk_chans m') = length (mk_chans m)"
    using trigger_keeps_inv [OF assms] by blast
  have "mk_Set user t m = (Returns t, m')"
    using m'(1) assms(1) by (simp add: mk_Set_def gdefer_def go_simps clock_inv_def)
  then show ?thesis using m' by blast
qed

lemma mk_Add_keeps_inv:
  assumes "clock_inv m" "plain user" "0 \<le> d"
  shows "\<exists>m'. mk_Add user d m = (Returns (mk_currentTime m + d), m') \<and> clock_inv m' \<and> mk_currentTime m' = mk_currentTime m + d \<and>
    mk_scheduled m' = mk_scheduled m \<and> length (mk_chans m') = length (mk_chans m)"
proof -
  let ?t = "mk_currentTime m + d"
  obtain m' where m': "triggerCallbacks user (m\<lparr>mk_currentTime := ?t, mk_mu := False\<rparr>) = (Returns (), m')" "clock_inv m'"
    "mk_currentTime m' = ?t" "mk_scheduled m' = mk_scheduled m" "length (mk_chans m') = length (mk_chans m)"
    using trigger_keeps_inv [OF assms(1,2)] assms(3) by (metis le_add_same_cancel1)
  have "mk_Add user d m = (Returns ?t, m')"
    using m'(1) assms(1) by (simp add: mk_Add_def go_simps clock_inv_def time_Add_def)
  then show ?thesis using m' by blast
qed

text \<open>A callback asked for; a channel it sends to is new.\<close>

lemma mk_AfterFunc_keeps_inv:
  assumes "clock_inv m" "plain user"
    and "\<And>c. f = SendNow c \<Longrightarrow> c \<notin> set (sends (mk_scheduled m)) \<and> c < length (mk_chans m) \<and> mk_chans m ! c = []"
  shows "\<exists>m'. mk_AfterFunc user d f m = (Returns (), m') \<and> clock_inv m' \<and> mk_currentTime m' = mk_currentTime m \<and>
    mk_scheduled m' = mk_scheduled m @ [(mk_currentTime m + max 0 d, f)] \<and> length (mk_chans m') = length (mk_chans m)"
proof (cases "d \<le> 0")
  case False
  let ?w = "mk_currentTime m + d"
  let ?m' = "m\<lparr>mk_callbacks := mk_callbacks m @ [(?w, f)], mk_scheduled := mk_scheduled m @ [(?w, f)]\<rparr>"
  have "mk_AfterFunc user d f m = (Returns (), ?m')"
    using assms(1) False by (simp add: mk_AfterFunc_def go_simps time_Add_def clock_inv_def)
  moreover have "clock_inv ?m'"
    using assms(1,3) False timers_ask(1) [of "mk_currentTime m" ?w "mk_scheduled m" f]
    by (cases f) (auto simp: clock_inv_def chans_ok_def prod_eq_iff)
  ultimately show ?thesis using False by simp
next
  case True
  let ?now = "mk_currentTime m"
  let ?m0 = "m\<lparr>mk_scheduled := mk_scheduled m @ [(?now, f)], mk_mu := False\<rparr>"
  note S = clock_inv_sends [OF assms(1)] and I = assms(1) [unfolded clock_inv_def chans_ok_def]
  have one: "distinct (sends [(?now, f)])" "\<forall>c \<in> set (sends [(?now, f)]). c < length (mk_chans ?m0) \<and> mk_chans ?m0 ! c = []"
    using assms(3) by (cases f; auto)+
  obtain u where u: "gforeach (call_func user) [(?now, f)] ?m0 = (Returns (), ?m0\<lparr>mk_chans := fill ?now [(?now, f)] (mk_chans m),
      mk_fired := mk_fired m @ [(?now, f)], mk_memory := u\<rparr>)"
    using call_funcs_run [OF assms(2) _ one] by auto
  let ?m' = "?m0\<lparr>mk_chans := fill ?now [(?now, f)] (mk_chans m), mk_fired := mk_fired m @ [(?now, f)], mk_memory := u\<rparr>"
  have "call_func user (?now, f) ?m0 = (Returns (), ?m')"
    using u by (auto simp: gseq_def gbind_def greturn_def split: prod.splits outcome.splits)
  then have "mk_AfterFunc user d f m = (Returns (), ?m')"
    using I True by (simp add: mk_AfterFunc_def go_simps)
  moreover have "chans_ok ?m'"
    using I assms(3) S
    by (cases f) (auto simp: chans_ok_def fill_def nth_list_update set_sends)
  then have "clock_inv ?m'"
    using I timers_ask(2) [of ?now "mk_scheduled m" f] by (simp add: clock_inv_def prod_eq_iff)
  ultimately show ?thesis using True by simp
qed

subsection \<open>Histories\<close>

datatype clock_op = CAfterFunc duration nat | CAfter duration | CAdd duration | CSet gotime | CNow

fun clock_step :: "(nat \<Rightarrow> (unit, 'u) kgo) \<Rightarrow> clock_op \<Rightarrow> (unit, 'u) kgo" where
  "clock_step user (CAfterFunc d k) = mk_AfterFunc user d (UserFunc k)"
| "clock_step user (CAfter d) = gseq (mk_After user d) (greturn ())"
| "clock_step user (CAdd d) = gseq (mk_Add user d) (greturn ())"
| "clock_step user (CSet t) = gseq (mk_Set user t) (greturn ())"
| "clock_step user CNow = gseq mk_Now (greturn ())"

text \<open>The clock moves forward; the time it shows in the end; and the callbacks asked for, with their deadlines.\<close>

fun forward :: "gotime \<Rightarrow> clock_op list \<Rightarrow> bool" where
  "forward now [] = True"
| "forward now (CAdd d # ops) = (0 \<le> d \<and> forward (now + d) ops)"
| "forward now (CSet t # ops) = (now \<le> t \<and> forward t ops)"
| "forward now (_ # ops) = forward now ops"

fun clock_end :: "gotime \<Rightarrow> clock_op list \<Rightarrow> gotime" where
  "clock_end now [] = now"
| "clock_end now (CAdd d # ops) = clock_end (now + d) ops"
| "clock_end now (CSet t # ops) = clock_end t ops"
| "clock_end now (_ # ops) = clock_end now ops"

fun asked_for :: "gotime \<Rightarrow> nat \<Rightarrow> clock_op list \<Rightarrow> timedCallbacks list" where
  "asked_for now n [] = []"
| "asked_for now n (CAfterFunc d k # ops) = (now + max 0 d, UserFunc k) # asked_for now n ops"
| "asked_for now n (CAfter d # ops) = (now + max 0 d, SendNow n) # asked_for now (Suc n) ops"
| "asked_for now n (CAdd d # ops) = asked_for (now + d) n ops"
| "asked_for now n (CSet t # ops) = asked_for t n ops"
| "asked_for now n (CNow # ops) = asked_for now n ops"

definition new_clock :: "gotime \<Rightarrow> 'u \<Rightarrow> 'u MockClock" where
  "new_clock t u = \<lparr>mk_currentTime = t, mk_callbacks = [], mk_mu = False, mk_chans = [], mk_fired = [], mk_scheduled = [],
     mk_memory = u\<rparr>"

text \<open>One step of a history, seen from its results: the invariant, the time, what was asked for, the channels.\<close>

definition after_step :: "'u MockClock \<Rightarrow> gotime \<Rightarrow> timedCallbacks list \<Rightarrow> nat \<Rightarrow> bool" where
  "after_step m now asked n \<longleftrightarrow> clock_inv m \<and> mk_currentTime m = now \<and> mk_scheduled m = asked \<and> length (mk_chans m) = n"

lemma mk_After_keeps_inv:
  assumes "after_step m now asked n" "plain user"
  shows "\<exists>m'. mk_After user d m = (Returns n, m') \<and> after_step m' now (asked @ [(now + max 0 d, SendNow n)]) (Suc n)"
proof -
  let ?m = "m\<lparr>mk_chans := mk_chans m @ [[]]\<rparr>"
  have I: "\<forall>c \<in> set (sends (mk_scheduled m)). c < n" using assms(1) by (auto simp: after_step_def clock_inv_def chans_ok_def)
  have inv: "clock_inv m" "length (mk_chans m) = n" using assms(1) by (simp_all add: after_step_def)
  have "mset (mk_fired m @ mk_callbacks m) = mset (mk_scheduled m)"
    using inv timers_mset [of "mk_currentTime m" "mk_scheduled m"] by (simp add: clock_inv_def prod_eq_iff)
  then have "set (mk_fired m @ mk_callbacks m) = set (mk_scheduled m)" by (rule mset_eq_setD)
  then have "\<forall>w c. (w, SendNow c) \<in> set (mk_fired m @ mk_callbacks m) \<longrightarrow> c < n" using I by (auto simp: set_sends)
  then have "clock_inv ?m"
    using inv by (auto simp: clock_inv_def chans_ok_def nth_append set_sends)
  moreover have "n \<notin> set (sends (mk_scheduled ?m)) \<and> n < length (mk_chans ?m) \<and> mk_chans ?m ! n = []"
    using I assms(1) by (auto simp: after_step_def)
  ultimately obtain m' where "mk_AfterFunc user d (SendNow n) ?m = (Returns (), m')" "clock_inv m'" "mk_currentTime m' = now"
    "mk_scheduled m' = asked @ [(now + max 0 d, SendNow n)]" "length (mk_chans m') = Suc n"
    using mk_AfterFunc_keeps_inv [OF _ assms(2), of ?m "SendNow n" d] assms(1) by (auto simp: after_step_def)
  then show ?thesis using assms(1) by (simp add: mk_After_def go_simps after_step_def)
qed

lemma clock_history:
  assumes "plain user" "after_step m now asked n" "forward now ops"
  shows "\<exists>m' n'. gforeach (clock_step user) ops m = (Returns (), m') \<and>
    after_step m' (clock_end now ops) (asked @ asked_for now n ops) n'"
  using assms(2,3)
proof (induction ops arbitrary: m now asked n)
  case (Cons op ops)
  obtain m1 now1 asked1 n1 where m1: "clock_step user op m = (Returns (), m1)" "after_step m1 now1 asked1 n1" "forward now1 ops"
    "clock_end now (op # ops) = clock_end now1 ops" "asked @ asked_for now n (op # ops) = asked1 @ asked_for now1 n1 ops"
  proof (cases op)
    case (CAfterFunc d k)
    then show ?thesis
      using mk_AfterFunc_keeps_inv [OF _ assms(1), of m "UserFunc k" d] Cons.prems that [of _ now "asked @ [(now + max 0 d, UserFunc k)]" n]
      by (auto simp: after_step_def)
  next
    case (CAfter d)
    then show ?thesis
      using mk_After_keeps_inv [OF Cons.prems(1) assms(1), of d] Cons.prems(2) that [of _ now "asked @ [(now + max 0 d, SendNow n)]" "Suc n"]
      by (auto simp: go_simps)
  next
    case (CAdd d)
    then show ?thesis
      using mk_Add_keeps_inv [OF _ assms(1), of m d] Cons.prems that [of _ "now + d" asked n] by (auto simp: go_simps after_step_def)
  next
    case (CSet t)
    then show ?thesis
      using mk_Set_keeps_inv [OF _ assms(1), of m t] Cons.prems that [of _ t asked n] by (auto simp: go_simps after_step_def)
  next
    case CNow
    then show ?thesis
      using Cons.prems that [of m now asked n] by (auto simp: go_simps after_step_def clock_inv_def mk_Now_run)
  qed
  show ?case using Cons.IH [OF m1(2,3)] m1(1,4,5) by (simp add: go_simps)
qed (auto simp: go_simps)

text \<open>Ticking until a time returns after as many rounds as increments fit, and stops within one of the time.\<close>

lemma TickUntil_returns:
  assumes "plain user" "clock_inv m" "0 < d"
  shows "\<exists>m'. TickUntil (nat (T - mk_currentTime m) + 1) user (gget (\<lambda>m. T \<le> mk_currentTime m)) d m = (Returns (), m') \<and>
    clock_inv m' \<and> T \<le> mk_currentTime m' \<and> mk_currentTime m' \<le> max (T + d - 1) (mk_currentTime m)"
  using assms(2)
proof (induction "nat (T - mk_currentTime m)" arbitrary: m rule: less_induct)
  case less
  have more: "\<exists>m'. TickUntil (n + k) user stop d m = (Returns (), m') \<and> P m'"
    if "\<exists>m'. TickUntil n user stop d m = (Returns (), m') \<and> P m'" for n k m stop P
    using that
  proof (induction n arbitrary: m)
    case (Suc n)
    then obtain m' where m': "TickUntil (Suc n) user stop d m = (Returns (), m')" "P m'" by blast
    obtain r m1 where r: "stop m = (r, m1)" by fastforce
    then obtain b where b: "r = Returns b" using m'(1) by (cases r) (auto simp: gbind_def)
    show ?case
    proof (cases b)
      case False
      obtain r2 m2 where r2: "mk_Add user d m1 = (r2, m2)" by fastforce
      then show ?thesis using m' r b False Suc.IH [of m2] by (cases r2) (auto simp: go_simps)
    qed (use m' r b in \<open>auto simp: go_simps\<close>)
  qed (simp add: gblock_def)
  show ?case
  proof (cases "T \<le> mk_currentTime m")
    case False
    obtain m1 where m1: "mk_Add user d m = (Returns (mk_currentTime m + d), m1)" "clock_inv m1" "mk_currentTime m1 = mk_currentTime m + d"
      using mk_Add_keeps_inv [OF less.prems assms(1)] assms(3) by (metis less_imp_le)
    have "nat (T - mk_currentTime m1) < nat (T - mk_currentTime m)" using m1(3) False assms(3) by simp
    note more [OF less.hyps [OF this m1(2)], of "nat (T - mk_currentTime m) - 1 - nat (T - mk_currentTime m1)"]
    then have "\<exists>m'. TickUntil (nat (T - mk_currentTime m)) user (gget (\<lambda>m. T \<le> mk_currentTime m)) d m1 = (Returns (), m') \<and>
        clock_inv m' \<and> T \<le> mk_currentTime m' \<and> mk_currentTime m' \<le> max (T + d - 1) (mk_currentTime m1)"
      using m1(3) False assms(3) by simp
    then show ?thesis using m1 False assms(3) by (auto simp: go_simps)
  qed (use less.prems assms(3) in \<open>auto simp: go_simps\<close>)
qed

text \<open>C28: The mock clock is a queue of timers. With callbacks that do not themselves use the clock, whatever sequence
  of AfterFunc, After, Add, Set and Now moves it forward, no call panics or blocks, and at its end exactly the
  callbacks whose deadline has come have been called, once each, in the order of their deadlines, and those
  with one deadline in the order they were asked for; the channel of an After that has come due holds one
  instant, not before its deadline, and the others are empty. The lock is free.\<close>

theorem mock_clock_is_a_timer_queue:
  assumes "plain user" "forward t ops"
  shows "\<exists>m. gforeach (clock_step user) ops (new_clock t u) = (Returns (), m) \<and> mk_currentTime m = clock_end t ops \<and> \<not> mk_mu m \<and>
    (let asked = asked_for t 0 ops; now = clock_end t ops in
       mk_fired m = sort_key fst (filter (\<lambda>c. fst c \<le> now) asked) \<and> mk_callbacks m = filter (\<lambda>c. now < fst c) asked \<and>
       (\<forall>w c. (w, SendNow c) \<in> set asked \<longrightarrow>
          (if w \<le> now then \<exists>t'. mk_chans m ! c = [t'] \<and> w \<le> t' \<and> t' \<le> now else mk_chans m ! c = [])))"
proof -
  have "after_step (new_clock t u) t [] 0"
    by (simp add: after_step_def new_clock_def clock_inv_def chans_ok_def timers_at_def)
  then obtain m n where m: "gforeach (clock_step user) ops (new_clock t u) = (Returns (), m)"
    "after_step m (clock_end t ops) (asked_for t 0 ops) n"
    using clock_history [OF assms(1) _ assms(2)] by fastforce
  then have waits: "\<forall>c \<in> set (sends (filter (\<lambda>c. clock_end t ops < fst c) (asked_for t 0 ops))). mk_chans m ! c = []"
    by (auto simp: after_step_def clock_inv_def chans_ok_def timers_at_def)
  have "mk_chans m ! c = []" if "(w, SendNow c) \<in> set (asked_for t 0 ops)" "clock_end t ops < w" for w c
    using that bspec [OF waits, of c] by (auto simp: set_sends)
  then show ?thesis
    using m by (intro exI [of _ m]) (auto simp: after_step_def clock_inv_def chans_ok_def timers_at_def Let_def)
qed

theorem mock_clock_is_a_timer_queue_witness:
  "\<exists>m. gforeach (clock_step (\<lambda>k m. (Returns (), m\<lparr>mk_memory := k\<rparr>)))
      [CAfterFunc 7 1, CAfter 5, CAfterFunc 5 2, CAfterFunc 0 3, CAfterFunc 9 4, CAdd 8] (new_clock 100 0) = (Returns (), m) \<and>
    mk_fired m = [(100, UserFunc 3), (105, SendNow 0), (105, UserFunc 2), (107, UserFunc 1)] \<and> mk_callbacks m = [(109, UserFunc 4)]"
proof -
  let ?user = "\<lambda>k m. (Returns (), m\<lparr>mk_memory := k\<rparr>)"
  let ?ops = "[CAfterFunc 7 1, CAfter 5, CAfterFunc 5 2, CAfterFunc 0 3, CAfterFunc 9 4, CAdd 8]"
  have "plain ?user" by (auto simp: plain_def)
  moreover have "forward 100 ?ops" by simp
  ultimately show ?thesis
    using mock_clock_is_a_timer_queue [of ?user 100 ?ops 0] by (auto simp: Let_def)
qed

end
