(* ===== verification/TransitionRace.thy ===== *)
theory TransitionRace
  imports Circuit "HOL-Library.Sublist"
begin

text \<open>
  Concurrent transitions: \<^verbatim>\<open>transitionTo\<close>, \<^verbatim>\<open>commitTransition\<close> and \<^verbatim>\<open>deliverPendingTransitions\<close> of
  \<^verbatim>\<open>circuit.go\<close> on goroutines whose steps interleave. A transition is its target, open or closed.

  A step is what one goroutine does between two points at which others can see it: a lock, an unlock, a
  read or write of \<^verbatim>\<open>isOpen\<close>, a call of user code. The user code decides freely: \<^verbatim>\<open>recheck\<close> may refuse (or
  panic, which has the same effect), the logic may panic, and a listener may call the circuit again,
  return, or panic (or call \<^verbatim>\<open>runtime.Goexit\<close>), which runs the deferred cleanup.

  A goroutine is the stack of its calls of \<^verbatim>\<open>transitionTo\<close>, the innermost first: below the first there are
  only calls that wait for a listener.
\<close>

datatype frame =
    PreCheck bool
  | CommitLock bool
  | CommitCheck bool
  | TellLogic bool
  | Enqueue bool
  | DeliverLock
  | DeliverCheck
  | DeliverLoop
  | Listening bool
  | Relock
  | CleanupLock

text \<open>
  The shared state, and what has happened: the flips of \<^verbatim>\<open>isOpen\<close>, the transitions queued and those
  the listeners were told, in order, and how many flips were not queued because the logic panicked.
\<close>

record race =
  ra_isOpen :: bool
  ra_mu :: "nat option"
  ra_pending :: "bool list"
  ra_delivering :: bool
  ra_stack :: "nat \<Rightarrow> frame list"
  ra_flips :: "bool list"
  ra_queued :: "bool list"
  ra_told :: "bool list"
  ra_lost :: nat

definition race_start :: "bool \<Rightarrow> race" where
  "race_start b = \<lparr>ra_isOpen = b, ra_mu = None, ra_pending = [], ra_delivering = False, ra_stack = (\<lambda>_. []),
     ra_flips = [], ra_queued = [], ra_told = [], ra_lost = 0\<rparr>"

definition set_stack :: "nat \<Rightarrow> frame list \<Rightarrow> race \<Rightarrow> race" where
  "set_stack i fs s = s\<lparr>ra_stack := (ra_stack s)(i := fs)\<rparr>"

text \<open>New calls: from a goroutine that is in none, and from a listener.\<close>

inductive race_call :: "nat \<Rightarrow> race \<Rightarrow> race \<Rightarrow> bool" for n where
  call: "i < n \<Longrightarrow> ra_stack s i = [] \<Longrightarrow> race_call n s (set_stack i [PreCheck op] s)"
| reenter: "i < n \<Longrightarrow> ra_stack s i = Listening t # fs \<Longrightarrow> race_call n s (set_stack i (PreCheck op # Listening t # fs) s)"

text \<open>The steps of the calls.\<close>

inductive race_step :: "nat \<Rightarrow> race \<Rightarrow> race \<Rightarrow> bool" for n where
  precheck_same: "i < n \<Longrightarrow> ra_stack s i = PreCheck op # fs \<Longrightarrow> ra_isOpen s = op \<Longrightarrow>
    race_step n s (set_stack i fs s)"
| precheck_go: "i < n \<Longrightarrow> ra_stack s i = PreCheck op # fs \<Longrightarrow> ra_isOpen s \<noteq> op \<Longrightarrow>
    race_step n s (set_stack i (CommitLock op # fs) s)"
| commit_lock: "i < n \<Longrightarrow> ra_stack s i = CommitLock op # fs \<Longrightarrow> ra_mu s = None \<Longrightarrow>
    race_step n s (set_stack i (CommitCheck op # fs) s\<lparr>ra_mu := Some i\<rparr>)"
| commit_same: "i < n \<Longrightarrow> ra_stack s i = CommitCheck op # fs \<Longrightarrow> ra_isOpen s = op \<Longrightarrow>
    race_step n s (set_stack i fs s\<lparr>ra_mu := None\<rparr>)"
| recheck_no: "i < n \<Longrightarrow> ra_stack s i = CommitCheck op # fs \<Longrightarrow> ra_isOpen s \<noteq> op \<Longrightarrow>
    race_step n s (set_stack i fs s\<lparr>ra_mu := None\<rparr>)"
| commit_flip: "i < n \<Longrightarrow> ra_stack s i = CommitCheck op # fs \<Longrightarrow> ra_isOpen s \<noteq> op \<Longrightarrow>
    race_step n s (set_stack i (TellLogic op # fs) s\<lparr>ra_isOpen := op, ra_flips := ra_flips s @ [op]\<rparr>)"
| logic_told: "i < n \<Longrightarrow> ra_stack s i = TellLogic op # fs \<Longrightarrow>
    race_step n s (set_stack i (Enqueue op # fs) s)"
| logic_panics: "i < n \<Longrightarrow> ra_stack s i = TellLogic op # fs \<Longrightarrow>
    race_step n s (set_stack i fs s\<lparr>ra_mu := None, ra_lost := Suc (ra_lost s)\<rparr>)"
| enqueue: "i < n \<Longrightarrow> ra_stack s i = Enqueue op # fs \<Longrightarrow>
    race_step n s (set_stack i (DeliverLock # fs) s\<lparr>ra_mu := None, ra_pending := ra_pending s @ [op],
      ra_queued := ra_queued s @ [op]\<rparr>)"
| deliver_lock: "i < n \<Longrightarrow> ra_stack s i = DeliverLock # fs \<Longrightarrow> ra_mu s = None \<Longrightarrow>
    race_step n s (set_stack i (DeliverCheck # fs) s\<lparr>ra_mu := Some i\<rparr>)"
| deliver_busy: "i < n \<Longrightarrow> ra_stack s i = DeliverCheck # fs \<Longrightarrow> ra_delivering s \<Longrightarrow>
    race_step n s (set_stack i fs s\<lparr>ra_mu := None\<rparr>)"
| deliver_start: "i < n \<Longrightarrow> ra_stack s i = DeliverCheck # fs \<Longrightarrow> \<not> ra_delivering s \<Longrightarrow>
    race_step n s (set_stack i (DeliverLoop # fs) s\<lparr>ra_delivering := True\<rparr>)"
| loop_next: "i < n \<Longrightarrow> ra_stack s i = DeliverLoop # fs \<Longrightarrow> ra_pending s = t # ts \<Longrightarrow>
    race_step n s (set_stack i (Listening t # fs) s\<lparr>ra_mu := None, ra_pending := ts, ra_told := ra_told s @ [t]\<rparr>)"
| loop_end: "i < n \<Longrightarrow> ra_stack s i = DeliverLoop # fs \<Longrightarrow> ra_pending s = [] \<Longrightarrow>
    race_step n s (set_stack i fs s\<lparr>ra_mu := None, ra_delivering := False\<rparr>)"
| listener_returns: "i < n \<Longrightarrow> ra_stack s i = Listening t # fs \<Longrightarrow>
    race_step n s (set_stack i (Relock # fs) s)"
| relock: "i < n \<Longrightarrow> ra_stack s i = Relock # fs \<Longrightarrow> ra_mu s = None \<Longrightarrow>
    race_step n s (set_stack i (DeliverLoop # fs) s\<lparr>ra_mu := Some i\<rparr>)"
| listener_panics: "i < n \<Longrightarrow> ra_stack s i = Listening t # fs \<Longrightarrow>
    race_step n s (set_stack i (CleanupLock # fs) s)"
| cleanup: "i < n \<Longrightarrow> ra_stack s i = CleanupLock # fs \<Longrightarrow> ra_mu s = None \<Longrightarrow>
    race_step n s (set_stack i (DeliverLock # fs) s\<lparr>ra_delivering := False\<rparr>)"

inductive race_reach :: "nat \<Rightarrow> bool \<Rightarrow> race \<Rightarrow> bool" for n b where
  race_init: "race_reach n b (race_start b)"
| race_called: "race_reach n b s \<Longrightarrow> race_call n s s' \<Longrightarrow> race_reach n b s'"
| race_stepped: "race_reach n b s \<Longrightarrow> race_step n s s' \<Longrightarrow> race_reach n b s'"

subsection \<open>The invariant\<close>

fun holding :: "frame \<Rightarrow> bool" where
  "holding (CommitCheck op) = True"
| "holding (TellLogic op) = True"
| "holding (Enqueue op) = True"
| "holding DeliverCheck = True"
| "holding DeliverLoop = True"
| "holding _ = False"

fun delivers :: "frame \<Rightarrow> bool" where
  "delivers DeliverLoop = True"
| "delivers (Listening t) = True"
| "delivers Relock = True"
| "delivers CleanupLock = True"
| "delivers _ = False"

fun flight :: "frame \<Rightarrow> bool list" where
  "flight (TellLogic op) = [op]"
| "flight (Enqueue op) = [op]"
| "flight _ = []"

definition responsible :: "frame \<Rightarrow> bool" where
  "responsible f \<longleftrightarrow> delivers f \<or> f = DeliverLock \<or> f = DeliverCheck"

definition holds_lock :: "frame list \<Rightarrow> bool" where
  "holds_lock fs \<longleftrightarrow> (case fs of [] \<Rightarrow> False | f # _ \<Rightarrow> holding f)"

text \<open>The flip that the holder of the lock has made and not queued yet.\<close>

definition in_flight :: "race \<Rightarrow> bool list" where
  "in_flight s = (case ra_mu s of None \<Rightarrow> [] | Some i \<Rightarrow> (case ra_stack s i of [] \<Rightarrow> [] | f # _ \<Rightarrow> flight f))"

definition deliverer_count :: "race \<Rightarrow> nat \<Rightarrow> nat" where
  "deliverer_count s i = length (filter delivers (ra_stack s i))"

fun alternates :: "bool \<Rightarrow> bool list \<Rightarrow> bool" where
  "alternates b [] = True"
| "alternates b (c # cs) = (c \<noteq> b \<and> alternates c cs)"

definition lock_inv :: "race \<Rightarrow> bool" where
  "lock_inv s \<longleftrightarrow> (\<forall>i. (ra_mu s = Some i) = holds_lock (ra_stack s i)) \<and>
     (\<forall>i. \<forall>f \<in> set (tl (ra_stack s i)). \<exists>t. f = Listening t)"

definition role_inv :: "race \<Rightarrow> bool" where
  "role_inv s \<longleftrightarrow> (if ra_delivering s then \<exists>i. deliverer_count s i = 1 \<and> (\<forall>j. j \<noteq> i \<longrightarrow> deliverer_count s j = 0)
     else \<forall>j. deliverer_count s j = 0)"

definition flip_inv :: "bool \<Rightarrow> race \<Rightarrow> bool" where
  "flip_inv b s \<longleftrightarrow> alternates b (ra_flips s) \<and> ra_isOpen s = last (b # ra_flips s)"

definition queue_inv :: "race \<Rightarrow> bool" where
  "queue_inv s \<longleftrightarrow> ra_queued s = ra_told s @ ra_pending s \<and>
     (\<exists>F. ra_flips s = F @ in_flight s \<and> subseq (ra_queued s) F \<and> length F = length (ra_queued s) + ra_lost s)"

definition drain_inv :: "race \<Rightarrow> bool" where
  "drain_inv s \<longleftrightarrow> (ra_pending s \<noteq> [] \<longrightarrow> (\<exists>i. \<exists>f \<in> set (ra_stack s i). responsible f))"

lemmas race_defs = set_stack_def holds_lock_def in_flight_def deliverer_count_def responsible_def

lemma alternates_snoc: "alternates b (cs @ [c]) = (alternates b cs \<and> c \<noteq> last (b # cs))"
  by (induction cs arbitrary: b) auto

lemma lock_inv_below:
  assumes "lock_inv s" "ra_stack s i = f # fs"
  shows "\<forall>g \<in> set fs. \<exists>t. g = Listening t" "\<not> holds_lock fs" "\<forall>g \<in> set (tl fs). \<exists>t. g = Listening t"
    "(ra_mu s = Some i) = holding f"
proof -
  show fs: "\<forall>g \<in> set fs. \<exists>t. g = Listening t" "(ra_mu s = Some i) = holding f"
    using assms by (auto simp: lock_inv_def holds_lock_def dest: spec [of _ i])
  then show "\<not> holds_lock fs" "\<forall>g \<in> set (tl fs). \<exists>t. g = Listening t"
    by (cases fs; force simp: holds_lock_def)+
qed

lemma lock_inv_update:
  assumes "lock_inv s" "(ra_mu s = Some i) = holds_lock (ra_stack s i)" "\<forall>g \<in> set (tl fs'). \<exists>t. g = Listening t"
    and "ra_stack s' = (ra_stack s)(i := fs')"
    and "ra_mu s' = (if holds_lock fs' then Some i else if holds_lock (ra_stack s i) then None else ra_mu s)"
    and "holds_lock fs' \<Longrightarrow> \<not> holds_lock (ra_stack s i) \<Longrightarrow> ra_mu s = None"
  shows "lock_inv s'"
proof -
  have "(ra_mu s' = Some j) = holds_lock (ra_stack s' j)" for j
  proof (cases "j = i")
    case False
    have "(ra_mu s = Some j) = holds_lock (ra_stack s j)" using assms(1) by (simp add: lock_inv_def)
    then show ?thesis using False assms(2,4-6) by auto
  qed (use assms(2,4-6) in \<open>auto split: if_splits\<close>)
  then show ?thesis using assms(1,3,4) by (auto simp: lock_inv_def)
qed

lemma holds_lock_Cons [simp]: "holds_lock (f # fs) = holding f" "\<not> holds_lock []"
  by (simp_all add: holds_lock_def)

text \<open>The innermost call of a goroutine ends, goes on, or a listener starts one.\<close>

lemma lock_inv_pop:
  assumes "lock_inv s" "ra_stack s i = f # fs" "ra_stack s' = (ra_stack s)(i := fs)"
    and "ra_mu s' = (if holding f then None else ra_mu s)"
  shows "lock_inv s'"
  using lock_inv_below [OF assms(1,2)]
  by (intro lock_inv_update [OF assms(1), of i fs]) (simp_all add: assms(2-))

lemma lock_inv_next:
  assumes "lock_inv s" "ra_stack s i = f # fs" "ra_stack s' = (ra_stack s)(i := g # fs)"
    and "ra_mu s' = (if holding g then Some i else if holding f then None else ra_mu s)"
    and "holding g \<Longrightarrow> \<not> holding f \<Longrightarrow> ra_mu s = None"
  shows "lock_inv s'"
  using lock_inv_below [OF assms(1,2)]
  by (intro lock_inv_update [OF assms(1), of i "g # fs"]) (simp_all add: assms(2-))

lemma lock_inv_push:
  "lock_inv s \<Longrightarrow> \<forall>g \<in> set (ra_stack s i). \<exists>t. g = Listening t \<Longrightarrow> ra_stack s' = (ra_stack s)(i := PreCheck op # ra_stack s i) \<Longrightarrow>
     ra_mu s' = ra_mu s \<Longrightarrow> lock_inv s'"
  by (rule lock_inv_update [where fs' = "PreCheck op # ra_stack s i"]) (auto simp: lock_inv_def holds_lock_def split: list.splits)

lemma holder:
  "lock_inv s \<Longrightarrow> ra_stack s i = f # fs \<Longrightarrow> holding f \<Longrightarrow> ra_mu s = Some i"
  using lock_inv_below(4) by blast

lemma lock_inv_step:
  assumes "race_step n s s'" "lock_inv s"
  shows "lock_inv s'"
  using assms(1)
proof cases
qed (rule lock_inv_pop [OF assms(2)] lock_inv_next [OF assms(2)], assumption,
    simp add: set_stack_def, use holder [OF assms(2)] in \<open>simp add: set_stack_def\<close>, simp?)+

lemma lock_inv_call:
  assumes "race_call n s s'" "lock_inv s"
  shows "lock_inv s'"
  using assms(1)
proof cases
  case (call i op)
  then show ?thesis by (intro lock_inv_push [OF assms(2), of i]) (simp_all add: set_stack_def)
next
  case (reenter i t fs op)
  then show ?thesis
    using lock_inv_below(1) [OF assms(2)] by (intro lock_inv_push [OF assms(2), of i]) (auto simp add: set_stack_def)
qed

lemma flip_inv_step: "race_step n s s' \<Longrightarrow> flip_inv b s \<Longrightarrow> flip_inv b s'"
  by (erule race_step.cases) (auto simp: flip_inv_def race_defs alternates_snoc)

text \<open>The role of the deliverer: kept, taken, or given up by the goroutine that makes the step.\<close>

lemma role_inv_same:
  assumes "role_inv s" "ra_stack s' = (ra_stack s)(i := fs')" "ra_delivering s' = ra_delivering s"
    and "length (filter delivers fs') = length (filter delivers (ra_stack s i))"
  shows "role_inv s'"
proof -
  have "deliverer_count s' = deliverer_count s" using assms(2,4) by (auto simp: deliverer_count_def fun_eq_iff)
  then show ?thesis using assms(1,3) by (simp only: role_inv_def)
qed

lemma role_inv_pop:
  "role_inv s \<Longrightarrow> ra_stack s i = f # fs \<Longrightarrow> ra_stack s' = (ra_stack s)(i := fs) \<Longrightarrow> \<not> delivers f \<Longrightarrow>
     ra_delivering s' = ra_delivering s \<Longrightarrow> role_inv s'"
  by (rule role_inv_same [where s = s and i = i and fs' = fs]) simp_all

lemma role_inv_next:
  "role_inv s \<Longrightarrow> ra_stack s i = f # fs \<Longrightarrow> ra_stack s' = (ra_stack s)(i := g # fs) \<Longrightarrow> delivers f = delivers g \<Longrightarrow>
     ra_delivering s' = ra_delivering s \<Longrightarrow> role_inv s'"
  by (rule role_inv_same [where s = s and i = i and fs' = "g # fs"]) simp_all

lemma role_inv_take:
  assumes "role_inv s" "\<not> ra_delivering s" "ra_stack s i = f # fs" "ra_stack s' = (ra_stack s)(i := g # fs)" "ra_delivering s'" "delivers g"
  shows "role_inv s'"
proof -
  have none: "deliverer_count s j = 0" for j using assms(1,2) by (simp add: role_inv_def)
  have "filter delivers fs = []" using none [of i] assms(3) by (auto simp: deliverer_count_def split: if_splits)
  then have "deliverer_count s' i = 1" "\<And>j. j \<noteq> i \<Longrightarrow> deliverer_count s' j = 0"
    using assms(4,6) none by (simp_all add: deliverer_count_def)
  then show ?thesis using assms(5) by (auto simp: role_inv_def)
qed

lemma role_inv_deliverer:
  assumes "role_inv s" "ra_stack s i = f # fs" "delivers f"
  shows "ra_delivering s" "filter delivers fs = []" "\<And>j. j \<noteq> i \<Longrightarrow> deliverer_count s j = 0"
proof -
  have i: "deliverer_count s i = Suc (length (filter delivers fs))" using assms(2,3) by (simp add: deliverer_count_def)
  then show "ra_delivering s" using assms(1) by (auto simp: role_inv_def split: if_splits dest: spec [of _ i])
  then obtain k where k: "deliverer_count s k = 1" "\<And>j. j \<noteq> k \<Longrightarrow> deliverer_count s j = 0"
    using assms(1) by (auto simp: role_inv_def)
  then have "k = i" using i by (metis nat.distinct(1))
  then show "filter delivers fs = []" "\<And>j. j \<noteq> i \<Longrightarrow> deliverer_count s j = 0" using i k by simp_all
qed

lemma role_inv_give_up:
  assumes "role_inv s" "ra_stack s i = f # fs" "delivers f" "ra_stack s' = (ra_stack s)(i := fs')" "\<not> ra_delivering s'"
    and "filter delivers fs' = filter delivers fs"
  shows "role_inv s'"
proof -
  have "deliverer_count s' j = 0" for j
    using role_inv_deliverer(2,3) [OF assms(1-3)] assms(4,6) by (cases "j = i") (simp_all add: deliverer_count_def)
  then show ?thesis using assms(5) by (simp add: role_inv_def)
qed

lemma role_inv_step:
  assumes "race_step n s s'" "role_inv s"
  shows "role_inv s'"
  using assms(1)
proof cases
  case (deliver_start i fs)
  then show ?thesis by (intro role_inv_take [OF assms(2), of i DeliverCheck fs _ DeliverLoop]) (simp_all add: set_stack_def)
next
  case (loop_end i fs)
  then show ?thesis by (intro role_inv_give_up [OF assms(2), of i DeliverLoop fs _ fs]) (simp_all add: set_stack_def)
next
  case (cleanup i fs)
  then show ?thesis by (intro role_inv_give_up [OF assms(2), of i CleanupLock fs _ "DeliverLock # fs"]) (simp_all add: set_stack_def)
qed (rule role_inv_pop [OF assms(2)] role_inv_next [OF assms(2)], assumption,
    simp add: set_stack_def, simp add: set_stack_def, simp add: set_stack_def)+

lemma role_inv_call:
  assumes "race_call n s s'" "role_inv s"
  shows "role_inv s'"
  using assms(1)
proof cases
  case (call i op)
  then show ?thesis by (intro role_inv_same [OF assms(2), of _ i "[PreCheck op]"]) (simp_all add: set_stack_def)
next
  case (reenter i t fs op)
  then show ?thesis
    by (intro role_inv_same [OF assms(2), of _ i "PreCheck op # Listening t # fs"]) (simp_all add: set_stack_def)
qed

text \<open>The queue: only the holder of the lock has a flip in flight.\<close>

lemma in_flight_simps:
  "ra_mu s = None \<Longrightarrow> in_flight s = []" "ra_mu s = Some i \<Longrightarrow> ra_stack s i = f # fs \<Longrightarrow> in_flight s = flight f"
  by (simp_all add: in_flight_def)

lemma in_flight_same:
  assumes "lock_inv s" "ra_stack s i = f # fs" "\<not> holding f" "ra_stack s' = (ra_stack s)(i := fs')" "ra_mu s' = ra_mu s"
  shows "in_flight s' = in_flight s"
proof -
  have "ra_mu s \<noteq> Some i" using lock_inv_below(4) [OF assms(1,2)] assms(3) by simp
  then show ?thesis using assms(4,5) by (simp add: in_flight_def split: option.split)
qed

lemma queue_inv_same:
  assumes "queue_inv s" "ra_flips s' = ra_flips s" "ra_queued s' = ra_queued s" "ra_told s' @ ra_pending s' = ra_told s @ ra_pending s"
    and "ra_lost s' = ra_lost s" "in_flight s' = in_flight s"
  shows "queue_inv s'"
  using assms(1) unfolding queue_inv_def assms(2,3,5,6) assms(4) .

lemma queue_inv_step:
  assumes "race_step n s s'" "lock_inv s" "queue_inv s"
  shows "queue_inv s'"
  using assms(1)
proof cases
  case (commit_flip i op fs)
  note h = holder [OF assms(2) commit_flip(3)]
  have "in_flight s = []" "in_flight s' = [op]"
    using h commit_flip by (simp_all add: in_flight_def set_stack_def)
  then show ?thesis using assms(3) commit_flip(1) by (auto simp: queue_inv_def set_stack_def)
next
  case (logic_panics i op fs)
  note h = holder [OF assms(2) logic_panics(3)]
  have "in_flight s = [op]" "in_flight s' = []"
    using h logic_panics by (simp_all add: in_flight_def set_stack_def)
  then show ?thesis using assms(3) logic_panics(1) by (auto simp: queue_inv_def set_stack_def intro: subseq_rev_drop_many)
next
  case (enqueue i op fs)
  note h = holder [OF assms(2) enqueue(3)]
  have "in_flight s = [op]" "in_flight s' = []"
    using h enqueue by (simp_all add: in_flight_def set_stack_def)
  moreover obtain F where F: "ra_flips s = F @ in_flight s" "subseq (ra_queued s) F" "length F = length (ra_queued s) + ra_lost s"
    using assms(3) by (auto simp: queue_inv_def)
  moreover have "ra_queued s' = ra_queued s @ [op]" "ra_told s' @ ra_pending s' = ra_queued s @ [op]" "ra_flips s' = ra_flips s"
    "ra_lost s' = ra_lost s" using assms(3) enqueue(1) by (simp_all add: set_stack_def queue_inv_def)
  ultimately show ?thesis unfolding queue_inv_def by (intro conjI exI [of _ "F @ [op]"]) simp_all
qed (rule queue_inv_same [OF assms(3)], (simp add: set_stack_def; fail)+,
    use holder [OF assms(2)] in_flight_same [OF assms(2)] in \<open>force simp: in_flight_def set_stack_def\<close>)+

lemma drain_invI: "f \<in> set (ra_stack s i) \<Longrightarrow> responsible f \<Longrightarrow> drain_inv s"
  unfolding drain_inv_def by blast

text \<open>A goroutine that goes away leaves the queue to another one, or leaves it empty.\<close>

lemma drain_inv_others:
  assumes "drain_inv s" "ra_stack s' = (ra_stack s)(i := fs')" "ra_pending s' = ra_pending s"
    and "\<And>f. f \<in> set (ra_stack s i) \<Longrightarrow> responsible f \<Longrightarrow> \<exists>g \<in> set fs'. responsible g"
  shows "drain_inv s'"
  unfolding drain_inv_def
proof
  assume "ra_pending s' \<noteq> []"
  then obtain j f where j: "f \<in> set (ra_stack s j)" "responsible f" using assms(1,3) by (auto simp: drain_inv_def)
  then show "\<exists>i. \<exists>f \<in> set (ra_stack s' i). responsible f"
  proof (cases "j = i")
    case True
    then show ?thesis using j assms(2,4) by (intro exI [of _ i]) auto
  next
    case False
    then show ?thesis using j assms(2) by (intro exI [of _ j]) auto
  qed
qed

lemma drain_inv_step:
  assumes "race_step n s s'" "role_inv s" "drain_inv s"
  shows "drain_inv s'"
  using assms(1)
proof cases
  case (deliver_busy i fs)
  obtain j where "deliverer_count s j = 1" using assms(2) deliver_busy(4) by (auto simp: role_inv_def)
  then have "filter delivers (ra_stack s j) \<noteq> []" by (auto simp: deliverer_count_def)
  then obtain f where f: "f \<in> set (ra_stack s j)" "delivers f" by (auto simp: filter_empty_conv)
  then have "f \<in> set (ra_stack s' j)" using deliver_busy by (auto simp: set_stack_def)
  then show ?thesis using f(2) by (auto intro: drain_invI simp: responsible_def)
next
  case (loop_end i fs)
  then show ?thesis by (simp add: drain_inv_def set_stack_def)
next
  case (enqueue i op fs)
  then have "DeliverLock \<in> set (ra_stack s' i)" by (simp add: set_stack_def)
  then show ?thesis by (rule drain_invI) (simp add: responsible_def)
next
  case (loop_next i fs t ts)
  then have "Listening t \<in> set (ra_stack s' i)" by (simp add: set_stack_def)
  then show ?thesis by (rule drain_invI) (simp add: responsible_def)
qed (rule drain_inv_others [OF assms(3)], simp add: set_stack_def, simp add: set_stack_def,
    force simp: responsible_def set_stack_def)+

lemma drain_inv_call:
  assumes "race_call n s s'" "drain_inv s"
  shows "drain_inv s'"
  using assms(1)
proof cases
qed (rule drain_inv_others [OF assms(2)], simp add: set_stack_def, simp add: set_stack_def,
    force simp: responsible_def set_stack_def)+

lemma race_call_same:
  assumes "race_call n s s'"
  shows "ra_flips s' = ra_flips s" "ra_isOpen s' = ra_isOpen s" "ra_queued s' = ra_queued s" "ra_told s' = ra_told s"
    "ra_pending s' = ra_pending s" "ra_lost s' = ra_lost s" "lock_inv s \<Longrightarrow> in_flight s' = in_flight s"
proof -
  obtain i fs op where i: "s' = set_stack i (PreCheck op # fs) s" "\<not> holds_lock (ra_stack s i)"
    using assms by cases auto
  then show "ra_flips s' = ra_flips s" "ra_isOpen s' = ra_isOpen s" "ra_queued s' = ra_queued s" "ra_told s' = ra_told s"
    "ra_pending s' = ra_pending s" "ra_lost s' = ra_lost s" by (simp_all add: set_stack_def)
  show "in_flight s' = in_flight s" if "lock_inv s"
  proof -
    have "ra_mu s \<noteq> Some i" using that i(2) by (auto simp: lock_inv_def)
    then show ?thesis by (simp add: i(1) set_stack_def in_flight_def split: option.split)
  qed
qed

lemma race_inv:
  "race_reach n b s \<Longrightarrow> lock_inv s \<and> role_inv s \<and> flip_inv b s \<and> queue_inv s \<and> drain_inv s"
proof (induction rule: race_reach.induct)
  case race_init
  then show ?case
    by (simp add: race_start_def lock_inv_def role_inv_def flip_inv_def queue_inv_def drain_inv_def deliverer_count_def
        in_flight_def)
next
  case (race_called s s')
  note same = race_call_same [OF race_called(2)] race_called(3)
  have "queue_inv s'" using race_called(3) by (intro queue_inv_same [of s s']) (simp_all only: same simp_thms)
  moreover have "flip_inv b s'" using same by (simp add: flip_inv_def)
  ultimately show ?case
    using race_called(3) lock_inv_call [OF race_called(2)] role_inv_call [OF race_called(2)] drain_inv_call [OF race_called(2)]
    by blast
next
  case (race_stepped s s')
  then show ?case using lock_inv_step role_inv_step flip_inv_step queue_inv_step drain_inv_step by blast
qed

subsection \<open>The calls come to an end\<close>

fun frame_work :: "frame \<Rightarrow> nat" where
  "frame_work (PreCheck op) = 13"
| "frame_work (CommitLock op) = 12"
| "frame_work (CommitCheck op) = 11"
| "frame_work (TellLogic op) = 10"
| "frame_work (Enqueue op) = 9"
| "frame_work DeliverLock = 3"
| "frame_work DeliverCheck = 2"
| "frame_work DeliverLoop = 1"
| "frame_work (Listening t) = 5"
| "frame_work Relock = 2"
| "frame_work CleanupLock = 4"

definition race_work :: "nat \<Rightarrow> race \<Rightarrow> nat" where
  "race_work n s = 5 * length (ra_pending s) + (\<Sum>i<n. sum_list (map frame_work (ra_stack s i)))"

lemma race_work_update:
  assumes "i < n" "ra_stack s' = (ra_stack s)(i := fs')"
    and "5 * length (ra_pending s') + sum_list (map frame_work fs') < 5 * length (ra_pending s) + sum_list (map frame_work (ra_stack s i))"
  shows "race_work n s' < race_work n s"
proof -
  have "(\<Sum>j<n. sum_list (map frame_work (ra_stack s j))) =
      sum_list (map frame_work (ra_stack s i)) + (\<Sum>j\<in>{..<n} - {i}. sum_list (map frame_work (ra_stack s j)))"
    using assms(1) by (intro sum.remove) simp_all
  moreover have "(\<Sum>j<n. sum_list (map frame_work (ra_stack s' j))) =
      sum_list (map frame_work fs') + (\<Sum>j\<in>{..<n} - {i}. sum_list (map frame_work (ra_stack s j)))"
    using assms(1,2) by (subst sum.remove [of _ i]) simp_all
  ultimately show ?thesis using assms(3) by (simp add: race_work_def)
qed

lemma race_step_work: "race_step n s s' \<Longrightarrow> race_work n s' < race_work n s"
proof (erule race_step.cases)
qed (rule race_work_update, assumption, simp add: set_stack_def, simp add: set_stack_def)+

text \<open>Somebody can always go on: the holder of the lock, or anybody when it is free.\<close>

lemma race_progress:
  assumes "lock_inv s" "i < n" "ra_stack s i = f # fs" "\<And>j. n \<le> j \<Longrightarrow> ra_stack s j = []"
  shows "\<exists>s'. race_step n s s'"
proof (cases "ra_mu s")
  case None
  then have "\<not> holding f" using lock_inv_below(4) [OF assms(1,3)] by simp
  then show ?thesis using assms(2,3) None
    by (cases f) (auto intro: commit_lock deliver_lock listener_returns relock cleanup, metis precheck_same precheck_go)
next
  case (Some j)
  then have "holds_lock (ra_stack s j)" using assms(1) by (auto simp: lock_inv_def)
  then obtain g gs where g: "ra_stack s j = g # gs" "holding g" by (auto simp: holds_lock_def split: list.splits)
  then have "j < n" using assms(4) by (metis list.distinct(1) not_le)
  then show ?thesis using g
    by (cases g) (auto intro: logic_told enqueue, metis commit_same commit_flip, metis deliver_busy deliver_start,
        metis loop_next loop_end neq_Nil_conv)
qed

lemma race_reach_bounded: "race_reach n b s \<Longrightarrow> n \<le> j \<Longrightarrow> ra_stack s j = []"
proof (induction rule: race_reach.induct)
  case (race_called s s')
  then show ?case by (auto simp: set_stack_def elim!: race_call.cases)
next
  case (race_stepped s s')
  then show ?case by (auto simp: set_stack_def elim!: race_step.cases)
qed (simp add: race_start_def)

text \<open>
  An example: goroutine 0 opens the circuit; while a listener hears of it, goroutine 1 closes the circuit,
  and leaves its transition to goroutine 0.
\<close>

definition stacks :: "frame list \<Rightarrow> frame list \<Rightarrow> nat \<Rightarrow> frame list" where
  "stacks a b = (\<lambda>i. if i = 0 then a else if i = 1 then b else [])"

lemma stacks_simps [simp]:
  "stacks a b 0 = a" "stacks a b (Suc 0) = b" "(stacks a b)(0 := c) = stacks c b" "(stacks a b)(Suc 0 := c) = stacks a c"
  by (auto simp: stacks_def)

definition race_at :: "bool \<Rightarrow> nat option \<Rightarrow> bool list \<Rightarrow> bool \<Rightarrow> frame list \<Rightarrow> frame list \<Rightarrow> bool list \<Rightarrow> bool list \<Rightarrow> bool list \<Rightarrow> race" where
  "race_at opn mu pending delivering a b flips queued told = \<lparr>ra_isOpen = opn, ra_mu = mu, ra_pending = pending,
     ra_delivering = delivering, ra_stack = stacks a b, ra_flips = flips, ra_queued = queued, ra_told = told, ra_lost = 0\<rparr>"

lemma reach_step: "race_reach n b s \<Longrightarrow> race_step n s s' \<Longrightarrow> s' = t \<Longrightarrow> race_reach n b t"
  using race_stepped by blast

lemma reach_call: "race_reach n b s \<Longrightarrow> race_call n s s' \<Longrightarrow> s' = t \<Longrightarrow> race_reach n b t"
  using race_called by blast

lemma start_at: "race_start False = race_at False None [] False [] [] [] [] []"
  by (auto simp: race_start_def race_at_def stacks_def)

lemmas at_simps = race_at_def set_stack_def

lemma race_opened:
  "race_reach 2 False (race_at True None [] True [Listening True] [] [True] [True] [True])"
proof -
  have "race_reach 2 False (race_at False None [] False [PreCheck True] [] [] [] [])"
    by (rule reach_call [OF race_init call [where i = 0]]) (simp_all add: start_at at_simps)
  then have "race_reach 2 False (race_at False None [] False [CommitLock True] [] [] [] [])"
    by (rule reach_step [OF _ precheck_go [where i = 0]]) (simp_all add: at_simps)
  then have "race_reach 2 False (race_at False (Some 0) [] False [CommitCheck True] [] [] [] [])"
    by (rule reach_step [OF _ commit_lock [where i = 0]]) (simp_all add: at_simps)
  then have "race_reach 2 False (race_at True (Some 0) [] False [TellLogic True] [] [True] [] [])"
    by (rule reach_step [OF _ commit_flip [where i = 0]]) (simp_all add: at_simps)
  then have "race_reach 2 False (race_at True (Some 0) [] False [Enqueue True] [] [True] [] [])"
    by (rule reach_step [OF _ logic_told [where i = 0]]) (simp_all add: at_simps)
  then have "race_reach 2 False (race_at True None [True] False [DeliverLock] [] [True] [True] [])"
    by (rule reach_step [OF _ enqueue [where i = 0]]) (simp_all add: at_simps)
  then have "race_reach 2 False (race_at True (Some 0) [True] False [DeliverCheck] [] [True] [True] [])"
    by (rule reach_step [OF _ deliver_lock [where i = 0]]) (simp_all add: at_simps)
  then have "race_reach 2 False (race_at True (Some 0) [True] True [DeliverLoop] [] [True] [True] [])"
    by (rule reach_step [OF _ deliver_start [where i = 0]]) (simp_all add: at_simps)
  then show ?thesis
    by (rule reach_step [OF _ loop_next [where i = 0]]) (simp_all add: at_simps)
qed

lemma race_closed:
  "race_reach 2 False (race_at False None [False] True [Listening True] [] [True, False] [True, False] [True])"
proof -
  have "race_reach 2 False (race_at True None [] True [Listening True] [PreCheck False] [True] [True] [True])"
    by (rule reach_call [OF race_opened call [where i = 1]]) (simp_all add: at_simps)
  then have "race_reach 2 False (race_at True None [] True [Listening True] [CommitLock False] [True] [True] [True])"
    by (rule reach_step [OF _ precheck_go [where i = 1]]) (simp_all add: at_simps)
  then have "race_reach 2 False (race_at True (Some 1) [] True [Listening True] [CommitCheck False] [True] [True] [True])"
    by (rule reach_step [OF _ commit_lock [where i = 1]]) (simp_all add: at_simps)
  then have "race_reach 2 False (race_at False (Some 1) [] True [Listening True] [TellLogic False] [True, False] [True] [True])"
    by (rule reach_step [OF _ commit_flip [where i = 1 and op = False and fs = "[]"]]) (simp_all add: at_simps)
  then have "race_reach 2 False (race_at False (Some 1) [] True [Listening True] [Enqueue False] [True, False] [True] [True])"
    by (rule reach_step [OF _ logic_told [where i = 1 and op = False and fs = "[]"]]) (simp_all add: at_simps)
  then have "race_reach 2 False (race_at False None [False] True [Listening True] [DeliverLock] [True, False] [True, False] [True])"
    by (rule reach_step [OF _ enqueue [where i = 1 and op = False and fs = "[]"]]) (simp_all add: at_simps)
  then have "race_reach 2 False (race_at False (Some 1) [False] True [Listening True] [DeliverCheck] [True, False] [True, False] [True])"
    by (rule reach_step [OF _ deliver_lock [where i = 1]]) (simp_all add: at_simps)
  then show ?thesis
    by (rule reach_step [OF _ deliver_busy [where i = 1]]) (simp_all add: at_simps)
qed

lemma race_settled:
  "race_reach 2 False (race_at False None [] False [] [] [True, False] [True, False] [True, False])"
proof -
  have "race_reach 2 False (race_at False None [False] True [Relock] [] [True, False] [True, False] [True])"
    by (rule reach_step [OF race_closed listener_returns [where i = 0 and fs = "[]"]]) (simp_all add: at_simps)
  then have "race_reach 2 False (race_at False (Some 0) [False] True [DeliverLoop] [] [True, False] [True, False] [True])"
    by (rule reach_step [OF _ relock [where i = 0]]) (simp_all add: at_simps)
  then have "race_reach 2 False (race_at False None [] True [Listening False] [] [True, False] [True, False] [True, False])"
    by (rule reach_step [OF _ loop_next [where i = 0 and t = False and ts = "[]" and fs = "[]"]]) (simp_all add: at_simps)
  then have "race_reach 2 False (race_at False None [] True [Relock] [] [True, False] [True, False] [True, False])"
    by (rule reach_step [OF _ listener_returns [where i = 0 and fs = "[]" and t = False]]) (simp_all add: at_simps)
  then have "race_reach 2 False (race_at False (Some 0) [] True [DeliverLoop] [] [True, False] [True, False] [True, False])"
    by (rule reach_step [OF _ relock [where i = 0]]) (simp_all add: at_simps)
  then show ?thesis
    by (rule reach_step [OF _ loop_end [where i = 0]]) (simp_all add: at_simps)
qed

subsection \<open>Properties\<close>

text \<open>C10: Concurrent transitions. In every interleaving of goroutines that open and close the circuit, with listeners
  that call it again and user code that panics: at most one goroutine holds the lock, and at most one
  tells listeners; the flips alternate between open and closed, and the circuit is in the state of the last;
  the transitions told to the listeners, and then those waiting, are flips, in the order they were made, and
  none is told twice. Only flips during which the logic panicked are missing.\<close>

theorem concurrent_transitions_are_ordered:
  assumes "race_reach n b s"
  shows "alternates b (ra_flips s) \<and> ra_isOpen s = last (b # ra_flips s) \<and>
    subseq (ra_told s @ ra_pending s) (ra_flips s) \<and>
    length (ra_told s @ ra_pending s) + ra_lost s + length (in_flight s) = length (ra_flips s) \<and>
    (\<forall>i j. holds_lock (ra_stack s i) \<longrightarrow> holds_lock (ra_stack s j) \<longrightarrow> i = j) \<and>
    (\<forall>i j. deliverer_count s i + (if i = j then 0 else deliverer_count s j) \<le> 1)"
proof -
  have inv: "lock_inv s" "role_inv s" "flip_inv b s" "queue_inv s" using race_inv [OF assms] by simp_all
  obtain F where F: "ra_flips s = F @ in_flight s" "subseq (ra_told s @ ra_pending s) F"
    "length F = length (ra_told s @ ra_pending s) + ra_lost s" using inv(4) unfolding queue_inv_def by metis
  have "subseq (ra_told s @ ra_pending s) (ra_flips s)" using F(1,2) by (simp add: list_emb_prefix)
  moreover have "i = j" if "holds_lock (ra_stack s i)" "holds_lock (ra_stack s j)" for i j
    using inv(1) that unfolding lock_inv_def by (metis option.inject)
  moreover have "deliverer_count s i + (if i = j then 0 else deliverer_count s j) \<le> 1" for i j
    using inv(2) by (auto simp: role_inv_def split: if_splits) (metis One_nat_def add.right_neutral le_refl zero_le_one add_0)+
  ultimately show ?thesis using inv(3) F by (simp add: flip_inv_def)
qed

theorem concurrent_transitions_are_ordered_witness:
  "race_reach 2 False (race_at False None [False] True [Listening True] [] [True, False] [True, False] [True]) \<and>
    alternates False [True, False] \<and> subseq [True, False] [True, False]"
  using concurrent_transitions_are_ordered [OF race_closed] race_closed by (simp add: race_at_def)

text \<open>C11: Concurrent transitions settle. In every reachable state each step of the calls in progress brings their end
  closer, so that without new calls they end; the calls never block one another for good. When they have
  ended, the lock is free, nobody has the role of the deliverer, no transition waits, and the listeners have been told
  every flip but those during which the logic panicked.\<close>

theorem concurrent_transitions_settle:
  assumes "race_reach n b s"
  shows "(\<forall>s'. race_step n s s' \<longrightarrow> race_work n s' < race_work n s) \<and>
    ((\<forall>s'. \<not> race_step n s s') \<longrightarrow> (\<forall>i. ra_stack s i = []) \<and> ra_mu s = None \<and> \<not> ra_delivering s \<and> ra_pending s = [] \<and>
       subseq (ra_told s) (ra_flips s) \<and> length (ra_told s) + ra_lost s = length (ra_flips s) \<and>
       (ra_lost s = 0 \<longrightarrow> ra_told s = ra_flips s))"
proof -
  have inv: "lock_inv s" "role_inv s" "queue_inv s" "drain_inv s" using race_inv [OF assms] by simp_all
  have "(\<forall>i. ra_stack s i = []) \<and> ra_mu s = None \<and> \<not> ra_delivering s \<and> ra_pending s = [] \<and>
       subseq (ra_told s) (ra_flips s) \<and> length (ra_told s) + ra_lost s = length (ra_flips s) \<and>
       (ra_lost s = 0 \<longrightarrow> ra_told s = ra_flips s)" if stuck: "\<forall>s'. \<not> race_step n s s'"
  proof -
    have idle: "ra_stack s i = []" for i
    proof (cases "i < n")
      case True
      then show ?thesis using race_progress [OF inv(1) True _ race_reach_bounded [OF assms]] stuck by (metis neq_Nil_conv)
    next
      case False
      then show ?thesis using race_reach_bounded [OF assms] by simp
    qed
    then have "ra_mu s = None" using inv(1) by (cases "ra_mu s") (auto simp: lock_inv_def)
    moreover have "\<not> ra_delivering s" using inv(2) idle by (auto simp: role_inv_def deliverer_count_def)
    moreover have "ra_pending s = []" using inv(4) idle by (auto simp: drain_inv_def)
    ultimately show ?thesis
      using inv(3) idle by (auto simp: queue_inv_def in_flight_def dest: subseq_same_length)
  qed
  then show ?thesis using race_step_work by blast
qed

theorem concurrent_transitions_settle_witness:
  "race_reach 2 False (race_at False None [] False [] [] [True, False] [True, False] [True, False]) \<and>
    (\<forall>s'. \<not> race_step 2 (race_at False None [] False [] [] [True, False] [True, False] [True, False]) s') \<and>
    subseq [True, False] [True, False]"
proof -
  let ?s = "race_at False None [] False [] [] [True, False] [True, False] [True, False]"
  have "\<not> race_step 2 ?s s'" for s'
    by (auto simp: race_at_def stacks_def elim!: race_step.cases split: if_splits)
  then show ?thesis using concurrent_transitions_settle [OF race_settled] race_settled by (simp add: race_at_def)
qed

end
