(* ===== verification/Throttle.thy ===== *)
theory Throttle
  imports Circuit
begin

text \<open>
  The concurrency limits of \<^verbatim>\<open>Circuit.run\<close> and \<^verbatim>\<open>Circuit.fallback\<close> on goroutines whose steps interleave
  with each other and with changes of the limit.

  Both count themselves with an atomic addition, compare the sum with the limit, and give the count
  back when they end. \<open>first\<close> says whether the limit is read before the addition, as \<^verbatim>\<open>run\<close> does, or after
  it, as \<^verbatim>\<open>fallback\<close> does. Between the two, \<^verbatim>\<open>run\<close> may be refused by the open circuit or by \<^verbatim>\<open>Prevent\<close>. A
  counted goroutine remembers the sum \<open>v\<close> it got.
\<close>

datatype stage =
    Out
  | LimitRead int64
  | CountedOnly int64
  | Counted int64 int64
  | Inside int64 int64
  | Rejected int64

record throttle =
  th_count :: int64
  th_limit :: int64
  th_stage :: "nat \<Rightarrow> stage"

definition throttle_start :: "int64 \<Rightarrow> throttle" where
  "throttle_start limit = \<lparr>th_count = 0, th_limit = limit, th_stage = (\<lambda>_. Out)\<rparr>"

definition goes :: "nat \<Rightarrow> stage \<Rightarrow> throttle \<Rightarrow> throttle" where
  "goes i st s = s\<lparr>th_stage := (th_stage s)(i := st)\<rparr>"

text \<open>The comparison with the limit; a negative limit is none.\<close>

definition exceeds_limit :: "int64 \<Rightarrow> int64 \<Rightarrow> bool" where
  "exceeds_limit limit v \<longleftrightarrow> 0 \<le> limit \<and> limit < v"

inductive throttle_step :: "bool \<Rightarrow> nat \<Rightarrow> throttle \<Rightarrow> throttle \<Rightarrow> bool" for first n where
  set_limit: "throttle_step first n s (s\<lparr>th_limit := limit\<rparr>)"
| read_limit: "i < n \<Longrightarrow> first \<Longrightarrow> th_stage s i = Out \<Longrightarrow> throttle_step first n s (goes i (LimitRead (th_limit s)) s)"
| not_admitted: "i < n \<Longrightarrow> th_stage s i = LimitRead limit \<Longrightarrow> throttle_step first n s (goes i Out s)"
| count_second: "i < n \<Longrightarrow> th_stage s i = LimitRead limit \<Longrightarrow> v = add64 (th_count s) 1 \<Longrightarrow>
    throttle_step first n s (goes i (Counted v limit) s\<lparr>th_count := v\<rparr>)"
| count_first: "i < n \<Longrightarrow> \<not> first \<Longrightarrow> th_stage s i = Out \<Longrightarrow> v = add64 (th_count s) 1 \<Longrightarrow>
    throttle_step first n s (goes i (CountedOnly v) s\<lparr>th_count := v\<rparr>)"
| read_second: "i < n \<Longrightarrow> th_stage s i = CountedOnly v \<Longrightarrow> throttle_step first n s (goes i (Counted v (th_limit s)) s)"
| decide: "i < n \<Longrightarrow> th_stage s i = Counted v limit \<Longrightarrow>
    throttle_step first n s (goes i (if exceeds_limit limit v then Rejected v else Inside v limit) s)"
| ends: "i < n \<Longrightarrow> th_stage s i = Inside v limit \<or> th_stage s i = Rejected v \<Longrightarrow>
    throttle_step first n s (goes i Out s\<lparr>th_count := add64 (th_count s) (- 1)\<rparr>)"

inductive throttle_reach :: "bool \<Rightarrow> nat \<Rightarrow> int64 \<Rightarrow> throttle \<Rightarrow> bool" for first n limit where
  th_init: "throttle_reach first n limit (throttle_start limit)"
| th_more: "throttle_reach first n limit s \<Longrightarrow> throttle_step first n s s' \<Longrightarrow> throttle_reach first n limit s'"

subsection \<open>The invariant\<close>

fun sum_of :: "stage \<Rightarrow> int64 option" where
  "sum_of (CountedOnly v) = Some v"
| "sum_of (Counted v m) = Some v"
| "sum_of (Inside v m) = Some v"
| "sum_of (Rejected v) = Some v"
| "sum_of _ = None"

fun let_in :: "stage \<Rightarrow> bool" where
  "let_in (Inside v m) = (\<not> exceeds_limit m v)"
| "let_in _ = True"

text \<open>The goroutines that are counted, and those among them with a sum of at most \<open>k\<close>.\<close>

definition counted_now :: "nat \<Rightarrow> throttle \<Rightarrow> nat set" where
  "counted_now n s = {i. i < n \<and> sum_of (th_stage s i) \<noteq> None}"

definition counted_low :: "nat \<Rightarrow> int \<Rightarrow> throttle \<Rightarrow> nat set" where
  "counted_low n k s = {i. i < n \<and> (\<exists>v. sum_of (th_stage s i) = Some v \<and> v \<le> k)}"

definition throttle_inv :: "nat \<Rightarrow> throttle \<Rightarrow> bool" where
  "throttle_inv n s \<longleftrightarrow> th_count s = int (card (counted_now n s)) \<and>
     (\<forall>k \<ge> 0. int (card (counted_low n k s)) \<le> k) \<and> (\<forall>i. let_in (th_stage s i))"

lemma finite_counted [simp]: "finite (counted_now n s)" "finite (counted_low n k s)"
  by (simp_all add: counted_now_def counted_low_def)

lemma counted_low_subset: "counted_low n k s \<subseteq> counted_now n s"
  by (auto simp: counted_low_def counted_now_def)

lemma card_counted_le: "card (counted_now n s) \<le> n"
proof -
  have "counted_now n s \<subseteq> {..<n}" by (auto simp: counted_now_def)
  then show ?thesis using card_mono [of "{..<n}"] by simp
qed

text \<open>Steps that count nobody, one that counts a goroutine, and one that gives the count back.\<close>

lemma throttle_inv_same:
  assumes "throttle_inv n s" "th_count s' = th_count s" "\<And>j. sum_of (th_stage s' j) = sum_of (th_stage s j)"
    and "\<And>j. let_in (th_stage s' j)"
  shows "throttle_inv n s'"
  using assms by (simp add: throttle_inv_def counted_now_def counted_low_def)

lemma throttle_inv_count:
  assumes inv: "throttle_inv n s" and i: "i < n" "sum_of (th_stage s i) = None"
    and s': "th_stage s' = (th_stage s)(i := st)" "th_count s' = add64 (th_count s) 1" "sum_of st = Some (add64 (th_count s) 1)" "let_in st"
    and small: "int n \<le> max_int64"
  shows "throttle_inv n s'"
proof -
  have out: "i \<notin> counted_now n s" using i by (simp add: counted_now_def)
  have now: "counted_now n s' = insert i (counted_now n s)"
    using i(1) s'(1,3) by (auto simp: counted_now_def)
  then have card: "card (counted_now n s') = Suc (card (counted_now n s))" using out by simp
  have c: "th_count s = int (card (counted_now n s))" using inv by (simp add: throttle_inv_def)
  have v: "add64 (th_count s) 1 = int (card (counted_now n s)) + 1"
    using card card_counted_le [of n s'] small c by (simp add: add64_exact in_int64_def min_int64_def)
  have low: "int (card (counted_low n k s')) \<le> k" if "0 \<le> k" for k
  proof (cases "add64 (th_count s) 1 \<le> k")
    case True
    have "counted_low n k s' \<subseteq> counted_now n s'" by (rule counted_low_subset)
    then have "card (counted_low n k s') \<le> card (counted_now n s')" by (intro card_mono) simp_all
    then show ?thesis using True v card by linarith
  next
    case False
    then have "counted_low n k s' = counted_low n k s"
      using i s'(1,3) by (auto simp: counted_low_def)
    then show ?thesis using inv that by (simp add: throttle_inv_def)
  qed
  have "\<forall>j. let_in (th_stage s' j)" using inv s'(1,4) by (auto simp: throttle_inv_def)
  then show ?thesis using low v card s'(2) by (simp add: throttle_inv_def)
qed

lemma throttle_inv_end:
  assumes inv: "throttle_inv n s" and i: "i < n" "sum_of (th_stage s i) \<noteq> None"
    and s': "th_stage s' = (th_stage s)(i := Out)" "th_count s' = add64 (th_count s) (- 1)" and small: "int n \<le> max_int64"
  shows "throttle_inv n s'"
proof -
  have mem: "i \<in> counted_now n s" using i by (simp add: counted_now_def)
  have "counted_now n s' = counted_now n s - {i}" using s'(1) by (auto simp: counted_now_def)
  then have card: "card (counted_now n s) = Suc (card (counted_now n s'))" using card.remove [OF finite_counted(1) mem] by simp
  have "th_count s = int (card (counted_now n s))" using inv by (simp add: throttle_inv_def)
  then have v: "th_count s' = int (card (counted_now n s'))"
    using s'(2) card card_counted_le [of n s] small by (simp add: add64_exact in_int64_def min_int64_def)
  have "int (card (counted_low n k s')) \<le> k" if "0 \<le> k" for k
  proof -
    have "counted_low n k s' \<subseteq> counted_low n k s" using s'(1) by (auto simp: counted_low_def split: if_splits)
    then have "card (counted_low n k s') \<le> card (counted_low n k s)" by (intro card_mono) simp_all
    moreover have "int (card (counted_low n k s)) \<le> k" using inv that by (simp add: throttle_inv_def)
    ultimately show ?thesis by linarith
  qed
  moreover have "\<forall>j. let_in (th_stage s' j)" using inv s'(1) by (auto simp: throttle_inv_def)
  ultimately show ?thesis using v by (simp add: throttle_inv_def)
qed

lemma throttle_step_inv:
  assumes "throttle_step first n s s'" "throttle_inv n s" "int n \<le> max_int64"
  shows "throttle_inv n s'"
proof -
  have ok: "let_in (th_stage s j)" for j using assms(2) by (simp add: throttle_inv_def)
  show ?thesis
    using assms(1)
  proof cases
    case (count_second i limit v)
    then show ?thesis
      by (intro throttle_inv_count [OF assms(2), of i _ "Counted v limit"]) (simp_all add: goes_def assms(3))
  next
    case (count_first i v)
    then show ?thesis
      by (intro throttle_inv_count [OF assms(2), of i _ "CountedOnly v"]) (simp_all add: goes_def assms(3))
  next
    case (ends i v limit)
    then show ?thesis
      by (intro throttle_inv_end [OF assms(2), of i]) (auto simp: goes_def assms(3))
  qed (rule throttle_inv_same [OF assms(2)]; use ok in \<open>auto simp: goes_def\<close>)+
qed

text \<open>C12: The concurrency limit. In every interleaving of at most \<open>2 ^ 63 - 1\<close> goroutines and of changes of the limit: the
  counter is the number of goroutines that are counted, so it is back at zero when all have ended; and for
  every \<open>k\<close>, at most \<open>k\<close> goroutines are inside at once of those that found a limit of \<open>k\<close> or less. A limit
  that never changes is thus never exceeded.\<close>

theorem concurrency_limit_holds:
  assumes "throttle_reach first n limit s" "int n \<le> max_int64" "0 \<le> k"
  shows "int (card {i. i < n \<and> (\<exists>v m. th_stage s i = Inside v m \<and> 0 \<le> m \<and> m \<le> k)}) \<le> k \<and>
    th_count s = int (card (counted_now n s))"
proof -
  have inv: "throttle_inv n s"
    using assms(1)
  proof induction
    case th_init
    then show ?case by (simp add: throttle_start_def throttle_inv_def counted_now_def counted_low_def)
  next
    case (th_more s s')
    then show ?case using throttle_step_inv assms(2) by blast
  qed
  have "{i. i < n \<and> (\<exists>v m. th_stage s i = Inside v m \<and> 0 \<le> m \<and> m \<le> k)} \<subseteq> counted_low n k s"
  proof
    fix i
    assume "i \<in> {i. i < n \<and> (\<exists>v m. th_stage s i = Inside v m \<and> 0 \<le> m \<and> m \<le> k)}"
    then obtain v m where i: "i < n" "th_stage s i = Inside v m" "0 \<le> m" "m \<le> k" by blast
    have "let_in (th_stage s i)" using inv by (simp add: throttle_inv_def)
    then have "v \<le> k" using i by (simp add: exceeds_limit_def)
    then show "i \<in> counted_low n k s" using i by (simp add: counted_low_def)
  qed
  then have "card {i. i < n \<and> (\<exists>v m. th_stage s i = Inside v m \<and> 0 \<le> m \<and> m \<le> k)} \<le> card (counted_low n k s)"
    by (intro card_mono) simp_all
  moreover have "int (card (counted_low n k s)) \<le> k" using inv assms(3) by (simp add: throttle_inv_def)
  ultimately show ?thesis using inv by (simp add: throttle_inv_def)
qed

text \<open>Two goroutines under the limit 1: the first is inside, the second has been rejected.\<close>

definition throttle_example :: throttle where
  "throttle_example = \<lparr>th_count = 2, th_limit = 1, th_stage = (\<lambda>_. Out)(0 := Inside 1 1, 1 := Rejected 2)\<rparr>"

lemma throttle_example_reached: "throttle_reach True 2 1 throttle_example"
proof -
  have step: "throttle_reach True 2 1 s \<Longrightarrow> throttle_step True 2 s s' \<Longrightarrow> s' = t \<Longrightarrow> throttle_reach True 2 1 t" for s s' t
    using th_more by blast
  let ?s = "\<lambda>c a b. \<lparr>th_count = c, th_limit = 1, th_stage = (\<lambda>_. Out)(0 := a, 1 := b)\<rparr>"
  note defs = goes_def fun_eq_iff add64_def wrap64_def exceeds_limit_def
  have "throttle_reach True 2 1 (?s 0 (LimitRead 1) Out)"
    by (rule step [OF th_init read_limit [where i = 0]]) (simp_all add: throttle_start_def defs)
  then have "throttle_reach True 2 1 (?s 0 (LimitRead 1) (LimitRead 1))"
    by (rule step [OF _ read_limit [where i = 1]]) (simp_all add: defs)
  then have "throttle_reach True 2 1 (?s 1 (Counted 1 1) (LimitRead 1))"
    by (rule step [OF _ count_second [where i = 0 and v = 1 and limit = 1]]) (simp_all add: defs)
  then have "throttle_reach True 2 1 (?s 2 (Counted 1 1) (Counted 2 1))"
    by (rule step [OF _ count_second [where i = 1 and v = 2 and limit = 1]]) (simp_all add: defs)
  then have "throttle_reach True 2 1 (?s 2 (Inside 1 1) (Counted 2 1))"
    by (rule step [OF _ decide [where i = 0 and v = 1 and limit = 1]]) (simp_all add: defs)
  then show ?thesis
    by (rule step [OF _ decide [where i = 1 and v = 2 and limit = 1]]) (simp_all add: defs throttle_example_def)
qed

theorem concurrency_limit_holds_witness:
  "int (card {i. i < (2::nat) \<and> (\<exists>v m. th_stage throttle_example i = Inside v m \<and> 0 \<le> m \<and> m \<le> 1)}) \<le> 1 \<and>
    th_count throttle_example = int (card (counted_now 2 throttle_example)) \<and> th_stage throttle_example 0 = Inside 1 1"
  using concurrency_limit_holds [OF throttle_example_reached, of 1] by (simp add: max_int64_def) (simp add: throttle_example_def)

end
