(* ===== verification/HystrixCircuit.thy ===== *)
theory HystrixCircuit
  imports CircuitExecution CircuitSetup HystrixFactory
begin

text \<open>
  A circuit with the hystrix logic: \<^verbatim>\<open>circuit.go\<close> with the opener and the closer of \<^verbatim>\<open>closers/hystrix\<close>, as
  \<^verbatim>\<open>Factory.Configure\<close> puts them together. The circuit, with its lock, its queue of transitions, its collectors
  and the rolling counters of the opener, is refined to \<open>breaker\<close>: whether it is open, the times of the
  attempts and errors since the last transition, and the closer.
\<close>

subsection \<open>The logic the circuit is given\<close>

interpretation hystrix_logic: circuit_logic Opener_vt op_ok Closer_vt "\<lambda>_. True"
  by unfold_locales

text \<open>The factories with the default settings.\<close>

lemma op_fits_default: "op_fits (op_effective wall zero_ConfigureOpener)"
  by (simp add: op_fits_def op_effective_def cop_Merge_def defaultConfigureOpener_def zero_ConfigureOpener_def
      Let_def max_int64_def)

interpretation hystrix_factories:
  logic_factories Opener_vt op_ok Closer_vt "\<lambda>_. True" "OpenerFactory wall zero_ConfigureOpener" "CloserFactory config"
proof
  show "\<exists>p n'. OpenerFactory wall zero_ConfigureOpener n = (Returns (Opener_vt, p), n') \<and> op_ok p" for n
    using OpenerFactory_ok [OF op_fits_default, of wall n] by metis
  show "\<exists>q n'. CloserFactory config n = (Returns (Closer_vt, q), n') \<and> True" for n
    by (simp add: CloserFactory_run)
qed

subsection \<open>The breaker, as a specification\<close>

text \<open>What is fixed: the clock, the window of the opener and its thresholds, the timeout of a run.\<close>

record settings =
  st_clock :: clock
  st_window :: RollingBuckets
  st_volume :: int64
  st_percentage :: int64
  st_timeout :: int64

record breaker =
  br_open :: bool
  br_attempts :: "gotime list"
  br_errors :: "gotime list"
  br_closer :: Closer
  br_reads :: nat

definition br_tell :: "sm_event \<Rightarrow> gotime \<Rightarrow> breaker \<Rightarrow> breaker" where
  "br_tell ev now b = b\<lparr>br_attempts := after_report counts_attempt ev now (br_attempts b),
     br_errors := after_report counts_error ev now (br_errors b), br_closer := cl_report ev now (br_closer b)\<rparr>"

definition br_flip :: "settings \<Rightarrow> bool \<Rightarrow> gotime \<Rightarrow> breaker \<Rightarrow> breaker" where
  "br_flip S opn now b = br_tell (if opn then SmOpened else SmClosed) (max now (st_clock S (br_reads b)))
     (b\<lparr>br_open := opn, br_reads := Suc (br_reads b)\<rparr>)"

definition br_opens :: "settings \<Rightarrow> gotime \<Rightarrow> breaker \<Rightarrow> bool" where
  "br_opens S now b = opens_spec (st_window S) (st_volume S) (st_percentage S) now (br_attempts b) (br_errors b)"

text \<open>An error may open the circuit.\<close>

definition br_failed :: "settings \<Rightarrow> gotime \<Rightarrow> breaker \<Rightarrow> breaker" where
  "br_failed S now b = (if \<not> br_open b \<and> br_opens S now b then br_flip S True now b else b)"

text \<open>A success may close the circuit.\<close>

definition br_succeeded :: "settings \<Rightarrow> gotime \<Rightarrow> breaker \<Rightarrow> breaker" where
  "br_succeeded S now b = (if br_open b \<and> cl_ShouldClose (br_closer b) then br_flip S False now b else b)"

text \<open>A run that began at \<open>start\<close> ends with the error \<open>ret\<close>: it is judged, reported, and may flip the circuit.\<close>

definition br_finish :: "settings \<Rightarrow> gotime \<Rightarrow> err option \<Rightarrow> breaker \<Rightarrow> breaker" where
  "br_finish S start ret b =
     (let now = st_clock S (br_reads b);
          late = is_late (if 0 < st_timeout S then time_Add start (st_timeout S) else zero_time) now;
          d = time_Sub now start;
          ev = verdict ret late False d;
          asked = (if ret \<noteq> None \<and> \<not> IsBadRequest ret \<and> \<not> late then 2 else 1);
          b = br_tell (SmRun ev) now (b\<lparr>br_reads := br_reads b + asked\<rparr>)
      in if counts_error (SmRun ev) then br_failed S now b
         else if ev = EvSuccess d then br_succeeded S now b
         else b)"

text \<open>A call whose run function, if it is called, gives \<open>ret\<close>.\<close>

definition br_call :: "settings \<Rightarrow> err option \<Rightarrow> breaker \<Rightarrow> err option \<times> breaker" where
  "br_call S ret b =
     (let start = st_clock S (br_reads b); b = b\<lparr>br_reads := Suc (br_reads b)\<rparr>
      in if br_open b
         then case cl_Allow start (br_closer b) of
           (allowed, q) \<Rightarrow> if allowed then (ret, br_finish S start ret (b\<lparr>br_closer := q\<rparr>))
                           else (Some errCircuitOpen, b\<lparr>br_closer := q\<rparr>)
         else (ret, br_finish S start ret b))"

text \<open>Calls, and timers of the closer that go off.\<close>

datatype h_op = Call "err option" | Fire int64

definition on_check :: "(TimedCheck \<Rightarrow> TimedCheck) \<Rightarrow> Closer \<Rightarrow> Closer" where
  "on_check f s = s\<lparr>cl_reopenCircuitCheck := f (cl_reopenCircuitCheck s)\<rparr>"

fun br_step :: "settings \<Rightarrow> h_op \<Rightarrow> breaker \<Rightarrow> err option list \<times> breaker" where
  "br_step S (Call ret) b = (case br_call S ret b of (r, b) \<Rightarrow> ([r], b))"
| "br_step S (Fire v) b = ([], b\<lparr>br_closer := on_check (tc_fire v) (br_closer b)\<rparr>)"

fun br_run :: "settings \<Rightarrow> h_op list \<Rightarrow> breaker \<Rightarrow> err option list \<times> breaker" where
  "br_run S [] b = ([], b)"
| "br_run S (op # ops) b = (case br_step S op b of (rs, b1) \<Rightarrow> case br_run S ops b1 of (rss, b2) \<Rightarrow> (rs @ rss, b2))"

text \<open>The same on a circuit: the calls are of \<^verbatim>\<open>Execute\<close>, without a fallback.\<close>

fun h_step :: "nat \<Rightarrow> (Opener, Closer) Env \<Rightarrow> ctx \<Rightarrow> h_op \<Rightarrow> (err option list, Opener, Closer) cgo" where
  "h_step fuel env ctx (Call ret) = gbind (Execute fuel env ctx (Some (\<lambda>_. greturn ret)) None) (\<lambda>e. greturn [e])"
| "h_step fuel env ctx (Fire v) = gseq (call_OpenToClose (\<lambda>_. gmodify (on_check (tc_fire v)))) (greturn [])"

fun h_run :: "nat \<Rightarrow> (Opener, Closer) Env \<Rightarrow> ctx \<Rightarrow> h_op list \<Rightarrow> (err option list, Opener, Closer) cgo" where
  "h_run fuel env ctx [] = greturn []"
| "h_run fuel env ctx (op # ops) =
     gbind (h_step fuel env ctx op) (\<lambda>rs. gbind (h_run fuel env ctx ops) (\<lambda>rss. greturn (rs @ rss)))"

subsection \<open>The circuit simulates the breaker\<close>

definition h_static :: "settings \<Rightarrow> (Opener, Closer) Circuit \<Rightarrow> bool" where
  "h_static S c \<longleftrightarrow> c_timeNow c = Some (st_clock S) \<and>
     (\<exists>us. c_CmdMetricCollector c = RcOpenToClose # RcClosedToOpen # map RcUser us) \<and> \<not> c_deliveringTransitions c \<and>
     \<not> ac_ForceOpen (c_threadSafeConfig c) \<and> \<not> ac_ForcedClosed (c_threadSafeConfig c) \<and>
     \<not> ac_Disabled (c_threadSafeConfig c) \<and> ac_ExecutionTimeout (c_threadSafeConfig c) = st_timeout S \<and>
     (ac_MaxConcurrentRequests (c_threadSafeConfig c) < 0 \<or> 0 < ac_MaxConcurrentRequests (c_threadSafeConfig c))"

text \<open>The volatile part: the time \<open>t\<close> of the last report, the lock, the queue and the counter of commands.\<close>

definition h_sim ::
  "settings \<Rightarrow> gotime \<Rightarrow> bool \<Rightarrow> transition list \<Rightarrow> int64 \<Rightarrow> breaker \<Rightarrow> (Opener, Closer) Circuit \<Rightarrow> bool" where
  "h_sim S t mu ps k b c \<longleftrightarrow> h_static S c \<and>
     (\<exists>e. c_ClosedToOpen c = Some (Opener_vt, e) \<and>
        op_counts (st_window S) (br_attempts b) (br_errors b) t
          (zero_Opener\<lparr>op_requestVolumeThreshold := st_volume S, op_errorPercentage := st_percentage S\<rparr>) e) \<and>
     c_OpenToClose c = Some (Closer_vt, br_closer b) \<and> c_isOpen c = br_open b \<and> c_readings c = br_reads b \<and>
     c_transitionMu c = mu \<and> c_pendingTransitions c = ps \<and> c_concurrentCommands c = k"

abbreviation h_start :: "settings \<Rightarrow> Opener" where
  "h_start S \<equiv> zero_Opener\<lparr>op_requestVolumeThreshold := st_volume S, op_errorPercentage := st_percentage S\<rparr>"

lemma users_told:
  assumes "quiet env"
  shows "gforeach (collect_run env ev ctx now) (map RcUser us) c =
    (Returns (), c\<lparr>c_log := c_log c @ map (\<lambda>k. LgRun k ev ctx now) us\<rparr>)"
  using assms by (induction us arbitrary: c) (simp_all add: go_simps quiet_def)

lemma h_sim_later:
  assumes "h_sim S t mu ps k b c" "t \<le> now" "usable (st_window S) now"
  shows "h_sim S now mu ps k b c"
  using assms counted_later [OF _ assms(2,3)] by (auto simp: h_sim_def op_counts_def)

lemma send_sim:
  assumes q: "quiet env" and c: "h_sim S t mu ps k b c" and t: "t \<le> now" "usable (st_window S) now"
  shows "\<exists>c'. RunMetricsCollection_send env ev ctx now c = (Returns (), c') \<and>
    h_sim S now mu ps k (br_tell (SmRun ev) now b) c'"
proof -
  from c obtain us e where us: "c_CmdMetricCollector c = RcOpenToClose # RcClosedToOpen # map RcUser us"
    and e: "c_ClosedToOpen c = Some (Opener_vt, e)"
      "op_counts (st_window S) (br_attempts b) (br_errors b) t (h_start S) e"
    by (auto simp: h_sim_def h_static_def)
  obtain e' where e': "rm_send ev ctx now Opener_vt e = (Returns (), e')"
    "op_counts (st_window S) (after_report counts_attempt (SmRun ev) now (br_attempts b))
       (after_report counts_error (SmRun ev) now (br_errors b)) now (h_start S) e'"
    using op_report_counts [OF e(2) t, of "SmRun ev" ctx] by auto
  have q': "rm_send ev ctx now Closer_vt s = (Returns (), cl_report (SmRun ev) now s)" for s
    using cl_send [of "SmRun ev"] by simp
  show ?thesis
    using c us e(1) e' q'
    by (auto simp: RunMetricsCollection_send_def go_run gbind_run gseq_run call_OpenToClose_def call_ClosedToOpen_def
        users_told [OF q] h_sim_def h_static_def br_tell_def)
qed

lemma ShouldOpen_sim:
  assumes c: "h_sim S t mu ps k b c" and t: "t \<le> now" "usable (st_window S) now"
    and small: "length (br_errors b) \<le> n" "length (br_attempts b) \<le> n" "100 * int n \<le> max_int64"
      "0 \<le> st_percentage S" "st_percentage S * int n \<le> max_int64"
  shows "\<exists>c'. ask_ShouldOpen ctx now c = (Returns (br_opens S now b), c') \<and> h_sim S now mu ps k b c'"
proof -
  from c obtain e where e: "c_ClosedToOpen c = Some (Opener_vt, e)"
      "op_counts (st_window S) (br_attempts b) (br_errors b) t (h_start S) e"
    by (auto simp: h_sim_def)
  obtain e' where "op_ShouldOpen ctx now e = (Returns (br_opens S now b), e')"
    "op_counts (st_window S) (br_attempts b) (br_errors b) now (h_start S) e'"
    using op_ShouldOpen_counts [OF e(2) t small(1-3)] small(4,5) by (auto simp: br_opens_def)
  then show ?thesis
    using c e(1) by (auto simp: ask_ShouldOpen_def call_ClosedToOpen_def Opener_vt_def h_sim_def h_static_def)
qed

lemma ShouldClose_sim:
  assumes "h_sim S t mu ps k b c"
  shows "ask_ShouldClose ctx now c = (Returns (cl_ShouldClose (br_closer b)), c)"
  using assms
  by (cases c) (auto simp: ask_ShouldClose_def call_OpenToClose_def Closer_vt_def go_simps h_sim_def)

lemma notify_sim:
  assumes c: "h_sim S t mu ps k b c" and t: "t \<le> now" "usable (st_window S) now"
  shows "\<exists>c'. notifyStateMachines ctx now opn c = (Returns (), c') \<and>
    h_sim S now mu ps k (br_tell (if opn then SmOpened else SmClosed) now b) c'"
proof -
  let ?ev = "if opn then SmOpened else SmClosed"
  from c obtain e where e: "c_ClosedToOpen c = Some (Opener_vt, e)"
      "op_counts (st_window S) (br_attempts b) (br_errors b) t (h_start S) e"
    by (auto simp: h_sim_def)
  obtain e' where e': "sm_send ?ev ctx now Opener_vt e = (Returns (), e')"
    "op_counts (st_window S) (after_report counts_attempt ?ev now (br_attempts b))
       (after_report counts_error ?ev now (br_errors b)) now (h_start S) e'"
    using op_report_counts [OF e(2) t, of ?ev ctx] by auto
  have q: "sm_send ?ev ctx now Closer_vt s = (Returns (), cl_report ?ev now s)" for s by (rule cl_send)
  show ?thesis
    using c e(1) e' q
    by (cases opn) (auto simp: notifyStateMachines_def go_run gbind_run gseq_run call_OpenToClose_def call_ClosedToOpen_def
        h_sim_def h_static_def br_tell_def)
qed

lemma h_sim_mu: "h_sim S t mu ps k b c \<Longrightarrow> h_sim S t mu' ps k b (c\<lparr>c_transitionMu := mu'\<rparr>)"
  by (simp add: h_sim_def h_static_def)

lemma commit_sim:
  assumes c: "h_sim S t False ps k b c" "br_open b \<noteq> opn" and t: "t \<le> now" "usable (st_window S) now"
    and f: "\<And>c. h_sim S t True ps k b c \<Longrightarrow> \<exists>c'. f ctx now c = (Returns True, c') \<and> h_sim S now True ps k b c'"
    and t': "t' = max now (st_clock S (br_reads b))"
  shows "\<exists>c'. commitTransition ctx now opn (Some f) c = (Returns True, c') \<and>
    h_sim S t' False (ps @ [\<lparr>tr_open = opn, tr_ctx = ctx, tr_now = t'\<rparr>]) k (br_flip S opn now b) c'"
proof -
  obtain c1 where c1: "f ctx now (c\<lparr>c_transitionMu := True\<rparr>) = (Returns True, c1)" "h_sim S now True ps k b c1"
    using f [OF h_sim_mu [OF c(1)]] by blast
  let ?b2 = "b\<lparr>br_open := opn, br_reads := Suc (br_reads b)\<rparr>"
  let ?c2 = "c1\<lparr>c_isOpen := opn, c_readings := Suc (c_readings c1)\<rparr>"
  have now: "c_now (c1\<lparr>c_isOpen := opn\<rparr>) = (Returns (st_clock S (br_reads b)), ?c2)"
    using c1(2) by (auto simp: c_now_def h_sim_def h_static_def)
  have "h_sim S now True ps k ?b2 ?c2"
    using c1(2) by (auto simp: h_sim_def h_static_def)
  moreover have "now \<le> t'" "usable (st_window S) t'" using t t' by (auto simp: usable_def)
  ultimately obtain c3 where c3: "notifyStateMachines ctx t' opn ?c2 = (Returns (), c3)"
    "h_sim S t' True ps k (br_flip S opn now b) c3"
    using notify_sim [of S now True ps k ?b2 ?c2 t' ctx opn] t' by (auto simp: br_flip_def)
  have max: "(if time_After (st_clock S (br_reads b)) now then st_clock S (br_reads b) else now) = t'"
    by (simp add: time_After_def max_def t')
  let ?tr = "\<lparr>tr_open = opn, tr_ctx = ctx, tr_now = t'\<rparr>"
  let ?c4 = "c3\<lparr>c_pendingTransitions := c_pendingTransitions c3 @ [?tr]\<rparr>"
  have "\<not> c_transitionMu c" "c_isOpen c \<noteq> opn" "c_transitionMu ?c4" using c c3(2) by (auto simp: h_sim_def)
  then have "commitTransition ctx now opn (Some f) c = (Returns True, ?c4\<lparr>c_transitionMu := False\<rparr>)"
    using c1(1) c3(1)
    by (simp add: commitTransition_def gseq_run gdefer_def gbind_run go_run lock_run unlock_run now Let_def max
        split del: if_split)
  moreover have "h_sim S t' False (ps @ [?tr]) k (br_flip S opn now b) (?c4\<lparr>c_transitionMu := False\<rparr>)"
    using c3(2) by (auto simp: h_sim_def h_static_def)
  ultimately show ?thesis by blast
qed

lemma transition_sim:
  assumes q: "quiet env" "3 \<le> fuel" and c: "h_sim S t False [] k b c" "br_open b \<noteq> opn"
    and t: "t \<le> now" "usable (st_window S) now"
    and f: "\<And>c. h_sim S t True [] k b c \<Longrightarrow> \<exists>c'. f ctx now c = (Returns True, c') \<and> h_sim S now True [] k b c'"
  shows "\<exists>c'. transitionTo fuel env ctx now opn (Some f) c = (Returns (), c') \<and>
    h_sim S (max now (st_clock S (br_reads b))) False [] k (br_flip S opn now b) c'"
proof -
  let ?t = "max now (st_clock S (br_reads b))"
  let ?tr = "\<lparr>tr_open = opn, tr_ctx = ctx, tr_now = ?t\<rparr>"
  obtain c1 where c1: "commitTransition ctx now opn (Some f) c = (Returns True, c1)"
    "h_sim S ?t False [?tr] k (br_flip S opn now b) c1"
    using commit_sim [where f = f and ctx = ctx and now = now, OF c t f refl] by auto
  have "\<not> c_transitionMu c1" "c_pendingTransitions c1 = [?tr]" "\<not> c_deliveringTransitions c1"
    using c1(2) by (auto simp: h_sim_def h_static_def)
  then have "deliverPendingTransitions fuel env c1 =
      (Returns (), c1\<lparr>c_pendingTransitions := [], c_log := c_log c1 @ told (c_CircuitMetricsCollector c1) ?tr\<rparr>)"
    using quiet_deliver [OF q(1), of c1 fuel] q(2) by simp
  moreover have "h_sim S ?t False [] k (br_flip S opn now b)
      (c1\<lparr>c_pendingTransitions := [], c_log := c_log c1 @ told (c_CircuitMetricsCollector c1) ?tr\<rparr>)"
    using c1(2) by (auto simp: h_sim_def h_static_def)
  moreover have "c_isOpen c \<noteq> opn" using c by (simp add: h_sim_def)
  ultimately show ?thesis using c1(1) by (simp add: transitionTo_def gbind_run go_run gwhen_run)
qed

text \<open>The numbers stay in range while the opener holds at most \<open>n\<close> attempts.\<close>

definition br_fits :: "settings \<Rightarrow> nat \<Rightarrow> bool" where
  "br_fits S n \<longleftrightarrow> 100 * int n \<le> max_int64 \<and> 0 \<le> st_percentage S \<and> st_percentage S * int n \<le> max_int64"

definition br_held :: "breaker \<Rightarrow> nat" where
  "br_held b = max (length (br_errors b)) (length (br_attempts b))"

lemma br_held_tell: "br_held (br_tell ev now b) \<le> Suc (br_held b)"
  by (auto simp: br_held_def br_tell_def after_report_def)

lemma br_held_flip: "br_held (br_flip S opn now b) = 0"
  by (simp add: br_held_def br_flip_def br_tell_def after_report_def)

lemma br_held_next: "br_held (br_failed S now b) \<le> br_held b" "br_held (br_succeeded S now b) \<le> br_held b"
  by (simp_all add: br_failed_def br_succeeded_def br_held_flip)

lemma br_held_reads [simp]: "br_held (b\<lparr>br_reads := n\<rparr>) = br_held b" "br_held (b\<lparr>br_closer := q\<rparr>) = br_held b"
  by (simp_all add: br_held_def)

lemma attempt_sim:
  assumes q: "quiet env" "3 \<le> fuel" and c: "h_sim S t False [] k b c" "\<not> br_open b" "br_held b \<le> n" "br_fits S n"
    and t: "t \<le> now" "usable (st_window S) now"
  shows "\<exists>c'. attemptToOpen fuel env ctx now c = (Returns (), c') \<and>
    (if br_opens S now b then h_sim S (max now (st_clock S (br_reads b))) False [] k (br_flip S True now b) c'
     else h_sim S now False [] k b c')"
proof -
  have ask: "\<exists>c'. ask_ShouldOpen ctx now d = (Returns (br_opens S now b), c') \<and> h_sim S now mu [] k b c'"
    if "h_sim S t' mu [] k b d" "t' \<le> now" for t' mu d
    using ShouldOpen_sim [OF that t(2), of n] c(3,4) by (auto simp: br_fits_def br_held_def)
  obtain c1 where c1: "ask_ShouldOpen ctx now c = (Returns (br_opens S now b), c1)" "h_sim S now False [] k b c1"
    using ask [OF c(1) t(1)] by blast
  have free: "\<not> ac_ForcedClosed (c_threadSafeConfig c)" "\<not> c_isOpen c" using c by (auto simp: h_sim_def h_static_def)
  show ?thesis
  proof (cases "br_opens S now b")
    case True
    then have "\<exists>c'. transitionTo fuel env ctx now True (Some ask_ShouldOpen) c1 = (Returns (), c') \<and>
      h_sim S (max now (st_clock S (br_reads b))) False [] k (br_flip S True now b) c'"
      by (intro transition_sim [OF q c1(2) _ order.refl t(2)]) (use c(2) ask [OF _ order.refl] in auto)
    then show ?thesis using True c1(1) free by (auto simp: attemptToOpen_def gbind_run go_run gwhen_run)
  next
    case False
    then show ?thesis using c1 free by (auto simp: attemptToOpen_def gbind_run go_run gwhen_run)
  qed
qed

lemma failed_sim:
  assumes q: "quiet env" "3 \<le> fuel" and c: "h_sim S t False [] k b c" "br_held (br_tell (SmRun ev) now b) \<le> n" "br_fits S n"
    and t: "t \<le> now" "usable (st_window S) now" "now \<le> st_clock S (br_reads b)" and clk: "mono (st_clock S)"
  shows "\<exists>c' t'. gseq (RunMetricsCollection_send env ev ctx now) (gbind (gget c_isOpen) (\<lambda>opn.
      gseq (gwhen (\<not> opn) (attemptToOpen fuel env ctx now)) (greturn True))) c = (Returns True, c') \<and>
    h_sim S t' False [] k (br_failed S now (br_tell (SmRun ev) now b)) c' \<and>
    t' \<le> st_clock S (br_reads (br_failed S now (br_tell (SmRun ev) now b)))"
proof -
  let ?b = "br_tell (SmRun ev) now b"
  obtain c1 where c1: "RunMetricsCollection_send env ev ctx now c = (Returns (), c1)" "h_sim S now False [] k ?b c1"
    using send_sim [OF q(1) c(1) t(1,2)] by blast
  have isopen: "c_isOpen c1 = br_open ?b" using c1(2) by (simp add: h_sim_def)
  have reads: "br_reads ?b = br_reads b" "br_reads (br_flip S True now ?b) = Suc (br_reads b)"
    by (simp_all add: br_tell_def br_flip_def)
  show ?thesis
  proof (cases "br_open ?b")
    case True
    then show ?thesis using c1 isopen reads t(3) by (auto simp: gseq_run gbind_run go_run gwhen_run br_failed_def)
  next
    case False
    obtain c2 where c2: "attemptToOpen fuel env ctx now c1 = (Returns (), c2)"
      "if br_opens S now ?b then h_sim S (max now (st_clock S (br_reads ?b))) False [] k (br_flip S True now ?b) c2
       else h_sim S now False [] k ?b c2"
      using attempt_sim [OF q c1(2) False c(2,3) order.refl t(2)] by blast
    have "st_clock S (br_reads b) \<le> st_clock S (Suc (br_reads b))" using clk by (simp add: mono_def)
    then show ?thesis
      using c1(1) c2 False isopen reads t(3)
      by (cases "br_opens S now ?b") (fastforce simp: gseq_run gbind_run go_run gwhen_run br_failed_def)+
  qed
qed

lemma success_sim:
  assumes q: "quiet env" "3 \<le> fuel" and c: "h_sim S t False [] k b c"
    and t: "t \<le> now" "usable (st_window S) now" "now \<le> st_clock S (br_reads b)" and clk: "mono (st_clock S)"
  shows "\<exists>c' t'. checkSuccess fuel env ctx now d c = (Returns (), c') \<and>
    h_sim S t' False [] k (br_succeeded S now (br_tell (SmRun (EvSuccess d)) now b)) c' \<and>
    t' \<le> st_clock S (br_reads (br_succeeded S now (br_tell (SmRun (EvSuccess d)) now b)))"
proof -
  let ?b = "br_tell (SmRun (EvSuccess d)) now b"
  obtain c1 where c1: "RunMetricsCollection_send env (EvSuccess d) ctx now c = (Returns (), c1)" "h_sim S now False [] k ?b c1"
    using send_sim [OF q(1) c(1) t(1,2)] by blast
  have isopen: "c_isOpen c1 = br_open ?b" "\<not> ac_ForceOpen (c_threadSafeConfig c1)" using c1(2) by (auto simp: h_sim_def h_static_def)
  have reads: "br_reads ?b = br_reads b" "br_reads (br_flip S False now ?b) = Suc (br_reads b)"
    by (simp_all add: br_tell_def br_flip_def)
  have later: "st_clock S (br_reads b) \<le> st_clock S (Suc (br_reads b))" using clk by (simp add: mono_def)
  show ?thesis
  proof (cases "br_open ?b \<and> cl_ShouldClose (br_closer ?b)")
    case True
    have "\<exists>c'. transitionTo fuel env ctx now False (Some ask_ShouldClose) c1 = (Returns (), c') \<and>
      h_sim S (max now (st_clock S (br_reads ?b))) False [] k (br_flip S False now ?b) c'"
      by (intro transition_sim [OF q c1(2) _ order.refl t(2)]) (use True ShouldClose_sim in auto)
    then obtain c2 where "transitionTo fuel env ctx now False (Some ask_ShouldClose) c1 = (Returns (), c2)"
      "h_sim S (max now (st_clock S (br_reads ?b))) False [] k (br_flip S False now ?b) c2" by blast
    then show ?thesis
      using c1(1) True isopen reads t(3) later ShouldClose_sim [OF c1(2)]
      by (fastforce simp: checkSuccess_def gseq_run gbind_run go_run gwhen_run br_succeeded_def)
  next
    case False
    then show ?thesis
      using c1 isopen reads t(3) ShouldClose_sim [OF c1(2)]
      by (auto simp: checkSuccess_def gseq_run gbind_run go_run gwhen_run br_succeeded_def)
  qed
qed

text \<open>The end of a run, the run itself, and \<^verbatim>\<open>Execute\<close>.\<close>

lemma br_held_finish: "br_held (br_finish S start ret b) \<le> Suc (br_held b)"
proof -
  have tell: "br_held (br_tell ev now (b\<lparr>br_reads := m\<rparr>)) \<le> Suc (br_held b)" for ev now m
    using br_held_tell [of ev now "b\<lparr>br_reads := m\<rparr>"] by simp
  show ?thesis
    unfolding br_finish_def Let_def
    by (auto simp del: counts_error.simps intro!: tell order_trans [OF br_held_next(1) tell] order_trans [OF br_held_next(2) tell])
qed

lemma finish_sim:
  assumes q: "quiet env" "3 \<le> fuel" and c: "h_sim S t False [] k b c" "Suc (br_held b) \<le> n" "br_fits S n"
    and t: "t \<le> st_clock S (br_reads b)" "usable (st_window S) (st_clock S (br_reads b))" and clk: "mono (st_clock S)"
    and octx: "\<And>m. ctx_Err octx m = None"
  shows "\<exists>c' t'. run_finish fuel env ctx octx start
      (if 0 < st_timeout S then time_Add start (st_timeout S) else zero_time) ret c = (Returns ret, c') \<and>
    h_sim S t' False [] k (br_finish S start ret b) c' \<and> t' \<le> st_clock S (br_reads (br_finish S start ret b))"
proof -
  let ?now = "st_clock S (br_reads b)"
  let ?dl = "if 0 < st_timeout S then time_Add start (st_timeout S) else zero_time"
  let ?d = "time_Sub ?now start"
  let ?b = "\<lambda>m. b\<lparr>br_reads := br_reads b + m\<rparr>" and ?c = "\<lambda>m. c\<lparr>c_readings := br_reads b + m\<rparr>"
  have now: "c_now c = (Returns ?now, ?c 1)" using c(1) by (auto simp: c_now_def h_sim_def h_static_def)
  have sim: "h_sim S t False [] k (?b m) (?c m)" for m using c(1) by (simp add: h_sim_def h_static_def)
  have le: "?now \<le> st_clock S (br_reads (?b m))" for m using clk by (simp add: mono_def)
  have held: "br_held (br_tell ev ?now (?b m)) \<le> n" for ev m using br_held_tell [of ev ?now "?b m"] c(2) by simp
  have failed: "\<exists>c' t'. gseq (RunMetricsCollection_send env ev ctx ?now) (gbind (gget c_isOpen) (\<lambda>opn.
      gseq (gwhen (\<not> opn) (attemptToOpen fuel env ctx ?now)) (greturn True))) (?c m) = (Returns True, c') \<and>
    h_sim S t' False [] k (br_failed S ?now (br_tell (SmRun ev) ?now (?b m))) c' \<and>
    t' \<le> st_clock S (br_reads (br_failed S ?now (br_tell (SmRun ev) ?now (?b m))))" for ev m
    by (rule failed_sim [OF q sim held c(3) t le clk])
  consider "IsBadRequest ret" | "\<not> IsBadRequest ret" "is_late ?dl ?now"
    | e where "ret = Some e" "\<not> IsBadRequest ret" "\<not> is_late ?dl ?now" | "ret = None" "\<not> is_late ?dl ?now" by (cases ret) auto
  then show ?thesis
  proof cases
    case 1
    obtain c2 where c2: "RunMetricsCollection_send env (EvErrBadRequest ?d) ctx ?now (?c 1) = (Returns (), c2)"
      "h_sim S ?now False [] k (br_tell (SmRun (EvErrBadRequest ?d)) ?now (?b 1)) c2"
      using send_sim [OF q(1) sim t] by blast
    have fin: "br_finish S start ret b = br_tell (SmRun (EvErrBadRequest ?d)) ?now (?b 1)"
      using 1 by (simp add: br_finish_def verdict.simps Let_def)
    have "run_finish fuel env ctx octx start ?dl ret c = (Returns ret, c2)"
      using 1 now c2(1) by (simp add: run_finish_def Let_def gbind_run gseq_run go_run checkErrBadRequest_def)
    then show ?thesis using c2(2) fin le [of 1] by (auto simp: br_tell_def)
  next
    case 2
    obtain c2 t' where c2: "checkErrTimeout fuel env ctx ?dl ?now ?d (?c 1) = (Returns True, c2)"
      "h_sim S t' False [] k (br_failed S ?now (br_tell (SmRun (EvErrTimeout ?d)) ?now (?b 1))) c2"
      "t' \<le> st_clock S (br_reads (br_failed S ?now (br_tell (SmRun (EvErrTimeout ?d)) ?now (?b 1))))"
      using failed [of "EvErrTimeout ?d" 1] 2(2) by (auto simp: checkErrTimeout_def is_late_def time_IsZero_def time_Before_def)
    have fin: "br_finish S start ret b = br_failed S ?now (br_tell (SmRun (EvErrTimeout ?d)) ?now (?b 1))"
      using 2 by (simp add: br_finish_def verdict.simps Let_def)
    have "run_finish fuel env ctx octx start ?dl ret c = (Returns ret, c2)"
      using 2 now c2(1) by (simp add: run_finish_def Let_def gbind_run gseq_run go_run checkErrBadRequest_def)
    then show ?thesis using c2(2,3) fin by auto
  next
    case 3
    obtain c2 t' where c2: "checkErrFailure fuel env ctx ret ?now ?d (?c 2) = (Returns True, c2)"
      "h_sim S t' False [] k (br_failed S ?now (br_tell (SmRun (EvErrFailure ?d)) ?now (?b 2))) c2"
      "t' \<le> st_clock S (br_reads (br_failed S ?now (br_tell (SmRun (EvErrFailure ?d)) ?now (?b 2))))"
      using failed [of "EvErrFailure ?d" 2] 3(1) by (auto simp: checkErrFailure_def)
    have fin: "br_finish S start ret b = br_failed S ?now (br_tell (SmRun (EvErrFailure ?d)) ?now (?b 2))"
      using 3 by (simp add: br_finish_def verdict.simps Let_def)
    have late: "checkErrTimeout fuel env ctx ?dl ?now ?d = greturn False"
      using 3(3) by (auto simp: checkErrTimeout_def is_late_def time_IsZero_def time_Before_def)
    have "checkErrInterrupt env ctx octx ret ?now ?d (?c 1) = (Returns False, ?c 2)"
      using 3(1) octx by (simp add: checkErrInterrupt_def gbind_run go_run ask_Err_def)
    then have "run_finish fuel env ctx octx start ?dl ret c = (Returns ret, c2)"
      using 3 now c2(1) late by (simp add: run_finish_def Let_def gbind_run gseq_run go_run checkErrBadRequest_def)
    then show ?thesis using c2(2,3) fin by auto
  next
    case 4
    obtain c2 t' where c2: "checkSuccess fuel env ctx ?now ?d (?c 1) = (Returns (), c2)"
      "h_sim S t' False [] k (br_succeeded S ?now (br_tell (SmRun (EvSuccess ?d)) ?now (?b 1))) c2"
      "t' \<le> st_clock S (br_reads (br_succeeded S ?now (br_tell (SmRun (EvSuccess ?d)) ?now (?b 1))))"
      using success_sim [OF q sim t le clk] by blast
    have bad: "\<not> IsBadRequest None" by simp
    have fin: "br_finish S start ret b = br_succeeded S ?now (br_tell (SmRun (EvSuccess ?d)) ?now (?b 1))"
      using 4 bad by (simp add: br_finish_def verdict.simps Let_def)
    have late: "checkErrTimeout fuel env ctx ?dl ?now ?d = greturn False"
      using 4(2) by (auto simp: checkErrTimeout_def is_late_def time_IsZero_def time_Before_def)
    have "run_finish fuel env ctx octx start ?dl ret c = (Returns ret, c2)"
      using 4 bad now c2(1) late
      by (simp add: run_finish_def Let_def gbind_run gseq_run go_run checkErrBadRequest_def checkErrInterrupt_def checkErrFailure_def)
    then show ?thesis using c2(2,3) fin by auto
  qed
qed

lemma admitted_sim:
  assumes q: "quiet env" "3 \<le> fuel" and c: "h_sim S t False [] 0 b c" "Suc (br_held b) \<le> n" "br_fits S n"
    and t: "t \<le> st_clock S (br_reads b)" "usable (st_window S) (st_clock S (br_reads b))" and clk: "mono (st_clock S)"
    and octx: "\<And>m. ctx_Err ctx m = None" and rf: "rf = (\<lambda>_. greturn ret)"
  shows "\<exists>c' t'. gbind (call_ClosedToOpen (\<lambda>vt. co_Prevent vt ctx start)) (\<lambda>prevented.
      if prevented then greturn (Some errCircuitOpen)
      else gbind (add_commands 1) (\<lambda>v. gdefer (gseq (add_commands (-1)) (greturn ()))
        (run_admitted fuel env ctx start (ac_MaxConcurrentRequests (c_threadSafeConfig c)) v rf))) c = (Returns ret, c') \<and>
    h_sim S t' False [] 0 (br_finish S start ret b) c' \<and> t' \<le> st_clock S (br_reads (br_finish S start ret b))"
proof -
  let ?m = "ac_MaxConcurrentRequests (c_threadSafeConfig c)"
  let ?c = "c\<lparr>c_concurrentCommands := 1\<rparr>"
  have prevent: "call_ClosedToOpen (\<lambda>vt. co_Prevent vt ctx start) c = (Returns False, c)"
    using c(1) by (cases c) (auto simp: h_sim_def call_ClosedToOpen_def Opener_vt_def op_Prevent_def go_run)
  have add: "add_commands 1 c = (Returns 1, ?c)"
    using c(1) by (simp add: h_sim_def add_commands_def add64_exact in_int64_def min_int64_def max_int64_def)
  have sim: "h_sim S t False [] 1 b ?c" using c(1) by (simp add: h_sim_def h_static_def)
  have static: "\<not> (0 \<le> ?m \<and> ?m < 1)" "ac_ExecutionTimeout (c_threadSafeConfig ?c) = st_timeout S"
    using c(1) by (auto simp: h_sim_def h_static_def)
  obtain c2 t' where c2: "run_finish fuel env (if 0 < st_timeout S then WithDeadline (env_wall env) ctx (time_Add start (st_timeout S)) else ctx)
      ctx start (if 0 < st_timeout S then time_Add start (st_timeout S) else zero_time) ret ?c = (Returns ret, c2)"
    "h_sim S t' False [] 1 (br_finish S start ret b) c2" "t' \<le> st_clock S (br_reads (br_finish S start ret b))"
    using finish_sim [OF q sim c(2,3) t clk octx] by blast
  have adm: "run_admitted fuel env ctx start ?m 1 rf ?c = (Returns ret, c2)"
    using static c2(1) by (auto simp: run_admitted_def gbind_run go_run Let_def rf)
  have one: "c_concurrentCommands c2 = 1" using c2(2) by (simp add: h_sim_def)
  have "add64 1 (- 1) = 0" by (simp add: add64_exact in_int64_def min_int64_def max_int64_def)
  then have "gseq (add_commands (- 1)) (greturn ()) c2 = (Returns (), c2\<lparr>c_concurrentCommands := 0\<rparr>)"
    using one by (simp add: gseq_run go_run add_commands_def)
  moreover have "h_sim S t' False [] 0 (br_finish S start ret b) (c2\<lparr>c_concurrentCommands := 0\<rparr>)"
    using c2(2) by (simp add: h_sim_def h_static_def)
  ultimately show ?thesis
    using prevent add adm c2(3) by (auto simp: gbind_run gdefer_def)
qed

lemma br_tell_shortcircuit: "br_tell (SmRun EvErrShortCircuit) now b = b"
  by (simp add: br_tell_def after_report_def)

lemma run_sim:
  assumes q: "quiet env" "3 \<le> fuel" and c: "h_sim S t False [] 0 b c" "Suc (br_held b) \<le> n" "br_fits S n"
    and t: "t \<le> st_clock S (br_reads b)" "usable (st_window S) (st_clock S (br_reads b))" and clk: "mono (st_clock S)"
    and octx: "\<And>m. ctx_Err ctx m = None" and rf: "rf = (\<lambda>_. greturn ret)"
  shows "\<exists>c' t'. run fuel env ctx rf c = (Returns (fst (br_call S ret b)), c') \<and>
    h_sim S t' False [] 0 (snd (br_call S ret b)) c' \<and> t' \<le> st_clock S (br_reads (snd (br_call S ret b)))"
proof -
  let ?start = "st_clock S (br_reads b)"
  let ?b = "b\<lparr>br_reads := Suc (br_reads b)\<rparr>" and ?c = "c\<lparr>c_readings := Suc (br_reads b)\<rparr>"
  let ?max = "ac_MaxConcurrentRequests (c_threadSafeConfig c)"
  have now: "c_now c = (Returns ?start, ?c)" using c(1) by (auto simp: c_now_def h_sim_def h_static_def)
  have sim: "h_sim S t False [] 0 ?b ?c" using c(1) by (simp add: h_sim_def h_static_def)
  have step: "?start \<le> st_clock S (Suc (br_reads b))" using clk by (simp add: mono_def)
  have later: "t \<le> st_clock S (Suc (br_reads b))" "usable (st_window S) (st_clock S (Suc (br_reads b)))"
    using t step by (auto simp: usable_def)
  have static: "\<not> ac_ForceOpen (c_threadSafeConfig c)" "\<not> ac_ForcedClosed (c_threadSafeConfig c)" "\<not> (0 \<le> ?max \<and> ?max \<le> 0)"
    "c_isOpen c = br_open b" "c_concurrentCommands c = 0" "c_OpenToClose c = Some (Closer_vt, br_closer b)"
    using c(1) by (auto simp: h_sim_def h_static_def)
  define admit where "admit = (\<lambda>c0. gbind (call_ClosedToOpen (\<lambda>vt. co_Prevent vt ctx ?start)) (\<lambda>prevented.
      if prevented then greturn (Some errCircuitOpen)
      else gbind (add_commands 1) (\<lambda>v. gdefer (gseq (add_commands (-1)) (greturn ()))
        (run_admitted fuel env ctx ?start ?max v rf))) c0)"
  have admitted: "\<exists>c' t'. admit c0 = (Returns ret, c') \<and> h_sim S t' False [] 0 (br_finish S ?start ret b0) c' \<and>
      t' \<le> st_clock S (br_reads (br_finish S ?start ret b0))"
    if "h_sim S t False [] 0 b0 c0" "br_reads b0 = Suc (br_reads b)" "br_held b0 = br_held b"
      "c_threadSafeConfig c0 = c_threadSafeConfig c" for b0 c0
  proof -
    have "Suc (br_held b0) \<le> n" "t \<le> st_clock S (br_reads b0)" "usable (st_window S) (st_clock S (br_reads b0))"
      using c(2) later that(2,3) by simp_all
    from admitted_sim [OF q that(1) this(1) c(3) this(2,3) clk octx rf, of ?start]
    show ?thesis unfolding admit_def that(4) .
  qed
  have run: "run fuel env ctx rf c = (case allowNewRun ctx ?start ?max ?c of
      (Returns allowed, c0) \<Rightarrow> if allowed then admit c0
        else gseq (RunMetricsCollection_send env EvErrShortCircuit ctx ?start) (greturn (Some errCircuitOpen)) c0
    | (Panics p, c0) \<Rightarrow> (Panics p, c0) | (Blocks, c0) \<Rightarrow> (Blocks, c0))"
    using now by (auto simp: run_def admit_def gbind_run go_run split: outcome.split prod.split)
  show ?thesis
  proof (cases "br_open b")
    case False
    then have "allowNewRun ctx ?start ?max ?c = (Returns True, ?c)"
      using static by (simp add: allowNewRun_def gbind_run go_run)
    then show ?thesis using admitted [OF sim] run False by (simp add: br_call_def Let_def)
  next
    case True
    obtain allowed q' where a: "cl_Allow ?start (br_closer b) = (allowed, q')" by (cases "cl_Allow ?start (br_closer b)")
    let ?cq = "?c\<lparr>c_OpenToClose := Some (Closer_vt, q')\<rparr>" and ?bq = "?b\<lparr>br_closer := q'\<rparr>"
    have "oc_Allow Closer_vt ctx ?start (br_closer b) = (Returns allowed, q')" using a by (simp add: Closer_vt_def gstate_def)
    then have allow: "allowNewRun ctx ?start ?max ?c = (Returns allowed, ?cq)"
      using static True by (auto simp: allowNewRun_def gbind_run go_run call_OpenToClose_def)
    have sim0: "h_sim S t False [] 0 ?bq ?cq" using sim by (simp add: h_sim_def h_static_def)
    show ?thesis
    proof (cases allowed)
      case True
      then show ?thesis using admitted [OF sim0] run allow \<open>br_open b\<close> a by (simp add: br_call_def Let_def)
    next
      case False
      obtain c1 where "RunMetricsCollection_send env EvErrShortCircuit ctx ?start ?cq = (Returns (), c1)"
        "h_sim S ?start False [] 0 ?bq c1"
        using send_sim [OF q(1) sim0 t, of EvErrShortCircuit ctx] by (auto simp: br_tell_shortcircuit)
      then show ?thesis using run allow False \<open>br_open b\<close> a step by (auto simp: br_call_def Let_def gseq_run go_run)
    qed
  qed
qed

lemma Execute_sim:
  assumes "quiet env" "3 \<le> fuel" "h_sim S t False [] 0 b c" "Suc (br_held b) \<le> n" "br_fits S n"
    and "t \<le> st_clock S (br_reads b)" "usable (st_window S) (st_clock S (br_reads b))" "mono (st_clock S)"
    and "\<And>m. ctx_Err ctx m = None" "rf = (\<lambda>_. greturn ret)"
  shows "\<exists>c' t'. Execute fuel env ctx (Some rf) None c = (Returns (fst (br_call S ret b)), c') \<and>
    h_sim S t' False [] 0 (snd (br_call S ret b)) c' \<and> t' \<le> st_clock S (br_reads (snd (br_call S ret b)))"
proof -
  have "c_OpenToClose c \<noteq> None" "\<not> ac_Disabled (c_threadSafeConfig c)" using assms(3) by (auto simp: h_sim_def h_static_def)
  then show ?thesis using run_sim [OF assms] by (simp add: Execute_no_fallback)
qed

subsection \<open>A circuit configured by the factory\<close>

text \<open>
  \<open>config\<close> with the defaults is the configuration of a circuit with the logic of the factory \<open>f\<close>: its
  clock is that of the opener, nothing is overridden, and some command may run.
\<close>

definition hystrix_config ::
  "clock \<Rightarrow> Factory \<Rightarrow> string \<Rightarrow> (Opener, Closer) Config \<Rightarrow> clock \<Rightarrow> bool" where
  "hystrix_config wall f nm cfg clk \<longleftrightarrow>
     gc_OpenToClosedFactory (cf_General cfg) = Some (hf_createCloser f nm) \<and>
     gc_ClosedToOpenFactory (cf_General cfg) = Some (hf_createOpener wall f nm) \<and>
     tk_Now (gc_TimeKeeper (cf_General cfg)) = Some clk \<and> cop_Now (op_effective wall (hf_openerConfig f nm)) = Some clk \<and>
     \<not> gc_ForceOpen (cf_General cfg) \<and> \<not> gc_ForcedClosed (cf_General cfg) \<and> \<not> gc_Disabled (cf_General cfg) \<and>
     ec_MaxConcurrentRequests (cf_Execution cfg) \<noteq> 0 \<and>
     sane_window (quo64 (cop_RollingDuration (op_effective wall (hf_openerConfig f nm)))
       (cop_NumBuckets (op_effective wall (hf_openerConfig f nm)))) (cop_NumBuckets (op_effective wall (hf_openerConfig f nm)))"

definition hystrix_settings ::
  "clock \<Rightarrow> Factory \<Rightarrow> string \<Rightarrow> (Opener, Closer) Config \<Rightarrow> clock \<Rightarrow> nat \<Rightarrow> settings" where
  "hystrix_settings wall f nm cfg clk n =
     (let c = op_effective wall (hf_openerConfig f nm)
      in \<lparr>st_clock = clk, st_window = op_geometry c (clk n), st_volume = cop_RequestVolumeThreshold c,
          st_percentage = cop_ErrorThresholdPercentage c, st_timeout = ec_Timeout (cf_Execution cfg)\<rparr>)"

definition br_new :: "Factory \<Rightarrow> string \<Rightarrow> nat \<Rightarrow> breaker" where
  "br_new f nm n = \<lparr>br_open = False, br_attempts = [], br_errors = [],
     br_closer = factory_closer (hf_closerConfig f nm), br_reads = Suc n\<rparr>"

lemma not_configurable [simp]: "sm_SetConfigThreadSafe Opener_vt = None" "sm_SetConfigNotThreadSafe Opener_vt = None"
  "sm_SetConfigThreadSafe Closer_vt = None" "sm_SetConfigNotThreadSafe Closer_vt = None"
  by (simp_all add: Opener_vt_def Closer_vt_def)

lemma configure_logic:
  assumes "c_OpenToClose c = Some (Closer_vt, q)" "c_ClosedToOpen c = Some (Opener_vt, e)"
  shows "configure_OpenToClose sm_SetConfigThreadSafe cv c = (Returns (), c)"
    "configure_OpenToClose sm_SetConfigNotThreadSafe cv c = (Returns (), c)"
    "configure_ClosedToOpen sm_SetConfigThreadSafe cv c = (Returns (), c)"
    "configure_ClosedToOpen sm_SetConfigNotThreadSafe cv c = (Returns (), c)"
  using assms by (simp_all add: configure_OpenToClose_def configure_ClosedToOpen_def)

lemma hystrix_new:
  assumes cfg: "hystrix_config wall f nm (Config_Merge config (defaultCommandProperties wall u v)) clk"
    and S: "S = hystrix_settings wall f nm (Config_Merge config (defaultCommandProperties wall u v)) clk n"
  shows "\<exists>c. NewCircuitFromConfig wall u v nm config n = (Returns c, Suc n) \<and>
    h_sim S (clk n) False [] 0 (br_new f nm n) c"
proof -
  let ?cfg = "Config_Merge config (defaultCommandProperties wall u v)"
  let ?oc = "op_effective wall (hf_openerConfig f nm)"
  let ?q = "factory_closer (hf_closerConfig f nm)"
  note cfg' = cfg [unfolded hystrix_config_def]
  have start: "(case cop_Now (hf_openerConfig f nm) of None \<Rightarrow> wall | Some now \<Rightarrow> now) n = clk n"
    using cfg' op_effective_Now [of wall "hf_openerConfig f nm"] by auto
  obtain e0 where e0: "OpenerFactory wall (hf_openerConfig f nm) n = (Returns (Opener_vt, e0), Suc n)"
    "op_sim (op_geometry ?oc (clk n)) [] (clk n) e0 e0" "op_requestVolumeThreshold e0 = cop_RequestVolumeThreshold ?oc"
    "op_errorPercentage e0 = cop_ErrorThresholdPercentage ?oc"
    using OpenerFactory_sim [OF start [symmetric]] cfg' by blast
  let ?c = "zero_Circuit\<lparr>c_name := nm, c_notThreadSafeConfig := ?cfg, c_readings := n\<rparr>"
  let ?c1 = "?c\<lparr>c_lostErrors := gc_GoLostErrors (cf_General ?cfg), c_timeNow := Some clk,
    c_OpenToClose := Some (Closer_vt, ?q), c_readings := Suc n, c_ClosedToOpen := Some (Opener_vt, e0)\<rparr>"
  let ?c2 = "?c1\<lparr>c_CmdMetricCollector := [RcOpenToClose, RcClosedToOpen] @ map RcUser (mc_Run (cf_Metrics ?cfg)),
     c_FallbackMetricCollector := mc_Fallback (cf_Metrics ?cfg), c_CircuitMetricsCollector := mc_Circuit (cf_Metrics ?cfg),
     c_threadSafeConfig := ac_reset ?cfg zero_atomicCircuitConfig\<rparr>"
  have "SetConfigNotThreadSafe ?cfg ?c = (Returns (), ?c2)"
    using cfg' e0(1)
    by (simp add: SetConfigNotThreadSafe_def SetConfigThreadSafe_def go_run gbind_run gseq_run gwhen_run call_factory_run
        hf_createCloser_def hf_createOpener_def CloserFactory_run configure_logic zero_Circuit_def)
  then have "NewCircuitFromConfig wall u v nm config n = (Returns ?c2, Suc n)"
    by (simp add: NewCircuitFromConfig_def Let_def)
  moreover have "h_sim S (clk n) False [] 0 (br_new f nm n) ?c2"
    using cfg' e0(2-4)
    by (auto simp: h_sim_def h_static_def S hystrix_settings_def Let_def ac_reset_def op_sim_def op_counts_def reported_def
        br_new_def zero_Circuit_def)
  ultimately show ?thesis by blast
qed

subsection \<open>Histories\<close>

text \<open>Between calls: the circuit is that of the breaker, its lock is free, its queue is empty, no command runs.\<close>

definition h_rel :: "settings \<Rightarrow> breaker \<Rightarrow> (Opener, Closer) Circuit \<Rightarrow> bool" where
  "h_rel S b c \<longleftrightarrow> (\<exists>t. h_sim S t False [] 0 b c \<and> t \<le> st_clock S (br_reads b)) \<and>
     usable (st_window S) (st_clock S (br_reads b)) \<and> mono (st_clock S)"

lemma h_rel_usable: "h_rel S b c \<Longrightarrow> br_reads b \<le> n \<Longrightarrow> usable (st_window S) (st_clock S n)"
  by (auto simp: h_rel_def usable_def mono_def intro: order_trans)

lemma br_reads_next: "br_reads b \<le> br_reads (br_failed S now b)" "br_reads b \<le> br_reads (br_succeeded S now b)"
  "br_reads (br_tell ev now b) = br_reads b"
  by (simp_all add: br_failed_def br_succeeded_def br_flip_def br_tell_def)

lemma br_reads_finish: "br_reads b < br_reads (br_finish S start ret b)"
proof -
  have "\<exists>A B ev now m. 0 < m \<and> br_finish S start ret b =
      (let b = br_tell ev now (b\<lparr>br_reads := br_reads b + m\<rparr>)
       in if A then br_failed S now b else if B then br_succeeded S now b else b)"
    unfolding br_finish_def Let_def by (intro exI, rule conjI [rotated], rule refl, simp)
  then obtain A B ev now m where m: "0 < m" "br_finish S start ret b =
      (let b = br_tell ev now (b\<lparr>br_reads := br_reads b + m\<rparr>)
       in if A then br_failed S now b else if B then br_succeeded S now b else b)" by blast
  let ?b = "br_tell ev now (b\<lparr>br_reads := br_reads b + m\<rparr>)"
  have "br_reads b < br_reads ?b" using m(1) by (simp add: br_reads_next)
  then show ?thesis using m(2) br_reads_next(1,2) [of ?b S now] by (auto simp: Let_def)
qed

lemma br_reads_call: "br_reads b < br_reads (snd (br_call S ret b))"
  using br_reads_finish [of "b\<lparr>br_reads := Suc (br_reads b)\<rparr>" S]
    br_reads_finish [of "b\<lparr>br_reads := Suc (br_reads b), br_closer := q\<rparr>" S for q]
  by (auto simp: br_call_def Let_def split: prod.split intro: order.strict_trans [OF lessI])

lemma br_held_call: "br_held (snd (br_call S ret b)) \<le> Suc (br_held b)"
  using br_held_finish [of S _ ret "b\<lparr>br_reads := Suc (br_reads b)\<rparr>"]
    br_held_finish [of S _ ret "b\<lparr>br_reads := Suc (br_reads b), br_closer := q\<rparr>" for q]
  by (auto simp: br_call_def Let_def split: prod.split)

lemma h_step_rel:
  assumes q: "quiet env" "3 \<le> fuel" and rel: "h_rel S b c" and held: "Suc (br_held b) \<le> n" "br_fits S n"
    and octx: "\<And>m. ctx_Err ctx m = None"
  shows "\<exists>c'. h_step fuel env ctx op c = (Returns (fst (br_step S op b)), c') \<and> h_rel S (snd (br_step S op b)) c'"
proof (cases op)
  case (Call ret)
  obtain t where t: "h_sim S t False [] 0 b c" "t \<le> st_clock S (br_reads b)" using rel by (auto simp: h_rel_def)
  have ok: "usable (st_window S) (st_clock S (br_reads b))" "mono (st_clock S)" using rel by (auto simp: h_rel_def)
  obtain c' t' where "Execute fuel env ctx (Some (\<lambda>_. greturn ret)) None c = (Returns (fst (br_call S ret b)), c')"
    "h_sim S t' False [] 0 (snd (br_call S ret b)) c'" "t' \<le> st_clock S (br_reads (snd (br_call S ret b)))"
    using Execute_sim [OF q t(1) held t(2) ok octx refl] by blast
  then show ?thesis
    using Call ok h_rel_usable [OF rel less_imp_le [OF br_reads_call [of b S ret]]]
    by (auto simp: gbind_run go_run h_rel_def split: prod.split)
next
  case (Fire v)
  have c: "c_OpenToClose c = Some (Closer_vt, br_closer b)" using rel by (auto simp: h_rel_def h_sim_def)
  let ?b = "b\<lparr>br_closer := on_check (tc_fire v) (br_closer b)\<rparr>"
  let ?c = "c\<lparr>c_OpenToClose := Some (Closer_vt, on_check (tc_fire v) (br_closer b))\<rparr>"
  have "h_rel S ?b ?c" using rel by (auto simp: h_rel_def h_sim_def h_static_def)
  then show ?thesis using Fire c by (simp add: gseq_run go_run call_OpenToClose_def)
qed

lemma br_held_step: "br_held (snd (br_step S op b)) \<le> Suc (br_held b)"
  by (cases op) (simp_all add: split_beta br_held_call)

lemma h_run_rel:
  assumes q: "quiet env" "3 \<le> fuel" and octx: "\<And>m. ctx_Err ctx m = None" and fits: "br_fits S n"
    and rel: "h_rel S b c" and held: "length ops + br_held b \<le> n"
  shows "\<exists>c'. h_run fuel env ctx ops c = (Returns (fst (br_run S ops b)), c') \<and> h_rel S (snd (br_run S ops b)) c'"
  using rel held
proof (induction ops arbitrary: b c)
  case (Cons op ops)
  obtain rs b1 where step: "br_step S op b = (rs, b1)" by (cases "br_step S op b")
  obtain c1 where c1: "h_step fuel env ctx op c = (Returns rs, c1)" "h_rel S b1 c1"
    using h_step_rel [OF q Cons.prems(1) _ fits octx, of op] Cons.prems(2) step by auto
  have "length ops + br_held b1 \<le> n" using br_held_step [of S op b] step Cons.prems(2) by simp
  then obtain c2 where "h_run fuel env ctx ops c1 = (Returns (fst (br_run S ops b1)), c2)" "h_rel S (snd (br_run S ops b1)) c2"
    using Cons.IH [OF c1(2)] by blast
  then show ?case using c1 step by (auto simp: gbind_run go_run split: prod.split)
qed (auto simp: go_run)

lemma h_rel_IsOpen: "h_rel S b c \<Longrightarrow> IsOpen c = br_open b"
  by (auto simp: h_rel_def h_sim_def h_static_def IsOpen_def)

lemma hystrix_new_rel:
  assumes cfg: "hystrix_config wall f nm (Config_Merge config (defaultCommandProperties wall u v)) clk"
    and S: "S = hystrix_settings wall f nm (Config_Merge config (defaultCommandProperties wall u v)) clk n" and clk: "mono clk"
  shows "\<exists>c. NewCircuitFromConfig wall u v nm config n = (Returns c, Suc n) \<and> h_rel S (br_new f nm n) c"
proof -
  let ?oc = "op_effective wall (hf_openerConfig f nm)"
  have later: "clk n \<le> clk (Suc n)" using clk by (simp add: mono_def)
  have "0 < quo64 (cop_RollingDuration ?oc) (cop_NumBuckets ?oc)"
    using cfg by (simp add: hystrix_config_def sane_window_def)
  then have "usable (st_window S) (clk (Suc n))"
    using later op_effective_positive(1) [of wall "hf_openerConfig f nm"]
    by (simp add: S hystrix_settings_def Let_def usable_def op_geometry_def window_geometry_def)
  moreover have "st_clock S = clk" by (simp add: S hystrix_settings_def Let_def)
  ultimately show ?thesis
    using hystrix_new [OF cfg S] clk later by (auto simp: h_rel_def br_new_def)
qed

subsection \<open>Tripping, sleeping and recovering\<close>

lemma recent_all:
  assumes "0 < w" "0 < k" "\<forall>t \<in> set ts. start \<le> t" "start \<le> now" "now < start + w * k"
  shows "recent_events (window_geometry w k start) now ts = ts"
proof -
  have "time_Sub now start \<le> now - start" using assms(4) by (simp add: time_Sub_def min_int64_def)
  then have "time_Sub now start div w \<le> (now - start) div w" using assms(1) by (intro zdiv_mono1) simp_all
  moreover have "w * ((now - start) div w) \<le> now - start"
    using assms(1) by (simp add: minus_mod_eq_mult_div [symmetric])
  then have "w * ((now - start) div w) < w * k" using assms(5) by linarith
  then have "(now - start) div w < k" using assms(1) by simp
  moreover have "0 \<le> time_Sub t start div w" if "t \<in> set ts" for t
    using assms(1) bspec [OF assms(3) that] by (simp add: pos_imp_zdiv_nonneg_iff time_Sub_def max_int64_def min_int64_def)
  ultimately show ?thesis
    by (fastforce simp: recent_events_def abs_index_def window_geometry_def filter_id_conv)
qed

text \<open>A closer that was not armed ignores the reports of runs.\<close>

lemma cl_report_unarmed: "cl_openedAt q = None \<Longrightarrow> cl_report (SmRun ev) now q = q"
  by (cases ev) (simp_all add: cl_Success_def cl_ErrFailure_def cl_ErrTimeout_def cl_startedWhileOpen_def)

text \<open>A closed breaker with errors only, and what one more makes of it.\<close>

definition failing :: "gotime \<Rightarrow> Closer \<Rightarrow> nat \<Rightarrow> breaker \<Rightarrow> bool" where
  "failing start q k b \<longleftrightarrow> \<not> br_open b \<and> br_attempts b = br_errors b \<and> length (br_errors b) = k \<and>
     (\<forall>t \<in> set (br_errors b). start \<le> t) \<and> br_closer b = q"

definition tripped :: "gotime \<Rightarrow> Closer \<Rightarrow> breaker \<Rightarrow> bool" where
  "tripped T q b \<longleftrightarrow> br_open b \<and> br_closer b = cl_arm T True q \<and> br_attempts b = [] \<and> br_errors b = []"

lemma br_call_failing:
  assumes b: "failing start q k b" "cl_openedAt q = None" and S: "st_window S = window_geometry w m start" "0 < w" "0 < m"
    and pct: "st_percentage S \<le> 100" and ret: "ret \<noteq> None" "\<not> IsBadRequest ret" and clk: "mono (st_clock S)"
    and time: "start \<le> st_clock S (br_reads b)" "st_clock S (Suc (br_reads b)) < start + w * m"
  shows "\<exists>b'. br_call S ret b = (ret, b') \<and>
    (if st_volume S \<le> int (Suc k) then tripped (st_clock S (br_reads b' - 1)) q b' \<and> br_reads b' \<le> br_reads b + 4
     else failing start q (Suc k) b' \<and> br_reads b' \<le> br_reads b + 3)"
proof -
  let ?now = "st_clock S (Suc (br_reads b))" and ?start = "st_clock S (br_reads b)"
  let ?late = "is_late (if 0 < st_timeout S then time_Add ?start (st_timeout S) else zero_time) ?now"
  let ?d = "time_Sub ?now ?start"
  let ?ev = "if ?late then EvErrTimeout ?d else EvErrFailure ?d"
  let ?r = "br_reads b + (if ?late then 2 else 3)"
  let ?b = "br_tell (SmRun ?ev) ?now (b\<lparr>br_reads := ?r\<rparr>)"
  have ev: "verdict ret ?late False ?d = ?ev" using ret by (auto simp: verdict.simps)
  have now: "start \<le> ?now" using time(1) clk by (auto simp: mono_def intro: order_trans)
  have fin: "br_call S ret b = (ret, br_failed S ?now ?b)"
    using b(1) ret ev by (auto simp: br_call_def br_finish_def failing_def Let_def numeral_2_eq_2 numeral_3_eq_3)
  have tell: "failing start q (Suc k) ?b" "br_reads ?b = ?r"
    using b now by (auto simp: failing_def br_tell_def after_report_def cl_report_unarmed)
  have opens: "br_opens S ?now ?b \<longleftrightarrow> st_volume S \<le> int (Suc k)"
  proof -
    have "recent_events (st_window S) ?now (br_errors ?b) = br_errors ?b"
      unfolding S(1) using tell(1) now time(2) S(2,3) by (intro recent_all) (simp_all add: failing_def)
    moreover have "st_percentage S * int (Suc k) \<le> 100 * int (Suc k)" using pct by (intro mult_right_mono) simp_all
    ultimately show ?thesis using tell(1) by (simp add: br_opens_def opens_spec_def Let_def failing_def)
  qed
  have r: "?r \<le> br_reads b + 3" by simp
  show ?thesis
  proof (cases "st_volume S \<le> int (Suc k)")
    case True
    have "?now \<le> st_clock S ?r" using clk by (simp add: mono_def)
    then have "tripped (st_clock S ?r) q (br_flip S True ?now ?b)" "br_reads (br_flip S True ?now ?b) = Suc ?r"
      using tell by (simp_all add: tripped_def failing_def br_flip_def br_tell_def after_report_def cl_Opened_def)
    moreover have "br_failed S ?now ?b = br_flip S True ?now ?b" using True opens tell(1) by (simp add: br_failed_def failing_def)
    ultimately show ?thesis using fin True r by (simp split del: if_split add: if_True)
  next
    case False
    then have "br_failed S ?now ?b = ?b" using opens by (simp add: br_failed_def)
    then show ?thesis using fin False tell r by (simp split del: if_split add: if_False)
  qed
qed

text \<open>As many errors as the volume threshold trip the breaker, the last of them; each call before runs.\<close>

lemma br_run_trips:
  assumes "failing start q k b" "cl_openedAt q = None" and S: "st_window S = window_geometry w m start" "0 < w" "0 < m"
    "st_percentage S \<le> 100" "mono (st_clock S)"
    and rets: "\<forall>r \<in> set rets. r \<noteq> None \<and> \<not> IsBadRequest r" "rets \<noteq> []"
      "int (k + length rets) = max (int k + 1) (st_volume S)"
    and time: "start \<le> st_clock S (br_reads b)" "\<forall>i < br_reads b + 3 * length rets. st_clock S i < start + w * m"
  shows "\<exists>b'. br_run S (map Call rets) b = (rets, b') \<and> tripped (st_clock S (br_reads b' - 1)) q b' \<and>
    br_reads b < br_reads b' \<and> br_reads b' \<le> Suc (br_reads b + 3 * length rets)"
  using assms(1) rets time
proof (induction rets arbitrary: k b)
  case (Cons ret rets)
  have "br_reads b < br_reads b + 3 * length (ret # rets)" "Suc (br_reads b) < br_reads b + 3 * length (ret # rets)" by simp_all
  then have t: "start \<le> st_clock S (br_reads b)" "st_clock S (Suc (br_reads b)) < start + w * m"
    using Cons.prems(5,6) by blast+
  have r: "ret \<noteq> None" "\<not> IsBadRequest ret" using Cons.prems(2) by simp_all
  obtain b1 where b1: "br_call S ret b = (ret, b1)"
    "if st_volume S \<le> int (Suc k) then tripped (st_clock S (br_reads b1 - 1)) q b1 \<and> br_reads b1 \<le> br_reads b + 4
     else failing start q (Suc k) b1 \<and> br_reads b1 \<le> br_reads b + 3"
    using br_call_failing [OF Cons.prems(1) assms(2) S(1-4) r S(5) t] by blast
  show ?case
  proof (cases "st_volume S \<le> int (Suc k)")
    case True
    then have "rets = []" using Cons.prems(4) by (cases rets) auto
    then show ?thesis using b1 True br_reads_call [of b S ret] by simp
  next
    case False
    have ne: "rets \<noteq> []" "int (Suc k + length rets) = max (int (Suc k) + 1) (st_volume S)"
      using False Cons.prems(4) by auto
    have "st_clock S (br_reads b) \<le> st_clock S (br_reads b1)"
      using S(5) br_reads_call [of b S ret] b1(1) by (simp add: mono_def)
    then have "start \<le> st_clock S (br_reads b1)" using t(1) by simp
    moreover have "\<forall>i < br_reads b1 + 3 * length rets. st_clock S i < start + w * m"
      using Cons.prems(6) b1(2) False by auto
    ultimately obtain b' where "br_run S (map Call rets) b1 = (rets, b')" "tripped (st_clock S (br_reads b' - 1)) q b'"
      "br_reads b1 < br_reads b'" "br_reads b' \<le> Suc (br_reads b1 + 3 * length rets)"
      using Cons.IH [of "Suc k" b1] b1(2) False Cons.prems(2) ne by auto
    then show ?thesis using b1 False br_reads_call [of b S ret] by simp
  qed
qed simp

text \<open>An open breaker that sleeps until \<open>wake\<close>: its timer, the \<open>v\<close>th, is armed or has gone off.\<close>

definition asleep :: "gotime \<Rightarrow> gotime \<Rightarrow> int64 \<Rightarrow> int64 \<Rightarrow> breaker \<Rightarrow> bool" where
  "asleep T wake v r b \<longleftrightarrow> (let q = br_closer b; c = cl_reopenCircuitCheck q in
     br_open b \<and> cl_openedAt q = Some T \<and> cl_concurrentSuccessfulAttempts q = 0 \<and> cl_closeOnCurrentCount q = r \<and>
     tc_nextOpenTime c = wake \<and> tc_isFailFastVersion c = v \<and> (tc_isFastFail c \<longrightarrow> v \<in> set (tc_armed c)) \<and> br_held b = 0)"

lemma asleep_call:
  assumes "asleep T wake v r b" "st_clock S (br_reads b) < wake"
  shows "br_call S ret b = (Some errCircuitOpen, b\<lparr>br_reads := Suc (br_reads b)\<rparr>)"
  using assms by (auto simp: asleep_def Let_def br_call_def cl_Allow_def tc_Check_def time_After_def split: prod.split)

lemma asleep_fire:
  assumes "asleep T wake v r b"
  shows "asleep T wake v r (b\<lparr>br_closer := on_check (tc_fire v') (br_closer b)\<rparr>)"
  using assms by (auto simp: asleep_def Let_def on_check_def tc_fire_def tc_callback_def in_set_remove1)

fun is_call :: "h_op \<Rightarrow> bool" where
  "is_call (Call ret) = True"
| "is_call (Fire v) = False"

lemma h_run_asleep:
  assumes q: "quiet env" "3 \<le> fuel" and octx: "\<And>m. ctx_Err ctx m = None" and fits: "br_fits S n" "1 \<le> n"
    and "h_rel S b c" "asleep T wake v r b" "\<forall>i < br_reads b + length ops. st_clock S i < wake"
  shows "\<exists>b' c'. h_run fuel env ctx ops c = (Returns (replicate (length (filter is_call ops)) (Some errCircuitOpen)), c') \<and>
    h_rel S b' c' \<and> asleep T wake v r b' \<and> br_reads b' = br_reads b + length (filter is_call ops)"
  using assms(6-8)
proof (induction ops arbitrary: b c)
  case (Cons op ops)
  have held: "Suc (br_held b) \<le> n" using Cons.prems(2) fits(2) by (simp add: asleep_def Let_def)
  obtain c1 where c1: "h_step fuel env ctx op c = (Returns (fst (br_step S op b)), c1)" "h_rel S (snd (br_step S op b)) c1"
    using h_step_rel [OF q Cons.prems(1) held fits(1) octx] by blast
  have time: "st_clock S (br_reads b) < wake" using Cons.prems(3) by simp
  have nxt: "asleep T wake v r (snd (br_step S op b)) \<and>
    fst (br_step S op b) = (if is_call op then [Some errCircuitOpen] else []) \<and>
    br_reads (snd (br_step S op b)) = br_reads b + (if is_call op then 1 else 0)"
  proof (cases op)
    case (Call ret)
    have "asleep T wake v r (b\<lparr>br_reads := Suc (br_reads b)\<rparr>)" using Cons.prems(2) by (simp add: asleep_def Let_def)
    then show ?thesis using Call asleep_call [OF Cons.prems(2) time] by simp
  qed (use asleep_fire [OF Cons.prems(2)] in simp)
  have "\<forall>i < br_reads (snd (br_step S op b)) + length ops. st_clock S i < wake" using Cons.prems(3) nxt by (auto split: if_splits)
  then show ?case using Cons.IH [OF c1(2)] c1(1) nxt by (auto simp: gbind_run go_run)
qed (auto simp: go_run)

text \<open>A successful probe after the timer has gone off closes the breaker.\<close>

lemma asleep_wakes:
  assumes b: "asleep T wake v r b" "wake \<le> st_clock S (br_reads b)" "T < wake" "r \<le> 1"
    and late: "0 < st_timeout S" "st_timeout S \<le> max_int64" "st_clock S (Suc (br_reads b)) \<le> st_clock S (br_reads b) + st_timeout S"
    and clk: "mono (st_clock S)"
  shows "\<exists>b'. br_run S [Fire v, Call None] b = ([None], b') \<and> \<not> br_open b'"
proof -
  let ?start = "st_clock S (br_reads b)" and ?now = "st_clock S (Suc (br_reads b))"
  let ?d = "time_Sub ?now ?start"
  define q where "q = on_check (tc_fire v) (br_closer b)"
  have fired: "asleep T wake v r (b\<lparr>br_closer := q\<rparr>)" unfolding q_def by (rule asleep_fire [OF b(1)])
  have "\<not> tc_isFastFail (cl_reopenCircuitCheck q)"
    using b(1) by (auto simp: asleep_def Let_def q_def on_check_def tc_fire_def tc_callback_def)
  then obtain c where allow: "cl_Allow ?start q = (True, q\<lparr>cl_reopenCircuitCheck := c\<rparr>)"
    using fired b(2) by (auto simp: asleep_def Let_def cl_Allow_def tc_Check_def time_After_def)
  let ?q = "q\<lparr>cl_reopenCircuitCheck := c\<rparr>"
  have "?start \<le> ?now" using clk by (simp add: mono_def)
  then have d: "?d = ?now - ?start" "sub64 0 ?d = ?start - ?now"
    using late(2,3) by (simp_all add: time_Sub_def sub64_exact in_int64_def min_int64_def max_int64_def)
  have "cl_Success ?now ?d ?q = ?q\<lparr>cl_concurrentSuccessfulAttempts := 1\<rparr>"
    using fired b(2,3) d
    by (simp add: asleep_def Let_def cl_Success_def cl_startedWhileOpen_def time_After_def time_Add_def add64_exact
        in_int64_def min_int64_def max_int64_def)
  moreover have "\<not> is_late (time_Add ?start (st_timeout S)) ?now" using late(3) by (simp add: is_late_def time_Add_def)
  ultimately have "br_call S None (b\<lparr>br_closer := q\<rparr>) = (None, b') \<Longrightarrow> \<not> br_open b'" for b'
    using fired allow b(4) late(1)
    by (auto simp: asleep_def Let_def br_call_def br_finish_def verdict.simps br_succeeded_def br_tell_def br_flip_def cl_ShouldClose_def)
  moreover have "fst (br_call S None (b\<lparr>br_closer := q\<rparr>)) = None"
    using fired allow by (simp add: asleep_def Let_def br_call_def)
  ultimately show ?thesis by (cases "br_call S None (b\<lparr>br_closer := q\<rparr>)") (simp add: q_def)
qed

lemma tripped_asleep:
  assumes "tripped T (factory_closer config) b"
  shows "asleep T (T + ccl_SleepWindow (ccl_Merge config defaultConfigureCloser)) 1
    (ccl_RequiredConcurrentSuccessful (ccl_Merge config defaultConfigureCloser)) b"
  using assms
  by (auto simp: tripped_def asleep_def Let_def cl_arm_def tc_SleepStart_def tc_resetOpenTimeWithLock_def tc_stopTimer_def
      tc_callback_def factory_closer_def cl_SetConfigNotThreadSafe_def cl_SetConfigThreadSafe_def zero_Closer_def
      zero_TimedCheck_def tc_SetSleepDuration_def tc_SetEventCountToAllow_def time_Add_def br_held_def add64_exact
      in_int64_def min_int64_def max_int64_def)

subsection \<open>Properties\<close>

text \<open>C18: A circuit with the hystrix logic is a breaker. Take a circuit configured by the factory, with quiet listeners,
  a clock that does not go back, and a context that never ends. Whatever its calls of Execute return, and whenever the
  timers of its closer go off between them, each call gives what the breaker gives, and the circuit is open
  when the breaker is; between the calls its lock is free, no transition waits, no command is counted. The breaker
  decides to open by the attempts and errors of the rolling window, with no lock, queue or counter.\<close>

theorem hystrix_circuit_refines_breaker:
  assumes "quiet env" "3 \<le> fuel" "\<And>m. ctx_Err ctx m = None" "mono clk"
    and "cfg = Config_Merge config (defaultCommandProperties wall u v)" "hystrix_config wall f nm cfg clk"
    and "S = hystrix_settings wall f nm cfg clk n" "br_fits S (length ops)"
  shows "\<exists>c0 c. NewCircuitFromConfig wall u v nm config n = (Returns c0, Suc n) \<and>
    h_run fuel env ctx ops c0 = (Returns (fst (br_run S ops (br_new f nm n))), c) \<and>
    IsOpen c = br_open (snd (br_run S ops (br_new f nm n))) \<and> \<not> c_transitionMu c \<and> c_pendingTransitions c = [] \<and>
    c_concurrentCommands c = 0"
proof -
  obtain c0 where c0: "NewCircuitFromConfig wall u v nm config n = (Returns c0, Suc n)" "h_rel S (br_new f nm n) c0"
    using hystrix_new_rel [OF _ _ assms(4)] assms(5-7) by blast
  have "length ops + br_held (br_new f nm n) \<le> length ops" by (simp add: br_new_def br_held_def)
  then obtain c where "h_run fuel env ctx ops c0 = (Returns (fst (br_run S ops (br_new f nm n))), c)"
    "h_rel S (snd (br_run S ops (br_new f nm n))) c"
    using h_run_rel [OF assms(1-3,8) c0(2)] by blast
  then show ?thesis using c0(1) h_rel_IsOpen by (fastforce simp: h_rel_def h_sim_def)
qed

definition example_factory :: Factory where
  "example_factory = \<lparr>hf_ConfigureCloser = zero_ConfigureCloser\<lparr>ccl_SleepWindow := 10\<rparr>,
     hf_ConfigureOpener = zero_ConfigureOpener\<lparr>cop_RequestVolumeThreshold := 2\<rparr>,
     hf_CreateConfigureCloser = [], hf_CreateConfigureOpener = []\<rparr>"

definition example_clock :: clock where
  "example_clock n = int n"

abbreviation example_config :: "(Opener, Closer) Config" where
  "example_config \<equiv> Config_Merge (hf_Configure example_clock example_factory ''x'')
     (defaultCommandProperties example_clock zero_Opener zero_Closer)"

lemma example_opener: "op_effective example_clock (hf_openerConfig example_factory ''x'') =
    \<lparr>cop_ErrorThresholdPercentage = 50, cop_RequestVolumeThreshold = 2, cop_Now = Some example_clock,
     cop_RollingDuration = 10000000000, cop_NumBuckets = 10\<rparr>"
  by (simp add: op_effective_def hf_openerConfig_def example_factory_def cop_Merge_def zero_ConfigureOpener_def
      defaultConfigureOpener_def Let_def)

lemma example_hystrix: "hystrix_config example_clock example_factory ''x'' example_config example_clock"
  unfolding hystrix_config_def example_opener
  by (simp add: hf_Configure_def Config_Merge_def gc_merge_def mergeCustomConfig_def tk_merge_def ec_merge_def zero_Config_def
      zero_GeneralConfig_def defaultCommandProperties_def defaultGoSpecificConfig_def defaultExecutionConfig_def
      zero_ExecutionConfig_def quo64_nonneg sane_window_def max_int64_def)

lemma example_settings: "hystrix_settings example_clock example_factory ''x'' example_config example_clock 0 =
    \<lparr>st_clock = example_clock, st_window = window_geometry 1000000000 10 0, st_volume = 2, st_percentage = 50,
     st_timeout = 1000000000\<rparr>"
  unfolding hystrix_settings_def example_opener
  by (simp add: hf_Configure_def Config_Merge_def ec_merge_def zero_Config_def defaultCommandProperties_def
      defaultExecutionConfig_def zero_ExecutionConfig_def quo64_nonneg op_geometry_def max_int64_def example_clock_def)

lemma example_closer: "hf_closerConfig example_factory nm = zero_ConfigureCloser\<lparr>ccl_SleepWindow := 10\<rparr>"
  by (simp add: hf_closerConfig_def example_factory_def ccl_Merge_def zero_ConfigureCloser_def Let_def)

definition example_error :: err where
  "example_error = OtherErr ''backend'' None NoAs NoUnwrap"

lemma example_error: "\<not> IsBadRequest (Some example_error)"
  by (simp add: example_error_def)

lemma mono_example_clock: "mono example_clock"
  by (simp add: mono_def example_clock_def)

lemma example_trips:
  "\<exists>b. br_run (hystrix_settings example_clock example_factory ''x'' example_config example_clock 0)
      (map Call [Some example_error, Some example_error]) (br_new example_factory ''x'' 0) = ([Some example_error, Some example_error], b) \<and>
    tripped (example_clock (br_reads b - 1)) (factory_closer (hf_closerConfig example_factory ''x'')) b \<and> 1 < br_reads b \<and> br_reads b \<le> 8"
  using br_run_trips [of 0 "factory_closer (hf_closerConfig example_factory ''x'')" 0 "br_new example_factory ''x'' 0"
      "hystrix_settings example_clock example_factory ''x'' example_config example_clock 0" 1000000000 10
      "[Some example_error, Some example_error]"] mono_example_clock example_error
  by (simp add: example_settings failing_def br_new_def factory_closer_simps) (simp add: example_clock_def)

theorem hystrix_circuit_refines_breaker_witness:
  "\<exists>c0 c. NewCircuitFromConfig example_clock zero_Opener zero_Closer ''x'' (hf_Configure example_clock example_factory ''x'') 0 =
      (Returns c0, Suc 0) \<and>
    h_run 3 (quiet_env example_clock) ctx_Background [Call (Some example_error), Call (Some example_error), Call None] c0 =
      (Returns [Some example_error, Some example_error, Some errCircuitOpen], c) \<and> IsOpen c"
proof -
  let ?S = "hystrix_settings example_clock example_factory ''x'' example_config example_clock 0"
  let ?ops = "[Call (Some example_error), Call (Some example_error), Call None]"
  obtain b where b: "br_run ?S (map Call [Some example_error, Some example_error]) (br_new example_factory ''x'' 0) =
      ([Some example_error, Some example_error], b)"
    "tripped (example_clock (br_reads b - 1)) (factory_closer (hf_closerConfig example_factory ''x'')) b"
    using example_trips by blast
  have "asleep (example_clock (br_reads b - 1)) (example_clock (br_reads b - 1) + 10) 1 1 b"
    using tripped_asleep [OF b(2)] by (simp add: example_closer ccl_Merge_def zero_ConfigureCloser_def defaultConfigureCloser_def Let_def)
  then have "br_call ?S None b = (Some errCircuitOpen, b\<lparr>br_reads := Suc (br_reads b)\<rparr>)"
    by (rule asleep_call) (simp add: example_settings, simp add: example_clock_def)
  then have "br_run ?S ?ops (br_new example_factory ''x'' 0) = ([Some example_error, Some example_error, Some errCircuitOpen],
      b\<lparr>br_reads := Suc (br_reads b)\<rparr>)"
    using b(1) by (auto split: prod.splits)
  moreover have "br_open b" using b(2) by (simp add: tripped_def)
  ultimately show ?thesis
    using hystrix_circuit_refines_breaker [of "quiet_env example_clock" 3 ctx_Background example_clock example_config
        "hf_Configure example_clock example_factory ''x''" example_clock zero_Opener zero_Closer example_factory "''x''" ?S 0 ?ops]
      example_hystrix mono_example_clock
    by (auto simp: ctx_Background_def br_fits_def example_settings max_int64_def)
qed

text \<open>C19: A backend that fails trips its circuit, which rests and recovers. As many calls in a row that give an
  error as the request volume threshold, within the rolling window and with an error threshold of at most 100
  percent, all run and open the circuit with the last of them, at the instant \<open>T\<close> its clock shows. Until the sleep
  window after \<open>T\<close> is over, every call is refused with the circuit open error and changes nothing, whatever timers go
  off. The first call after that, once the timer of the opening has gone off, runs; if it gives no error, in time, and
  one success is enough, the circuit is closed.\<close>

theorem hystrix_circuit_trips_and_recovers:
  assumes "quiet env" "3 \<le> fuel" "\<And>m. ctx_Err ctx m = None" "mono clk"
    and "cfg = Config_Merge config (defaultCommandProperties wall u v)" "hystrix_config wall f nm cfg clk"
    and "S = hystrix_settings wall f nm cfg clk n" "br_fits S (length fails)" "st_percentage S \<le> 100"
    and "\<forall>r \<in> set fails. r \<noteq> None \<and> \<not> IsBadRequest r" "int (length fails) = max 1 (st_volume S)"
    and "\<forall>i \<le> n + 3 * length fails. clk i < clk n + rb_BucketWidth (st_window S) * rb_NumBuckets (st_window S)"
    and "closer = ccl_Merge (hf_closerConfig f nm) defaultConfigureCloser"
  shows "\<exists>c0 c1. NewCircuitFromConfig wall u v nm config n = (Returns c0, Suc n) \<and>
    h_run fuel env ctx (map Call fails) c0 = (Returns fails, c1) \<and> IsOpen c1 \<and>
    Suc n < c_readings c1 \<and> c_readings c1 \<le> Suc (Suc (n + 3 * length fails)) \<and>
    (let wake = clk (c_readings c1 - 1) + ccl_SleepWindow closer in
     \<forall>ops. (\<forall>i < c_readings c1 + length ops. clk i < wake) \<longrightarrow> (\<exists>c2.
       h_run fuel env ctx ops c1 = (Returns (replicate (length (filter is_call ops)) (Some errCircuitOpen)), c2) \<and> IsOpen c2 \<and>
       c_readings c2 = c_readings c1 + length (filter is_call ops) \<and>
       (wake \<le> clk (c_readings c2) \<and> clk (Suc (c_readings c2)) \<le> clk (c_readings c2) + st_timeout S \<and>
          0 < st_timeout S \<and> st_timeout S \<le> max_int64 \<and> 0 < ccl_SleepWindow closer \<and> ccl_RequiredConcurrentSuccessful closer \<le> 1 \<longrightarrow>
        (\<exists>c3. h_run fuel env ctx [Fire 1, Call None] c2 = (Returns [None], c3) \<and> \<not> IsOpen c3))))"
proof -
  let ?q = "factory_closer (hf_closerConfig f nm)" and ?oc = "op_effective wall (hf_openerConfig f nm)"
  let ?w = "quo64 (cop_RollingDuration ?oc) (cop_NumBuckets ?oc)" and ?k = "cop_NumBuckets ?oc"
  let ?b = "br_new f nm n"
  have S: "st_clock S = clk" "st_window S = window_geometry ?w ?k (clk n)" "0 < ?w" "0 < ?k"
    using assms(6,7) op_effective_positive(1)
    by (simp_all add: hystrix_settings_def hystrix_config_def Let_def op_geometry_def sane_window_def)
  obtain c0 where c0: "NewCircuitFromConfig wall u v nm config n = (Returns c0, Suc n)" "h_rel S ?b c0"
    using hystrix_new_rel [OF _ _ assms(4)] assms(5-7) by blast
  have "failing (clk n) ?q 0 ?b" by (simp add: failing_def br_new_def)
  moreover have "fails \<noteq> []" "1 \<le> length fails" "int (0 + length fails) = max (int 0 + 1) (st_volume S)"
    using assms(11) by auto
  moreover have "clk n \<le> st_clock S (br_reads ?b)" using S(1) assms(4) by (simp add: br_new_def mono_def)
  moreover have "\<forall>i < br_reads ?b + 3 * length fails. st_clock S i < clk n + ?w * ?k"
    using assms(12) S(1,2) by (simp add: br_new_def window_geometry_def)
  ultimately obtain b1 where b1: "br_run S (map Call fails) ?b = (fails, b1)" "tripped (clk (br_reads b1 - 1)) ?q b1"
    "br_reads ?b < br_reads b1" "br_reads b1 \<le> Suc (br_reads ?b + 3 * length fails)" and len: "1 \<le> length fails"
    using br_run_trips [OF _ _ S(2-4) assms(9), of ?q 0 ?b fails] S(1) assms(4,10) by (auto simp: factory_closer_simps)
  let ?wake = "clk (br_reads b1 - 1) + ccl_SleepWindow closer"
  have "length (map Call fails) + br_held ?b \<le> length fails" by (simp add: br_new_def br_held_def)
  then obtain c1 where c1: "h_run fuel env ctx (map Call fails) c0 = (Returns fails, c1)" "h_rel S b1 c1"
    using h_run_rel [OF assms(1-3,8) c0(2), of "map Call fails"] b1(1) by auto
  have reads: "c_readings c = br_reads b" if "h_rel S b c" for b c using that by (auto simp: h_rel_def h_sim_def)
  have sleeps: "asleep (clk (br_reads b1 - 1)) ?wake 1 (ccl_RequiredConcurrentSuccessful closer) b1"
    using tripped_asleep [OF b1(2)] assms(13) by simp
  have sleeping: "\<exists>c2. h_run fuel env ctx ops c1 = (Returns (replicate (length (filter is_call ops)) (Some errCircuitOpen)), c2) \<and>
      IsOpen c2 \<and> c_readings c2 = br_reads b1 + length (filter is_call ops) \<and>
      (?wake \<le> clk (c_readings c2) \<and> clk (Suc (c_readings c2)) \<le> clk (c_readings c2) + st_timeout S \<and>
          0 < st_timeout S \<and> st_timeout S \<le> max_int64 \<and> 0 < ccl_SleepWindow closer \<and> ccl_RequiredConcurrentSuccessful closer \<le> 1 \<longrightarrow>
        (\<exists>c3. h_run fuel env ctx [Fire 1, Call None] c2 = (Returns [None], c3) \<and> \<not> IsOpen c3))"
    if early: "\<forall>i < br_reads b1 + length ops. clk i < ?wake" for ops
  proof -
    have early': "\<forall>i < br_reads b1 + length ops. st_clock S i < ?wake" unfolding S(1) by (rule early)
    obtain b2 c2 where c2: "h_run fuel env ctx ops c1 = (Returns (replicate (length (filter is_call ops)) (Some errCircuitOpen)), c2)"
      "h_rel S b2 c2" "asleep (clk (br_reads b1 - 1)) ?wake 1 (ccl_RequiredConcurrentSuccessful closer) b2"
      "br_reads b2 = br_reads b1 + length (filter is_call ops)"
      using h_run_asleep [OF assms(1-3,8) len c1(2) sleeps early'] by blast
    have "\<exists>c3. h_run fuel env ctx [Fire 1, Call None] c2 = (Returns [None], c3) \<and> \<not> IsOpen c3"
      if wake: "?wake \<le> clk (br_reads b2)" "clk (Suc (br_reads b2)) \<le> clk (br_reads b2) + st_timeout S" "0 < st_timeout S"
        "st_timeout S \<le> max_int64" "0 < ccl_SleepWindow closer" "ccl_RequiredConcurrentSuccessful closer \<le> 1"
    proof -
      obtain b3 where b3: "br_run S [Fire 1, Call None] b2 = ([None], b3)" "\<not> br_open b3"
        using asleep_wakes [OF c2(3)] wake S(1) assms(4) by auto
      have held: "br_held b2 = 0" using c2(3) by (simp add: asleep_def Let_def)
      obtain c3 where c3: "h_step fuel env ctx (Fire 1) c2 = (Returns [], c3)" "h_rel S (snd (br_step S (Fire 1) b2)) c3"
        using h_step_rel [OF assms(1,2) c2(2) _ assms(8,3), of "Fire 1"] held len by auto
      obtain c4 where "h_step fuel env ctx (Call None) c3 = (Returns [None], c4)" "h_rel S b3 c4"
        using h_step_rel [OF assms(1,2) c3(2) _ assms(8,3), of "Call None"] held len b3(1) by (auto split: prod.splits)
      then show ?thesis using c3(1) b3(2) h_rel_IsOpen by (auto simp: gbind_run go_run simp del: h_step.simps)
    qed
    then show ?thesis using c2 h_rel_IsOpen [OF c2(2)] reads [OF c2(2)] by (auto simp: asleep_def Let_def)
  qed
  have "br_open b1" using b1(2) by (simp add: tripped_def)
  then show ?thesis
    using c0(1) c1 sleeping h_rel_IsOpen [OF c1(2)] reads [OF c1(2)] b1(3,4) by (auto simp: Let_def br_new_def)
qed

text \<open>Two errors trip it; nine calls are refused; then the sleep window of 10 is over and a successful call closes it.\<close>

theorem hystrix_circuit_trips_and_recovers_witness:
  "\<exists>c0 c1 c2 c3. NewCircuitFromConfig example_clock zero_Opener zero_Closer ''x'' (hf_Configure example_clock example_factory ''x'') 0 =
      (Returns c0, Suc 0) \<and>
    h_run 3 (quiet_env example_clock) ctx_Background (map Call [Some example_error, Some example_error]) c0 =
      (Returns [Some example_error, Some example_error], c1) \<and> IsOpen c1 \<and>
    h_run 3 (quiet_env example_clock) ctx_Background (replicate 9 (Call None)) c1 =
      (Returns (replicate 9 (Some errCircuitOpen)), c2) \<and> IsOpen c2 \<and>
    h_run 3 (quiet_env example_clock) ctx_Background [Fire 1, Call None] c2 = (Returns [None], c3) \<and> \<not> IsOpen c3"
proof -
  let ?S = "hystrix_settings example_clock example_factory ''x'' example_config example_clock 0"
  let ?closer = "ccl_Merge (hf_closerConfig example_factory ''x'') defaultConfigureCloser"
  have closer: "ccl_SleepWindow ?closer = 10" "ccl_RequiredConcurrentSuccessful ?closer = 1"
    by (simp_all add: example_closer ccl_Merge_def zero_ConfigureCloser_def defaultConfigureCloser_def Let_def)
  from hystrix_circuit_trips_and_recovers [of "quiet_env example_clock" 3 ctx_Background example_clock example_config
      "hf_Configure example_clock example_factory ''x''" example_clock zero_Opener zero_Closer example_factory "''x''" ?S 0
      "[Some example_error, Some example_error]" ?closer]
  obtain c0 c1 where c: "NewCircuitFromConfig example_clock zero_Opener zero_Closer ''x'' (hf_Configure example_clock example_factory ''x'') 0 =
      (Returns c0, Suc 0)"
    "h_run 3 (quiet_env example_clock) ctx_Background (map Call [Some example_error, Some example_error]) c0 =
      (Returns [Some example_error, Some example_error], c1)" "IsOpen c1" "1 < c_readings c1"
    and sleeps: "\<forall>ops. (\<forall>i < c_readings c1 + length ops. example_clock i < example_clock (c_readings c1 - 1) + 10) \<longrightarrow>
      (\<exists>c2. h_run 3 (quiet_env example_clock) ctx_Background ops c1 =
        (Returns (replicate (length (filter is_call ops)) (Some errCircuitOpen)), c2) \<and> IsOpen c2 \<and>
        c_readings c2 = c_readings c1 + length (filter is_call ops) \<and>
        (example_clock (c_readings c1 - 1) + 10 \<le> example_clock (c_readings c2) \<and>
          example_clock (Suc (c_readings c2)) \<le> example_clock (c_readings c2) + 1000000000 \<longrightarrow>
         (\<exists>c3. h_run 3 (quiet_env example_clock) ctx_Background [Fire 1, Call None] c2 = (Returns [None], c3) \<and> \<not> IsOpen c3)))"
    using example_hystrix mono_example_clock example_error
    by (auto simp: ctx_Background_def br_fits_def example_settings max_int64_def closer Let_def window_geometry_def simp del: h_run.simps)
      (fastforce simp: example_clock_def)
  have "\<forall>i < c_readings c1 + length (replicate 9 (Call None)). example_clock i < example_clock (c_readings c1 - 1) + 10"
    by (auto simp: example_clock_def)
  then obtain c2 c3 where "h_run 3 (quiet_env example_clock) ctx_Background (replicate 9 (Call None)) c1 =
      (Returns (replicate 9 (Some errCircuitOpen)), c2)" "IsOpen c2"
    "h_run 3 (quiet_env example_clock) ctx_Background [Fire 1, Call None] c2 = (Returns [None], c3)" "\<not> IsOpen c3"
    using sleeps [rule_format, of "replicate 9 (Call None)"] c(4) by (auto simp: example_clock_def simp del: h_run.simps)
  then show ?thesis using c by blast
qed

end
