(* ===== verification/BucketRace.thy ===== *)
theory BucketRace
  imports RollingCounter
begin

text \<open>
  Concurrent events: \<^verbatim>\<open>RollingCounter.Inc\<close> with \<^verbatim>\<open>RollingBuckets.Advance\<close> and \<^verbatim>\<open>rollForward\<close> of
  \<^verbatim>\<open>rolling_bucket.go\<close>, on goroutines whose steps interleave. The goroutines only count: readers, which
  advance the window too, and \<^verbatim>\<open>Reset\<close> at the same time are not modelled here.

  A step is one atomic access: a load of \<^verbatim>\<open>LastAbsIndex\<close>, a lock or an unlock, the clearing of one bucket, the
  store of \<^verbatim>\<open>LastAbsIndex\<close>, an addition. \<open>a\<close> is the absolute index of the instant a goroutine was given, and \<open>n\<close> the
  number of buckets; \<open>a + n\<close> is in 64 bits, as the windows with \<open>rb_inv\<close> have it. An instant before the start time is only counted
  in the total.
\<close>

datatype inc_stage =
    Idle
  | LoadLast int64
  | WaitLock int64
  | CheckLast int64
  | Clearing int64 int64 int64
  | Unlocking int64 int64
  | Writing int64

text \<open>
  The counter and its goroutines, and what has happened: the absolute indices of the events written to a bucket so far
  (a goroutine on its way has not added its own yet), those cleared, the most recent first, and how many events landed late, when the bucket was no longer theirs; \<open>bk_stray j\<close> counts
  those that bucket \<open>j\<close> holds.
\<close>

record bucket_race =
  bk_last :: int64
  bk_mu :: "nat option"
  bk_slots :: "int \<Rightarrow> int64"
  bk_total :: int64
  bk_stage :: "nat \<Rightarrow> inc_stage"
  bk_started :: nat
  bk_events :: "int64 list"
  bk_cleared :: "int64 list"
  bk_late :: nat
  bk_stray :: "int \<Rightarrow> nat"

definition bucket_start :: bucket_race where
  "bucket_start = \<lparr>bk_last = 0, bk_mu = None, bk_slots = (\<lambda>_. 0), bk_total = 0, bk_stage = (\<lambda>_. Idle),
     bk_started = 0, bk_events = [], bk_cleared = [], bk_late = 0, bk_stray = (\<lambda>_. 0)\<rparr>"

definition to_stage :: "nat \<Rightarrow> inc_stage \<Rightarrow> bucket_race \<Rightarrow> bucket_race" where
  "to_stage i st s = s\<lparr>bk_stage := (bk_stage s)(i := st)\<rparr>"

text \<open>The most recent absolute index that the buckets stand for: it runs ahead of \<open>bk_last\<close> while they are cleared.\<close>

definition frontier :: "bucket_race \<Rightarrow> int64" where
  "frontier s = (case bk_mu s of
     Some i \<Rightarrow> (case bk_stage s i of Clearing a k hi \<Rightarrow> k - 1 | _ \<Rightarrow> bk_last s)
   | None \<Rightarrow> bk_last s)"

inductive bucket_step :: "int \<Rightarrow> nat \<Rightarrow> bucket_race \<Rightarrow> bucket_race \<Rightarrow> bool" for n m where
  inc_before: "i < m \<Longrightarrow> bk_stage s i = Idle \<Longrightarrow>
    bucket_step n m s (s\<lparr>bk_total := add64 (bk_total s) 1, bk_started := Suc (bk_started s)\<rparr>)"
| inc_start: "i < m \<Longrightarrow> bk_stage s i = Idle \<Longrightarrow> 0 \<le> a \<Longrightarrow> a + n \<le> max_int64 \<Longrightarrow>
    bucket_step n m s (to_stage i (LoadLast a) s\<lparr>bk_total := add64 (bk_total s) 1, bk_started := Suc (bk_started s)\<rparr>)"
| load_old: "i < m \<Longrightarrow> bk_stage s i = LoadLast a \<Longrightarrow> n \<le> bk_last s - a \<Longrightarrow> bucket_step n m s (to_stage i Idle s)"
| load_now: "i < m \<Longrightarrow> bk_stage s i = LoadLast a \<Longrightarrow> 0 \<le> bk_last s - a \<Longrightarrow> bk_last s - a < n \<Longrightarrow>
    bucket_step n m s (to_stage i (Writing a) s)"
| load_new: "i < m \<Longrightarrow> bk_stage s i = LoadLast a \<Longrightarrow> bk_last s < a \<Longrightarrow> bucket_step n m s (to_stage i (WaitLock a) s)"
| lock: "i < m \<Longrightarrow> bk_stage s i = WaitLock a \<Longrightarrow> bk_mu s = None \<Longrightarrow>
    bucket_step n m s (to_stage i (CheckLast a) s\<lparr>bk_mu := Some i\<rparr>)"
| check_done: "i < m \<Longrightarrow> bk_stage s i = CheckLast a \<Longrightarrow> a \<le> bk_last s \<Longrightarrow>
    bucket_step n m s (to_stage i (Unlocking a (bk_last s)) s)"
| check_roll: "i < m \<Longrightarrow> bk_stage s i = CheckLast a \<Longrightarrow> bk_last s < a \<Longrightarrow>
    bucket_step n m s (to_stage i (Clearing a (bk_last s + 1) (bk_last s + n)) s)"
| clear: "i < m \<Longrightarrow> bk_stage s i = Clearing a k hi \<Longrightarrow> k \<le> a \<Longrightarrow> k \<le> hi \<Longrightarrow>
    bucket_step n m s (to_stage i (Clearing a (k + 1) hi) s\<lparr>bk_slots := (bk_slots s)(k mod n := 0),
      bk_cleared := k # bk_cleared s, bk_stray := (bk_stray s)(k mod n := 0)\<rparr>)"
| publish: "i < m \<Longrightarrow> bk_stage s i = Clearing a k hi \<Longrightarrow> \<not> (k \<le> a \<and> k \<le> hi) \<Longrightarrow>
    bucket_step n m s (to_stage i (Unlocking a a) s\<lparr>bk_last := a\<rparr>)"
| unlock_old: "i < m \<Longrightarrow> bk_stage s i = Unlocking a l \<Longrightarrow> n \<le> l - a \<Longrightarrow>
    bucket_step n m s (to_stage i Idle s\<lparr>bk_mu := None\<rparr>)"
| unlock_write: "i < m \<Longrightarrow> bk_stage s i = Unlocking a l \<Longrightarrow> l - a < n \<Longrightarrow>
    bucket_step n m s (to_stage i (Writing a) s\<lparr>bk_mu := None\<rparr>)"
| write_timely: "i < m \<Longrightarrow> bk_stage s i = Writing a \<Longrightarrow> frontier s - n < a \<Longrightarrow>
    bucket_step n m s (to_stage i Idle s\<lparr>bk_slots := (bk_slots s)(a mod n := add64 (bk_slots s (a mod n)) 1),
      bk_events := a # bk_events s\<rparr>)"
| write_late: "i < m \<Longrightarrow> bk_stage s i = Writing a \<Longrightarrow> a \<le> frontier s - n \<Longrightarrow>
    bucket_step n m s (to_stage i Idle s\<lparr>bk_slots := (bk_slots s)(a mod n := add64 (bk_slots s (a mod n)) 1),
      bk_late := Suc (bk_late s), bk_stray := (bk_stray s)(a mod n := Suc (bk_stray s (a mod n)))\<rparr>)"

inductive bucket_reach :: "int \<Rightarrow> nat \<Rightarrow> bucket_race \<Rightarrow> bool" for n m where
  bk_init: "bucket_reach n m bucket_start"
| bk_more: "bucket_reach n m s \<Longrightarrow> bucket_step n m s s' \<Longrightarrow> bucket_reach n m s'"

subsection \<open>The invariant\<close>

fun has_lock :: "inc_stage \<Rightarrow> bool" where
  "has_lock (CheckLast a) = True"
| "has_lock (Clearing a k hi) = True"
| "has_lock (Unlocking a l) = True"
| "has_lock _ = False"

fun stage_ok :: "int \<Rightarrow> int64 \<Rightarrow> inc_stage \<Rightarrow> bool" where
  "stage_ok n l (Clearing a k hi) \<longleftrightarrow> l < k \<and> l < a \<and> k \<le> a + 1 \<and> k \<le> hi + 1 \<and> hi = l + n"
| "stage_ok n l (Unlocking a u) \<longleftrightarrow> a \<le> l"
| "stage_ok n l (Writing a) \<longleftrightarrow> a \<le> l"
| "stage_ok n l _ \<longleftrightarrow> True"

definition mutex_inv :: "int \<Rightarrow> bucket_race \<Rightarrow> bool" where
  "mutex_inv n s \<longleftrightarrow> (\<forall>i. (bk_mu s = Some i) = has_lock (bk_stage s i)) \<and> (\<forall>i. stage_ok n (bk_last s) (bk_stage s i))"

definition slots_inv :: "int \<Rightarrow> bucket_race \<Rightarrow> bool" where
  "slots_inv n s \<longleftrightarrow> (\<forall>e \<in> set (bk_events s). e \<le> bk_last s) \<and>
     (\<forall>j. 0 \<le> j \<and> j < n \<longrightarrow>
        bk_slots s j = wrap64 (int (count_list (bk_events s) (slot_index n (frontier s) j) + bk_stray s j))) \<and>
     (\<Sum>j = 0..n - 1. bk_stray s j) \<le> bk_late s \<and> bk_total s = wrap64 (int (bk_started s)) \<and>
     sorted_wrt (>) (bk_cleared s) \<and> (\<forall>k \<in> set (bk_cleared s). k \<le> frontier s)"

lemma stage_simps [simp]:
  "bk_stage (to_stage i st s) = (bk_stage s)(i := st)" "bk_last (to_stage i st s) = bk_last s" "bk_mu (to_stage i st s) = bk_mu s"
  "bk_slots (to_stage i st s) = bk_slots s" "bk_total (to_stage i st s) = bk_total s" "bk_started (to_stage i st s) = bk_started s"
  "bk_events (to_stage i st s) = bk_events s" "bk_cleared (to_stage i st s) = bk_cleared s" "bk_late (to_stage i st s) = bk_late s"
  "bk_stray (to_stage i st s) = bk_stray s"
  by (simp_all add: to_stage_def)

text \<open>A goroutine changes its stage, and takes or gives back the lock.\<close>

lemma mutex_inv_update:
  assumes inv: "mutex_inv n s" and s': "bk_stage s' = (bk_stage s)(i := st)" "bk_last s' = bk_last s"
    "bk_mu s' = (if has_lock st then Some i else if has_lock (bk_stage s i) then None else bk_mu s)"
    and st: "stage_ok n (bk_last s) st" "has_lock st \<Longrightarrow> has_lock (bk_stage s i) \<or> bk_mu s = None"
  shows "mutex_inv n s'"
proof -
  have lock: "(bk_mu s = Some j) = has_lock (bk_stage s j)" and ok: "stage_ok n (bk_last s) (bk_stage s j)" for j
    using inv by (simp_all add: mutex_inv_def)
  have "(bk_mu s' = Some j) = has_lock (bk_stage s' j)" for j
    using lock [of i] lock [of j] s' st(2) by (cases "j = i") (auto split: if_splits)
  then show ?thesis using ok s' st(1) by (simp add: mutex_inv_def)
qed

lemma mutex_inv_step:
  assumes "bucket_step n m s s'" "mutex_inv n s" "0 < n"
  shows "mutex_inv n s'"
proof -
  have lock: "(bk_mu s = Some i) = has_lock (bk_stage s i)" and ok: "stage_ok n (bk_last s) (bk_stage s i)" for i
    using assms(2) by (simp_all add: mutex_inv_def)
  note mu = lock [symmetric]
  show ?thesis
    using assms(1)
  proof cases
    case (publish i a k hi)
    have "stage_ok n a (bk_stage s j)" if "j \<noteq> i" for j
    proof -
      have "\<not> has_lock (bk_stage s j)" using lock [of i] lock [of j] publish that by auto
      then show ?thesis using ok [of j] ok [of i] publish by (cases "bk_stage s j") auto
    qed
    then show ?thesis using publish lock by (auto simp: mutex_inv_def)
  next
    case (inc_before i)
    then show ?thesis using assms(2) by (simp add: mutex_inv_def)
  next
    case (inc_start i a)
    then show ?thesis by (intro mutex_inv_update [OF assms(2), of s' i "LoadLast a"]) simp_all
  next
    case (load_old i a)
    then show ?thesis by (intro mutex_inv_update [OF assms(2), of s' i "Idle"]) simp_all
  next
    case (load_now i a)
    then show ?thesis by (intro mutex_inv_update [OF assms(2), of s' i "Writing a"]) simp_all
  next
    case (load_new i a)
    then show ?thesis by (intro mutex_inv_update [OF assms(2), of s' i "WaitLock a"]) simp_all
  next
    case (lock i a)
    then show ?thesis by (intro mutex_inv_update [OF assms(2), of s' i "CheckLast a"]) simp_all
  next
    case (check_done i a)
    then show ?thesis using mu [of i] by (intro mutex_inv_update [OF assms(2), of s' i "Unlocking a (bk_last s)"]) simp_all
  next
    case (check_roll i a)
    then show ?thesis using mu [of i] assms(3) by (intro mutex_inv_update [OF assms(2), of s' i "Clearing a (bk_last s + 1) (bk_last s + n)"]) simp_all
  next
    case (clear i a k hi)
    then show ?thesis using mu [of i] ok [of i] by (intro mutex_inv_update [OF assms(2), of s' i "Clearing a (k + 1) hi"]) simp_all
  next
    case (unlock_old i a l)
    then show ?thesis by (intro mutex_inv_update [OF assms(2), of s' i "Idle"]) simp_all
  next
    case (unlock_write i a l)
    then show ?thesis using ok [of i] by (intro mutex_inv_update [OF assms(2), of s' i "Writing a"]) simp_all
  next
    case (write_timely i a)
    then show ?thesis by (intro mutex_inv_update [OF assms(2), of s' i "Idle"]) simp_all
  next
    case (write_late i a)
    then show ?thesis by (intro mutex_inv_update [OF assms(2), of s' i "Idle"]) simp_all
  qed
qed

subsection \<open>The buckets\<close>

lemma frontier_other:
  assumes "mutex_inv n s" "\<not> has_lock (bk_stage s i)" "bk_stage s' = (bk_stage s)(i := st)" "bk_mu s' = bk_mu s" "bk_last s' = bk_last s"
  shows "frontier s' = frontier s"
proof -
  have "bk_mu s \<noteq> Some i" using assms(1,2) by (auto simp: mutex_inv_def)
  then show ?thesis using assms(3-5) by (auto simp: frontier_def split: option.split inc_stage.split)
qed

lemma frontier_at: "bk_mu s = Some i \<Longrightarrow> bk_stage s i = st \<Longrightarrow>
    frontier s = (case st of Clearing a k hi \<Rightarrow> k - 1 | _ \<Rightarrow> bk_last s)"
  by (simp add: frontier_def)

lemma frontier_free: "bk_mu s = None \<Longrightarrow> frontier s = bk_last s"
  by (simp add: frontier_def)

lemma frontier_ge:
  assumes "mutex_inv n s"
  shows "bk_last s \<le> frontier s"
proof (cases "bk_mu s")
  case (Some i)
  have "stage_ok n (bk_last s) (bk_stage s i)" using assms by (simp add: mutex_inv_def)
  then show ?thesis using Some by (cases "bk_stage s i") (simp_all add: frontier_at)
qed (simp add: frontier_free)

lemma slots_inv_same:
  assumes "slots_inv n s" "frontier s' = frontier s" "bk_last s' = bk_last s" "bk_slots s' = bk_slots s" "bk_events s' = bk_events s"
    "bk_stray s' = bk_stray s" "bk_late s' = bk_late s" "bk_cleared s' = bk_cleared s" "bk_total s' = wrap64 (int (bk_started s'))"
  shows "slots_inv n s'"
  using assms by (simp add: slots_inv_def)

text \<open>One bucket is cleared: it now stands for the next absolute index, which no event has.\<close>

lemma slot_index_next:
  assumes "0 < n" "0 \<le> j" "j < n"
  shows "slot_index n k j = (if j = k mod n then k else slot_index n (k - 1) j)"
proof (cases "j = k mod n")
  case True
  then show ?thesis using assms slot_index_eq_iff [OF assms, of k k] by (simp add: in_window_def)
next
  case False
  let ?h = "slot_index n (k - 1) j"
  have h: "in_window n (k - 1) ?h" "j = ?h mod n" using slot_index_eq_iff [OF assms, of "k - 1" ?h] by auto
  have "?h \<noteq> k - n" using False h(2) by auto
  then have "in_window n k ?h" using h(1) by (auto simp: in_window_def)
  then have "slot_index n k j = ?h" using slot_index_eq_iff [OF assms, of k ?h] h(2) by simp
  then show ?thesis using False by simp
qed

lemma count_later: "(\<forall>e \<in> set es. e \<le> l) \<Longrightarrow> l < h \<Longrightarrow> count_list es h = 0" for h :: int
  by (induction es) auto

lemma sum_cleared: "(\<Sum>j = 0..n - 1. (f(c := 0)) j) \<le> (\<Sum>j = 0..n - 1. f j)" for f :: "int \<Rightarrow> nat"
  by (intro sum_mono) simp

lemma sum_bumped: "(\<Sum>j = 0..n - 1. (f(c := Suc (f c))) j) \<le> Suc (\<Sum>j = 0..n - 1. f j)" for f :: "int \<Rightarrow> nat"
proof -
  have "(\<Sum>j = 0..n - 1. (f(c := Suc (f c))) j) = (\<Sum>j = 0..n - 1. f j + (if j = c then 1 else 0))"
    by (intro sum.cong) auto
  also have "\<dots> = (\<Sum>j = 0..n - 1. f j) + (if c \<in> {0..n - 1} then 1 else 0)" by (simp add: sum.distrib)
  finally show ?thesis by simp
qed

lemma slots_inv_clear:
  assumes mu: "mutex_inv n s" and inv: "slots_inv n s" and n: "0 < n" and st: "bk_stage s i = Clearing a k hi"
    and s': "s' = to_stage i (Clearing a (k + 1) hi) s\<lparr>bk_slots := (bk_slots s)(k mod n := 0),
      bk_cleared := k # bk_cleared s, bk_stray := (bk_stray s)(k mod n := 0)\<rparr>"
  shows "slots_inv n s'"
proof -
  have lock: "bk_mu s = Some i" and k: "bk_last s < k"
    using mu st by (auto simp: mutex_inv_def) (metis stage_ok.simps(1))+
  have F: "frontier s = k - 1" "frontier s' = k" using lock st s' by (simp_all add: frontier_def)
  have none: "count_list (bk_events s) k = 0" using inv k by (intro count_later) (auto simp: slots_inv_def)
  have "bk_slots s' j = wrap64 (int (count_list (bk_events s') (slot_index n (frontier s') j) + bk_stray s' j))"
    if j: "0 \<le> j" "j < n" for j
    using inv j none slot_index_next [OF n j, of k] unfolding F by (simp add: slots_inv_def F(1) s')
  moreover have "(\<Sum>j = 0..n - 1. bk_stray s' j) \<le> bk_late s'"
    using inv sum_cleared [where n = n and f = "bk_stray s" and c = "k mod n"] by (simp add: slots_inv_def s')
  ultimately show ?thesis using inv F by (auto simp: slots_inv_def s')
qed

lemma slots_inv_publish:
  assumes mu: "mutex_inv n s" and inv: "slots_inv n s" and n: "0 < n" and st: "bk_stage s i = Clearing a k hi" "\<not> (k \<le> a \<and> k \<le> hi)"
    and s': "s' = to_stage i (Unlocking a a) s\<lparr>bk_last := a\<rparr>"
  shows "slots_inv n s'"
proof -
  have lock: "bk_mu s = Some i" and k: "bk_last s < a" "k \<le> a + 1" "k \<le> hi + 1" "hi = bk_last s + n"
    using mu st(1) by (auto simp: mutex_inv_def) (metis stage_ok.simps(1))+
  have F: "frontier s = k - 1" "frontier s' = a" using lock st s' by (simp_all add: frontier_def)
  have old: "\<forall>e \<in> set (bk_events s). e \<le> bk_last s" using inv by (simp add: slots_inv_def)
  have same: "count_list (bk_events s) (slot_index n a j) = count_list (bk_events s) (slot_index n (k - 1) j)" for j
  proof (cases "k = a + 1")
    case False
    then have k': "k - 1 = bk_last s + n" "bk_last s + n < a" using k st(2) by auto
    have "bk_last s < slot_index n a j" "bk_last s < slot_index n (k - 1) j"
      using slot_in_window [OF n, of a j] slot_in_window [OF n, of "k - 1" j] k' by (simp_all add: in_window_def)
    then show ?thesis using count_later [OF old] by simp
  qed simp
  have "\<forall>e \<in> set (bk_events s). e \<le> a" using old k(1) by force
  moreover have "\<forall>c \<in> set (bk_cleared s). c \<le> a" using inv k(2) F(1) by (force simp: slots_inv_def)
  ultimately show ?thesis using inv F same by (simp add: slots_inv_def s')
qed

lemma slots_inv_timely:
  assumes mu: "mutex_inv n s" and inv: "slots_inv n s" and n: "0 < n" and st: "bk_stage s i = Writing a" "frontier s - n < a"
    and s': "s' = to_stage i Idle s\<lparr>bk_slots := (bk_slots s)(a mod n := add64 (bk_slots s (a mod n)) 1), bk_events := a # bk_events s\<rparr>"
  shows "slots_inv n s'"
proof -
  have a: "a \<le> bk_last s" using mu st(1) by (auto simp: mutex_inv_def) (metis stage_ok.simps(3))
  have F: "frontier s' = frontier s" using mu st(1) s' by (intro frontier_other [of n s i]) simp_all
  have win: "in_window n (frontier s) a" using a st(2) frontier_ge [OF mu] by (simp add: in_window_def)
  have "bk_slots s' j = wrap64 (int (count_list (a # bk_events s) (slot_index n (frontier s) j) + bk_stray s j))"
    if j: "0 \<le> j" "j < n" for j
    using inv j win slot_index_eq_iff [OF n j, of "frontier s" a] by (auto simp: slots_inv_def s' add64_def algebra_simps)
  moreover have "bk_events s' = a # bk_events s" "bk_stray s' = bk_stray s" "bk_last s' = bk_last s" "bk_late s' = bk_late s"
    "bk_total s' = bk_total s" "bk_started s' = bk_started s" "bk_cleared s' = bk_cleared s" by (simp_all add: s')
  ultimately show ?thesis using inv F a by (simp add: slots_inv_def del: count_list.simps)
qed

lemma slots_inv_late:
  assumes mu: "mutex_inv n s" and inv: "slots_inv n s" and n: "0 < n" and st: "bk_stage s i = Writing a"
    and s': "s' = to_stage i Idle s\<lparr>bk_slots := (bk_slots s)(a mod n := add64 (bk_slots s (a mod n)) 1),
      bk_late := Suc (bk_late s), bk_stray := (bk_stray s)(a mod n := Suc (bk_stray s (a mod n)))\<rparr>"
  shows "slots_inv n s'"
proof -
  have F: "frontier s' = frontier s" using mu st(1) s' by (intro frontier_other [of n s i]) simp_all
  have "bk_slots s' j = wrap64 (int (count_list (bk_events s) (slot_index n (frontier s) j) + bk_stray s' j))"
    if j: "0 \<le> j" "j < n" for j
    using inv j by (auto simp: slots_inv_def s' add64_def algebra_simps)
  moreover have "bk_events s' = bk_events s" "bk_last s' = bk_last s" "bk_total s' = bk_total s" "bk_started s' = bk_started s"
    "bk_cleared s' = bk_cleared s" by (simp_all add: s')
  moreover have "(\<Sum>j = 0..n - 1. bk_stray s' j) \<le> bk_late s'"
    using inv sum_bumped [where n = n and f = "bk_stray s" and c = "a mod n"] by (simp add: slots_inv_def s')
  ultimately show ?thesis using inv F by (simp add: slots_inv_def)
qed

lemma slots_inv_step:
  assumes "bucket_step n m s s'" "mutex_inv n s" "slots_inv n s" "0 < n"
  shows "slots_inv n s'"
proof -
  have lock: "has_lock (bk_stage s i) = (bk_mu s = Some i)" for i using assms(2) by (simp add: mutex_inv_def)
  have total: "bk_total s = wrap64 (int (bk_started s))" using assms(3) by (simp add: slots_inv_def)
  show ?thesis
    using assms(1)
  proof cases
    case (inc_before i)
    have "frontier s' = frontier s" by (auto simp: frontier_def inc_before split: option.split inc_stage.split)
    then show ?thesis using inc_before total by (intro slots_inv_same [OF assms(3)]) (simp_all add: add64_def add.commute)
  next
    case (inc_start i a)
    have "frontier s' = frontier s" using inc_start by (intro frontier_other [OF assms(2), of i]) simp_all
    then show ?thesis using inc_start total by (intro slots_inv_same [OF assms(3)]) (simp_all add: add64_def add.commute)
  next
    case (clear i a k hi)
    then show ?thesis by (intro slots_inv_clear [OF assms(2-4), of i a k hi]) simp_all
  next
    case (publish i a k hi)
    then show ?thesis by (intro slots_inv_publish [OF assms(2-4), of i a k hi]) simp_all
  next
    case (write_timely i a)
    then show ?thesis by (intro slots_inv_timely [OF assms(2-4), of i a]) simp_all
  next
    case (write_late i a)
    then show ?thesis by (intro slots_inv_late [OF assms(2-4), of i a]) simp_all
  next
    case (lock i a)
    then show ?thesis using total by (intro slots_inv_same [OF assms(3)]) (simp_all add: frontier_def)
  next
    case (check_done i a)
    then show ?thesis using total lock [of i] by (intro slots_inv_same [OF assms(3)]) (simp_all add: frontier_def)
  next
    case (check_roll i a)
    then show ?thesis using total lock [of i] by (intro slots_inv_same [OF assms(3)]) (simp_all add: frontier_def)
  next
    case (unlock_old i a l)
    then show ?thesis using total lock [of i] by (intro slots_inv_same [OF assms(3)]) (simp_all add: frontier_def)
  next
    case (unlock_write i a l)
    then show ?thesis using total lock [of i] by (intro slots_inv_same [OF assms(3)]) (simp_all add: frontier_def)
  next
    case (load_old i a)
    have "frontier s' = frontier s" using load_old by (intro frontier_other [OF assms(2), of i]) simp_all
    then show ?thesis using load_old total by (intro slots_inv_same [OF assms(3)]) simp_all
  next
    case (load_now i a)
    have "frontier s' = frontier s" using load_now by (intro frontier_other [OF assms(2), of i]) simp_all
    then show ?thesis using load_now total by (intro slots_inv_same [OF assms(3)]) simp_all
  next
    case (load_new i a)
    have "frontier s' = frontier s" using load_new by (intro frontier_other [OF assms(2), of i]) simp_all
    then show ?thesis using load_new total by (intro slots_inv_same [OF assms(3)]) simp_all
  qed
qed

lemma bucket_inv:
  assumes "bucket_reach n m s" "0 < n"
  shows "mutex_inv n s \<and> slots_inv n s"
  using assms(1)
proof induction
  case bk_init
  then show ?case by (simp add: bucket_start_def mutex_inv_def slots_inv_def frontier_def)
next
  case (bk_more s s')
  then show ?case using mutex_inv_step slots_inv_step assms(2) by blast
qed

subsection \<open>Progress\<close>

text \<open>How much is left to do for a goroutine that is given no new event: a measure of its stage.\<close>

fun inc_work :: "int \<Rightarrow> inc_stage \<Rightarrow> nat" where
  "inc_work n Idle = 0"
| "inc_work n (LoadLast a) = nat n + 7"
| "inc_work n (WaitLock a) = nat n + 6"
| "inc_work n (CheckLast a) = nat n + 5"
| "inc_work n (Clearing a k hi) = nat (hi + 1 - k) + 3"
| "inc_work n (Unlocking a l) = 2"
| "inc_work n (Writing a) = 1"

definition all_work :: "int \<Rightarrow> nat \<Rightarrow> bucket_race \<Rightarrow> nat" where
  "all_work n m s = (\<Sum>i < m. inc_work n (bk_stage s i))"

lemma work_update:
  fixes m :: nat
  assumes "i < m" "inc_work n st < inc_work n (f i)"
  shows "(\<Sum>j < m. inc_work n ((f(i := st)) j)) < (\<Sum>j < m. inc_work n (f j))"
proof (rule sum_strict_mono_ex1)
  show "\<forall>j \<in> {..<m}. inc_work n ((f(i := st)) j) \<le> inc_work n (f j)" using assms(2) by auto
  show "\<exists>j \<in> {..<m}. inc_work n ((f(i := st)) j) < inc_work n (f j)" using assms by (intro bexI [of _ i]) simp_all
qed simp

lemma bucket_step_work:
  assumes "bucket_step n m s s'" "0 < n" "bk_started s' = bk_started s"
  shows "all_work n m s' < all_work n m s"
  using assms(1)
proof cases
  case (inc_before i)
  then show ?thesis using assms(3) by simp
next
  case (inc_start i a)
  then show ?thesis using assms(3) by simp
qed (use assms(2) in \<open>simp_all add: all_work_def work_update del: fun_upd_apply\<close>)

text \<open>Somebody can always go on: the holder of the lock, or anybody when it is free.\<close>

lemma bucket_progress:
  assumes inv: "mutex_inv n s" and i: "i < m" "bk_stage s i \<noteq> Idle" and idle: "\<forall>j \<ge> m. bk_stage s j = Idle"
  shows "\<exists>s'. bucket_step n m s s' \<and> bk_started s' = bk_started s"
proof -
  have lock: "(bk_mu s = Some j) = has_lock (bk_stage s j)" for j using inv by (simp add: mutex_inv_def)
  have goes: "\<exists>s'. bucket_step n m s s' \<and> bk_started s' = bk_started s" if j: "j < m" "has_lock (bk_stage s j)" for j
  proof (cases "bk_stage s j")
    case (CheckLast a)
    then show ?thesis using j bucket_step.check_done [of j m s a n] bucket_step.check_roll [of j m s a n] by (cases "a \<le> bk_last s") force+
  next
    case (Clearing a k hi)
    then show ?thesis using j bucket_step.clear [of j m s a k hi n] bucket_step.publish [of j m s a k hi n] by (cases "k \<le> a \<and> k \<le> hi") force+
  next
    case (Unlocking a l)
    then show ?thesis using j bucket_step.unlock_old [of j m s a l n] bucket_step.unlock_write [of j m s a l n] by (cases "n \<le> l - a") force+
  qed (use j in auto)
  show ?thesis
  proof (cases "bk_mu s")
    case (Some j)
    then have h: "has_lock (bk_stage s j)" using lock by simp
    then have "j < m" using idle by (metis has_lock.simps(4) not_le)
    then show ?thesis using goes h by blast
  next
    case None
    show ?thesis
    proof (cases "bk_stage s i")
      case (LoadLast a)
      consider "n \<le> bk_last s - a" | "0 \<le> bk_last s - a" "bk_last s - a < n" | "bk_last s < a" by linarith
      then show ?thesis
        using LoadLast i(1) bucket_step.load_old [of i m s a n] bucket_step.load_now [of i m s a n] bucket_step.load_new [of i m s a n]
        by cases force+
    next
      case (WaitLock a)
      then show ?thesis using None i(1) bucket_step.lock [of i m s a n] by force
    next
      case (Writing a)
      then show ?thesis
        using i(1) bucket_step.write_timely [of i m s a n] bucket_step.write_late [of i m s a n]
        by (cases "frontier s - n < a") force+
    qed (use i goes in auto)
  qed
qed

text \<open>Events in progress end: each step of theirs brings the end closer, and none is blocked for good.\<close>

theorem concurrent_events_end:
  assumes "bucket_reach n m s" "0 < n"
  shows "(\<forall>s'. bucket_step n m s s' \<and> bk_started s' = bk_started s \<longrightarrow> all_work n m s' < all_work n m s) \<and>
    ((\<forall>i. bk_stage s i = Idle) \<or> (\<exists>s'. bucket_step n m s s' \<and> bk_started s' = bk_started s))"
proof -
  have idle: "\<forall>j \<ge> m. bk_stage s j = Idle"
    using assms(1)
  proof induction
    case (bk_more s s')
    from bk_more(2) show ?case by cases (use bk_more(3) in auto)
  qed (simp add: bucket_start_def)
  then show ?thesis
    using bucket_step_work [of n m s] bucket_progress [of n s _ m] bucket_inv [OF assms] assms(2) by (metis not_le)
qed

subsection \<open>Properties\<close>

text \<open>C21: Concurrent events are counted. In every interleaving of goroutines that report events, at whatever instants:
  the rolling sum of the buckets is the number of events of the window, plus at most one for each event that landed late,
  a full window behind (the limitation the source admits); with no late event every bucket is exact, however the
  clearing of buckets and the events overlap. One goroutine at a time clears buckets, each index at most once and in
  order, and no index is published before the buckets stand for it. The total counts every event.\<close>

theorem concurrent_events_are_counted:
  assumes "bucket_reach n m s" "0 < n"
  shows "(\<exists>stray \<le> bk_late s. rc_sumBuckets (r\<lparr>rc_buckets := map (bk_slots s) [0..n - 1]\<rparr>) =
      wrap64 (int (length (filter (in_window n (frontier s)) (bk_events s)) + stray))) \<and>
    (bk_late s = 0 \<longrightarrow> (\<forall>j. 0 \<le> j \<and> j < n \<longrightarrow>
      bk_slots s j = wrap64 (int (count_list (bk_events s) (slot_index n (frontier s) j))))) \<and>
    (\<forall>i k. has_lock (bk_stage s i) \<and> has_lock (bk_stage s k) \<longrightarrow> i = k) \<and>
    sorted_wrt (>) (bk_cleared s) \<and> bk_last s \<le> frontier s \<and> (bk_mu s = None \<longrightarrow> frontier s = bk_last s) \<and>
    bk_total s = wrap64 (int (bk_started s))"
proof -
  have mu: "mutex_inv n s" and inv: "slots_inv n s" using bucket_inv [OF assms] by simp_all
  let ?c = "\<lambda>j. count_list (bk_events s) (slot_index n (frontier s) j)"
  let ?stray = "\<Sum>j = 0..n - 1. bk_stray s j"
  have slots: "bk_slots s j = wrap64 (int (?c j) + int (bk_stray s j))" if "0 \<le> j" "j < n" for j
    using inv that by (simp add: slots_inv_def)
  have late: "?stray \<le> bk_late s" using inv by (simp add: slots_inv_def)
  have "(\<Sum>j\<leftarrow>[0..n - 1]. int (?c j) + int (bk_stray s j)) =
      (\<Sum>j\<leftarrow>[0..n - 1]. int (?c j)) + (\<Sum>j\<leftarrow>[0..n - 1]. int (bk_stray s j))" by (simp add: sum_list_addf)
  also have "(\<Sum>j\<leftarrow>[0..n - 1]. int (bk_stray s j)) = int ?stray"
    by (simp add: sum_list_distinct_conv_sum_set)
  finally have total: "(\<Sum>j\<leftarrow>[0..n - 1]. int (?c j) + int (bk_stray s j)) =
      int (length (filter (in_window n (frontier s)) (bk_events s)) + ?stray)"
    using sum_slot_counts [OF assms(2)] by simp
  have cells: "map (bk_slots s) [0..n - 1] = map (\<lambda>j. wrap64 (int (?c j) + int (bk_stray s j))) [0..n - 1]"
    using slots by (intro map_cong) auto
  have "rc_sumBuckets (r\<lparr>rc_buckets := map (\<lambda>j. wrap64 (f j)) js\<rparr>) = wrap64 (\<Sum>j\<leftarrow>js. f j)" for f :: "int \<Rightarrow> int" and js
    by (simp add: rc_sumBuckets_def fold_add64 sum_wrap64 o_def)
  then have sum: "rc_sumBuckets (r\<lparr>rc_buckets := map (bk_slots s) [0..n - 1]\<rparr>) =
      wrap64 (int (length (filter (in_window n (frontier s)) (bk_events s)) + ?stray))"
    unfolding cells by (simp only: total)
  have "bk_stray s j = 0" if "bk_late s = 0" "0 \<le> j" "j < n" for j
    using late that by (simp add: sum_nonneg_eq_0_iff)
  then have exact: "bk_late s = 0 \<longrightarrow> (\<forall>j. 0 \<le> j \<and> j < n \<longrightarrow> bk_slots s j = wrap64 (int (?c j)))" using slots by simp
  have "i = k" if "has_lock (bk_stage s i)" "has_lock (bk_stage s k)" for i k
    using mu that unfolding mutex_inv_def by (metis option.inject)
  then show ?thesis
    using sum late exact inv frontier_ge [OF mu] frontier_free [of s] by (auto simp: slots_inv_def)
qed

text \<open>
  Two goroutines and two buckets: one is at index 1, the other at index 3. The first advances the window, waits while
  the second advances it by a full window, and lands late.
\<close>

definition bk_at :: "int64 \<Rightarrow> nat option \<Rightarrow> int64 \<Rightarrow> int64 \<Rightarrow> inc_stage \<Rightarrow> inc_stage \<Rightarrow> int64 list \<Rightarrow> int64 list \<Rightarrow> nat \<Rightarrow> bucket_race" where
  "bk_at l mu v t x y es cl late = \<lparr>bk_last = l, bk_mu = mu, bk_slots = (\<lambda>_. 0)(1 := v), bk_total = t,
     bk_stage = (\<lambda>_. Idle)(0 := x, 1 := y), bk_started = nat t, bk_events = es, bk_cleared = cl, bk_late = late,
     bk_stray = (\<lambda>_. 0)(1 := late)\<rparr>"

lemma bk_reach: "bucket_reach n m s \<Longrightarrow> bucket_step n m s s' \<Longrightarrow> s' = t \<Longrightarrow> bucket_reach n m t"
  using bk_more by blast

lemma late_event:
  "bucket_reach 2 2 (bk_at 3 None 2 2 Idle Idle [3] [3, 2, 1] 1)"
proof -
  note defs = bk_at_def to_stage_def fun_eq_iff add64_def wrap64_def frontier_def
  have "bucket_reach 2 2 (bk_at 0 None 0 1 (LoadLast 1) Idle [] [] 0)"
    by (rule bk_reach [OF bk_init inc_start [where i = 0 and a = 1]]) (simp_all add: defs bucket_start_def max_int64_def)
  then have "bucket_reach 2 2 (bk_at 0 None 0 2 (LoadLast 1) (LoadLast 3) [] [] 0)"
    by (rule bk_reach [OF _ inc_start [where i = 1 and a = 3]]) (simp_all add: defs max_int64_def)
  then have "bucket_reach 2 2 (bk_at 0 None 0 2 (WaitLock 1) (LoadLast 3) [] [] 0)"
    by (rule bk_reach [OF _ load_new [where i = 0 and a = 1]]) (simp_all add: defs)
  then have "bucket_reach 2 2 (bk_at 0 (Some 0) 0 2 (CheckLast 1) (LoadLast 3) [] [] 0)"
    by (rule bk_reach [OF _ lock [where i = 0 and a = 1]]) (simp_all add: defs)
  then have "bucket_reach 2 2 (bk_at 0 (Some 0) 0 2 (Clearing 1 1 2) (LoadLast 3) [] [] 0)"
    by (rule bk_reach [OF _ check_roll [where i = 0 and a = 1]]) (simp_all add: defs)
  then have "bucket_reach 2 2 (bk_at 0 (Some 0) 0 2 (Clearing 1 2 2) (LoadLast 3) [] [1] 0)"
    by (rule bk_reach [OF _ clear [where i = 0 and a = 1 and k = 1 and hi = 2]]) (simp_all add: defs)
  then have "bucket_reach 2 2 (bk_at 1 (Some 0) 0 2 (Unlocking 1 1) (LoadLast 3) [] [1] 0)"
    by (rule bk_reach [OF _ publish [where i = 0 and a = 1 and k = 2 and hi = 2]]) (simp_all add: defs)
  then have "bucket_reach 2 2 (bk_at 1 None 0 2 (Writing 1) (LoadLast 3) [] [1] 0)"
    by (rule bk_reach [OF _ unlock_write [where i = 0 and a = 1 and l = 1]]) (simp_all add: defs)
  then have "bucket_reach 2 2 (bk_at 1 None 0 2 (Writing 1) (WaitLock 3) [] [1] 0)"
    by (rule bk_reach [OF _ load_new [where i = 1 and a = 3]]) (simp_all add: defs)
  then have "bucket_reach 2 2 (bk_at 1 (Some 1) 0 2 (Writing 1) (CheckLast 3) [] [1] 0)"
    by (rule bk_reach [OF _ lock [where i = 1 and a = 3]]) (simp_all add: defs)
  then have "bucket_reach 2 2 (bk_at 1 (Some 1) 0 2 (Writing 1) (Clearing 3 2 3) [] [1] 0)"
    by (rule bk_reach [OF _ check_roll [where i = 1 and a = 3]]) (simp_all add: defs)
  then have "bucket_reach 2 2 (bk_at 1 (Some 1) 0 2 (Writing 1) (Clearing 3 3 3) [] [2, 1] 0)"
    by (rule bk_reach [OF _ clear [where i = 1 and a = 3 and k = 2 and hi = 3]]) (simp_all add: defs)
  then have "bucket_reach 2 2 (bk_at 1 (Some 1) 0 2 (Writing 1) (Clearing 3 4 3) [] [3, 2, 1] 0)"
    by (rule bk_reach [OF _ clear [where i = 1 and a = 3 and k = 3 and hi = 3]]) (simp_all add: defs)
  then have "bucket_reach 2 2 (bk_at 3 (Some 1) 0 2 (Writing 1) (Unlocking 3 3) [] [3, 2, 1] 0)"
    by (rule bk_reach [OF _ publish [where i = 1 and a = 3 and k = 4 and hi = 3]]) (simp_all add: defs)
  then have "bucket_reach 2 2 (bk_at 3 None 0 2 (Writing 1) (Writing 3) [] [3, 2, 1] 0)"
    by (rule bk_reach [OF _ unlock_write [where i = 1 and a = 3 and l = 3]]) (simp_all add: defs)
  then have "bucket_reach 2 2 (bk_at 3 None 1 2 (Writing 1) Idle [3] [3, 2, 1] 0)"
    by (rule bk_reach [OF _ write_timely [where i = 1 and a = 3]]) (simp_all add: defs)
  then show ?thesis
    by (rule bk_reach [OF _ write_late [where i = 0 and a = 1]]) (simp_all add: defs)
qed

theorem concurrent_events_are_counted_witness:
  "\<exists>stray \<le> 1. rc_sumBuckets (zero_RollingCounter\<lparr>rc_buckets := [0, 2]\<rparr>) =
    wrap64 (int (length (filter (in_window 2 3) [3]) + stray))"
proof -
  let ?s = "bk_at 3 None 2 2 Idle Idle [3] [3, 2, 1] 1"
  have "map (bk_slots ?s) [0..2 - 1] = [0, 2]" by (simp add: bk_at_def upto.simps)
  moreover have "bk_late ?s = 1" "bk_events ?s = [3]" "frontier ?s = 3" by (simp_all add: bk_at_def frontier_def)
  ultimately show ?thesis
    using concurrent_events_are_counted [OF late_event, of zero_RollingCounter] by simp
qed

end
