(* ===== verification/StreamRace.thy ===== *)
theory StreamRace
  imports MetricEventStream
begin

text \<open>
  \<^verbatim>\<open>ServeHTTP\<close>, \<^verbatim>\<open>Start\<close> and \<^verbatim>\<open>Close\<close> of \<^verbatim>\<open>metriceventstream.go\<close> on goroutines whose steps interleave: one for each request
  below \<open>n\<close>, the one goroutine that runs \<^verbatim>\<open>Start\<close>, and callers of \<^verbatim>\<open>Close\<close>. A section under the mutex, an access of a
  channel and a use of a \<^verbatim>\<open>sync.Once\<close> are one step each, and a select takes any of its ready cases.

  \<open>sr_chan\<close> has the channels, which outlive their entry in the map \<open>sr_listeners\<close>: a send that is under way goes on with
  the channels it has collected. \<open>sr_gone\<close> says that the context of a request is done. The last three fields only
  observe: what was written to a request, the events sent, and how many had been sent when the request was
  registered.
\<close>

datatype handler =
    HNew
  | HArrived
  | HHeaders
  | HSelect
  | HWriting string
  | HLeaving
  | HLeft

text \<open>The rests are the circuits not yet reported, and the channels an event has still to be offered to.\<close>

datatype starter =
    StartNew
  | StartSelect
  | StartTicked
  | StartCollect "nat list"
  | StartSnapshot string "nat list"
  | StartSending string "nat list" "nat list"
  | StartReturned

record stream_race =
  sr_once :: bool
  sr_closeOnce :: bool
  sr_closed :: bool
  sr_panicked :: bool
  sr_listeners :: "nat list"
  sr_chan :: "nat \<Rightarrow> string list"
  sr_handler :: "nat \<Rightarrow> handler"
  sr_start :: starter
  sr_gone :: "nat \<Rightarrow> bool"
  sr_wrote :: "nat \<Rightarrow> string list"
  sr_sent :: "string list"
  sr_since :: "nat \<Rightarrow> nat"

definition stream_start :: stream_race where
  "stream_start = \<lparr>sr_once = False, sr_closeOnce = False, sr_closed = False, sr_panicked = False, sr_listeners = [],
     sr_chan = (\<lambda>_. []), sr_handler = (\<lambda>_. HNew), sr_start = StartNew, sr_gone = (\<lambda>_. False), sr_wrote = (\<lambda>_. []),
     sr_sent = [], sr_since = (\<lambda>_. 0)\<rparr>"

text \<open>\<^verbatim>\<open>m.once.Do(m.doOnce)\<close>, and the function of \<^verbatim>\<open>closeOnce\<close>.\<close>

definition stream_once :: "stream_race \<Rightarrow> stream_race" where
  "stream_once s = (if sr_once s then s else s\<lparr>sr_once := True, sr_closed := False, sr_listeners := []\<rparr>)"

definition stream_close :: "stream_race \<Rightarrow> stream_race" where
  "stream_close s = (if sr_closeOnce s then s
     else if sr_closed s then s\<lparr>sr_closeOnce := True, sr_panicked := True\<rparr>
     else s\<lparr>sr_closeOnce := True, sr_closed := True\<rparr>)"

definition moves :: "nat \<Rightarrow> handler \<Rightarrow> stream_race \<Rightarrow> stream_race" where
  "moves i h s = s\<lparr>sr_handler := (sr_handler s)(i := h)\<rparr>"

definition registers :: "nat \<Rightarrow> stream_race \<Rightarrow> stream_race" where
  "registers i s = s\<lparr>sr_listeners := List.insert i (sr_listeners s), sr_chan := (sr_chan s)(i := []),
     sr_since := (sr_since s)(i := length (sr_sent s))\<rparr>"

inductive stream_step :: "(streamCmdMetric \<Rightarrow> string option) \<Rightarrow> nat \<Rightarrow> stream_race \<Rightarrow> stream_race \<Rightarrow> bool" for encode n where
  client_gone: "i < n \<Longrightarrow> stream_step encode n s (s\<lparr>sr_gone := (sr_gone s)(i := True)\<rparr>)"
| arrives: "i < n \<Longrightarrow> sr_handler s i = HNew \<Longrightarrow> stream_step encode n s (moves i HArrived (stream_once s))"
| no_flusher: "i < n \<Longrightarrow> sr_handler s i = HArrived \<Longrightarrow> stream_step encode n s (moves i HLeft s)"
| listens: "i < n \<Longrightarrow> sr_handler s i = HArrived \<Longrightarrow> stream_step encode n s (moves i HHeaders (registers i s))"
| headers_sent: "i < n \<Longrightarrow> sr_handler s i = HHeaders \<Longrightarrow> stream_step encode n s (moves i HSelect s)"
| sees_gone: "i < n \<Longrightarrow> sr_handler s i = HSelect \<Longrightarrow> sr_gone s i \<Longrightarrow> stream_step encode n s (moves i HLeaving s)"
| sees_closed: "i < n \<Longrightarrow> sr_handler s i = HSelect \<Longrightarrow> sr_closed s \<Longrightarrow> stream_step encode n s (moves i HLeaving s)"
| takes: "i < n \<Longrightarrow> sr_handler s i = HSelect \<Longrightarrow> sr_chan s i = e # ch \<Longrightarrow>
    stream_step encode n s (moves i (HWriting e) s\<lparr>sr_chan := (sr_chan s)(i := ch)\<rparr>)"
| writes: "i < n \<Longrightarrow> sr_handler s i = HWriting e \<Longrightarrow>
    stream_step encode n s (moves i HSelect s\<lparr>sr_wrote := (sr_wrote s)(i := sr_wrote s i @ [e])\<rparr>)"
| write_fails: "i < n \<Longrightarrow> sr_handler s i = HWriting e \<Longrightarrow> stream_step encode n s (moves i HLeaving s)"
| leaves: "i < n \<Longrightarrow> sr_handler s i = HLeaving \<Longrightarrow>
    stream_step encode n s (moves i HLeft s\<lparr>sr_listeners := removeAll i (sr_listeners s)\<rparr>)"
| starts: "sr_start s = StartNew \<Longrightarrow> stream_step encode n s (stream_once s\<lparr>sr_start := StartSelect\<rparr>)"
| start_returns: "sr_start s = StartSelect \<Longrightarrow> sr_closed s \<Longrightarrow> stream_step encode n s (s\<lparr>sr_start := StartReturned\<rparr>)"
| ticks: "sr_start s = StartSelect \<Longrightarrow> stream_step encode n s (s\<lparr>sr_start := StartTicked\<rparr>)"
| counts: "sr_start s = StartTicked \<Longrightarrow>
    stream_step encode n s (s\<lparr>sr_start := (if length (sr_listeners s) = 0 then StartSelect else StartCollect circuits)\<rparr>)"
| collected: "sr_start s = StartCollect (p # ps) \<Longrightarrow> stream_step encode n s (s\<lparr>sr_start :=
    (case event_bytes encode metric of None \<Rightarrow> StartCollect ps | Some b \<Rightarrow> StartSnapshot b ps)\<rparr>)"
| all_collected: "sr_start s = StartCollect [] \<Longrightarrow> stream_step encode n s (s\<lparr>sr_start := StartSelect\<rparr>)"
| snapshot: "sr_start s = StartSnapshot b ps \<Longrightarrow> mset rs = mset (sr_listeners s) \<Longrightarrow>
    stream_step encode n s (s\<lparr>sr_start := StartSending b rs ps, sr_sent := sr_sent s @ [b]\<rparr>)"
| offers: "sr_start s = StartSending b (r # rs) ps \<Longrightarrow>
    stream_step encode n s (s\<lparr>sr_start := StartSending b rs ps, sr_chan := (sr_chan s)(r := offer b (sr_chan s r))\<rparr>)"
| offered: "sr_start s = StartSending b [] ps \<Longrightarrow> stream_step encode n s (s\<lparr>sr_start := StartCollect ps\<rparr>)"
| closes: "stream_step encode n s (stream_close (stream_once s))"

inductive stream_reach :: "(streamCmdMetric \<Rightarrow> string option) \<Rightarrow> nat \<Rightarrow> stream_race \<Rightarrow> bool" for encode n where
  st_init: "stream_reach encode n stream_start"
| st_more: "stream_reach encode n s \<Longrightarrow> stream_step encode n s s' \<Longrightarrow> stream_reach encode n s'"

subsection \<open>The invariants\<close>

fun listening :: "handler \<Rightarrow> bool" where
  "listening HHeaders = True"
| "listening HSelect = True"
| "listening (HWriting e) = True"
| "listening HLeaving = True"
| "listening _ = False"

fun healthy :: "handler \<Rightarrow> bool" where
  "healthy HHeaders = True"
| "healthy HSelect = True"
| "healthy (HWriting e) = True"
| "healthy _ = False"

fun outside :: "handler \<Rightarrow> bool" where
  "outside HNew = True"
| "outside HArrived = True"
| "outside _ = False"

text \<open>An event a handler has taken and not yet written, and the one still to be offered to a channel.\<close>

fun in_hand :: "handler \<Rightarrow> string list" where
  "in_hand (HWriting e) = [e]"
| "in_hand _ = []"

fun targets :: "starter \<Rightarrow> nat list" where
  "targets (StartSending b rs ps) = rs"
| "targets _ = []"

fun on_the_way :: "nat \<Rightarrow> starter \<Rightarrow> string list" where
  "on_the_way i (StartSending b rs ps) = (if i \<in> set rs then [b] else [])"
| "on_the_way i _ = []"

lemma outside_not_listening: "outside h \<Longrightarrow> \<not> listening h"
  by (cases h) simp_all

lemma on_the_way_target: "i \<notin> set (targets st) \<Longrightarrow> on_the_way i st = []"
  by (cases st) simp_all

text \<open>Closing happens once, and the map and the channel are made before anything else.\<close>

definition once_inv :: "stream_race \<Rightarrow> bool" where
  "once_inv s \<longleftrightarrow> \<not> sr_panicked s \<and> sr_closed s = sr_closeOnce s \<and> (sr_closed s \<longrightarrow> sr_once s) \<and>
     (\<not> sr_once s \<longrightarrow> sr_listeners s = [] \<and> sr_start s = StartNew \<and> (\<forall>i. sr_handler s i = HNew))"

text \<open>The map has the handlers that listen.\<close>

definition map_inv :: "nat \<Rightarrow> stream_race \<Rightarrow> bool" where
  "map_inv n s \<longleftrightarrow> distinct (sr_listeners s) \<and> (\<forall>i. i \<in> set (sr_listeners s) \<longleftrightarrow> listening (sr_handler s i)) \<and>
     (\<forall>i. i \<ge> n \<longrightarrow> sr_handler s i = HNew) \<and> distinct (targets (sr_start s)) \<and>
     (\<forall>i. outside (sr_handler s i) \<longrightarrow> i \<notin> set (targets (sr_start s)) \<and> sr_wrote s i = [] \<and> sr_chan s i = [])"

text \<open>Every event sent since a request listens is written, in hand, in the channel or on the way, or was dropped.\<close>

definition heard_or_coming :: "nat \<Rightarrow> stream_race \<Rightarrow> string list" where
  "heard_or_coming i s = sr_wrote s i @ in_hand (sr_handler s i) @ sr_chan s i @ on_the_way i (sr_start s)"

definition news :: "nat \<Rightarrow> stream_race \<Rightarrow> string list" where
  "news i s = drop (sr_since s i) (sr_sent s)"

definition hears :: "nat \<Rightarrow> stream_race \<Rightarrow> bool" where
  "hears i s \<longleftrightarrow> sr_since s i \<le> length (sr_sent s) \<and> length (sr_chan s i) \<le> stream_capacity \<and>
     subseq (heard_or_coming i s) (news i s) \<and>
     (healthy (sr_handler s i) \<and> length (news i s) \<le> stream_capacity \<longrightarrow> heard_or_coming i s = news i s)"

lemma once_inv_step:
  assumes "once_inv s" "stream_step encode n s s'"
  shows "once_inv s'"
  using assms(2,1) by (cases rule: stream_step.cases) (auto simp: once_inv_def stream_once_def stream_close_def moves_def registers_def)

lemma stream_once_same: "once_inv s \<Longrightarrow> sr_listeners (stream_once s) = sr_listeners s"
    "sr_handler (stream_once s) = sr_handler s" "sr_start (stream_once s) = sr_start s" "sr_chan (stream_once s) = sr_chan s"
    "sr_wrote (stream_once s) = sr_wrote s" "sr_sent (stream_once s) = sr_sent s" "sr_since (stream_once s) = sr_since s"
    "sr_gone (stream_once s) = sr_gone s"
  by (auto simp: stream_once_def once_inv_def)

lemma stream_close_same: "sr_listeners (stream_close s) = sr_listeners s"
    "sr_handler (stream_close s) = sr_handler s" "sr_start (stream_close s) = sr_start s" "sr_chan (stream_close s) = sr_chan s"
    "sr_wrote (stream_close s) = sr_wrote s" "sr_sent (stream_close s) = sr_sent s" "sr_since (stream_close s) = sr_since s"
    "sr_gone (stream_close s) = sr_gone s"
  by (auto simp: stream_close_def)

lemmas stream_same = stream_once_same stream_close_same moves_def registers_def

lemma map_inv_step:
  assumes "once_inv s" "map_inv n s" "stream_step encode n s s'"
  shows "map_inv n s'"
  using assms(3)
proof (cases rule: stream_step.cases)
  case (snapshot b ps rs)
  have "distinct rs" "set rs = set (sr_listeners s)"
    using snapshot(3) assms(2) mset_eq_imp_distinct_iff [OF snapshot(3)] mset_eq_setD [OF snapshot(3)] by (simp_all add: map_inv_def)
  then show ?thesis using snapshot(1) assms(2) outside_not_listening by (auto simp: map_inv_def)
qed (use assms(1,2) in \<open>auto simp: map_inv_def stream_same distinct_removeAll split: option.splits if_splits\<close>)

lemma hears_keeps:
  assumes "hears i s" "sr_since s' i = sr_since s i" "sr_sent s' = sr_sent s" "length (sr_chan s' i) \<le> stream_capacity"
    and "heard_or_coming i s' = heard_or_coming i s" "healthy (sr_handler s' i) \<Longrightarrow> healthy (sr_handler s i)"
  shows "hears i s'"
  using assms by (auto simp: hears_def news_def)

lemma hears_step:
  assumes inv: "once_inv s" "map_inv n s" and i: "hears i s" and step: "stream_step encode n s s'"
  shows "hears i s'"
proof -
  have len: "length (sr_chan s i) \<le> stream_capacity" using i by (simp add: hears_def)
  show ?thesis
    using step
  proof (cases rule: stream_step.cases)
    case (listens j)
    show ?thesis
    proof (cases "j = i")
      case True
      have "sr_wrote s i = []" "i \<notin> set (targets (sr_start s))" using inv(2) listens(3) True by (auto simp: map_inv_def)
      then show ?thesis using listens(1) True on_the_way_target by (simp add: hears_def heard_or_coming_def news_def stream_same)
    qed (use i listens in \<open>simp add: hears_def heard_or_coming_def news_def stream_same\<close>)
  next
    case (write_fails j e)
    have "subseq (sr_wrote s i @ sr_chan s i @ on_the_way i (sr_start s)) (sr_wrote s i @ e # sr_chan s i @ on_the_way i (sr_start s))"
      by (intro list_emb_append_mono) auto
    then show ?thesis
      using i write_fails by (cases "j = i") (auto simp: hears_def heard_or_coming_def news_def stream_same intro: subseq_order.trans)
  next
    case (snapshot b ps rs)
    have rs: "set rs = set (sr_listeners s)" using mset_eq_setD [OF snapshot(3)] .
    have "healthy (sr_handler s i) \<Longrightarrow> i \<in> set rs"
      using inv(2) rs by (cases "sr_handler s i") (auto simp: map_inv_def)
    moreover have "news i s' = news i s @ [b]" using i snapshot(1) by (simp add: news_def hears_def)
    moreover have "heard_or_coming i s' = heard_or_coming i s @ (if i \<in> set rs then [b] else [])"
      using snapshot(1,2) by (simp add: heard_or_coming_def)
    ultimately show ?thesis
      using i snapshot(1) by (auto simp: hears_def intro: list_emb_append_mono subseq_order.trans [OF _ subseq_rev_drop_many])
  next
    case (offers b r rs ps)
    show ?thesis
    proof (cases "i = r")
      case True
      have d: "r \<notin> set rs" using inv(2) offers(2) by (simp add: map_inv_def)
      show ?thesis
      proof (cases "length (sr_chan s r) < stream_capacity")
        case True
        then show ?thesis using i \<open>i = r\<close> offers d
          by (intro hears_keeps [OF i]) (auto simp: heard_or_coming_def offer_def)
      next
        case False
        let ?h = "sr_wrote s i @ in_hand (sr_handler s i) @ sr_chan s i"
        have h: "heard_or_coming i s = ?h @ [b]" "heard_or_coming i s' = ?h" "sr_chan s' = sr_chan s" "news i s' = news i s"
          using \<open>i = r\<close> offers d False by (auto simp: heard_or_coming_def offer_def news_def)
        have "subseq ?h (heard_or_coming i s)" unfolding h(1) by (rule prefix_imp_subseq) simp
        then have "subseq ?h (news i s)" using i subseq_order.trans by (metis hears_def)
        moreover have "\<not> (healthy (sr_handler s i) \<and> length (news i s) \<le> stream_capacity)"
        proof
          assume "healthy (sr_handler s i) \<and> length (news i s) \<le> stream_capacity"
          then have "length (heard_or_coming i s) \<le> stream_capacity" using i by (simp add: hears_def)
          then show False using h(1) False \<open>i = r\<close> by simp
        qed
        ultimately show ?thesis using i h offers(1) by (auto simp: hears_def news_def)
      qed
    qed (use i offers in \<open>auto intro!: hears_keeps [OF i] simp: heard_or_coming_def hears_def [of i s]\<close>)
  next
    case (takes j e ch)
    then show ?thesis using i
      by (cases "j = i"; intro hears_keeps [OF i]; simp add: heard_or_coming_def stream_same hears_def)
  qed (use inv len in \<open>auto intro!: hears_keeps [OF i] simp: heard_or_coming_def stream_same split: option.splits if_splits\<close>)
qed

definition stream_inv :: "nat \<Rightarrow> stream_race \<Rightarrow> bool" where
  "stream_inv n s \<longleftrightarrow> once_inv s \<and> map_inv n s \<and> (\<forall>i. hears i s)"

lemma stream_reach_inv: "stream_reach encode n s \<Longrightarrow> stream_inv n s"
proof (induction rule: stream_reach.induct)
  case st_init
  then show ?case
    by (simp add: stream_inv_def once_inv_def map_inv_def hears_def heard_or_coming_def news_def stream_start_def)
next
  case (st_more s s')
  then show ?case
    using once_inv_step map_inv_step hears_step unfolding stream_inv_def by blast
qed

subsection \<open>Shutting down\<close>

text \<open>The steps a handler has left once \<^verbatim>\<open>Start\<close> has returned, with the events it may still write.\<close>

fun handler_work :: "handler \<Rightarrow> nat" where
  "handler_work HNew = 5"
| "handler_work HArrived = 4"
| "handler_work HHeaders = 3"
| "handler_work HSelect = 2"
| "handler_work (HWriting e) = 3"
| "handler_work HLeaving = 1"
| "handler_work HLeft = 0"

definition request_work :: "stream_race \<Rightarrow> nat \<Rightarrow> nat" where
  "request_work s i = handler_work (sr_handler s i) + 2 * length (sr_chan s i) + (if sr_gone s i then 0 else 1)"

definition stream_work :: "nat \<Rightarrow> stream_race \<Rightarrow> nat" where
  "stream_work n s = (\<Sum>i<n. request_work s i)"

lemma stream_work_less:
  assumes "i < n" "request_work s' i < request_work s i" "\<And>j. j \<noteq> i \<Longrightarrow> request_work s' j = request_work s j"
  shows "stream_work n s' < stream_work n s"
  unfolding stream_work_def
proof (rule sum_strict_mono_ex1)
  show "\<forall>j\<in>{..<n}. request_work s' j \<le> request_work s j" using assms(2,3) by (metis le_eq_less_or_eq)
qed (use assms(1,2) in auto)

definition shutting_down :: "stream_race \<Rightarrow> bool" where
  "shutting_down s \<longleftrightarrow> sr_closed s \<and> sr_start s = StartReturned"

lemma shutting_down_step:
  assumes "once_inv s" "shutting_down s" "stream_step encode n s s'"
  shows "shutting_down s' \<and> (s' = s \<or> stream_work n s' < stream_work n s)"
  using assms(3)
proof (cases rule: stream_step.cases)
  case (client_gone i)
  show ?thesis
  proof (cases "sr_gone s i")
    case True
    then have "s' = s" using client_gone(1) by (simp add: fun_upd_idem)
    then show ?thesis using assms(2) by simp
  next
    case False
    then show ?thesis using client_gone assms(2)
      by (auto simp: shutting_down_def request_work_def intro!: stream_work_less [of i])
  qed
next
  case (listens i)
  then show ?thesis using assms(2)
    by (auto simp: shutting_down_def request_work_def stream_same intro!: stream_work_less [of i])
qed (use assms(1,2) in \<open>auto simp: shutting_down_def request_work_def stream_same once_inv_def stream_once_def stream_close_def
  intro!: stream_work_less\<close>)

text \<open>Handlers that can take no step have left.\<close>

lemma handler_moves:
  assumes "i < n" "sr_closed s" "sr_handler s i \<noteq> HLeft"
  shows "\<exists>s'. stream_step encode n s s' \<and> s' \<noteq> s"
proof -
  have via: ?thesis if "stream_step encode n s s'" "sr_handler s' i \<noteq> sr_handler s i" for s' using that by auto
  show ?thesis
  proof (cases "sr_handler s i")
    case HNew
    then show ?thesis using via [OF arrives [OF assms(1) HNew]] by (simp add: moves_def)
  next
    case HArrived
    then show ?thesis using via [OF no_flusher [OF assms(1) HArrived]] by (simp add: moves_def)
  next
    case HHeaders
    then show ?thesis using via [OF headers_sent [OF assms(1) HHeaders]] by (simp add: moves_def)
  next
    case HSelect
    then show ?thesis using via [OF sees_closed [OF assms(1) HSelect assms(2)]] by (simp add: moves_def)
  next
    case (HWriting e)
    then show ?thesis using via [OF write_fails [OF assms(1) HWriting]] by (simp add: moves_def)
  next
    case HLeaving
    then show ?thesis using via [OF leaves [OF assms(1) HLeaving]] by (simp add: moves_def)
  qed (use assms(3) in simp)
qed

text \<open>\<^verbatim>\<open>Start\<close> on its own: it never waits for a handler.\<close>

abbreviation stream_steps where
  "stream_steps encode n \<equiv> (stream_step encode n)\<^sup>*\<^sup>*"

lemmas another_step = converse_rtranclp_into_rtranclp [of "stream_step encode n" for encode n]

definition returns_from :: "(streamCmdMetric \<Rightarrow> string option) \<Rightarrow> nat \<Rightarrow> stream_race \<Rightarrow> bool" where
  "returns_from encode n s \<longleftrightarrow> (\<exists>s'. stream_steps encode n s s' \<and> sr_start s' = StartReturned \<and> sr_handler s' = sr_handler s)"

lemma returns_from_step:
  assumes "stream_step encode n s s'" "sr_handler s' = sr_handler s" "returns_from encode n s'"
  shows "returns_from encode n s"
  using assms another_step by (fastforce simp: returns_from_def)

lemma select_returns: "sr_start s = StartSelect \<Longrightarrow> sr_closed s \<Longrightarrow> returns_from encode n s"
  by (rule returns_from_step [OF start_returns]) (auto simp: returns_from_def)

lemma sending_returns:
  assumes "\<And>s. sr_start s = StartCollect ps \<Longrightarrow> sr_closed s \<Longrightarrow> returns_from encode n s"
  shows "sr_start s = StartSending b rs ps \<Longrightarrow> sr_closed s \<Longrightarrow> returns_from encode n s"
proof (induction rs arbitrary: s)
  case Nil
  show ?case by (rule returns_from_step [OF offered [OF Nil(1)]]) (use assms Nil(2) in simp_all)
next
  case (Cons r rs)
  show ?case by (rule returns_from_step [OF offers [OF Cons.prems(1)]]) (use Cons in simp_all)
qed

lemma snapshot_returns:
  assumes "\<And>s. sr_start s = StartCollect ps \<Longrightarrow> sr_closed s \<Longrightarrow> returns_from encode n s"
  shows "sr_start s = StartSnapshot b ps \<Longrightarrow> sr_closed s \<Longrightarrow> returns_from encode n s"
  by (rule returns_from_step [OF snapshot [OF _ refl]]) (use sending_returns [OF assms] in auto)

lemma collect_returns: "sr_start s = StartCollect ps \<Longrightarrow> sr_closed s \<Longrightarrow> returns_from encode n s"
proof (induction ps arbitrary: s)
  case Nil
  show ?case by (rule returns_from_step [OF all_collected [OF Nil(1)]]) (use Nil(2) select_returns in simp_all)
next
  case (Cons p ps)
  show ?case
    by (rule returns_from_step [OF collected [OF Cons.prems(1)]])
      (use Cons.prems(2) snapshot_returns [OF Cons.IH] in \<open>auto intro: Cons.IH split: option.split\<close>)
qed

lemma start_comes_back:
  assumes "once_inv s" "sr_closed s"
  shows "returns_from encode n s"
proof (cases "sr_start s")
  case StartNew
  show ?thesis
    by (rule returns_from_step [OF starts [OF StartNew]])
      (use assms select_returns in \<open>auto simp: stream_once_def once_inv_def\<close>)
next
  case StartTicked
  show ?thesis
    by (rule returns_from_step [OF counts [OF StartTicked, where circuits = "[]"]])
      (use assms(2) select_returns collect_returns in auto)
qed (use assms(2) select_returns collect_returns snapshot_returns [OF collect_returns] sending_returns [OF collect_returns]
  in \<open>auto simp: returns_from_def\<close>)

text \<open>One request that listens, from its arrival to the first event it is sent.\<close>

definition stream_at :: "bool \<Rightarrow> string list \<Rightarrow> handler \<Rightarrow> starter \<Rightarrow> string list \<Rightarrow> string list \<Rightarrow> stream_race" where
  "stream_at cl ch h st wrote evs = \<lparr>sr_once = True, sr_closeOnce = cl, sr_closed = cl, sr_panicked = False,
     sr_listeners = [0], sr_chan = (\<lambda>_. [])(0 := ch), sr_handler = (\<lambda>_. HNew)(0 := h), sr_start = st, sr_gone = (\<lambda>_. False),
     sr_wrote = (\<lambda>_. [])(0 := wrote), sr_sent = evs, sr_since = (\<lambda>_. 0)\<rparr>"

lemma stream_next: "stream_reach encode n s \<Longrightarrow> stream_step encode n s t \<Longrightarrow> t = s' \<Longrightarrow> stream_reach encode n s'"
  using st_more by blast

lemma example_stream:
  fixes encode :: "streamCmdMetric \<Rightarrow> string option"
  assumes "encode = (\<lambda>_. Some ''x'')"
  shows "stream_reach encode 1 (stream_at False [] HSelect (StartCollect [3]) [] [])"
    and "stream_reach encode 1 (stream_at True [] HSelect (StartCollect [3]) [] [])"
    and "stream_reach encode 1 (stream_at False [] HSelect (StartCollect []) [''data:x\<newline>''] [''data:x\<newline>''])"
proof -
  note simps = stream_start_def stream_at_def stream_once_def stream_close_def moves_def registers_def fun_upd_twist
  have a: "stream_reach encode 1 (moves 0 HArrived (stream_once stream_start))"
    by (rule stream_next [OF st_init arrives]) (auto simp: simps)
  have b: "stream_reach encode 1 (stream_at False [] HHeaders StartNew [] [])"
    by (rule stream_next [OF a listens]) (auto simp: simps fun_eq_iff)
  have c: "stream_reach encode 1 (stream_at False [] HSelect StartNew [] [])"
    by (rule stream_next [OF b headers_sent]) (auto simp: simps)
  have d: "stream_reach encode 1 (stream_at False [] HSelect StartSelect [] [])"
    by (rule stream_next [OF c starts]) (auto simp: simps)
  have e: "stream_reach encode 1 (stream_at False [] HSelect StartTicked [] [])"
    by (rule stream_next [OF d ticks]) (auto simp: simps)
  show f: "stream_reach encode 1 (stream_at False [] HSelect (StartCollect [3]) [] [])"
    by (rule stream_next [OF e counts [where circuits = "[3]"]]) (auto simp: simps)
  show "stream_reach encode 1 (stream_at True [] HSelect (StartCollect [3]) [] [])"
    by (rule stream_next [OF f closes]) (auto simp: simps)
  have g: "stream_reach encode 1 (stream_at False [] HSelect (StartSnapshot ''data:x\<newline>'' []) [] [])"
    by (rule stream_next [OF f collected]) (auto simp: simps assms event_bytes_def)
  have h: "stream_reach encode 1 (stream_at False [] HSelect (StartSending ''data:x\<newline>'' [0] []) [] [''data:x\<newline>''])"
    by (rule stream_next [OF g snapshot [where rs = "[0]"]]) (auto simp: simps)
  have k: "stream_reach encode 1 (stream_at False [''data:x\<newline>''] HSelect (StartSending ''data:x\<newline>'' [] []) [] [''data:x\<newline>''])"
    by (rule stream_next [OF h offers]) (auto simp: simps offer_def stream_capacity_def)
  have l: "stream_reach encode 1 (stream_at False [''data:x\<newline>''] HSelect (StartCollect []) [] [''data:x\<newline>''])"
    by (rule stream_next [OF k offered]) (auto simp: simps)
  have m: "stream_reach encode 1 (stream_at False [] (HWriting ''data:x\<newline>'') (StartCollect []) [] [''data:x\<newline>''])"
    by (rule stream_next [OF l takes]) (auto simp: simps)
  show "stream_reach encode 1 (stream_at False [] HSelect (StartCollect []) [''data:x\<newline>''] [''data:x\<newline>''])"
    by (rule stream_next [OF m writes]) (auto simp: simps)
qed

subsection \<open>Properties\<close>

text \<open>C26: In every interleaving of requests, ticks and closings: \<^verbatim>\<open>Close\<close> never closes the channel twice; the map has exactly the
  requests that are being served; what a request is sent are events of the ticks after it was registered, in order,
  each at most once, with at most 1024 waiting; and as long as its writer works and no more than 1024 events
  were sent since, none was lost: each is written, in hand, in its channel, or about to be put there.\<close>

theorem streams_hear_in_order:
  assumes "stream_reach encode n s"
  shows "\<not> sr_panicked s \<and> distinct (sr_listeners s) \<and>
    (\<forall>i. (i \<in> set (sr_listeners s)) = listening (sr_handler s i)) \<and>
    (\<forall>i. subseq (heard_or_coming i s) (drop (sr_since s i) (sr_sent s)) \<and> length (sr_chan s i) \<le> stream_capacity \<and>
      (healthy (sr_handler s i) \<and> length (sr_sent s) - sr_since s i \<le> stream_capacity \<longrightarrow>
        heard_or_coming i s = drop (sr_since s i) (sr_sent s)))"
  using stream_reach_inv [OF assms] by (auto simp: stream_inv_def once_inv_def map_inv_def hears_def news_def)

theorem streams_hear_in_order_witness:
  "\<exists>s. stream_reach (\<lambda>_. Some ''x'') 1 s \<and> sr_wrote s 0 = [''data:x\<newline>''] \<and> \<not> sr_panicked s \<and>
    heard_or_coming 0 s = drop (sr_since s 0) (sr_sent s)"
proof -
  let ?s = "stream_at False [] HSelect (StartCollect []) [''data:x\<newline>''] [''data:x\<newline>'']"
  have "stream_reach (\<lambda>_. Some ''x'') 1 ?s" by (rule example_stream) simp
  moreover have "sr_wrote ?s 0 = [''data:x\<newline>'']" "healthy (sr_handler ?s 0)" "length (sr_sent ?s) - sr_since ?s 0 \<le> stream_capacity"
    by (simp_all add: stream_at_def stream_capacity_def)
  ultimately show ?thesis using streams_hear_in_order by blast
qed

text \<open>C27: The stream shuts down. After \<^verbatim>\<open>Close\<close>, \<^verbatim>\<open>Start\<close> can return from wherever it is without waiting for any request,
  and once it has returned the requests come to an end: whatever steps are taken, each makes the work left
  smaller or changes nothing, and when no step changes anything every request has been answered and
  removed from the map.\<close>

theorem stream_shuts_down:
  assumes "stream_reach encode n s" "sr_closed s"
  shows "(\<exists>s'. stream_steps encode n s s' \<and> sr_start s' = StartReturned \<and> sr_handler s' = sr_handler s) \<and>
    (sr_start s = StartReturned \<longrightarrow>
      (\<forall>s'. stream_step encode n s s' \<longrightarrow> sr_closed s' \<and> sr_start s' = StartReturned \<and> (s' = s \<or> stream_work n s' < stream_work n s)) \<and>
      ((\<forall>s'. stream_step encode n s s' \<longrightarrow> s' = s) \<longrightarrow> (\<forall>i<n. sr_handler s i = HLeft) \<and> sr_listeners s = []))"
proof -
  have inv: "once_inv s" "map_inv n s" using stream_reach_inv [OF assms(1)] by (simp_all add: stream_inv_def)
  have "(\<forall>i<n. sr_handler s i = HLeft) \<and> sr_listeners s = []" if stuck: "\<forall>s'. stream_step encode n s s' \<longrightarrow> s' = s"
  proof -
    have gone: "\<forall>i<n. sr_handler s i = HLeft" using handler_moves [OF _ assms(2)] stuck by blast
    have "\<not> listening (sr_handler s i)" for i
      using gone inv(2) by (cases "i < n") (simp_all add: map_inv_def)
    then have "set (sr_listeners s) = {}" using inv(2) by (auto simp: map_inv_def)
    then show ?thesis using gone by simp
  qed
  then show ?thesis
    using start_comes_back [OF inv(1) assms(2)] shutting_down_step [OF inv(1)] assms(2)
    unfolding returns_from_def shutting_down_def by blast
qed

theorem stream_shuts_down_witness:
  "\<exists>s. stream_reach (\<lambda>_. Some ''x'') 1 s \<and> sr_closed s \<and> sr_start s = StartCollect [3] \<and>
    (\<exists>s'. stream_steps (\<lambda>_. Some ''x'') 1 s s' \<and> sr_start s' = StartReturned \<and> sr_handler s' = sr_handler s)"
proof -
  let ?s = "stream_at True [] HSelect (StartCollect [3]) [] []"
  have "stream_reach (\<lambda>_. Some ''x'') 1 ?s" by (rule example_stream) simp
  moreover have "sr_closed ?s" "sr_start ?s = StartCollect [3]" by (simp_all add: stream_at_def)
  ultimately show ?thesis using stream_shuts_down by blast
qed

end
