(* ===== verification/TimedCheckRace.thy ===== *)
theory TimedCheckRace
  imports TimedCheck
begin

text \<open>
  \<^verbatim>\<open>faststats/timedcheck.go\<close> on goroutines whose steps interleave with each other, with the timers and with changes of the
  configuration. The fields under the mutex are read and written in the steps that hold it; every atomic load,
  store and addition is a step of its own, and so is a section under the read lock. A callback that runs is two
  steps, as it compares the version before it clears \<^verbatim>\<open>isFastFail\<close>: a new sleep may begin in between.

  The configuration may change at any time within bounds: \<open>K\<close> is the largest number of events to allow, \<open>D\<close> the shortest
  sleep. The log, newest first, has the events granted and the windows started, in the order of the lock.
\<close>

datatype check_stage =
    Idle
  | CkRead gotime
  | CkLock gotime
  | CkCounted gotime
  | Resets gotime
  | RsFlag duration
  | RsVersion duration
  | RsTimer int64 duration

datatype check_event = LGrant gotime | LReset gotime duration

record check_race =
  tr_check :: TimedCheck
  tr_mu :: "nat option"
  tr_stage :: "nat \<Rightarrow> check_stage"
  tr_fired :: "int64 list"
  tr_matched :: nat
  tr_log :: "check_event list"

definition check_start :: "TimedCheck \<Rightarrow> check_race" where
  "check_start c = \<lparr>tr_check = c, tr_mu = None, tr_stage = (\<lambda>_. Idle), tr_fired = [], tr_matched = 0, tr_log = []\<rparr>"

definition at_stage :: "nat \<Rightarrow> check_stage \<Rightarrow> check_race \<Rightarrow> check_race" where
  "at_stage i st s = s\<lparr>tr_stage := (tr_stage s)(i := st)\<rparr>"

definition on_check :: "(TimedCheck \<Rightarrow> TimedCheck) \<Rightarrow> check_race \<Rightarrow> check_race" where
  "on_check f s = s\<lparr>tr_check := f (tr_check s)\<rparr>"

definition logs :: "check_event \<Rightarrow> check_race \<Rightarrow> check_race" where
  "logs e s = s\<lparr>tr_log := e # tr_log s\<rparr>"

text \<open>The parts of \<^verbatim>\<open>resetOpenTimeWithLock\<close> between its atomic accesses.\<close>

definition reset_open :: "gotime \<Rightarrow> TimedCheck \<Rightarrow> TimedCheck" where
  "reset_open now c = (let c = tc_stopTimer c in
     c\<lparr>tc_nextOpenTime := time_Add now (tc_sleepDuration c), tc_currentlyAllowedEventCount := 0\<rparr>)"

definition reset_timer :: "int64 \<Rightarrow> duration \<Rightarrow> TimedCheck \<Rightarrow> TimedCheck" where
  "reset_timer v d c = (let c = (if af_immediate (tc_afterFunc c) d then tc_callback v c
     else c\<lparr>tc_armed := tc_armed c @ [v]\<rparr>) in c\<lparr>tc_lastSetTimer := Some v\<rparr>)"

inductive check_step :: "nat \<Rightarrow> int64 \<Rightarrow> duration \<Rightarrow> check_race \<Rightarrow> check_race \<Rightarrow> bool" for n K D where
  fast_fails: "i < n \<Longrightarrow> tr_stage s i = Idle \<Longrightarrow> tc_isFastFail (tr_check s) \<Longrightarrow> check_step n K D s s"
| no_fast_fail: "i < n \<Longrightarrow> tr_stage s i = Idle \<Longrightarrow> \<not> tc_isFastFail (tr_check s) \<Longrightarrow> check_step n K D s (at_stage i (CkRead now) s)"
| too_early: "i < n \<Longrightarrow> tr_stage s i = CkRead now \<Longrightarrow> tr_mu s = None \<Longrightarrow> time_After (tc_nextOpenTime (tr_check s)) now \<Longrightarrow>
    check_step n K D s (at_stage i Idle s)"
| late_enough: "i < n \<Longrightarrow> tr_stage s i = CkRead now \<Longrightarrow> tr_mu s = None \<Longrightarrow> \<not> time_After (tc_nextOpenTime (tr_check s)) now \<Longrightarrow>
    check_step n K D s (at_stage i (CkLock now) s)"
| locked_early: "i < n \<Longrightarrow> tr_stage s i = CkLock now \<Longrightarrow> tr_mu s = None \<Longrightarrow> time_After (tc_nextOpenTime (tr_check s)) now \<Longrightarrow>
    check_step n K D s (at_stage i Idle s)"
| locked_grants: "i < n \<Longrightarrow> tr_stage s i = CkLock now \<Longrightarrow> tr_mu s = None \<Longrightarrow> \<not> time_After (tc_nextOpenTime (tr_check s)) now \<Longrightarrow>
    check_step n K D s (logs (LGrant now) (at_stage i (CkCounted now) (on_check
      (\<lambda>c. c\<lparr>tc_currentlyAllowedEventCount := add64 (tc_currentlyAllowedEventCount c) 1\<rparr>) (s\<lparr>tr_mu := Some i\<rparr>))))"
| below_count: "i < n \<Longrightarrow> tr_stage s i = CkCounted now \<Longrightarrow>
    \<not> tc_currentlyAllowedEventCount (tr_check s) \<ge> tc_eventCountToAllow (tr_check s) \<Longrightarrow>
    check_step n K D s (at_stage i Idle (s\<lparr>tr_mu := None\<rparr>))"
| reaches_count: "i < n \<Longrightarrow> tr_stage s i = CkCounted now \<Longrightarrow>
    tc_currentlyAllowedEventCount (tr_check s) \<ge> tc_eventCountToAllow (tr_check s) \<Longrightarrow>
    check_step n K D s (at_stage i (Resets now) s)"
| sleep_start: "i < n \<Longrightarrow> tr_stage s i = Idle \<Longrightarrow> tr_mu s = None \<Longrightarrow>
    check_step n K D s (at_stage i (Resets now) (s\<lparr>tr_mu := Some i\<rparr>))"
| reset_opens: "i < n \<Longrightarrow> tr_stage s i = Resets now \<Longrightarrow>
    check_step n K D s (logs (LReset now (tc_sleepDuration (tr_check s))) (at_stage i (RsFlag (tc_sleepDuration (tr_check s))) (on_check (reset_open now) s)))"
| reset_flags: "i < n \<Longrightarrow> tr_stage s i = RsFlag d \<Longrightarrow>
    check_step n K D s (at_stage i (RsVersion d) (on_check (\<lambda>c. c\<lparr>tc_isFastFail := True\<rparr>) s))"
| reset_counts: "i < n \<Longrightarrow> tr_stage s i = RsVersion d \<Longrightarrow> v = add64 (tc_isFailFastVersion (tr_check s)) 1 \<Longrightarrow>
    check_step n K D s (at_stage i (RsTimer v d) (on_check (\<lambda>c. c\<lparr>tc_isFailFastVersion := v\<rparr>) s))"
| reset_arms: "i < n \<Longrightarrow> tr_stage s i = RsTimer v d \<Longrightarrow>
    check_step n K D s (at_stage i Idle (on_check (reset_timer v d) (s\<lparr>tr_mu := None\<rparr>)))"
| timer_fires: "v \<in> set (tc_armed (tr_check s)) \<Longrightarrow>
    check_step n K D s (on_check (\<lambda>c. c\<lparr>tc_armed := remove1 v (tc_armed c)\<rparr>) s\<lparr>tr_fired := v # tr_fired s\<rparr>)"
| callback_matches: "v \<in> set (tr_fired s) \<Longrightarrow> v = tc_isFailFastVersion (tr_check s) \<Longrightarrow>
    check_step n K D s (s\<lparr>tr_fired := remove1 v (tr_fired s), tr_matched := Suc (tr_matched s)\<rparr>)"
| callback_old: "v \<in> set (tr_fired s) \<Longrightarrow> v \<noteq> tc_isFailFastVersion (tr_check s) \<Longrightarrow>
    check_step n K D s (s\<lparr>tr_fired := remove1 v (tr_fired s)\<rparr>)"
| callback_clears: "tr_matched s = Suc m \<Longrightarrow>
    check_step n K D s (on_check (\<lambda>c. c\<lparr>tc_isFastFail := False\<rparr>) s\<lparr>tr_matched := m\<rparr>)"
| set_sleep: "D \<le> d \<Longrightarrow> check_step n K D s (on_check (tc_SetSleepDuration d) s)"
| set_count: "m \<le> K \<Longrightarrow> check_step n K D s (on_check (tc_SetEventCountToAllow m) s)"

inductive check_reach :: "nat \<Rightarrow> int64 \<Rightarrow> duration \<Rightarrow> TimedCheck \<Rightarrow> check_race \<Rightarrow> bool" for n K D c where
  ck_init: "check_reach n K D c (check_start c)"
| ck_more: "check_reach n K D c s \<Longrightarrow> check_step n K D s s' \<Longrightarrow> check_reach n K D c s'"

subsection \<open>The invariants\<close>

text \<open>The stages that hold the mutex; and those after an event was counted and before the window is decided.\<close>

fun holds_mu :: "check_stage \<Rightarrow> bool" where
  "holds_mu Idle = False"
| "holds_mu (CkRead t) = False"
| "holds_mu (CkLock t) = False"
| "holds_mu _ = True"

fun undecided :: "check_stage \<Rightarrow> bool" where
  "undecided (CkCounted t) = True"
| "undecided (Resets t) = True"
| "undecided _ = False"

fun rearms :: "check_stage \<Rightarrow> bool" where
  "rearms (RsFlag d) = True"
| "rearms (RsVersion d) = True"
| "rearms (RsTimer v d) = True"
| "rearms _ = False"

definition mu_inv :: "check_race \<Rightarrow> bool" where
  "mu_inv s \<longleftrightarrow> (\<forall>i. tr_mu s = Some i \<longleftrightarrow> holds_mu (tr_stage s i)) \<and>
     (\<forall>i v d. tr_stage s i = RsTimer v d \<longrightarrow> v = tc_isFailFastVersion (tr_check s))"

fun grants_since :: "check_event list \<Rightarrow> int" where
  "grants_since [] = 0"
| "grants_since (LReset t d # l) = 0"
| "grants_since (LGrant t # l) = grants_since l + 1"

fun last_window :: "check_event list \<Rightarrow> gotime option" where
  "last_window [] = None"
| "last_window (LReset t d # l) = Some (t + d)"
| "last_window (LGrant t # l) = last_window l"

fun log_ok :: "int64 \<Rightarrow> duration \<Rightarrow> check_event list \<Rightarrow> bool" where
  "log_ok K D [] = True"
| "log_ok K D (LReset t d # l) = (D \<le> d \<and> log_ok K D l)"
| "log_ok K D (LGrant t # l) = (grants_since l < K \<and> (\<forall>w. last_window l = Some w \<longrightarrow> w \<le> t) \<and> log_ok K D l)"

definition window_inv :: "int64 \<Rightarrow> duration \<Rightarrow> check_race \<Rightarrow> bool" where
  "window_inv K D s \<longleftrightarrow> (let c = tr_check s in log_ok K D (tr_log s) \<and>
     D \<le> tc_sleepDuration c \<and> tc_eventCountToAllow c \<le> K \<and>
     tc_currentlyAllowedEventCount c = grants_since (tr_log s) \<and>
     (\<forall>w. last_window (tr_log s) = Some w \<longrightarrow> tc_nextOpenTime c = w) \<and>
     (grants_since (tr_log s) < K \<or> (\<exists>i. undecided (tr_stage s i))))"

definition flag_inv :: "check_race \<Rightarrow> bool" where
  "flag_inv s \<longleftrightarrow> (tc_isFastFail (tr_check s) \<longrightarrow> (\<exists>i. rearms (tr_stage s i)) \<or>
     tc_isFailFastVersion (tr_check s) \<in> set (tc_armed (tr_check s)) \<union> set (tr_fired s) \<or> 0 < tr_matched s)"

lemma undecided_holds: "undecided st \<Longrightarrow> holds_mu st"
  by (cases st) simp_all

lemma rearms_holds: "rearms st \<Longrightarrow> holds_mu st"
  by (cases st) simp_all

lemma grants_nonneg: "0 \<le> grants_since l"
  by (induction l rule: grants_since.induct) simp_all

lemma stopTimer_fields [simp]:
  "tc_sleepDuration (tc_stopTimer c) = tc_sleepDuration c" "tc_eventCountToAllow (tc_stopTimer c) = tc_eventCountToAllow c"
  "tc_isFailFastVersion (tc_stopTimer c) = tc_isFailFastVersion c"
  by (simp_all add: tc_stopTimer_def split: option.split)

lemma reset_open_fields [simp]:
  "tc_sleepDuration (reset_open now c) = tc_sleepDuration c" "tc_eventCountToAllow (reset_open now c) = tc_eventCountToAllow c"
  "tc_isFailFastVersion (reset_open now c) = tc_isFailFastVersion c" "tc_currentlyAllowedEventCount (reset_open now c) = 0"
  "tc_nextOpenTime (reset_open now c) = now + tc_sleepDuration c"
  by (simp_all add: reset_open_def Let_def time_Add_def)

lemma reset_timer_fields [simp]:
  "tc_sleepDuration (reset_timer v d c) = tc_sleepDuration c" "tc_eventCountToAllow (reset_timer v d c) = tc_eventCountToAllow c"
  "tc_isFailFastVersion (reset_timer v d c) = tc_isFailFastVersion c"
  "tc_currentlyAllowedEventCount (reset_timer v d c) = tc_currentlyAllowedEventCount c"
  "tc_nextOpenTime (reset_timer v d c) = tc_nextOpenTime c"
  by (simp_all add: reset_timer_def Let_def tc_callback_def)

lemma set_fields [simp]:
  "tc_eventCountToAllow (tc_SetSleepDuration d c) = tc_eventCountToAllow c"
  "tc_eventCountToAllow (tc_SetEventCountToAllow m c) = m"
  "tc_currentlyAllowedEventCount (tc_SetSleepDuration d c) = tc_currentlyAllowedEventCount c"
  "tc_currentlyAllowedEventCount (tc_SetEventCountToAllow m c) = tc_currentlyAllowedEventCount c"
  "tc_isFailFastVersion (tc_SetSleepDuration d c) = tc_isFailFastVersion c"
  "tc_isFailFastVersion (tc_SetEventCountToAllow m c) = tc_isFailFastVersion c"
  "tc_armed (tc_SetSleepDuration d c) = tc_armed c" "tc_armed (tc_SetEventCountToAllow m c) = tc_armed c"
  "tc_isFastFail (tc_SetSleepDuration d c) = tc_isFastFail c" "tc_isFastFail (tc_SetEventCountToAllow m c) = tc_isFastFail c"
  by (simp_all add: tc_SetSleepDuration_def tc_SetEventCountToAllow_def)

lemmas race_defs = at_stage_def on_check_def logs_def

lemma mu_exclusive: "mu_inv s \<Longrightarrow> holds_mu (tr_stage s i) \<Longrightarrow> holds_mu (tr_stage s j) \<Longrightarrow> i = j"
  by (metis mu_inv_def option.inject)

lemma mu_inv_step:
  assumes "mu_inv s" "check_step n K D s s'"
  shows "mu_inv s'"
proof -
  note only = mu_exclusive [OF assms(1)]
  show ?thesis
    using assms(2)
  proof (cases rule: check_step.cases)
    case (below_count i now)
    then have "\<not> holds_mu (tr_stage s j)" if "j \<noteq> i" for j using only [of i j] that by auto
    then show ?thesis using below_count assms(1) by (auto simp: mu_inv_def race_defs)
  next
    case (reset_counts i d v)
    then have "\<not> holds_mu (tr_stage s j)" if "j \<noteq> i" for j using only [of i j] that by auto
    then have "tr_stage s j \<noteq> RsTimer w e" if "j \<noteq> i" for j w e using that by (metis holds_mu.simps(8))
    then show ?thesis using reset_counts assms(1) by (auto simp: mu_inv_def race_defs)
  next
    case (reset_arms i v d)
    then have "\<not> holds_mu (tr_stage s j)" if "j \<noteq> i" for j using only [of i j] that by auto
    then show ?thesis using reset_arms assms(1) by (auto simp: mu_inv_def race_defs)
  qed (use assms(1) in \<open>auto simp: mu_inv_def race_defs split: if_splits\<close>)
qed

text \<open>Nobody else is undecided, or rearms, when a goroutine holds the mutex.\<close>

lemma only_undecided: "mu_inv s \<Longrightarrow> holds_mu (tr_stage s i) \<Longrightarrow> undecided (tr_stage s j) \<Longrightarrow> j = i"
  and only_rearms: "mu_inv s \<Longrightarrow> holds_mu (tr_stage s i) \<Longrightarrow> rearms (tr_stage s j) \<Longrightarrow> j = i"
  and none_undecided: "mu_inv s \<Longrightarrow> tr_mu s = None \<Longrightarrow> \<not> undecided (tr_stage s j)"
  using mu_exclusive undecided_holds rearms_holds by (metis, metis, metis mu_inv_def option.distinct(1))

lemma window_inv_step:
  assumes mu: "mu_inv s" and w: "window_inv K D s" and step: "check_step n K D s s'" and K: "0 < K" "K \<le> max_int64"
  shows "window_inv K D s'"
  using step
proof (cases rule: check_step.cases)
  case (locked_grants i now)
  have "grants_since (tr_log s) < K" using w none_undecided [OF mu locked_grants(4)] by (auto simp: window_inv_def Let_def)
  moreover from this have "add64 (grants_since (tr_log s)) 1 = grants_since (tr_log s) + 1"
    using grants_nonneg [of "tr_log s"] K(2) by (simp add: add64_exact in_int64_def min_int64_def)
  ultimately show ?thesis
    using w locked_grants by (auto simp: window_inv_def race_defs Let_def time_After_def)
next
  case (below_count i now)
  have "j = i" if "undecided (tr_stage s j)" for j using only_undecided [OF mu, of i j] below_count(3) that by simp
  then show ?thesis using w below_count by (auto simp: window_inv_def race_defs Let_def)
qed (use w K(1) in \<open>(auto simp: window_inv_def race_defs Let_def; metis undecided.simps)+\<close>)

lemma flag_inv_step:
  assumes mu: "mu_inv s" and f: "flag_inv s" and step: "check_step n K D s s'"
  shows "flag_inv s'"
  using step
proof (cases rule: check_step.cases)
  case (reset_arms i v d)
  have "v = tc_isFailFastVersion (tr_check s)" using mu reset_arms(3) by (auto simp: mu_inv_def)
  then show ?thesis using reset_arms(1) by (simp add: flag_inv_def race_defs reset_timer_def Let_def tc_callback_def)
next
  case (timer_fires v)
  then show ?thesis using f by (cases "tc_isFailFastVersion (tr_check s) = v") (auto simp: flag_inv_def race_defs)
next
  case (callback_matches v)
  then show ?thesis by (simp add: flag_inv_def race_defs)
next
  case (callback_old v)
  then show ?thesis using f by (auto simp: flag_inv_def race_defs)
qed (use f in \<open>(auto simp: flag_inv_def race_defs; metis rearms.simps)+\<close>)

definition check_ready :: "int64 \<Rightarrow> duration \<Rightarrow> TimedCheck \<Rightarrow> bool" where
  "check_ready K D c \<longleftrightarrow> \<not> tc_isFastFail c \<and> tc_currentlyAllowedEventCount c = 0 \<and> tc_eventCountToAllow c \<le> K \<and>
     D \<le> tc_sleepDuration c"

lemma check_reach_inv:
  assumes "check_reach n K D c s" "check_ready K D c" "0 < K" "K \<le> max_int64"
  shows "mu_inv s \<and> window_inv K D s \<and> flag_inv s"
  using assms(1)
proof (induction rule: check_reach.induct)
  case ck_init
  then show ?case
    using assms(2,3) by (simp add: mu_inv_def window_inv_def flag_inv_def check_start_def check_ready_def Let_def)
next
  case (ck_more s s')
  then show ?case using mu_inv_step window_inv_step [OF _ _ _ assms(3,4)] flag_inv_step by blast
qed

subsection \<open>Reading the log\<close>

lemma log_ok_older: "log_ok K D (b @ l) \<Longrightarrow> log_ok K D l"
proof (induction b)
  case (Cons e b)
  then show ?case by (cases e) simp_all
qed simp

lemma last_window_grants: "\<forall>e \<in> set mid. e \<in> range LGrant \<Longrightarrow> last_window (mid @ l) = last_window l"
  by (induction mid) auto

lemma grants_in_a_row:
  "log_ok K D (mid @ l) \<Longrightarrow> 0 < K \<Longrightarrow> \<forall>e \<in> set mid. e \<in> range LGrant \<Longrightarrow>
    int (length mid) + grants_since l = grants_since (mid @ l) \<and> (mid \<noteq> [] \<longrightarrow> grants_since (mid @ l) \<le> K)"
  by (induction mid) auto

text \<open>C30: The sleep window under concurrency. Whatever goroutines check, start sleeps and change the configuration, and whenever
  the timers run, old ones included: an event is granted only after the end of the window started last, each
  window lasts at least \<open>D\<close>, and at most \<open>K\<close> events are granted from one window to the next. When nobody is in a call and
  no timer or callback is left, the check does not fail fast, so that it is not stuck.\<close>

theorem concurrent_checks_keep_the_window:
  assumes "check_reach n K D c s" "check_ready K D c" "0 < K" "K \<le> max_int64"
  shows "(\<forall>new t mid u d old. tr_log s = new @ LGrant t # mid @ LReset u d # old \<and> (\<forall>e \<in> set mid. e \<in> range LGrant) \<longrightarrow>
      D \<le> d \<and> u + d \<le> t) \<and>
    (\<forall>new mid old. tr_log s = new @ mid @ old \<and> (\<forall>e \<in> set mid. e \<in> range LGrant) \<longrightarrow> int (length mid) \<le> K) \<and>
    ((\<forall>i. tr_stage s i = Idle) \<and> tc_armed (tr_check s) = [] \<and> tr_fired s = [] \<and> tr_matched s = 0 \<longrightarrow>
      \<not> tc_isFastFail (tr_check s))"
proof (intro conjI allI impI)
  have ok: "log_ok K D (tr_log s)" and flag: "flag_inv s"
    using check_reach_inv [OF assms] by (simp_all add: window_inv_def Let_def)
  {
    fix new t mid u d old
    assume l: "tr_log s = new @ LGrant t # mid @ LReset u d # old \<and> (\<forall>e \<in> set mid. e \<in> range LGrant)"
    then have "log_ok K D (LGrant t # mid @ LReset u d # old)" using ok log_ok_older by metis
    moreover from this have "log_ok K D (LReset u d # old)" using log_ok_older [of K D "LGrant t # mid" "LReset u d # old"] by (metis append_Cons)
    ultimately show "D \<le> d" "u + d \<le> t" using last_window_grants [of mid "LReset u d # old"] l by simp_all
  }
  {
    fix new mid old
    assume l: "tr_log s = new @ mid @ old \<and> (\<forall>e \<in> set mid. e \<in> range LGrant)"
    then have "log_ok K D (mid @ old)" using ok log_ok_older by metis
    then show "int (length mid) \<le> K"
      using grants_in_a_row [of K D mid old] l assms(3) grants_nonneg [of old] by (cases "mid = []") auto
  }
  assume "(\<forall>i. tr_stage s i = Idle) \<and> tc_armed (tr_check s) = [] \<and> tr_fired s = [] \<and> tr_matched s = 0"
  then show "\<not> tc_isFastFail (tr_check s)" using flag by (auto simp: flag_inv_def)
qed

text \<open>Two goroutines that both passed the first look; the second finds the window of the first.\<close>

lemma check_next: "check_reach n K D c s \<Longrightarrow> check_step n K D s t \<Longrightarrow> t = s' \<Longrightarrow> check_reach n K D c s'"
  using ck_more by blast

theorem concurrent_checks_keep_the_window_witness:
  "\<exists>s. check_reach 2 1 10 (zero_TimedCheck\<lparr>tc_sleepDuration := 10, tc_eventCountToAllow := 1\<rparr>) s \<and>
    tr_log s = [LReset 5 10, LGrant 5] \<and> tr_stage s 0 = Idle \<and> tr_stage s 1 = CkLock 6 \<and>
    tc_isFastFail (tr_check s) \<and> tc_armed (tr_check s) = [1] \<and> int (length (tl (tr_log s))) \<le> 1"
proof -
  let ?c = "zero_TimedCheck\<lparr>tc_sleepDuration := 10, tc_eventCountToAllow := 1\<rparr>"
  let ?at = "\<lambda>mu a b c l. \<lparr>tr_check = c, tr_mu = mu, tr_stage = (\<lambda>_. Idle)(0 := a, 1 := b), tr_fired = [], tr_matched = 0, tr_log = l\<rparr>"
  note simps = check_start_def race_defs fun_eq_iff zero_TimedCheck_def time_defs
  have a: "check_reach 2 1 10 ?c (?at None (CkRead 5) Idle ?c [])"
    by (rule check_next [OF ck_init no_fast_fail [where i = 0]]) (auto simp: simps)
  have b: "check_reach 2 1 10 ?c (?at None (CkLock 5) Idle ?c [])"
    by (rule check_next [OF a late_enough [where i = 0]]) (auto simp: simps)
  have c: "check_reach 2 1 10 ?c (?at None (CkLock 5) (CkRead 6) ?c [])"
    by (rule check_next [OF b no_fast_fail [where i = 1]]) (auto simp: simps)
  have d: "check_reach 2 1 10 ?c (?at None (CkLock 5) (CkLock 6) ?c [])"
    by (rule check_next [OF c late_enough [where i = 1]]) (auto simp: simps)
  let ?c1 = "?c\<lparr>tc_currentlyAllowedEventCount := 1\<rparr>" and ?c2 = "?c\<lparr>tc_nextOpenTime := 15\<rparr>"
  let ?c3 = "?c2\<lparr>tc_isFastFail := True\<rparr>"
  let ?c4 = "?c3\<lparr>tc_isFailFastVersion := 1\<rparr>"
  let ?c5 = "?c4\<lparr>tc_armed := [1], tc_lastSetTimer := Some 1\<rparr>"
  have e: "check_reach 2 1 10 ?c (?at (Some 0) (CkCounted 5) (CkLock 6) ?c1 [LGrant 5])"
    by (rule check_next [OF d locked_grants [where i = 0]]) (auto simp: simps add64_def wrap64_def)
  have f: "check_reach 2 1 10 ?c (?at (Some 0) (Resets 5) (CkLock 6) ?c1 [LGrant 5])"
    by (rule check_next [OF e reaches_count [where i = 0]]) (auto simp: simps)
  have g: "check_reach 2 1 10 ?c (?at (Some 0) (RsFlag 10) (CkLock 6) ?c2 [LReset 5 10, LGrant 5])"
    by (rule check_next [OF f reset_opens [where i = 0]]) (auto simp: simps reset_open_def tc_stopTimer_def)
  have h: "check_reach 2 1 10 ?c (?at (Some 0) (RsVersion 10) (CkLock 6) ?c3 [LReset 5 10, LGrant 5])"
    by (rule check_next [OF g reset_flags [where i = 0]]) (auto simp: simps)
  have k: "check_reach 2 1 10 ?c (?at (Some 0) (RsTimer 1 10) (CkLock 6) ?c4 [LReset 5 10, LGrant 5])"
    by (rule check_next [OF h reset_counts [where i = 0]]) (auto simp: simps add64_def wrap64_def)
  have s: "check_reach 2 1 10 ?c (?at None Idle (CkLock 6) ?c5 [LReset 5 10, LGrant 5])"
    by (rule check_next [OF k reset_arms [where i = 0]])
      (auto simp: simps reset_timer_def tc_afterFunc_def runtime_AfterFunc_def)
  have "check_ready 1 10 ?c" by (simp add: check_ready_def zero_TimedCheck_def)
  from concurrent_checks_keep_the_window [OF s this] have "int (length [LGrant 5]) \<le> 1"
    by (simp add: max_int64_def)
  then show ?thesis using s by (intro exI [of _ "?at None Idle (CkLock 6) ?c5 [LReset 5 10, LGrant 5]"]) simp
qed

end
