(* ===== verification/CloserRace.thy ===== *)
theory CloserRace
  imports HystrixCloser
begin













subsection \<open>The invariants\<close>
















subsection \<open>Properties\<close>





end
