(* ===== verification/CircuitCalls.thy ===== *)
theory CircuitCalls
  imports CircuitExecution
begin

text \<open>
  Calls one after another: under the contracts of its logic, with listeners that return and leave the circuit alone, and
  run functions and fallbacks that return and leave it as they found it, a circuit comes back from every call as
  it went in, ready for the next one. A listener that keeps flipping the circuit is outside of this, and
  makes a call run for ever (\<open>flipping_listener_never_returns\<close>). The lemmas are stated with \<open>does P m Q\<close>: from a
  state with \<open>P\<close> the call \<open>m\<close> returns, with \<open>Q\<close> of its result and the new state.
\<close>

definition does :: "('s \<Rightarrow> bool) \<Rightarrow> ('a, 's) go \<Rightarrow> ('a \<Rightarrow> 's \<Rightarrow> bool) \<Rightarrow> bool" where
  "does P m Q \<longleftrightarrow> (\<forall>s. P s \<longrightarrow> (\<exists>a s'. m s = (Returns a, s') \<and> Q a s'))"

named_theorems does_intros \<open>introduction rules for does\<close>

lemma doesI: "(\<And>s. P s \<Longrightarrow> \<exists>a s'. m s = (Returns a, s') \<and> Q a s') \<Longrightarrow> does P m Q"
  by (simp add: does_def)

lemma doesD: "does P m Q \<Longrightarrow> P s \<Longrightarrow> \<exists>a s'. m s = (Returns a, s') \<and> Q a s'"
  by (simp add: does_def)

lemma does_mono: "does P m Q \<Longrightarrow> (\<And>s. P' s \<Longrightarrow> P s) \<Longrightarrow> (\<And>a s. Q a s \<Longrightarrow> Q' a s) \<Longrightarrow> does P' m Q'"
  by (fastforce simp: does_def)

lemma does_greturn: "(\<And>s. P s \<Longrightarrow> Q a s) \<Longrightarrow> does P (greturn a) Q"
  by (simp add: does_def go_run)

lemma does_gbind: "does P m R \<Longrightarrow> (\<And>a. does (R a) (f a) Q) \<Longrightarrow> does P (gbind m f) Q"
  by (fastforce simp: does_def gbind_run)

lemma does_gseq: "does P m R \<Longrightarrow> (\<And>a. does (R a) k Q) \<Longrightarrow> does P (gseq m k) Q"
  by (simp add: gseq_def does_gbind)

lemma does_get: "(\<And>a. does (\<lambda>s. P s \<and> f s = a) (k a) Q) \<Longrightarrow> does P (gbind (gget f) k) Q"
  by (fastforce simp: does_def gbind_run go_run)

lemma does_get_any: "(\<And>a. does P (k a) Q) \<Longrightarrow> does P (gbind (gget f) k) Q"
  by (rule does_get) (auto intro: does_mono)

lemma does_if: "(b \<Longrightarrow> does P m Q) \<Longrightarrow> (\<not> b \<Longrightarrow> does P k Q) \<Longrightarrow> does P (if b then m else k) Q"
  by simp

lemma does_gwhen: "(b \<Longrightarrow> does P m Q) \<Longrightarrow> (\<And>s. \<not> b \<Longrightarrow> P s \<Longrightarrow> Q () s) \<Longrightarrow> does P (gwhen b m) Q"
  by (auto simp: gwhen_def intro: does_greturn)

lemma does_pre: "(b \<Longrightarrow> does P m Q) \<Longrightarrow> does (\<lambda>s. P s \<and> b) m Q"
  by (auto simp: does_def)

lemma does_gdefer: "does P m R \<Longrightarrow> (\<And>a. does (R a) d (\<lambda>_. Q a)) \<Longrightarrow> does P (gdefer d m) Q"
  by (fastforce simp: does_def gdefer_def)

subsection \<open>A circuit between two calls\<close>

text \<open>
  The lock is free, no transition waits to be told, and \<open>k\<close> commands and \<open>j\<close> fallbacks are running; \<open>T\<close> is the
  configuration in force. \<open>closed\<close> is set for a logic that never opens the circuit: it then stays closed.
\<close>

definition keeps_closed :: "'p ClosedToOpen \<Rightarrow> ('p \<Rightarrow> bool) \<Rightarrow> bool" where
  "keeps_closed vt ok \<longleftrightarrow> (\<forall>p ctx now. ok p \<longrightarrow>
     fst (co_ShouldOpen vt ctx now p) = Returns False \<and> fst (co_Prevent vt ctx now p) = Returns False)"

definition never_prevents :: "'p ClosedToOpen \<Rightarrow> ('p \<Rightarrow> bool) \<Rightarrow> bool" where
  "never_prevents vt ok \<longleftrightarrow> (\<forall>p ctx now. ok p \<longrightarrow> fst (co_Prevent vt ctx now p) = Returns False)"

definition calm_circuit ::
  "'p ClosedToOpen \<Rightarrow> ('p \<Rightarrow> bool) \<Rightarrow> 'q OpenToClosed \<Rightarrow> ('q \<Rightarrow> bool) \<Rightarrow>
   bool \<Rightarrow> atomicCircuitConfig \<Rightarrow> int64 \<Rightarrow> int64 \<Rightarrow> ('p, 'q) Circuit \<Rightarrow> bool" where
  "calm_circuit cvt cok ovt ook closed T k j c \<longleftrightarrow> logic_ready cvt cok ovt ook c \<and> \<not> c_transitionMu c \<and>
     c_pendingTransitions c = [] \<and> \<not> c_deliveringTransitions c \<and> c_threadSafeConfig c = T \<and>
     c_concurrentCommands c = k \<and> c_concurrentFallbacks c = j \<and> (closed \<longrightarrow> \<not> c_isOpen c)"

text \<open>The contexts a run function may be given: with a timeout, one that ends at a deadline.\<close>

definition given_ctx :: "clock \<Rightarrow> atomicCircuitConfig \<Rightarrow> ctx \<Rightarrow> ctx \<Rightarrow> bool" where
  "given_ctx wall T ctx ctx' \<longleftrightarrow>
     (if \<not> ac_Disabled T \<and> 0 < ac_ExecutionTimeout T then \<exists>d. ctx' = WithDeadline wall ctx d else ctx' = ctx)"

text \<open>
  What a run gives when its run function gives an error with \<open>R\<close>: such an error, the open circuit error, or the
  throttling error when the limit is reached.
\<close>

definition admitted_or_refused ::
  "bool \<Rightarrow> atomicCircuitConfig \<Rightarrow> int64 \<Rightarrow> (err option \<Rightarrow> bool) \<Rightarrow> err option \<Rightarrow> bool" where
  "admitted_or_refused closed T k R r \<longleftrightarrow> R r \<or> r = Some errCircuitOpen \<and> (closed \<longrightarrow> ac_ForceOpen T) \<or>
     r = Some errThrottledConcurrentCommands \<and> 0 \<le> ac_MaxConcurrentRequests T \<and> ac_MaxConcurrentRequests T < add64 k 1"

definition fallback_result :: "atomicCircuitConfig \<Rightarrow> int64 \<Rightarrow> err option \<Rightarrow> (err option \<Rightarrow> bool) \<Rightarrow> err option \<Rightarrow> bool" where
  "fallback_result T j e F r \<longleftrightarrow>
     (if ac_FallbackDisabled T then r = e
      else if 0 \<le> ac_FallbackMaxConcurrentRequests T \<and> ac_FallbackMaxConcurrentRequests T < add64 j 1
      then r = Some errThrottledConcurrentFallbacks else F r)"

text \<open>What a call gives; \<open>F\<close> is \<open>None\<close> without a fallback. A disabled circuit calls the run function and nothing else.\<close>

definition call_result ::
  "bool \<Rightarrow> atomicCircuitConfig \<Rightarrow> int64 \<Rightarrow> int64 \<Rightarrow> (err option \<Rightarrow> bool) \<Rightarrow> (err option \<Rightarrow> bool) option \<Rightarrow> err option \<Rightarrow> bool" where
  "call_result closed T k j R F r \<longleftrightarrow>
     (if ac_Disabled T then R r
      else \<exists>e. admitted_or_refused closed T k R e \<and>
        (if e = None \<or> IsBadRequest e then r = e else case F of None \<Rightarrow> r = e | Some F \<Rightarrow> fallback_result T j e F r))"

lemma call_resultI:
  assumes "\<not> ac_Disabled T" "admitted_or_refused closed T k R e"
    and "if e = None \<or> IsBadRequest e then r = e else case F of None \<Rightarrow> r = e | Some F \<Rightarrow> fallback_result T j e F r"
  shows "call_result closed T k j R F r"
  unfolding call_result_def using assms by (simp only: if_False) blast

context circuit_logic
begin

abbreviation calm :: "bool \<Rightarrow> atomicCircuitConfig \<Rightarrow> int64 \<Rightarrow> int64 \<Rightarrow> ('p, 'q) Circuit \<Rightarrow> bool" where
  "calm \<equiv> calm_circuit cvt cok ovt ook"

lemmas calm_def = calm_circuit_def [of cvt cok ovt ook]

lemma calm_core: "calm closed T k j c \<Longrightarrow> ready c' \<Longrightarrow> core c' = core c \<Longrightarrow> calm closed T k j c'"
  using core_fields [of c' c] by (simp add: calm_def)

lemma calm_readings [simp]: "calm closed T k j (c\<lparr>c_readings := n\<rparr>) = calm closed T k j c"
  and calm_log [simp]: "calm closed T k j (c\<lparr>c_log := l\<rparr>) = calm closed T k j c"
  by (simp_all add: calm_def)

lemma does_send:
  assumes "quiet env"
  shows "does (calm closed T k j) (RunMetricsCollection_send env ev ctx now) (\<lambda>_. calm closed T k j)"
proof (rule doesI)
  fix c
  assume c: "calm closed T k j c"
  then have "ready c" by (simp add: calm_def)
  then obtain c' where c': "RunMetricsCollection_send env ev ctx now c = (Returns (), c')" "ready c'"
    "core c' = (core c)\<lparr>c_log := c_log c @ map (\<lambda>k. LgRun k ev ctx now) (user_collectors (c_CmdMetricCollector c))\<rparr>"
    using send_ready [OF assms] by blast
  then have "core c' = core (c\<lparr>c_log := c_log c'\<rparr>)" by (simp add: core_logD [OF c'(3)])
  then have "calm closed T k j c'" using c c'(2) calm_core [of closed T k j "c\<lparr>c_log := c_log c'\<rparr>" c'] by simp
  then show "\<exists>a s'. RunMetricsCollection_send env ev ctx now c = (Returns a, s') \<and> calm closed T k j s'"
    using c'(1) by blast
qed

lemma does_now: "does (calm closed T k j) c_now (\<lambda>_. calm closed T k j)"
proof (rule doesI)
  fix c
  assume c: "calm closed T k j c"
  then have "ready c" by (simp add: calm_def)
  then show "\<exists>a s'. c_now c = (Returns a, s') \<and> calm closed T k j s'" using now_ready [of c] c by auto
qed

lemma does_ask_Err: "does (calm closed T k j) (ask_Err ctx) (\<lambda>_. calm closed T k j)"
  by (simp add: does_def ask_Err_def)

text \<open>Steps that only touch the receivers of the logic.\<close>

lemma does_core:
  assumes "\<And>c. ready c \<Longrightarrow> \<exists>a c'. m c = (Returns a, c') \<and> ready c' \<and> core c' = core c"
  shows "does (calm closed T k j) m (\<lambda>_. calm closed T k j)"
proof (rule doesI)
  fix c
  assume c: "calm closed T k j c"
  then obtain a c' where c': "m c = (Returns a, c')" "ready c'" "core c' = core c"
    using assms [of c] by (auto simp: calm_def)
  show "\<exists>a s'. m c = (Returns a, s') \<and> calm closed T k j s'"
    using c'(1) calm_core [OF c c'(2,3)] by blast
qed

lemma does_asks: "asks f \<Longrightarrow> does (calm closed T k j) (f ctx now) (\<lambda>_. calm closed T k j)"
  by (rule does_core) (rule asksD)

lemma does_Allow: "does (calm closed T k j) (call_OpenToClose (\<lambda>vt. oc_Allow vt ctx now)) (\<lambda>_. calm closed T k j)"
  by (rule does_core) (rule call_open_ready [where f = "\<lambda>vt. oc_Allow vt ctx now"], assumption, rule oc.Allow_safe)

lemma does_ShouldOpen:
  assumes "closed \<Longrightarrow> keeps_closed cvt cok"
  shows "does (calm closed T k j) (ask_ShouldOpen ctx now) (\<lambda>b c. calm closed T k j c \<and> (closed \<longrightarrow> \<not> b))"
proof (rule doesI)
  fix c
  assume c: "calm closed T k j c"
  then have "ready c" by (simp add: calm_def)
  then obtain p where p: "c_ClosedToOpen c = Some (cvt, p)" "cok p" by (auto simp: logic_ready_def)
  obtain b c' where c': "ask_ShouldOpen ctx now c = (Returns b, c')" "calm closed T k j c'"
    using doesD [OF does_asks [OF asks_logic(1)] c] by blast
  have "closed \<longrightarrow> \<not> b"
    using p assms c'(1) by (auto simp: ask_ShouldOpen_def call_ClosedToOpen_def keeps_closed_def split: prod.splits)
      (metis fst_conv outcome.inject)
  then show "\<exists>a s'. ask_ShouldOpen ctx now c = (Returns a, s') \<and> calm closed T k j s' \<and> (closed \<longrightarrow> \<not> a)"
    using c' by blast
qed

lemma does_Prevent:
  assumes "ok \<Longrightarrow> never_prevents cvt cok"
  shows "does (calm closed T k j) (call_ClosedToOpen (\<lambda>vt. co_Prevent vt ctx now)) (\<lambda>b c. calm closed T k j c \<and> (ok \<longrightarrow> \<not> b))"
proof (rule doesI)
  fix c
  assume c: "calm closed T k j c"
  then have "ready c" by (simp add: calm_def)
  then obtain p where p: "c_ClosedToOpen c = Some (cvt, p)" "cok p" by (auto simp: logic_ready_def)
  obtain c' where c': "call_ClosedToOpen (\<lambda>vt. co_Prevent vt ctx now) c = (Returns (prevents ctx now c), c')" "ready c'"
    "core c' = core c" using prevent_ready [OF \<open>ready c\<close>] by blast
  have "ok \<longrightarrow> \<not> prevents ctx now c"
    using p assms by (auto simp: prevents_def call_ClosedToOpen_def never_prevents_def split: prod.splits)
      (metis fst_conv outcome.inject)
  then show "\<exists>a s'. call_ClosedToOpen (\<lambda>vt. co_Prevent vt ctx now) c = (Returns a, s') \<and> calm closed T k j s' \<and> (ok \<longrightarrow> \<not> a)"
    using c' calm_core [OF c c'(2,3)] by blast
qed

text \<open>A transition is told before the call goes on.\<close>

lemma does_transition:
  assumes q: "quiet env" "3 \<le> fuel" and f: "asks f" and opn: "\<not> (closed \<and> opn)"
  shows "does (calm closed T k j) (transitionTo fuel env ctx now opn (Some f)) (\<lambda>_. calm closed T k j)"
proof (rule doesI)
  fix c
  assume c: "calm closed T k j c"
  then have r: "ready c" "\<not> c_transitionMu c" by (simp_all add: calm_def)
  show "\<exists>a s'. transitionTo fuel env ctx now opn (Some f) c = (Returns a, s') \<and> calm closed T k j s'"
  proof (cases "c_isOpen c = opn")
    case True
    then show ?thesis using c by (simp add: transitionTo_def gbind_run go_run)
  next
    case False
    obtain fin c1 where c1: "commitTransition ctx now opn (Some f) c = (Returns fin, c1)" "ready c1"
      "if fin then c_isOpen c \<noteq> opn \<and> (\<exists>clk. c_timeNow c = Some clk \<and>
          core c1 = (core c)\<lparr>c_isOpen := opn, c_readings := Suc (c_readings c),
            c_pendingTransitions := c_pendingTransitions c @
              [\<lparr>tr_open = opn, tr_ctx = ctx, tr_now = max now (clk (c_readings c))\<rparr>]\<rparr>)
       else core c1 = core c"
      using commit_ready [OF r, of "Some f" ctx now opn] f by auto
    show ?thesis
    proof (cases fin)
      case False
      then show ?thesis
        using c1 \<open>c_isOpen c \<noteq> opn\<close> calm_core [OF c c1(2)] by (simp add: transitionTo_def gbind_run go_run gwhen_run)
    next
      case True
      then obtain tr where "core c1 = core (c\<lparr>c_isOpen := opn, c_readings := Suc (c_readings c), c_pendingTransitions := [tr]\<rparr>)"
        using c1(3) c by (auto simp: calm_def)
      note f1 = core_fields [OF this]
      let ?c2 = "c1\<lparr>c_pendingTransitions := [],
        c_log := c_log c1 @ concat (map (told (c_CircuitMetricsCollector c1)) (c_pendingTransitions c1))\<rparr>"
      have "deliverPendingTransitions fuel env c1 = (Returns (), ?c2)"
        using quiet_deliver [OF q(1), of c1 fuel] f1 c q(2) by (simp add: calm_def)
      moreover have "calm closed T k j ?c2" using c c1(2) f1 opn by (simp add: calm_def)
      ultimately show ?thesis
        using c1(1) True \<open>c_isOpen c \<noteq> opn\<close> by (simp add: transitionTo_def gbind_run go_run gwhen_run)
    qed
  qed
qed

lemma does_attempt:
  assumes q: "quiet env" "3 \<le> fuel" and never: "closed \<Longrightarrow> keeps_closed cvt cok"
  shows "does (calm closed T k j) (attemptToOpen fuel env ctx now) (\<lambda>_. calm closed T k j)"
proof -
  have flip: "does (\<lambda>c. calm closed T k j c \<and> (closed \<longrightarrow> \<not> b))
      (gwhen b (transitionTo fuel env ctx now True (Some ask_ShouldOpen))) (\<lambda>_. calm closed T k j)" for b
    using does_transition [OF q asks_logic(1), of closed True T k j ctx now]
    by (cases b; cases closed) (auto simp: gwhen_def does_def go_run)
  show ?thesis
    unfolding attemptToOpen_def
    by (intro does_get_any does_if does_greturn does_gbind [OF does_ShouldOpen [OF never] flip])
qed

lemma does_send_then_attempt:
  assumes q: "quiet env" "3 \<le> fuel" and never: "closed \<Longrightarrow> keeps_closed cvt cok"
  shows "does (calm closed T k j) (gseq (RunMetricsCollection_send env ev ctx now) (gbind (gget c_isOpen) (\<lambda>opn.
      gseq (gwhen (\<not> opn) (attemptToOpen fuel env ctx now)) (greturn True)))) (\<lambda>b c. b \<and> calm closed T k j c)"
  by (intro does_gseq [OF does_send [OF q(1)]] does_get_any does_gseq [where R = "\<lambda>_. calm closed T k j"]
      does_gwhen does_attempt [OF q never] does_greturn) auto

lemma does_interrupt:
  assumes q: "quiet env"
  shows "does (calm closed T k j) (checkErrInterrupt env ctx octx ret now d) (\<lambda>_. calm closed T k j)"
  unfolding checkErrInterrupt_def Let_def
  by (intro does_if does_greturn does_gbind [OF does_ask_Err] does_get_any does_gseq [OF does_send [OF q]])

lemma does_checkSuccess:
  assumes q: "quiet env" "3 \<le> fuel"
  shows "does (calm closed T k j) (checkSuccess fuel env ctx now d) (\<lambda>_. calm closed T k j)"
  unfolding checkSuccess_def
  by (intro does_gseq [OF does_send [OF q(1)]] does_get_any does_if does_greturn
      does_gbind [OF does_asks [OF asks_logic(2)]] does_gwhen does_transition [OF q asks_logic(2)]) auto

text \<open>The classification gives the error of the run function.\<close>

lemma does_finish:
  assumes q: "quiet env" "3 \<le> fuel" and never: "closed \<Longrightarrow> keeps_closed cvt cok"
  shows "does (calm closed T k j) (run_finish fuel env ctx octx start deadline ret) (\<lambda>r c. r = ret \<and> calm closed T k j c)"
proof -
  let ?C = "calm closed T k j"
  have bad: "does ?C (checkErrBadRequest env ctx ret fin d) (\<lambda>b c. ?C c)" for fin d
    unfolding checkErrBadRequest_def
    by (auto intro!: does_if does_greturn does_gseq [OF does_send [OF q(1)]])
  have late: "does ?C (checkErrTimeout fuel env ctx deadline fin d) (\<lambda>b c. ?C c)" for fin d
    unfolding checkErrTimeout_def
    by (auto intro!: does_if does_greturn does_mono [OF does_send_then_attempt [OF q never]])
  have failed: "does ?C (checkErrFailure fuel env ctx ret fin d) (\<lambda>b c. ?C c \<and> (b \<or> ret = None))" for fin d
    unfolding checkErrFailure_def
    by (auto intro!: does_if does_greturn does_mono [OF does_send_then_attempt [OF q never]])
  have stop: "does P (if b then greturn ret else k) (\<lambda>r c. r = ret \<and> ?C c)"
    if "\<And>c. P c \<Longrightarrow> ?C c" "\<not> b \<Longrightarrow> does P k (\<lambda>r c. r = ret \<and> ?C c)" for P b k
    using that by (auto intro!: does_if does_greturn)
  have last: "does (\<lambda>c. ?C c \<and> (b \<or> ret = None)) (if b then greturn ret
      else gseq (checkSuccess fuel env ctx fin d) (greturn None)) (\<lambda>r c. r = ret \<and> ?C c)" for b fin d
  proof (cases b)
    case False
    have "does ?C (gseq (checkSuccess fuel env ctx fin d) (greturn None)) (\<lambda>r c. r = None \<and> ?C c)"
      by (intro does_gseq [OF does_checkSuccess [OF q]] does_greturn) simp
    then have "does (\<lambda>c. ?C c \<and> ret = None) (gseq (checkSuccess fuel env ctx fin d) (greturn None)) (\<lambda>r c. r = ret \<and> ?C c)"
      by (intro does_pre) simp
    then show ?thesis using False by simp
  qed (auto intro: does_greturn)
  show ?thesis
    unfolding run_finish_def Let_def
    by (intro does_gbind [OF does_now] does_gbind [OF bad] does_gbind [OF late] does_gbind [OF does_interrupt [OF q(1)]]
        does_gbind [OF failed] stop last)
qed

lemma does_run_admitted:
  assumes q: "quiet env" "3 \<le> fuel" and never: "closed \<Longrightarrow> keeps_closed cvt cok" and enabled: "\<not> ac_Disabled T"
    and rf: "\<And>ctx'. given_ctx (env_wall env) T ctx ctx' \<Longrightarrow> does (calm closed T k j) (rf ctx') (\<lambda>r c. calm closed T k j c \<and> R r)"
  shows "does (calm closed T k j) (run_admitted fuel env ctx start mx cur rf)
    (\<lambda>r c. (R r \<or> r = Some errThrottledConcurrentCommands \<and> 0 \<le> mx \<and> mx < cur) \<and> calm closed T k j c)"
proof -
  let ?Q = "\<lambda>r c. (R r \<or> r = Some errThrottledConcurrentCommands \<and> 0 \<le> mx \<and> mx < cur) \<and> calm closed T k j c"
  have finish: "does (\<lambda>c. calm closed T k j c \<and> R ret) (run_finish fuel env ctx' ctx start deadline ret) ?Q" for ret ctx' deadline
    by (rule does_pre, rule does_mono [OF does_finish [OF q never]]) auto
  have "does (\<lambda>c. calm closed T k j c \<and> (ac_ExecutionTimeout \<circ> c_threadSafeConfig) c = timeout)
     (let deadline = if timeout > 0 then time_Add start timeout else zero_time;
          ctx' = (if timeout > 0 then WithDeadline (env_wall env) ctx deadline else ctx) in
      gbind (rf ctx') (\<lambda>ret. run_finish fuel env ctx' ctx start deadline ret)) ?Q" for timeout
  proof (cases "timeout = ac_ExecutionTimeout T")
    case True
    let ?d = "if timeout > 0 then time_Add start timeout else zero_time"
    let ?ctx = "if timeout > 0 then WithDeadline (env_wall env) ctx ?d else ctx"
    have "given_ctx (env_wall env) T ctx ?ctx" using True enabled by (auto simp: given_ctx_def)
    then have "does (calm closed T k j) (gbind (rf ?ctx) (\<lambda>ret. run_finish fuel env ?ctx ctx start ?d ret)) ?Q"
      by (rule does_gbind [OF rf finish])
    then show ?thesis unfolding Let_def by (rule does_mono) simp_all
  qed (auto simp: does_def calm_def)
  then have "does (calm closed T k j) (gbind (gget (ac_ExecutionTimeout \<circ> c_threadSafeConfig)) (\<lambda>timeout.
        let deadline = if timeout > 0 then time_Add start timeout else zero_time;
          ctx' = (if timeout > 0 then WithDeadline (env_wall env) ctx deadline else ctx) in
        gbind (rf ctx') (\<lambda>ret. run_finish fuel env ctx' ctx start deadline ret))) ?Q"
    by (rule does_get)
  then show ?thesis
    unfolding run_admitted_def by (intro does_if does_gseq [OF does_send [OF q(1)]] does_greturn) auto
qed

lemma does_allow:
  "does (calm closed T k j) (allowNewRun ctx now (ac_MaxConcurrentRequests T))
    (\<lambda>b c. calm closed T k j c \<and> (closed \<and> \<not> ac_ForceOpen T \<longrightarrow> b))"
proof (rule doesI)
  fix c
  assume c: "calm closed T k j c"
  then have r: "ready c" "ac_MaxConcurrentRequests T = ac_MaxConcurrentRequests (c_threadSafeConfig c)" by (simp_all add: calm_def)
  obtain c' where c': "allowNewRun ctx now (ac_MaxConcurrentRequests T) c = (Returns (\<not> denies ctx now c), c')" "ready c'"
    "core c' = core c" using allow_ready [OF r] by blast
  have "closed \<and> \<not> ac_ForceOpen T \<longrightarrow> \<not> denies ctx now c" using c by (auto simp: calm_def denies_def)
  then show "\<exists>a s'. allowNewRun ctx now (ac_MaxConcurrentRequests T) c = (Returns a, s') \<and> calm closed T k j s' \<and>
      (closed \<and> \<not> ac_ForceOpen T \<longrightarrow> a)"
    using c' calm_core [OF c c'(2,3)] by blast
qed

text \<open>The counters around a run and around a fallback.\<close>

lemma does_counting:
  assumes "in_int64 k" "in_int64 j"
  shows "does (calm closed T k j) (add_commands 1) (\<lambda>cur c. calm closed T (add64 k 1) j c \<and> cur = add64 k 1)"
    and "does (\<lambda>c. calm closed T (add64 k 1) j c \<and> p) (gseq (add_commands (-1)) (greturn ())) (\<lambda>_ c. calm closed T k j c \<and> p)"
    and "does (calm closed T k j) (add_fallbacks 1) (\<lambda>cur c. calm closed T k (add64 j 1) c \<and> cur = add64 j 1)"
    and "does (\<lambda>c. calm closed T k (add64 j 1) c \<and> p) (gseq (add_fallbacks (-1)) (greturn ())) (\<lambda>_ c. calm closed T k j c \<and> p)"
  by (auto simp: does_def add_commands_def add_fallbacks_def calm_def Let_def gseq_run go_run add64_back assms)

lemma does_run:
  assumes q: "quiet env" "3 \<le> fuel" and never: "closed \<Longrightarrow> keeps_closed cvt cok" and k: "in_int64 k" "in_int64 j"
    and enabled: "\<not> ac_Disabled T"
    and rf: "\<And>ctx'. given_ctx (env_wall env) T ctx ctx' \<Longrightarrow>
      does (calm closed T (add64 k 1) j) (rf ctx') (\<lambda>r c. calm closed T (add64 k 1) j c \<and> R r)"
  shows "does (calm closed T k j) (run fuel env ctx rf)
    (\<lambda>r c. calm closed T k j c \<and> admitted_or_refused closed T k R r)"
proof -
  let ?C = "calm closed T k j" and ?C1 = "calm closed T (add64 k 1) j"
  let ?Q = "\<lambda>r c. ?C c \<and> admitted_or_refused closed T k R r"
  have body: "does (\<lambda>c. ?C1 c \<and> cur = add64 k 1) (gdefer (gseq (add_commands (-1)) (greturn ()))
      (run_admitted fuel env ctx start (ac_MaxConcurrentRequests T) cur rf)) ?Q" for cur start
  proof (rule does_pre)
    assume "cur = add64 k 1"
    then show "does ?C1 (gdefer (gseq (add_commands (-1)) (greturn ()))
        (run_admitted fuel env ctx start (ac_MaxConcurrentRequests T) cur rf)) ?Q"
      by (intro does_gdefer [OF does_mono [OF does_run_admitted [OF q never enabled rf]] does_counting(2) [OF k]])
        (auto simp: admitted_or_refused_def)
  qed
  have prevent: "does ?C (call_ClosedToOpen (\<lambda>vt. co_Prevent vt ctx start)) (\<lambda>b c. ?C c \<and> (closed \<longrightarrow> \<not> b))" for start
    by (rule does_Prevent) (use never in \<open>auto simp: keeps_closed_def never_prevents_def\<close>)
  have "does (\<lambda>c. ?C c \<and> (closed \<longrightarrow> \<not> b)) (if b then greturn (Some errCircuitOpen)
      else gbind (add_commands 1) (\<lambda>cur. gdefer (gseq (add_commands (-1)) (greturn ()))
        (run_admitted fuel env ctx start (ac_MaxConcurrentRequests T) cur rf))) ?Q" for b start
  proof (cases b)
    case True
    then show ?thesis by (auto simp: admitted_or_refused_def intro!: does_pre does_greturn)
  next
    case False
    have "does ?C (gbind (add_commands 1) (\<lambda>cur. gdefer (gseq (add_commands (-1)) (greturn ()))
        (run_admitted fuel env ctx start (ac_MaxConcurrentRequests T) cur rf))) ?Q"
      by (rule does_gbind [OF does_counting(1) [OF k]]) (rule body)
    then show ?thesis using False by simp
  qed
  note prevented = does_gbind [OF prevent this]
  have "does (\<lambda>c. ?C c \<and> (closed \<and> \<not> ac_ForceOpen T \<longrightarrow> a)) (if \<not> a
      then gseq (RunMetricsCollection_send env EvErrShortCircuit ctx start) (greturn (Some errCircuitOpen))
      else gbind (call_ClosedToOpen (\<lambda>vt. co_Prevent vt ctx start)) (\<lambda>prevented.
        if prevented then greturn (Some errCircuitOpen)
        else gbind (add_commands 1) (\<lambda>cur. gdefer (gseq (add_commands (-1)) (greturn ()))
          (run_admitted fuel env ctx start (ac_MaxConcurrentRequests T) cur rf)))) ?Q" for a start
    using prevented [of start]
    by (cases a) (auto simp: admitted_or_refused_def intro!: does_pre does_gseq [OF does_send [OF q(1)]] does_greturn)
  note allowed = does_gbind [OF does_allow this]
  have "does (\<lambda>c. ?C c \<and> ac_MaxConcurrentRequests (c_threadSafeConfig c) = m) (gbind (allowNewRun ctx start m) (\<lambda>a. if \<not> a
      then gseq (RunMetricsCollection_send env EvErrShortCircuit ctx start) (greturn (Some errCircuitOpen))
      else gbind (call_ClosedToOpen (\<lambda>vt. co_Prevent vt ctx start)) (\<lambda>prevented.
        if prevented then greturn (Some errCircuitOpen)
        else gbind (add_commands 1) (\<lambda>cur. gdefer (gseq (add_commands (-1)) (greturn ()))
          (run_admitted fuel env ctx start m cur rf))))) ?Q" for m start
  proof (cases "m = ac_MaxConcurrentRequests T")
    case True
    have "does ?C (gbind (allowNewRun ctx start (ac_MaxConcurrentRequests T)) (\<lambda>a. if \<not> a
      then gseq (RunMetricsCollection_send env EvErrShortCircuit ctx start) (greturn (Some errCircuitOpen))
      else gbind (call_ClosedToOpen (\<lambda>vt. co_Prevent vt ctx start)) (\<lambda>prevented.
        if prevented then greturn (Some errCircuitOpen)
        else gbind (add_commands 1) (\<lambda>cur. gdefer (gseq (add_commands (-1)) (greturn ()))
          (run_admitted fuel env ctx start (ac_MaxConcurrentRequests T) cur rf))))) ?Q"
      by (rule allowed)
    then show ?thesis using True by (auto elim: does_mono)
  qed (auto simp: does_def calm_def)
  then show ?thesis
    unfolding run_def by (intro does_gbind [OF does_now] does_get) simp
qed

lemma does_fallback_send:
  assumes "quiet env"
  shows "does (calm closed T k j) (FallbackMetricsCollection_send env ev ctx now) (\<lambda>_. calm closed T k j)"
  by (simp add: does_def quiet_fallback_send [OF assms])

lemma does_fallback:
  assumes q: "quiet env" and k: "in_int64 k" "in_int64 j"
    and f: "\<And>ctx e. does (calm closed T k (add64 j 1)) (f ctx e) (\<lambda>r c. calm closed T k (add64 j 1) c \<and> F r)"
  shows "does (calm closed T k j) (fallback env ctx e (Some f)) (\<lambda>r c. calm closed T k j c \<and> fallback_result T j e F r)"
proof -
  let ?C = "calm closed T k j" and ?C1 = "calm closed T k (add64 j 1)" and ?mx = "ac_FallbackMaxConcurrentRequests T"
  let ?Q = "\<lambda>r c. ?C1 c \<and> (if 0 \<le> ?mx \<and> ?mx < add64 j 1 then r = Some errThrottledConcurrentFallbacks else F r)"
  have tell: "does (\<lambda>c. ?C1 c \<and> F r) (gseq (FallbackMetricsCollection_send env ev ctx now) (greturn r)) (\<lambda>r c. ?C1 c \<and> F r)" for r ev now
    by (intro does_pre does_gseq [OF does_fallback_send [OF q]] does_greturn) simp
  have call: "does ?C1 (gbind (f ctx e) (\<lambda>retErr. gbind c_now (\<lambda>t.
       let totalCmdTime = time_Sub t start in
       if retErr \<noteq> None
       then gseq (FallbackMetricsCollection_send env (FbErrFailure totalCmdTime) ctx start) (greturn retErr)
       else gseq (FallbackMetricsCollection_send env (FbSuccess totalCmdTime) ctx start) (greturn None)))) (\<lambda>r c. ?C1 c \<and> F r)" for start
  proof (rule does_gbind [OF f])
    fix ret
    have "does (\<lambda>c. ?C1 c \<and> F ret) c_now (\<lambda>_ c. ?C1 c \<and> F ret)"
      by (rule does_pre, rule does_mono [OF does_now]) auto
    then show "does (\<lambda>c. ?C1 c \<and> F ret) (gbind c_now (\<lambda>t.
       let totalCmdTime = time_Sub t start in
       if ret \<noteq> None
       then gseq (FallbackMetricsCollection_send env (FbErrFailure totalCmdTime) ctx start) (greturn ret)
       else gseq (FallbackMetricsCollection_send env (FbSuccess totalCmdTime) ctx start) (greturn None))) (\<lambda>r c. ?C1 c \<and> F r)"
      unfolding Let_def by (rule does_gbind) (cases ret; use tell in simp)
  qed
  have body: "does ?C1 (fallback_admitted env ctx e (add64 j 1) f) ?Q"
  proof -
    have "does (\<lambda>c. ?C1 c \<and> ac_FallbackMaxConcurrentRequests (c_threadSafeConfig c) = mx)
       (gbind c_now (\<lambda>startTime.
     if mx \<ge> 0 \<and> add64 j 1 > mx
     then gseq (FallbackMetricsCollection_send env FbErrConcurrencyLimitReject ctx startTime)
            (greturn (Some errThrottledConcurrentFallbacks))
     else gbind (f ctx e) (\<lambda>retErr.
       gbind c_now (\<lambda>t.
       let totalCmdTime = time_Sub t startTime in
       if retErr \<noteq> None
       then gseq (FallbackMetricsCollection_send env (FbErrFailure totalCmdTime) ctx startTime) (greturn retErr)
       else gseq (FallbackMetricsCollection_send env (FbSuccess totalCmdTime) ctx startTime) (greturn None))))) ?Q" for mx
    proof (cases "mx = ?mx")
      case True
      show ?thesis
        unfolding True
      proof (rule does_mono [where P = ?C1, OF does_gbind [OF does_now does_if]])
        fix start
        show "does ?C1 (gseq (FallbackMetricsCollection_send env FbErrConcurrencyLimitReject ctx start)
            (greturn (Some errThrottledConcurrentFallbacks))) ?Q" if "0 \<le> ?mx \<and> ?mx < add64 j 1"
          using that by (intro does_gseq [OF does_fallback_send [OF q]] does_greturn) simp
        show "does ?C1 (gbind (f ctx e) (\<lambda>retErr. gbind c_now (\<lambda>t.
           let totalCmdTime = time_Sub t start in
           if retErr \<noteq> None
           then gseq (FallbackMetricsCollection_send env (FbErrFailure totalCmdTime) ctx start) (greturn retErr)
           else gseq (FallbackMetricsCollection_send env (FbSuccess totalCmdTime) ctx start) (greturn None)))) ?Q"
          if "\<not> (0 \<le> ?mx \<and> ?mx < add64 j 1)"
          by (rule does_mono [OF call]) (use that in auto)
      qed simp_all
    qed (auto simp: does_def calm_def)
    then show ?thesis unfolding fallback_admitted_def comp_def by (intro does_get)
  qed
  have counted: "does (\<lambda>c. ?C1 c \<and> cur = add64 j 1) (gdefer (gseq (add_fallbacks (-1)) (greturn ()))
      (fallback_admitted env ctx e cur f)) (\<lambda>r c. ?C c \<and> (if 0 \<le> ?mx \<and> ?mx < add64 j 1 then r = Some errThrottledConcurrentFallbacks else F r))" for cur
    by (rule does_pre) (auto intro!: does_gdefer [OF body does_counting(4) [OF k]])
  have run: "does ?C (gbind (add_fallbacks 1) (\<lambda>cur. gdefer (gseq (add_fallbacks (-1)) (greturn ()))
      (fallback_admitted env ctx e cur f))) (\<lambda>r c. ?C c \<and> (if 0 \<le> ?mx \<and> ?mx < add64 j 1 then r = Some errThrottledConcurrentFallbacks else F r))"
    by (rule does_gbind [OF does_counting(3) [OF k] counted])
  have "does (\<lambda>c. ?C c \<and> ac_FallbackDisabled (c_threadSafeConfig c) = disabled) (if disabled then greturn e
      else gbind (add_fallbacks 1) (\<lambda>cur. gdefer (gseq (add_fallbacks (-1)) (greturn ()))
        (fallback_admitted env ctx e cur f))) (\<lambda>r c. ?C c \<and> fallback_result T j e F r)" for disabled
  proof (cases "disabled = ac_FallbackDisabled T")
    case True
    show ?thesis
      unfolding True
      by (rule does_if; rule does_mono [where P = ?C, OF does_greturn] does_mono [OF run]) (auto simp: fallback_result_def)
  qed (auto simp: does_def calm_def)
  then show ?thesis unfolding fallback_def comp_def by (simp add: does_get)
qed

text \<open>A call, from its start to its end.\<close>

lemma does_Execute:
  assumes q: "quiet env" "3 \<le> fuel" and never: "closed \<Longrightarrow> keeps_closed cvt cok" and k: "in_int64 k" "in_int64 j"
    and rf: "\<And>ctx' k. given_ctx (env_wall env) T ctx ctx' \<Longrightarrow> does (calm closed T k j) (rf ctx') (\<lambda>r c. calm closed T k j c \<and> R r)"
    and f: "\<And>f. fo = Some f \<Longrightarrow> \<exists>F. Fo = Some F \<and>
      (\<forall>ctx e. does (calm closed T k (add64 j 1)) (f ctx e) (\<lambda>r c. calm closed T k (add64 j 1) c \<and> F r))"
    and none: "fo = None \<Longrightarrow> Fo = None"
  shows "does (calm closed T k j) (Execute fuel env ctx (Some rf) fo) (\<lambda>r c. calm closed T k j c \<and> call_result closed T k j R Fo r)"
proof -
  let ?C = "calm closed T k j"
  let ?Q = "\<lambda>r c. ?C c \<and> call_result closed T k j R Fo r"
  have fb: "does ?C (fallback env ctx e fo) (\<lambda>r c. ?C c \<and> (case Fo of None \<Rightarrow> r = e | Some F \<Rightarrow> fallback_result T j e F r))" for e
  proof (cases fo)
    case None
    then show ?thesis using none by (auto simp: fallback_def intro: does_greturn)
  next
    case (Some g)
    then obtain F where F: "Fo = Some F"
      "\<And>ctx e. does (calm closed T k (add64 j 1)) (g ctx e) (\<lambda>r c. calm closed T k (add64 j 1) c \<and> F r)" using f by blast
    show ?thesis using does_fallback [OF q(1) k F(2), of ctx e] Some F(1) by simp
  qed
  have "does (\<lambda>c. ?C c \<and> (isEmptyOrNil c \<or> ac_Disabled (c_threadSafeConfig c)) = passthrough) (if passthrough then rf ctx
      else gbind (run fuel env ctx rf) (\<lambda>e. if e = None then greturn None
        else if IsBadRequest e then greturn e else fallback env ctx e fo)) ?Q" for passthrough
  proof (cases "passthrough = ac_Disabled T")
    case True
    have handle: "does (\<lambda>c. ?C c \<and> admitted_or_refused closed T k R e) (if e = None then greturn None
        else if IsBadRequest e then greturn e else fallback env ctx e fo)
        (\<lambda>r c. ?C c \<and> (if e = None \<or> IsBadRequest e then r = e else case Fo of None \<Rightarrow> r = e | Some F \<Rightarrow> fallback_result T j e F r) \<and>
          admitted_or_refused closed T k R e)" for e
      by (rule does_pre) (auto intro!: does_greturn does_mono [OF fb])
    have ran: "does ?C (run fuel env ctx rf) (\<lambda>r c. ?C c \<and> admitted_or_refused closed T k R r)" if "\<not> ac_Disabled T"
      by (rule does_run [OF q never k that rf]) simp_all
    have "does ?C (gbind (run fuel env ctx rf) (\<lambda>e. if e = None then greturn None
        else if IsBadRequest e then greturn e else fallback env ctx e fo)) ?Q" if "\<not> ac_Disabled T"
      by (rule does_gbind [OF ran [OF that]], rule does_mono [OF handle]) (use that call_resultI in blast)+
    moreover have "does ?C (rf ctx) ?Q" if "ac_Disabled T"
      by (rule does_mono [OF rf]) (use that in \<open>auto simp: call_result_def given_ctx_def\<close>)
    ultimately show ?thesis unfolding True by (auto intro!: does_if elim: does_mono)
  next
    case False
    then show ?thesis by (auto simp: does_def calm_def isEmptyOrNil_def logic_ready_def)
  qed
  then show ?thesis unfolding Execute_def by (simp add: does_get)
qed

end

subsection \<open>A listener that keeps flipping the circuit\<close>

text \<open>
  Quiet listeners are not enough said with listeners that return. \<open>flipping_env\<close> has a listener that answers each transition
  with the opposite one. Every call of it returns, since its own transition is only queued while another one is
  being told; but then the queue is never empty, and the call that told the first transition never returns.
\<close>

definition flipping_env :: "('p, 'q) Env \<Rightarrow> ('p, 'q) Env" where
  "flipping_env env = env\<lparr>env_transition := (\<lambda>_ opn ctx now. if opn then CloseCircuit 1 env ctx else OpenCircuit 1 env ctx)\<rparr>"

context circuit_logic
begin

definition flip_waits :: "nat \<Rightarrow> bool \<Rightarrow> ('p, 'q) Circuit \<Rightarrow> bool" where
  "flip_waits k d c \<longleftrightarrow> ready c \<and> \<not> c_transitionMu c \<and> c_deliveringTransitions c = d \<and> c_CircuitMetricsCollector c = [k] \<and>
     (\<exists>t. c_pendingTransitions c = [t] \<and> tr_open t = c_isOpen c)"

lemma flip_commits:
  assumes "ready c" "\<not> c_transitionMu c" "c_pendingTransitions c = []" "c_isOpen c \<noteq> opn" "c_CircuitMetricsCollector c = [k]"
  shows "\<exists>c'. commitTransition ctx now opn None c = (Returns True, c') \<and> flip_waits k (c_deliveringTransitions c) c'"
proof -
  obtain fin c1 clk where c1: "commitTransition ctx now opn None c = (Returns fin, c1)" "ready c1" "fin"
    "core c1 = core (c\<lparr>c_isOpen := opn, c_readings := Suc (c_readings c), c_pendingTransitions := c_pendingTransitions c @
            [\<lparr>tr_open = opn, tr_ctx = ctx, tr_now = max now (clk (c_readings c))\<rparr>]\<rparr>)"
    using commit_ready [OF assms(1,2), of None ctx now opn] assms(4) by (auto split: if_splits)
  show ?thesis
    using c1(1,2,3) core_fields [OF c1(4)] assms by (simp add: flip_waits_def)
qed

lemma flip_returns:
  assumes "ready c" "\<not> c_transitionMu c" "c_deliveringTransitions c" "c_pendingTransitions c = []" "c_CircuitMetricsCollector c = [k]"
  shows "\<exists>c'. env_transition (flipping_env env) k (c_isOpen c) ctx now c = (Returns (), c') \<and> flip_waits k True c'"
proof -
  obtain t c0 where c0: "c_now c = (Returns t, c0)" "ready c0" "c0 = c\<lparr>c_readings := Suc (c_readings c)\<rparr>"
    using now_ready [OF assms(1)] by blast
  obtain c1 where c1: "commitTransition ctx t (\<not> c_isOpen c) None c0 = (Returns True, c1)" "flip_waits k True c1"
    using flip_commits [of c0 "\<not> c_isOpen c" k ctx t] c0(2,3) assms by auto
  have "deliverPendingTransitions 1 env c1 = (Returns (), c1)"
    using c1(2) by (simp add: go_simps lock_run unlock_run flip_waits_def mu_same)
  moreover have "env_transition (flipping_env env) k (c_isOpen c) ctx now =
      gbind c_now (\<lambda>now. transitionTo 1 env ctx now (\<not> c_isOpen c) None)"
    by (simp add: flipping_env_def CloseCircuit_def OpenCircuit_def)
  ultimately show ?thesis
    using c0 c1 by (simp add: transitionTo_def gbind_run go_run gwhen_run)
qed

lemma flipping_listener_loop:
  assumes "flip_waits k True (c\<lparr>c_transitionMu := False\<rparr>)" "c_transitionMu c"
  shows "\<exists>c'. deliver_loop fuel (flipping_env env) c = (Blocks, c')"
  using assms
proof (induction fuel arbitrary: c)
  case (Suc fuel)
  obtain t where t: "c_pendingTransitions c = [t]" "tr_open t = c_isOpen c" using Suc.prems by (auto simp: flip_waits_def)
  let ?c = "c\<lparr>c_pendingTransitions := [], c_transitionMu := False, c_log := c_log c @ [LgTransition k (c_isOpen c) (tr_ctx t) (tr_now t)]\<rparr>"
  have "ready ?c" using Suc.prems(1) by (simp add: flip_waits_def logic_ready_def)
  then obtain c1 where c1: "env_transition (flipping_env env) k (c_isOpen c) (tr_ctx t) (tr_now t) ?c = (Returns (), c1)" "flip_waits k True c1"
    using flip_returns [of ?c k env "tr_ctx t" "tr_now t"] Suc.prems(1) by (auto simp: flip_waits_def)
  have "notifyListeners (flipping_env env) t (c\<lparr>c_pendingTransitions := [], c_transitionMu := False\<rparr>) = (Returns (), c1)"
    using Suc.prems(1) c1(1) t(2)
    by (cases "tr_open t") (simp_all add: notifyListeners_def MetricsCollection_send_def go_simps flip_waits_def)
  moreover have "c1\<lparr>c_transitionMu := True, c_transitionMu := False\<rparr> = c1" using c1(2) by (simp add: mu_same flip_waits_def)
  then have "\<exists>c'. deliver_loop fuel (flipping_env env) (c1\<lparr>c_transitionMu := True\<rparr>) = (Blocks, c')"
    using c1(2) by (intro Suc.IH) simp_all
  ultimately show ?case
    using c1(2) t(1) Suc.prems(2) by (auto simp: go_simps unlock_run lock_run flip_waits_def)
qed (simp add: go_run)

lemma flipping_listener_never_returns:
  assumes "ready c" "\<not> c_transitionMu c" "\<not> c_deliveringTransitions c" "c_pendingTransitions c = []"
    and "\<not> c_isOpen c" "c_CircuitMetricsCollector c = [k]"
  shows "\<exists>c'. OpenCircuit fuel (flipping_env env) ctx c = (Blocks, c')"
proof -
  obtain t c0 where c0: "c_now c = (Returns t, c0)" "ready c0" "c0 = c\<lparr>c_readings := Suc (c_readings c)\<rparr>"
    using now_ready [OF assms(1)] by blast
  obtain c1 where c1: "commitTransition ctx t True None c0 = (Returns True, c1)" "flip_waits k False c1"
    using flip_commits [of c0 True k ctx t] c0(2,3) assms by auto
  have "\<exists>c'. deliverPendingTransitions fuel (flipping_env env) c1 = (Blocks, c')"
  proof (cases fuel)
    case (Suc n)
    have "\<exists>c'. deliver_loop n (flipping_env env) (c1\<lparr>c_transitionMu := True, c_deliveringTransitions := True\<rparr>) = (Blocks, c')"
      by (rule flipping_listener_loop [where k = k]) (use c1(2) in \<open>simp_all add: flip_waits_def logic_ready_def\<close>)
    then show ?thesis
      using c1(2) Suc by (auto simp: go_simps lock_run flip_waits_def on_abnormal_exit_def)
  qed (simp add: go_run)
  then show ?thesis
    using c0 c1(1) assms(5) by (auto simp: OpenCircuit_def transitionTo_def gbind_run go_run gwhen_run)
qed

end

text \<open>C13: A call comes back. The listeners return and do nothing to the circuit (\<open>quiet\<close>), and any logic that keeps
  its contract may be in place. The run function and the fallback return from a calm circuit and leave it calm:
  the transition lock free, no transition waiting to be told, the counters and the configuration as they found them,
  and still closed when the logic never opens; they may call the same circuit again. Then \<^verbatim>\<open>Execute\<close> on a calm circuit returns and leaves
  it calm, and its result is what the run function gave, or the fallback's answer to its error, to the open circuit or to a
  reached limit, or a refusal of the fallback; a circuit whose logic never opens refuses nothing but
  when it is forced open or a limit is reached. Listeners that open or close the circuit are not covered:
  with one that does so each time, a call may run for ever (\<open>flipping_listener_never_returns\<close>).
\<close>

theorem calls_come_back:
  fixes c :: "('p, 'q) Circuit"
  assumes "circuit_logic cvt cok ovt ook" "quiet env" "3 \<le> fuel" "closed \<Longrightarrow> keeps_closed cvt cok"
    and "in_int64 k" "in_int64 j" "calm_circuit cvt cok ovt ook closed T k j c"
    and "\<And>ctx' k. given_ctx (env_wall env) T ctx ctx' \<Longrightarrow>
      does (calm_circuit cvt cok ovt ook closed T k j) (rf ctx') (\<lambda>r c. calm_circuit cvt cok ovt ook closed T k j c \<and> R r)"
    and "\<And>ctx e. does (calm_circuit cvt cok ovt ook closed T k (add64 j 1)) (f ctx e)
      (\<lambda>r c. calm_circuit cvt cok ovt ook closed T k (add64 j 1) c \<and> F r)"
  shows "\<exists>r c'. Execute fuel env ctx (Some rf) (Some f) c = (Returns r, c') \<and>
    calm_circuit cvt cok ovt ook closed T k j c' \<and> call_result closed T k j R (Some F) r"
proof -
  have "does (calm_circuit cvt cok ovt ook closed T k j) (Execute fuel env ctx (Some rf) (Some f))
      (\<lambda>r c. calm_circuit cvt cok ovt ook closed T k j c \<and> call_result closed T k j R (Some F) r)"
    by (rule circuit_logic.does_Execute [OF assms(1-6)]) (use assms(8,9) in auto)
  from doesD [OF this assms(7)] show ?thesis .
qed

lemma neverOpens_keeps_closed: "keeps_closed neverOpens ok"
  by (simp add: keeps_closed_def neverOpens_def go_run)

theorem calls_come_back_witness:
  "\<exists>c'. Execute 3 (quiet_env int) ctx_Background (Some (\<lambda>_. greturn (Some err_Canceled))) (Some (\<lambda>_ _. greturn None))
      example_circuit = (Returns None, c') \<and> \<not> c_isOpen c' \<and> c_concurrentCommands c' = 0"
proof -
  let ?calm = "calm_circuit neverOpens (\<lambda>_. True) neverCloses (\<lambda>_. True) True (c_threadSafeConfig example_circuit)"
  have calm: "?calm 0 0 example_circuit"
    using example_ready(1) by (simp add: calm_circuit_def) (simp add: example_circuit_def zero_Circuit_def)
  obtain r c' where "Execute 3 (quiet_env int) ctx_Background (Some (\<lambda>_. greturn (Some err_Canceled))) (Some (\<lambda>_ _. greturn None))
      example_circuit = (Returns r, c')" "?calm 0 0 c'"
    and r: "call_result True (c_threadSafeConfig example_circuit) 0 0 (\<lambda>r. r = Some err_Canceled) (Some (\<lambda>r. r = None)) r"
    using calls_come_back [OF default_logic.circuit_logic_axioms _ _ neverOpens_keeps_closed _ _ calm,
        where env = "quiet_env int" and fuel = 3 and ctx = ctx_Background and rf = "\<lambda>_. greturn (Some err_Canceled)"
          and R = "\<lambda>r. r = Some err_Canceled" and f = "\<lambda>_ _. greturn None" and F = "\<lambda>r. r = None"]
    by (auto simp: does_greturn in_int64_def min_int64_def max_int64_def)
  moreover have "r = None"
    using r by (auto simp: call_result_def admitted_or_refused_def fallback_result_def example_circuit_def
        zero_Circuit_def zero_atomicCircuitConfig_def add64_exact in_int64_def min_int64_def max_int64_def
        err_Canceled_def IsBadRequest.simps)
  ultimately show ?thesis by (auto simp: calm_circuit_def)
qed

end
