(* ===== verification/Atomics.thy ===== *)
theory Atomics
  imports Go_Prelude
begin

text \<open>
  Model of \<^verbatim>\<open>faststats/atomic.go\<close>: a boolean and an integer that are read and written atomically, with their
  text and JSON forms.

  The text forms are those of the package \<^verbatim>\<open>strconv\<close>. Of the package \<^verbatim>\<open>encoding/json\<close> the code uses the encoding of a
  bool and of an \<^verbatim>\<open>int64\<close>, and the decoding into a fresh variable of these types: blanks around the value are
  skipped, \<^verbatim>\<open>null\<close> leaves the variable at its zero value, a number is accepted when it is an integer literal
  in range, and everything else is an error. The model does not tell the errors apart.
\<close>

subsection \<open>Decimal digits\<close>

fun digits :: "nat \<Rightarrow> string" where
  "digits n = (if n < 10 then [char_of (48 + n)] else digits (n div 10) @ [char_of (48 + n mod 10)])"

declare digits.simps [simp del]

lemma digits_step:
  "n < 10 \<Longrightarrow> digits n = [char_of (48 + n)]"
  "10 \<le> n \<Longrightarrow> digits n = digits (n div 10) @ [char_of (48 + n mod 10)]"
  by (simp_all add: digits.simps [of n])

definition FormatInt :: "int64 \<Rightarrow> string" where
  "FormatInt i = (if i < 0 then CHR ''-'' # digits (nat (- i)) else digits (nat i))"

definition FormatBool :: "bool \<Rightarrow> string" where
  "FormatBool b = (if b then ''true'' else ''false'')"

definition is_digit :: "char \<Rightarrow> bool" where
  "is_digit c \<longleftrightarrow> 48 \<le> (of_char c :: nat) \<and> (of_char c :: nat) \<le> 57"

definition digits_value :: "string \<Rightarrow> nat" where
  "digits_value s = foldl (\<lambda>n c. 10 * n + (of_char c - 48)) 0 s"

lemma digits_value_snoc [simp]: "digits_value (s @ [c]) = 10 * digits_value s + (of_char c - 48)"
  by (simp add: digits_value_def)

lemma of_char_digit [simp]: "d < 10 \<Longrightarrow> (of_char (char_of (48 + d) :: char) :: nat) = 48 + d"
  by simp

lemma is_digit_of_digit [simp]: "(d :: nat) < 10 \<Longrightarrow> is_digit (char_of (48 + d))"
  by (simp add: is_digit_def del: of_char_of)

lemma digits_value_digits [simp]: "digits_value (digits n) = n"
proof (induction n rule: digits.induct)
  case (1 n)
  show ?case
  proof (cases "n < 10")
    case False
    then have "digits_value (digits n) = 10 * (n div 10) + n mod 10"
      using 1 by (simp add: digits.simps [of n] del: of_char_of)
    then show ?thesis by simp
  qed (simp add: digits.simps [of n] digits_value_def)
qed

lemma digits_are_digits: "list_all is_digit (digits n)"
proof (induction n rule: digits.induct)
  case (1 n)
  then show ?case by (subst digits.simps) simp
qed

lemma digits_not_Nil [simp]: "digits n \<noteq> []"
  by (subst digits.simps) simp

lemma hd_digits_zero: "hd (digits n) = CHR ''0'' \<Longrightarrow> n = 0"
proof (induction n rule: digits.induct)
  case (1 n)
  show ?case
  proof (cases "n < 10")
    case True
    then have "char_of (48 + n) = CHR ''0''" using 1(2) by (simp add: digits.simps [of n])
    then have "48 + n = (of_char (CHR ''0'') :: nat)" using True of_char_digit [of n] by simp
    then show ?thesis by simp
  next
    case False
    then have "hd (digits (n div 10)) = CHR ''0''" using 1(2) by (simp add: digits.simps [of n])
    then show ?thesis using 1(1) False by simp
  qed
qed

lemma digit_chars:
  "char_of (48 :: nat) = CHR ''0''"
  "char_of (49 :: nat) = CHR ''1''"
  "char_of (50 :: nat) = CHR ''2''"
  "char_of (51 :: nat) = CHR ''3''"
  "char_of (52 :: nat) = CHR ''4''"
  "char_of (53 :: nat) = CHR ''5''"
  "char_of (54 :: nat) = CHR ''6''"
  "char_of (55 :: nat) = CHR ''7''"
  "char_of (56 :: nat) = CHR ''8''"
  "char_of (57 :: nat) = CHR ''9''"
  using char_of_char [where 'a = nat, of "CHR ''0''"]
    char_of_char [where 'a = nat, of "CHR ''1''"]
    char_of_char [where 'a = nat, of "CHR ''2''"]
    char_of_char [where 'a = nat, of "CHR ''3''"]
    char_of_char [where 'a = nat, of "CHR ''4''"]
    char_of_char [where 'a = nat, of "CHR ''5''"]
    char_of_char [where 'a = nat, of "CHR ''6''"]
    char_of_char [where 'a = nat, of "CHR ''7''"]
    char_of_char [where 'a = nat, of "CHR ''8''"]
    char_of_char [where 'a = nat, of "CHR ''9''"]
  by simp_all

lemma digits_zero [simp]: "digits 0 = ''0''"
  by (simp add: digits.simps digit_chars)

subsection \<open>JSON\<close>

definition json_space :: "char \<Rightarrow> bool" where
  "json_space c \<longleftrightarrow> c \<in> {CHR '' '', CHR 0x09, CHR 0x0A, CHR 0x0D}"

definition json_trim :: "string \<Rightarrow> string" where
  "json_trim s = rev (dropWhile json_space (rev (dropWhile json_space s)))"

text \<open>An integer literal has digits and no leading zero; one with a fraction or an exponent is no \<^verbatim>\<open>int64\<close> to the decoder.\<close>

definition json_nat :: "string \<Rightarrow> nat option" where
  "json_nat s = (if s \<noteq> [] \<and> list_all is_digit s \<and> (hd s = CHR ''0'' \<longrightarrow> length s = 1)
                 then Some (digits_value s) else None)"

definition json_integer :: "string \<Rightarrow> int option" where
  "json_integer s = (case s of
     [] \<Rightarrow> None
   | c # cs \<Rightarrow> if c = CHR ''-'' then map_option (\<lambda>n. - int n) (json_nat cs) else map_option int (json_nat s))"

definition json_Unmarshal_int64 :: "string \<Rightarrow> int64 option" where
  "json_Unmarshal_int64 b = (let s = json_trim b in
     if s = ''null'' then Some 0
     else case json_integer s of
       None \<Rightarrow> None
     | Some i \<Rightarrow> if in_int64 i then Some i else None)"

definition json_Unmarshal_bool :: "string \<Rightarrow> bool option" where
  "json_Unmarshal_bool b = (let s = json_trim b in
     if s = ''null'' then Some False
     else if s = ''true'' then Some True
     else if s = ''false'' then Some False
     else None)"

lemma json_trim_padded:
  assumes "list_all json_space pre" "list_all json_space post"
    and "s \<noteq> []" "\<not> json_space (hd s)" "\<not> json_space (last s)"
  shows "json_trim (pre @ s @ post) = s"
proof -
  have "dropWhile json_space (pre @ s @ post) = s @ post"
    using assms by (cases s) (auto simp: list_all_iff dropWhile_append)
  moreover have "dropWhile json_space (rev post @ rev s) = rev s"
    using assms by (cases s rule: rev_cases) (auto simp: list_all_iff dropWhile_append)
  ultimately show ?thesis by (simp add: json_trim_def)
qed

lemma digit_is_no_space: "is_digit c \<Longrightarrow> \<not> json_space c"
  by (auto simp: is_digit_def json_space_def)

lemma digit_is_no_sign: "is_digit c \<Longrightarrow> c \<noteq> CHR ''-'' \<and> c \<noteq> CHR ''n''"
  by (auto simp: is_digit_def)

lemma json_nat_digits: "json_nat (digits n) = Some n"
  by (auto simp: json_nat_def digits_are_digits dest: hd_digits_zero)

lemma hd_digits: "is_digit (hd (digits n))"
  using digits_are_digits [of n] by (cases "digits n") auto

lemma last_digits: "is_digit (last (digits n))"
  using digits_are_digits [of n] by (simp add: list_all_iff)

lemma json_integer_FormatInt: "json_integer (FormatInt i) = Some i"
proof (cases "i < 0")
  case True
  then show ?thesis by (simp add: FormatInt_def json_integer_def json_nat_digits)
next
  case False
  obtain c cs where c: "digits (nat i) = c # cs" by (cases "digits (nat i)") auto
  then have "c \<noteq> CHR ''-''" using hd_digits [of "nat i"] digit_is_no_sign by auto
  then show ?thesis using False json_nat_digits [of "nat i"] c by (simp add: FormatInt_def json_integer_def)
qed

lemma FormatInt_inject: "FormatInt i = FormatInt j \<longleftrightarrow> i = j"
  using json_integer_FormatInt by (metis option.inject)

lemma FormatInt_shape:
  "FormatInt i \<noteq> []" "\<not> json_space (hd (FormatInt i))" "\<not> json_space (last (FormatInt i))" "FormatInt i \<noteq> ''null''"
proof -
  show "FormatInt i \<noteq> []" by (simp add: FormatInt_def)
  show "\<not> json_space (hd (FormatInt i))"
    by (auto simp: FormatInt_def digit_is_no_space hd_digits) (simp add: json_space_def)
  show "\<not> json_space (last (FormatInt i))" by (auto simp: FormatInt_def digit_is_no_space last_digits)
  have "hd (FormatInt i) \<noteq> CHR ''n''"
    using hd_digits digit_is_no_sign by (auto simp: FormatInt_def)
  then show "FormatInt i \<noteq> ''null''" by auto
qed

subsection \<open>The atomic values\<close>

record AtomicBoolean =
  ab_Bool :: bool

definition ab_Get :: "AtomicBoolean \<Rightarrow> bool" where
  "ab_Get a = ab_Bool a"

definition ab_Set :: "bool \<Rightarrow> AtomicBoolean \<Rightarrow> AtomicBoolean" where
  "ab_Set v a = a\<lparr>ab_Bool := v\<rparr>"

definition ab_String :: "AtomicBoolean \<Rightarrow> string" where
  "ab_String a = FormatBool (ab_Get a)"

definition ab_MarshalJSON :: "AtomicBoolean \<Rightarrow> string" where
  "ab_MarshalJSON a = FormatBool (ab_Get a)"

text \<open>\<^verbatim>\<open>UnmarshalJSON\<close> gives whether there is no error, and the value after the call.\<close>

definition ab_UnmarshalJSON :: "string \<Rightarrow> AtomicBoolean \<Rightarrow> bool \<times> AtomicBoolean" where
  "ab_UnmarshalJSON b a = (case json_Unmarshal_bool b of
     None \<Rightarrow> (False, a)
   | Some into \<Rightarrow> (True, ab_Set into a))"

record AtomicInt64 =
  ai_Int64 :: int64

definition ai_Get :: "AtomicInt64 \<Rightarrow> int64" where
  "ai_Get a = ai_Int64 a"

definition ai_Set :: "int64 \<Rightarrow> AtomicInt64 \<Rightarrow> AtomicInt64" where
  "ai_Set v a = a\<lparr>ai_Int64 := v\<rparr>"

definition ai_String :: "AtomicInt64 \<Rightarrow> string" where
  "ai_String a = FormatInt (ai_Get a)"

definition ai_Duration :: "AtomicInt64 \<Rightarrow> duration" where
  "ai_Duration a = ai_Get a"

definition ai_MarshalJSON :: "AtomicInt64 \<Rightarrow> string" where
  "ai_MarshalJSON a = FormatInt (ai_Get a)"

definition ai_UnmarshalJSON :: "string \<Rightarrow> AtomicInt64 \<Rightarrow> bool \<times> AtomicInt64" where
  "ai_UnmarshalJSON b a = (case json_Unmarshal_int64 b of
     None \<Rightarrow> (False, a)
   | Some into \<Rightarrow> (True, ai_Set into a))"

text \<open>The JSON form of an atomic integer or boolean determines it: whatever was stored before, reading what
  \<^verbatim>\<open>MarshalJSON\<close> wrote, with any blanks around it, succeeds and restores the value.
\<close>

theorem atomic_JSON_round_trip:
  assumes "list_all json_space pre" "list_all json_space post" "in_int64 (ai_Int64 a)"
  shows "ai_UnmarshalJSON (pre @ ai_MarshalJSON a @ post) a' = (True, a) \<and>
    ab_UnmarshalJSON (pre @ ab_MarshalJSON b @ post) b' = (True, b)"
proof
  have "json_trim (pre @ FormatInt (ai_Int64 a) @ post) = FormatInt (ai_Int64 a)"
    using json_trim_padded [OF assms(1,2)] FormatInt_shape by blast
  then show "ai_UnmarshalJSON (pre @ ai_MarshalJSON a @ post) a' = (True, a)"
    using assms(3) by (simp add: ai_UnmarshalJSON_def ai_MarshalJSON_def ai_Get_def ai_Set_def json_Unmarshal_int64_def
        FormatInt_shape(4) json_integer_FormatInt)
  have "json_trim (pre @ FormatBool v @ post) = FormatBool v" for v
    by (rule json_trim_padded [OF assms(1,2)]) (auto simp: FormatBool_def json_space_def)
  then show "ab_UnmarshalJSON (pre @ ab_MarshalJSON b @ post) b' = (True, b)"
    by (cases b) (simp add: ab_UnmarshalJSON_def ab_MarshalJSON_def ab_Get_def ab_Set_def json_Unmarshal_bool_def FormatBool_def)
qed

lemma atomic_JSON_round_trip_witness:
  "ai_UnmarshalJSON ('' '' @ ai_MarshalJSON \<lparr>ai_Int64 = -42\<rparr> @ [CHR 0x0A]) \<lparr>ai_Int64 = 7\<rparr> = (True, \<lparr>ai_Int64 = -42\<rparr>) \<and>
    ab_UnmarshalJSON ('' '' @ ab_MarshalJSON \<lparr>ab_Bool = True\<rparr> @ [CHR 0x0A]) \<lparr>ab_Bool = False\<rparr> = (True, \<lparr>ab_Bool = True\<rparr>)"
  by (rule atomic_JSON_round_trip) (simp_all add: json_space_def in_int64_def min_int64_def max_int64_def)

text \<open>Whatever bytes are read, the value stays a 64 bit integer, and an error leaves it as it was.\<close>

lemma ai_UnmarshalJSON_safe:
  assumes "ai_UnmarshalJSON s a = (ok, a')" "in_int64 (ai_Int64 a)"
  shows "in_int64 (ai_Int64 a')" "\<not> ok \<Longrightarrow> a' = a"
  using assms by (auto simp: ai_UnmarshalJSON_def ai_Set_def json_Unmarshal_int64_def Let_def in_int64_def
      min_int64_def max_int64_def split: option.splits if_splits)

text \<open>\<^verbatim>\<open>null\<close> is no error and overwrites the value with zero; a float is an error, as is a leading zero.\<close>

lemma ai_UnmarshalJSON_cases:
  "ai_UnmarshalJSON ''null'' a = (True, a\<lparr>ai_Int64 := 0\<rparr>)"
  "ai_UnmarshalJSON ''-0'' a = (True, a\<lparr>ai_Int64 := 0\<rparr>)"
  "ai_UnmarshalJSON ''1.0'' a = (False, a)"
  "ai_UnmarshalJSON ''01'' a = (False, a)"
  "ai_UnmarshalJSON ''9223372036854775808'' a = (False, a)"
  "ai_UnmarshalJSON ''-9223372036854775808'' a = (True, a\<lparr>ai_Int64 := min_int64\<rparr>)"
  by (simp_all add: ai_UnmarshalJSON_def ai_Set_def json_Unmarshal_int64_def json_trim_def json_space_def
      json_integer_def json_nat_def is_digit_def digits_value_def in_int64_def min_int64_def max_int64_def)

end
