(* ===== verification/Formatting.thy ===== *)
theory Formatting
  imports Atomics RollingPercentile RollingCounter "HOL-Library.Multiset"
begin

text \<open>
  The text forms of the windows of \<^verbatim>\<open>faststats\<close>: the methods \<^verbatim>\<open>String\<close>, \<^verbatim>\<open>StringAt\<close> and \<^verbatim>\<open>Var\<close> of
  \<^verbatim>\<open>rolling_bucket.go\<close>, \<^verbatim>\<open>rolling_counter.go\<close> and \<^verbatim>\<open>rolling_percentile.go\<close>, with what they use of
  \<^verbatim>\<open>strings.Join\<close> and of \<^verbatim>\<open>time.Duration.String\<close>. A value that \<^verbatim>\<open>Var\<close> exposes as a map is its list of keys and values.
\<close>

fun join :: "string \<Rightarrow> string list \<Rightarrow> string" where
  "join sep [] = []"
| "join sep [s] = s"
| "join sep (s # ss) = s @ sep @ join sep ss"

subsection \<open>Durations\<close>

text \<open>
  \<^verbatim>\<open>fmtFrac\<close> writes the last \<open>prec\<close> digits of \<open>v\<close> behind a point, without the zeros at their end, in front of \<open>out\<close>; what
  is left of \<open>v\<close> is the second result. \<open>print\<close> says whether a digit has been written.
\<close>

fun fmtFrac_loop :: "nat \<Rightarrow> nat \<Rightarrow> bool \<Rightarrow> string \<Rightarrow> string \<times> nat" where
  "fmtFrac_loop 0 v print out = (if print then CHR ''.'' # out else out, v)"
| "fmtFrac_loop (Suc prec) v print out =
     (let digit = v mod 10; print' = (print \<or> digit \<noteq> 0) in
      fmtFrac_loop prec (v div 10) print' (if print' then char_of (48 + digit) # out else out))"

definition fmtFrac :: "nat \<Rightarrow> nat \<Rightarrow> string \<Rightarrow> string \<times> nat" where
  "fmtFrac prec v out = fmtFrac_loop prec v False out"

definition Duration_String :: "duration \<Rightarrow> string" where
  "Duration_String d =
     (let u = nat \<bar>d\<bar>;
          body =
            (if u < 1000000000 then
               (if u = 0 then ''0s''
                else let (out, v) =
                  (if u < 1000 then fmtFrac 0 u ''ns''
                   else if u < 1000000 then fmtFrac 3 u [CHR 0xC2, CHR 0xB5, CHR ''s'']
                   else fmtFrac 6 u ''ms'')
                in digits v @ out)
             else let (out, s) = fmtFrac 9 u ''s'';
                      seconds = digits (s mod 60) @ out; m = s div 60 in
               if m = 0 then seconds
               else let minutes = digits (m mod 60) @ ''m'' @ seconds; h = m div 60 in
                 if h = 0 then minutes else digits h @ ''h'' @ minutes)
      in if d < 0 then CHR ''-'' # body else body)"

lemma fmtFrac_loop_numeral [simp]:
  "fmtFrac_loop (numeral k) v print out =
     (if print \<or> v mod 10 \<noteq> 0
      then fmtFrac_loop (pred_numeral k) (v div 10) True (char_of (48 + v mod 10) # out)
      else fmtFrac_loop (pred_numeral k) (v div 10) False out)"
  by (simp add: numeral_eq_Suc [of k] Let_def)

lemma Duration_String_examples:
  "Duration_String 0 = ''0s''"
  "Duration_String 1500000 = ''1.5ms''"
  "Duration_String (-1) = ''-1ns''"
  "Duration_String 5025000000000 = ''1h23m45s''"
  by (simp_all add: Duration_String_def fmtFrac_def Let_def digits_step digit_chars)

subsection \<open>The windows\<close>

definition rb_String :: "RollingBuckets \<Rightarrow> string" where
  "rb_String r = ''RollingBucket(num='' @ FormatInt (rb_NumBuckets r) @ '', width='' @
     Duration_String (rb_BucketWidth r) @ '')''"

definition rc_StringAt :: "gotime \<Rightarrow> (string, RollingCounter) go" where
  "rc_StringAt now =
     gbind (rc_GetBuckets now) (\<lambda>b.
     gbind (gget rc_TotalSum) (\<lambda>totalSum.
     let rollingSum = fold (\<lambda>v sum. add64 sum v) b 0 in
     greturn (''rolling_sum='' @ FormatInt rollingSum @ '' total_sum='' @ FormatInt totalSum @
       '' parts=('' @ join '','' (map FormatInt b) @ '')'')))"

text \<open>\<open>wall\<close> is what \<^verbatim>\<open>time.Now()\<close> reads.\<close>

definition rc_String :: "gotime \<Rightarrow> (string, RollingCounter) go" where
  "rc_String wall = rc_StringAt wall"

definition rc_RollingSum :: "gotime \<Rightarrow> (int64, RollingCounter) go" where
  "rc_RollingSum wall = rc_RollingSumAt wall"

definition db_String :: "durationsBucket \<Rightarrow> string" where
  "db_String b = ''durationsBucket(idx='' @ FormatInt (db_currentIndex b) @ '')''"

definition sd_String :: "duration list \<Rightarrow> string" where
  "sd_String s = ''('' @ join '','' (map Duration_String s) @ '')''"

definition sd_Var :: "duration list \<Rightarrow> ((string \<times> string) list, 's) go" where
  "sd_Var s =
     gbind (sd_Percentile (Finite 25) s) (\<lambda>p25.
     gbind (sd_Percentile (Finite 50) s) (\<lambda>p50.
     gbind (sd_Percentile (Finite 90) s) (\<lambda>p90.
     gbind (sd_Percentile (Finite 99) s) (\<lambda>p99.
     greturn [(''min'', Duration_String (sd_Min s)), (''p25'', Duration_String p25), (''p50'', Duration_String p50),
       (''p90'', Duration_String p90), (''p99'', Duration_String p99), (''max'', Duration_String (sd_Max s)),
       (''mean'', Duration_String (sd_Mean s))]))))"

definition rp_Var :: "gotime \<Rightarrow> ((string \<times> (string \<times> string) list) list, RollingPercentile) go" where
  "rp_Var wall = gbind (rp_Snapshot wall) (\<lambda>s. gbind (sd_Var s) (\<lambda>snap. greturn [(''snap'', snap)]))"

lemma mset_GetBuckets:
  fixes xs :: "int64 list"
  assumes "int (length xs) = n" "0 < n"
  shows "mset (map (\<lambda>i. xs ! nat ((l - i) mod n)) [0..n - 1]) = mset xs"
proof -
  let ?A = "{0..n - 1}" and ?f = "\<lambda>i. (l - i) mod n"
  have inj: "inj_on ?f ?A"
  proof (rule inj_onI)
    fix i j
    assume "i \<in> ?A" "j \<in> ?A" "(l - i) mod n = (l - j) mod n"
    then have "n dvd (l - i) - (l - j)" "\<bar>j - i\<bar> < n" by (simp_all only: mod_eq_dvd_iff) auto
    then show "i = j" using dvd_imp_le_int [of "j - i" n] by (cases "i = j") auto
  qed
  moreover have "?f ` ?A = ?A"
    by (rule endo_inj_surj) (use assms(2) inj in auto)
  ultimately have perm: "image_mset ?f (mset_set ?A) = mset_set ?A" by (simp add: image_mset_mset_set)
  have up: "mset [0..n - 1] = mset_set ?A" by (simp flip: mset_set_set)
  have "mset (map (\<lambda>i. xs ! nat (?f i)) [0..n - 1]) = image_mset (\<lambda>j. xs ! nat j) (image_mset ?f (mset_set ?A))"
    by (simp only: mset_map up image_mset.compositionality o_def)
  also have "\<dots> = mset (map (\<lambda>j. xs ! nat j) [0..n - 1])" by (simp only: perm up mset_map)
  also have "map (\<lambda>j. xs ! nat j) [0..n - 1] = xs"
    using assms by (intro nth_equalityI) auto
  finally show ?thesis .
qed

text \<open>The rolling sum of \<^verbatim>\<open>StringAt\<close>, added up bucket by bucket backwards in time, is the one of \<^verbatim>\<open>RollingSumAt\<close>.\<close>

lemma StringAt_shows_RollingSumAt:
  assumes "rc_inv r" "rc_buckets r \<noteq> []"
  shows "\<exists>s r' parts. rc_RollingSumAt now r = (Returns s, r') \<and> rc_StringAt now r =
    (Returns (''rolling_sum='' @ FormatInt s @ '' total_sum='' @ FormatInt (rc_totalSum r) @
       '' parts=('' @ join '','' (map FormatInt parts) @ '')''), r') \<and> mset parts = mset (rc_buckets r')"
proof -
  obtain idx r' where r': "rc_Advance now r = (Returns idx, r')" "rc_inv r'"
    "length (rc_buckets r') = length (rc_buckets r)" "rc_totalSum r' = rc_totalSum r"
    using rc_Advance_ok [OF assms(1)] by blast
  let ?n = "rb_NumBuckets (rc_rollingBucket r)"
  have n: "int (length (rc_buckets r)) = ?n" "int (length (rc_buckets r')) = ?n" "rb_NumBuckets (rc_rollingBucket r') = ?n"
    using assms r' by (auto simp: rc_inv_def)
  have sum: "rc_RollingSumAt now r = (Returns (wrap64 (sum_list (rc_buckets r'))), r')"
    using r'(1) by (simp add: rc_RollingSumAt_def go_simps rc_sumBuckets_def fold_add64)
  have pos: "0 < ?n" using assms(2) n(1) by (metis length_greater_0_conv of_nat_0_less_iff)
  let ?l = "rb_LastAbsIndex (rc_rollingBucket r')"
  define parts where "parts = map (\<lambda>i. rc_buckets r' ! nat ((?l - i) mod ?n)) [0..?n - 1]"
  have "0 \<le> ?l" using r'(2) by (simp add: rc_inv_def rb_inv_def)
  then have "rc_GetBuckets now r = (Returns parts, r')"
    using pos n r'(1) GetBuckets_loop_ok [OF pos n(2), of "[0..?n - 1]" ?l]
    by (auto simp: rc_GetBuckets_def go_simps rem64_nonneg parts_def)
  moreover have mset: "mset parts = mset (rc_buckets r')"
    unfolding parts_def by (rule mset_GetBuckets [OF n(2) pos])
  moreover have "sum_list parts = sum_list (rc_buckets r')"
    using mset by (metis sum_mset_sum_list)
  ultimately show ?thesis
    using sum r'(4) by (auto simp: rc_StringAt_def go_simps Let_def fold_add64 rc_TotalSum_def)
qed

end
