(* ===== verification/Expvar.thy ===== *)
theory Expvar
  imports Manager
begin

text \<open>
  What the library exposes through \<^verbatim>\<open>expvar\<close>: \<^verbatim>\<open>internal/evar/evar.go\<close>, the methods \<^verbatim>\<open>Var\<close> of the collections of
  \<^verbatim>\<open>metrics.go\<close>, of a circuit and of a manager.

  An \<^verbatim>\<open>expvar.Var\<close> is what the code can ask of it: nothing when it is nil; its value, when it has a
  method \<^verbatim>\<open>Value() interface{}\<close>; its string otherwise. Both are computations, as a Var may read clocks and roll
  windows. \<open>valid\<close> stands for \<^verbatim>\<open>json.Valid\<close>, and \<open>rv\<close>, \<open>fv\<close> for the collectors: \<open>None\<close> is a collector without a
  method \<^verbatim>\<open>Var\<close>. An exposed map is a record of its entries.
\<close>

datatype 'v val = NilVal | Val 'v | StringVal string | RawJSON string

datatype ('v, 's) expvar =
    NilVar
  | ValueVar "('v val, 's) go"
  | StringVar "(string, 's) go"

definition ExpvarToVal :: "(string \<Rightarrow> bool) \<Rightarrow> ('v, 's) expvar \<Rightarrow> ('v val, 's) go" where
  "ExpvarToVal valid v = (case v of
     NilVar \<Rightarrow> greturn NilVal
   | ValueVar rawVal \<Rightarrow> rawVal
   | StringVar str \<Rightarrow> gbind str (\<lambda>asStr. greturn (if \<not> valid asStr then StringVal asStr else RawJSON asStr)))"

text \<open>\<open>withVar\<close> is what the method \<^verbatim>\<open>Var\<close> of the value gives, or \<open>None\<close> when it has no such method.\<close>

definition ForExpvar :: "(string \<Rightarrow> bool) \<Rightarrow> ('v, 's) expvar option \<Rightarrow> 'v val \<Rightarrow> ('v val, 's) go" where
  "ForExpvar valid withVar val = (case withVar of
     Some v \<Rightarrow> ExpvarToVal valid v
   | None \<Rightarrow> greturn val)"

subsection \<open>Collections of collectors\<close>

text \<open>The loop of \<^verbatim>\<open>RunMetricsCollection.Var\<close> and of \<^verbatim>\<open>FallbackMetricsCollection.Var\<close>.\<close>

fun collection_Var :: "(string \<Rightarrow> bool) \<Rightarrow> ('c \<Rightarrow> ('v, 's) expvar option) \<Rightarrow> 'c list \<Rightarrow> ('v val list, 's) go" where
  "collection_Var valid var [] = greturn []"
| "collection_Var valid var (c # cs) = (case var c of
     None \<Rightarrow> collection_Var valid var cs
   | Some v \<Rightarrow>
       gbind (ExpvarToVal valid v) (\<lambda>asVal.
       gbind (collection_Var valid var cs) (\<lambda>ret.
       greturn (if asVal \<noteq> NilVal then asVal # ret else ret))))"

definition FallbackMetricsCollection_Var ::
  "(string \<Rightarrow> bool) \<Rightarrow> ('c \<Rightarrow> ('v, 's) expvar option) \<Rightarrow> 'c list \<Rightarrow> ('v val list, 's) go" where
  "FallbackMetricsCollection_Var valid var r = collection_Var valid var r"

subsection \<open>Circuits\<close>

text \<open>The methods that accept a nil receiver, \<open>None\<close> here.\<close>

definition circuit_Name :: "('p, 'q) Circuit option \<Rightarrow> string" where
  "circuit_Name c = (case c of None \<Rightarrow> [] | Some c \<Rightarrow> c_name c)"

definition ConcurrentCommands :: "('p, 'q) Circuit \<Rightarrow> int64" where
  "ConcurrentCommands c = c_concurrentCommands c"

definition ConcurrentFallbacks :: "('p, 'q) Circuit \<Rightarrow> int64" where
  "ConcurrentFallbacks c = c_concurrentFallbacks c"

record ('v, 'p, 'q) circuitVar =
  cv_config :: "('p, 'q) Config"
  cv_is_open :: bool
  cv_name :: string
  cv_run_metrics :: "'v val list"
  cv_concurrent_commands :: int64
  cv_concurrent_fallbacks :: int64
  cv_closer :: "('q OpenToClosed \<times> 'q) option"
  cv_opener :: "('p ClosedToOpen \<times> 'p) option"
  cv_fallback_metrics :: "'v val list"

text \<open>A method that gives \<open>d\<close> when its receiver is nil.\<close>

definition on_pointer :: "'a \<Rightarrow> ('a, 's) go \<Rightarrow> ('a, 's option) go" where
  "on_pointer d m = (\<lambda>s. case s of
     None \<Rightarrow> (Returns d, None)
   | Some s \<Rightarrow> (case m s of (r, s') \<Rightarrow> (r, Some s')))"

definition circuit_values ::
  "(string \<Rightarrow> bool) \<Rightarrow> (run_collector \<Rightarrow> ('v, ('p, 'q) Circuit) expvar option) \<Rightarrow>
   (nat \<Rightarrow> ('v, ('p, 'q) Circuit) expvar option) \<Rightarrow> (('v, 'p, 'q) circuitVar, 'p, 'q) cgo" where
  "circuit_values valid rv fv =
     gbind (gget c_Config) (\<lambda>config.
     gbind (gget IsOpen) (\<lambda>is_open.
     gbind (gget (circuit_Name \<circ> Some)) (\<lambda>nm.
     gbind (gbind (gget c_CmdMetricCollector) (collection_Var valid rv)) (\<lambda>run_metrics.
     gbind (gget ConcurrentCommands) (\<lambda>commands.
     gbind (gget ConcurrentFallbacks) (\<lambda>fallbacks.
     gbind (gget c_OpenToClose) (\<lambda>closer.
     gbind (gget c_ClosedToOpen) (\<lambda>opener.
     gbind (gbind (gget c_FallbackMetricCollector) (FallbackMetricsCollection_Var valid fv)) (\<lambda>fallback_metrics.
     greturn \<lparr>cv_config = config, cv_is_open = is_open, cv_name = nm, cv_run_metrics = run_metrics,
       cv_concurrent_commands = commands, cv_concurrent_fallbacks = fallbacks, cv_closer = closer,
       cv_opener = opener, cv_fallback_metrics = fallback_metrics\<rparr>)))))))))"

definition circuit_Var ::
  "(string \<Rightarrow> bool) \<Rightarrow> (run_collector \<Rightarrow> ('v, ('p, 'q) Circuit) expvar option) \<Rightarrow>
   (nat \<Rightarrow> ('v, ('p, 'q) Circuit) expvar option) \<Rightarrow> (('v, 'p, 'q) circuitVar option, ('p, 'q) Circuit option) go" where
  "circuit_Var valid rv fv = on_pointer None (gbind (circuit_values valid rv fv) (greturn \<circ> Some))"

subsection \<open>The manager\<close>

text \<open>The loop over the map, in the order of \<open>visit\<close>.\<close>

fun manager_Var_loop ::
  "(string \<Rightarrow> bool) \<Rightarrow> (run_collector \<Rightarrow> ('v, ('p, 'q) Circuit) expvar option) \<Rightarrow>
   (nat \<Rightarrow> ('v, ('p, 'q) Circuit) expvar option) \<Rightarrow> (string \<times> nat) list \<Rightarrow>
   (string \<times> ('v, 'p, 'q) circuitVar) list \<Rightarrow> ((string \<times> ('v, 'p, 'q) circuitVar) list, 'p, 'q) mgo" where
  "manager_Var_loop valid rv fv [] ret = greturn ret"
| "manager_Var_loop valid rv fv ((k, p) # es) ret =
     gbind (gzoom (\<lambda>m. Some (mg_circuits m ! p)) (\<lambda>c m. m\<lparr>mg_circuits := (mg_circuits m)[p := the c]\<rparr>) (circuit_Var valid rv fv)) (\<lambda>ev.
     manager_Var_loop valid rv fv es (case ev of None \<Rightarrow> ret | Some v \<Rightarrow> AList.update k v ret))"

definition manager_Var ::
  "((string \<times> nat) list \<Rightarrow> (string \<times> nat) list) \<Rightarrow> (string \<Rightarrow> bool) \<Rightarrow>
   (run_collector \<Rightarrow> ('v, ('p, 'q) Circuit) expvar option) \<Rightarrow> (nat \<Rightarrow> ('v, ('p, 'q) Circuit) expvar option) \<Rightarrow>
   ((string \<times> ('v, 'p, 'q) circuitVar) list, ('p, 'q) Manager option) go" where
  "manager_Var visit valid rv fv = on_pointer []
     (gbind (gget mg_entries) (\<lambda>es. manager_Var_loop valid rv fv (visit es) []))"

subsection \<open>What is shown\<close>

text \<open>A Var that returns a value and leaves the circuit alone; the values shown are those that are not nil.\<close>

definition shows_only :: "(string \<Rightarrow> bool) \<Rightarrow> ('c \<Rightarrow> ('v, 's) expvar option) \<Rightarrow> ('c \<Rightarrow> 'v val) \<Rightarrow> bool" where
  "shows_only valid var sv \<longleftrightarrow> (\<forall>c s. case var c of
     None \<Rightarrow> sv c = NilVal
   | Some v \<Rightarrow> ExpvarToVal valid v s = (Returns (sv c), s))"

definition exposed :: "('c \<Rightarrow> 'v val) \<Rightarrow> 'c list \<Rightarrow> 'v val list" where
  "exposed sv cs = filter (\<lambda>v. v \<noteq> NilVal) (map sv cs)"

lemma collection_Var_run:
  assumes "shows_only valid var sv"
  shows "collection_Var valid var cs s = (Returns (exposed sv cs), s)"
proof (induction cs)
  case (Cons c cs)
  have "case var c of None \<Rightarrow> sv c = NilVal | Some v \<Rightarrow> ExpvarToVal valid v s = (Returns (sv c), s)"
    using assms by (simp add: shows_only_def)
  then show ?case using Cons by (cases "var c") (simp_all add: exposed_def go_simps)
qed (simp add: exposed_def go_simps)

definition circuit_view ::
  "(run_collector \<Rightarrow> 'v val) \<Rightarrow> (nat \<Rightarrow> 'v val) \<Rightarrow> ('p, 'q) Circuit \<Rightarrow> ('v, 'p, 'q) circuitVar" where
  "circuit_view sr sf c = \<lparr>cv_config = c_notThreadSafeConfig c, cv_is_open = IsOpen c, cv_name = c_name c,
     cv_run_metrics = exposed sr (c_CmdMetricCollector c), cv_concurrent_commands = c_concurrentCommands c,
     cv_concurrent_fallbacks = c_concurrentFallbacks c, cv_closer = c_OpenToClose c, cv_opener = c_ClosedToOpen c,
     cv_fallback_metrics = exposed sf (c_FallbackMetricCollector c)\<rparr>"

lemma circuit_Var_run:
  assumes "shows_only valid rv sr" "shows_only valid fv sf"
  shows "circuit_Var valid rv fv (Some c) = (Returns (Some (circuit_view sr sf c)), Some c)"
  using collection_Var_run [OF assms(1)] collection_Var_run [OF assms(2)]
  by (simp add: circuit_Var_def circuit_values_def on_pointer_def go_simps circuit_view_def c_Config_def circuit_Name_def ConcurrentCommands_def
      ConcurrentFallbacks_def FallbackMetricsCollection_Var_def)

lemma manager_Var_loop_run:
  assumes "shows_only valid rv sr" "shows_only valid fv sf"
    and "distinct (map fst es)" "fst ` set es \<inter> fst ` set ret = {}"
  shows "manager_Var_loop valid rv fv es ret m =
    (Returns (ret @ map (\<lambda>(k, p). (k, circuit_view sr sf (mg_circuits m ! p))) es), m)"
  using assms(3,4)
proof (induction es arbitrary: ret)
  case (Cons e es)
  obtain k p where e: "e = (k, p)" by (cases e)
  let ?v = "circuit_view sr sf (mg_circuits m ! p)"
  have "AList.update k ?v ret = ret @ [(k, ?v)]"
    using Cons.prems(2) by (intro update_fresh) (auto simp: e)
  moreover have "fst ` set es \<inter> fst ` set (ret @ [(k, ?v)]) = {}"
    using Cons.prems by (auto simp: e)
  ultimately show ?case
    using Cons by (simp add: e go_simps circuit_Var_run [OF assms(1,2)])
qed (simp add: go_simps)

text \<open>
  What a manager exposes, in whatever order Go visits its map: exactly the circuits it finds by name, each
  under its name, with its state, the counts of its running commands and fallbacks, its logic and the values of
  its collectors, in order, without those that have none. Nothing is changed.
\<close>

theorem manager_shows_its_circuits:
  assumes "registry m" "\<And>es. mset (visit es) = mset es"
    and "shows_only valid rv sr" "shows_only valid fv sf"
  shows "\<exists>vs. manager_Var visit valid rv fv (Some m) = (Returns vs, Some m) \<and> distinct (map fst vs) \<and>
    map_of vs = (\<lambda>nm. map_option (\<lambda>p. circuit_view sr sf (mg_circuits m ! p)) (GetCircuit (Some m) nm)) \<and>
    (\<forall>(nm, v) \<in> set vs. cv_name v = nm)"
proof -
  let ?es = "visit (mg_entries m)"
  let ?vs = "map (\<lambda>(k, p). (k, circuit_view sr sf (mg_circuits m ! p))) ?es"
  have perm: "mset ?es = mset (mg_entries m)" by (rule assms(2))
  have fst: "map fst ?vs = map fst ?es" by (simp add: case_prod_unfold)
  have "mset (map fst ?es) = mset (map fst (mg_entries m))" using perm by simp
  then have d: "distinct (map fst ?es)"
    using assms(1) mset_eq_imp_distinct_iff [of "map fst ?es" "map fst (mg_entries m)"] by (simp add: registry_def)
  have "manager_Var visit valid rv fv (Some m) = (Returns ?vs, Some m)"
    using manager_Var_loop_run [OF assms(3,4) d, of "[]" m] by (simp add: manager_Var_def on_pointer_def go_simps)
  moreover have "map_of ?vs nm = map_option (\<lambda>p. circuit_view sr sf (mg_circuits m ! p)) (GetCircuit (Some m) nm)" for nm
  proof -
    have "map_of ?es = map_of (mg_entries m)"
      using assms(1) d mset_eq_setD [OF perm] by (subst map_of_inject_set) (auto simp: registry_def)
    then show ?thesis by (simp add: map_of_map GetCircuit_def)
  qed
  moreover have "cv_name v = nm" if entry: "(nm, v) \<in> set ?vs" for nm v
  proof -
    obtain p where "(nm, p) \<in> set (mg_entries m)" "v = circuit_view sr sf (mg_circuits m ! p)"
      using entry mset_eq_setD [OF perm] by auto
    then show ?thesis using assms(1) by (auto simp: registry_def circuit_view_def)
  qed
  moreover have "distinct (map fst ?vs)" unfolding fst by (rule d)
  ultimately show ?thesis by (intro exI [of _ ?vs] conjI ext) blast+
qed

lemma manager_shows_its_circuits_witness:
  "let c = (zero_Circuit :: (unit, unit) Circuit)\<lparr>c_name := ''a'', c_isOpen := True, c_CmdMetricCollector := [RcOpenToClose, RcUser 4, RcUser 7]\<rparr>;
       m = zero_Manager\<lparr>mg_circuits := [c], mg_circuitMap := Some [(''a'', 0)]\<rparr>;
       var = (\<lambda>k. if k = RcUser 7 then Some (StringVar (greturn ''{}'')) else if k = RcUser 4 then Some NilVar else None)
   in \<exists>vs v. manager_Var rev (\<lambda>_. True) var (\<lambda>_. None) (Some m) = (Returns vs, Some m) \<and>
        map_of vs ''a'' = Some v \<and> cv_is_open v \<and> cv_run_metrics v = [RawJSON ''{}'' :: nat val] \<and> map_of vs ''b'' = None"
proof -
  let ?c = "(zero_Circuit :: (unit, unit) Circuit)\<lparr>c_name := ''a'', c_isOpen := True, c_CmdMetricCollector := [RcOpenToClose, RcUser 4, RcUser 7]\<rparr>"
  let ?m = "zero_Manager\<lparr>mg_circuits := [?c], mg_circuitMap := Some [(''a'', 0)]\<rparr>"
  let ?var = "\<lambda>k. if k = RcUser 7 then Some (StringVar (greturn ''{}'')) else if k = RcUser 4 then Some NilVar else None"
  let ?sv = "\<lambda>k. if k = RcUser 7 then RawJSON ''{}'' else NilVal :: nat val"
  have "registry ?m" by (simp add: registry_def mg_entries_def)
  moreover have "shows_only (\<lambda>_. True) ?var ?sv" by (simp add: shows_only_def ExpvarToVal_def go_simps)
  moreover have "shows_only (\<lambda>_. True) (\<lambda>_ :: nat. None) (\<lambda>_. NilVal :: nat val)" by (simp add: shows_only_def)
  ultimately obtain vs where "manager_Var rev (\<lambda>_. True) ?var (\<lambda>_. None) (Some ?m) = (Returns vs, Some ?m)"
    "map_of vs = (\<lambda>nm. map_option (\<lambda>p. circuit_view ?sv (\<lambda>_. NilVal) (mg_circuits ?m ! p)) (GetCircuit (Some ?m) nm))"
    using manager_shows_its_circuits [of ?m rev "\<lambda>_. True" ?var ?sv "\<lambda>_. None" "\<lambda>_. NilVal"] by (simp only: mset_rev) blast
  then show ?thesis
    by (auto simp: Let_def GetCircuit_def mg_entries_def circuit_view_def exposed_def IsOpen_def zero_Circuit_def
        zero_atomicCircuitConfig_def)
qed

end
