(* ===== verification/HystrixJSON.thy ===== *)
theory HystrixJSON
  imports HystrixFactory Float64
begin

text \<open>
  What the hystrix logic exposes: \<^verbatim>\<open>errPercentage\<close> and \<^verbatim>\<open>MarshalJSON\<close> of \<^verbatim>\<open>closers/hystrix/opener.go\<close>, and
  \<^verbatim>\<open>MarshalJSON\<close> of \<^verbatim>\<open>closers/hystrix/closer.go\<close>. The results are the values handed to \<^verbatim>\<open>json.Marshal\<close>; the counters are
  handed over by reference, after the percentage rolled them forward.
\<close>

definition op_errPercentage :: "gotime \<Rightarrow> (rat, Opener) go" where
  "op_errPercentage now =
     gbind (op_on_attempts (rc_RollingSumAt now)) (\<lambda>attemptCount.
     if attemptCount = 0 then greturn (-1)
     else gbind (op_on_errors (rc_RollingSumAt now)) (\<lambda>errCount.
       greturn (fl64 (float_of_int errCount / float_of_int attemptCount))))"

record openerJSON =
  oj_config :: ConfigureOpener
  oj_attempts :: jsonCounter
  oj_errors :: jsonCounter
  oj_errPercentage :: rat

definition op_MarshalJSON :: "clock \<Rightarrow> (openerJSON, Opener \<times> nat) go" where
  "op_MarshalJSON wall =
     gbind (gget (op_config \<circ> fst)) (\<lambda>cfg.
     gbind (gzoom snd (\<lambda>n (e, _). (e, n)) (cop_now wall cfg)) (\<lambda>now.
     gbind (gzoom fst (\<lambda>e (_, n). (e, n)) (op_errPercentage now)) (\<lambda>err.
     gbind (gget fst) (\<lambda>e.
     greturn \<lparr>oj_config = cfg, oj_attempts = rc_MarshalJSON (op_legitimateAttemptsCount e),
       oj_errors = rc_MarshalJSON (op_errorsCount e), oj_errPercentage = err\<rparr>))))"

definition cl_MarshalJSON :: "Closer \<Rightarrow> ConfigureCloser \<times> int64" where
  "cl_MarshalJSON s = (cl_Config s, cl_concurrentSuccessfulAttempts s)"

text \<open>
  The percentage shown is the rounded ratio of the errors to the attempts of the window, or -1 without attempts, and
  an opener that decides to open shows at least its threshold.
\<close>

definition shown_percentage :: "RollingBuckets \<Rightarrow> gotime \<Rightarrow> gotime list \<Rightarrow> gotime list \<Rightarrow> rat" where
  "shown_percentage g now as es =
     (let attempts = length (recent_events g now as); errs = length (recent_events g now es)
      in if attempts = 0 then -1 else fl64 (of_nat errs / of_nat attempts))"

lemma counted_sum_shown:
  assumes "counted g ts t r" "t \<le> t'" "usable g t'" "int (length ts) \<le> 2 ^ 53"
  shows "\<exists>r'. rc_RollingSumAt t' r = (Returns (int (length (recent_events g t' ts))), r') \<and> counted g ts t' r' \<and>
    rc_sumBuckets r' = int (length (recent_events g t' ts))"
proof -
  let ?n = "int (length (recent_events g t' ts))"
  have le: "?n \<le> 2 ^ 53" using length_recent_events [of g t' ts] assms(4) by linarith
  then have in64: "in_int64 ?n" by (simp add: in_int64_def min_int64_def max_int64_def)
  then obtain r' where r': "rc_RollingSumAt t' r = (Returns ?n, r')" "counted g ts t' r'"
    using counted_Sum [OF assms(1-3)] by auto
  then have "rc_sumBuckets r' = ?n"
    by (auto simp: rc_RollingSumAt_def go_simps split: prod.splits outcome.splits)
  then show ?thesis using r' by blast
qed

lemma op_errPercentage_counts:
  assumes sim: "op_counts g as es t e0 e" and t: "t \<le> t'" "usable g t'"
    and small: "int (length as) \<le> 2 ^ 53" "int (length es) \<le> 2 ^ 53"
  shows "\<exists>e'. op_errPercentage t' e = (Returns (shown_percentage g t' as es), e') \<and> op_counts g as es t' e0 e' \<and>
    rc_sumBuckets (op_legitimateAttemptsCount e') = int (length (recent_events g t' as)) \<and> op_config e' = op_config e"
proof -
  let ?a = "length (recent_events g t' as)" and ?e = "length (recent_events g t' es)"
  have a: "counted g as t (op_legitimateAttemptsCount e)" and er: "counted g es t (op_errorsCount e)"
    and cfg: "op_requestVolumeThreshold e = op_requestVolumeThreshold e0" "op_errorPercentage e = op_errorPercentage e0"
    using sim by (auto simp: op_counts_def)
  obtain ra where ra: "rc_RollingSumAt t' (op_legitimateAttemptsCount e) = (Returns (int ?a), ra)" "counted g as t' ra"
    "rc_sumBuckets ra = int ?a"
    using counted_sum_shown [OF a t small(1)] by blast
  obtain re where re: "rc_RollingSumAt t' (op_errorsCount e) = (Returns (int ?e), re)" "counted g es t' re"
    using counted_sum_shown [OF er t small(2)] by blast
  have "int ?a \<le> 2 ^ 53" "int ?e \<le> 2 ^ 53"
    using length_recent_events [of g t' as] length_recent_events [of g t' es] small by linarith+
  then have "float_of_int (int ?a) = of_nat ?a" "float_of_int (int ?e) = of_nat ?e"
    using fl64_exact [of "int ?a"] fl64_exact [of "int ?e"] by (simp_all add: float_of_int_def)
  then show ?thesis
    using ra re er cfg counted_later [OF er t]
    by (auto simp: op_errPercentage_def go_simps op_runs op_counts_def shown_percentage_def Let_def)
qed

lemma opening_shows_threshold:
  assumes "opens_spec g threshold pct now as es"
  shows "fl64 (of_int pct / 100) \<le> shown_percentage g now as es"
proof -
  let ?a = "length (recent_events g now as)" and ?e = "length (recent_events g now es)"
  have a: "0 < ?a" and le: "pct * int ?a \<le> 100 * int ?e" using assms by (auto simp: opens_spec_def Let_def)
  have "of_int (pct * int ?a) \<le> (of_int (100 * int ?e) :: rat)" using le by (simp only: of_int_le_iff)
  then have "of_int pct / 100 \<le> (of_nat ?e / of_nat ?a :: rat)"
    using a by (simp add: field_simps)
  then show ?thesis using a fl64_mono by (simp add: shown_percentage_def Let_def)
qed

lemma op_MarshalJSON_shows:
  assumes sim: "op_counts g as es t e0 e" and now: "cop_now wall (op_config e) n = (Returns t', n')"
    and t: "t \<le> t'" "usable g t'" and small: "int (length as) \<le> 2 ^ 53" "int (length es) \<le> 2 ^ 53"
  shows "\<exists>js e'. op_MarshalJSON wall (e, n) = (Returns js, (e', n')) \<and> op_counts g as es t' e0 e' \<and>
    oj_config js = op_config e \<and> oj_errPercentage js = shown_percentage g t' as es \<and>
    jc_RollingSum (oj_attempts js) = Some (int (length (recent_events g t' as)))"
proof -
  obtain e' where "op_errPercentage t' e = (Returns (shown_percentage g t' as es), e')" "op_counts g as es t' e0 e'"
    "rc_sumBuckets (op_legitimateAttemptsCount e') = int (length (recent_events g t' as))"
    using op_errPercentage_counts [OF sim t small] by blast
  then show ?thesis using now by (simp add: op_MarshalJSON_def go_simps rc_MarshalJSON_def)
qed

end
