(* ===== verification/TestHelpers.thy ===== *)
theory TestHelpers
  imports Circuit
begin

text \<open>
  Model of \<^verbatim>\<open>internal/testhelp/testhelp.go\<close>: ready made run functions and fallbacks, and \<^verbatim>\<open>BehaviorCheck\<close>, a run
  function that keeps statistics about its own calls.

  \<^verbatim>\<open>BehaviorCheck.Run\<close> is modelled on goroutines whose steps interleave. A section under the mutex is one step;
  reading the clock and calling \<^verbatim>\<open>RunFunc\<close> happen outside. A run function may panic, which its deferred section
  sees as an end without an error.
\<close>

subsection \<open>Ready made functions\<close>

definition errFailure :: err where
  "errFailure = OtherErr ''alwaysFails failure'' None NoAs NoUnwrap"

definition AlwaysFails :: "('p, 'q) runFunc" where
  "AlwaysFails = (\<lambda>ctx. greturn (Some errFailure))"

definition AlwaysPasses :: "('p, 'q) runFunc" where
  "AlwaysPasses = (\<lambda>ctx. greturn None)"

definition AlwaysPassesFallback :: "('p, 'q) fallbackFunc" where
  "AlwaysPassesFallback = (\<lambda>ctx e. greturn None)"

text \<open>\<^verbatim>\<open>fmt.Errorf\<close> with the verb \<^verbatim>\<open>%s\<close> makes an error without \<^verbatim>\<open>Unwrap\<close>, and writes a nil error as \<^verbatim>\<open>%!s(<nil>)\<close>.\<close>

definition AlwaysFailsFallback :: "('p, 'q) fallbackFunc" where
  "AlwaysFailsFallback = (\<lambda>ctx e. greturn (Some (OtherErr
     (''failed: '' @ (case e of None \<Rightarrow> ''%!s(<nil>)'' | Some x \<Rightarrow> Error x)) None NoAs NoUnwrap)))"

text \<open>\<open>ended\<close> says whether the context ends before the duration is over.\<close>

definition SleepsForX :: "(ctx \<Rightarrow> duration \<Rightarrow> bool) \<Rightarrow> duration \<Rightarrow> ('p, 'q) runFunc" where
  "SleepsForX ended d = (\<lambda>ctx. if ended ctx d then ask_Err ctx else greturn None)"

text \<open>The messages a test has reported with \<^verbatim>\<open>Errorf\<close>: a test with one fails.\<close>

definition MustTesting :: "err option \<Rightarrow> string list \<Rightarrow> string list" where
  "MustTesting e t = (case e of None \<Rightarrow> t | Some e \<Rightarrow> t @ [''unexpected error: '' @ Error e])"

definition MustNotTesting :: "err option \<Rightarrow> string list \<Rightarrow> string list" where
  "MustNotTesting e t = (if e = None then t @ [''Saw nil, expected an error''] else t)"

lemma checks_exclude: "(MustTesting e t = t) \<noteq> (MustNotTesting e t = t)"
  by (cases e) (simp_all add: MustTesting_def MustNotTesting_def)

subsection \<open>Doing something till a time\<close>

text \<open>
  \<^verbatim>\<open>DoTillTime\<close>: the call adds to the wait group, the goroutine it starts loops and is done at its end. The state has
  what \<open>f\<close> works on, the readings of the clock taken, and the counter of the wait group, which must not fall below
  zero. Yielding to other goroutines, at random, is not seen. The loop has fuel.
\<close>

type_synonym ('a, 's) till = "('a, ('s \<times> nat) \<times> int) go"

definition wg_Add :: "int \<Rightarrow> (unit, 's) till" where
  "wg_Add d = (\<lambda>(s, wg). if wg + d < 0 then (Panics (UserPanic ''sync: negative WaitGroup counter''), (s, wg + d))
     else (Returns (), (s, wg + d)))"

fun till_loop :: "nat \<Rightarrow> clock \<Rightarrow> gotime \<Rightarrow> (unit, 's) go \<Rightarrow> (unit, 's) till" where
  "till_loop 0 clk endTime f = gblock"
| "till_loop (Suc fuel) clk endTime f =
     gbind (gzoom (snd \<circ> fst) (\<lambda>n ((s, _), wg). ((s, n), wg)) (read_clock clk)) (\<lambda>now.
     if time_Before now endTime
     then gseq (gzoom (fst \<circ> fst) (\<lambda>s ((_, n), wg). ((s, n), wg)) f) (till_loop fuel clk endTime f)
     else greturn ())"

definition till_goroutine :: "nat \<Rightarrow> clock \<Rightarrow> gotime \<Rightarrow> (unit, 's) go \<Rightarrow> (unit, 's) till" where
  "till_goroutine fuel clk endTime f = gdefer (wg_Add (-1)) (till_loop fuel clk endTime f)"

text \<open>The call and then its goroutine.\<close>

definition DoTillTime :: "nat \<Rightarrow> clock \<Rightarrow> gotime \<Rightarrow> (unit, 's) go \<Rightarrow> (unit, 's) till" where
  "DoTillTime fuel clk endTime f = gseq (wg_Add 1) (till_goroutine fuel clk endTime f)"

text \<open>Once a reading reaches the time the loop is over, after one call of \<open>f\<close> for each reading before; the group is as before.\<close>

fun calls_of :: "nat \<Rightarrow> (unit, 's) go \<Rightarrow> (unit, 's) go" where
  "calls_of 0 f = greturn ()"
| "calls_of (Suc k) f = gseq f (calls_of k f)"

lemma till_loop_run:
  assumes "\<And>i. i < k \<Longrightarrow> clk (n + i) < endTime" "endTime \<le> clk (n + k)" "calls_of k f s = (Returns (), s')"
  shows "till_loop (Suc k) clk endTime f ((s, n), wg) = (Returns (), ((s', n + Suc k), wg))"
  using assms
proof (induction k arbitrary: s n)
  case 0
  then show ?case by (simp add: go_simps time_Before_def)
next
  case (Suc k)
  obtain s1 where s1: "f s = (Returns (), s1)" "calls_of k f s1 = (Returns (), s')"
    using Suc.prems(3) by (auto simp: go_simps split: outcome.splits prod.splits)
  have "till_loop (Suc k) clk endTime f ((s1, Suc n), wg) = (Returns (), ((s', Suc n + Suc k), wg))"
    by (rule Suc.IH) (use Suc.prems(1)[of "Suc i" for i] Suc.prems(2) s1(2) in auto)
  then show ?case using Suc.prems(1) [of 0] s1(1) by (subst till_loop.simps) (simp add: go_run gbind_run gseq_run gzoom_run read_clock_run time_Before_def)
qed

lemma DoTillTime_returns:
  assumes "\<And>i. i < k \<Longrightarrow> clk (n + i) < endTime" "endTime \<le> clk (n + k)" "calls_of k f s = (Returns (), s')" "0 \<le> wg"
  shows "DoTillTime (Suc k) clk endTime f ((s, n), wg) = (Returns (), ((s', n + Suc k), wg))"
  using till_loop_run [where clk = clk and n = n and k = k and endTime = endTime, OF assms(1-3), of "wg + 1"] assms(4)
  by (simp add: DoTillTime_def till_goroutine_def gdefer_def wg_Add_def go_run gseq_run)

subsection \<open>Checking behaviour\<close>

record BehaviorCheck =
  bc_TotalRuns :: int64
  bc_totalErrors :: int64
  bc_LongestRunDuration :: duration
  bc_MostConcurrent :: int64
  bc_currentConcurrent :: int64

definition zero_BehaviorCheck :: BehaviorCheck where
  "zero_BehaviorCheck = \<lparr>bc_TotalRuns = 0, bc_totalErrors = 0, bc_LongestRunDuration = 0, bc_MostConcurrent = 0,
     bc_currentConcurrent = 0\<rparr>"

text \<open>The two sections under the mutex: before the run function, and the deferred one.\<close>

definition bc_enter :: "BehaviorCheck \<Rightarrow> BehaviorCheck" where
  "bc_enter b =
     (let b = b\<lparr>bc_TotalRuns := add64 (bc_TotalRuns b) 1\<rparr>;
          b = b\<lparr>bc_currentConcurrent := add64 (bc_currentConcurrent b) 1\<rparr>
      in if bc_currentConcurrent b > bc_MostConcurrent b
         then b\<lparr>bc_MostConcurrent := bc_currentConcurrent b\<rparr> else b)"

definition bc_leave :: "bool \<Rightarrow> duration \<Rightarrow> BehaviorCheck \<Rightarrow> BehaviorCheck" where
  "bc_leave failed thisRun b =
     (let b = (if failed then b\<lparr>bc_totalErrors := add64 (bc_totalErrors b) 1\<rparr> else b);
          b = (if bc_LongestRunDuration b < thisRun then b\<lparr>bc_LongestRunDuration := thisRun\<rparr> else b)
      in b\<lparr>bc_currentConcurrent := add64 (bc_currentConcurrent b) (-1)\<rparr>)"

text \<open>Where a goroutine is in \<^verbatim>\<open>Run\<close>, with the start time, or with the duration and whether there is an error.\<close>

datatype bc_stage =
    NotStarted
  | Starting gotime
  | InRunFunc gotime
  | Leaving bool duration
  | Finished bool duration

text \<open>\<open>cs_peak\<close> is the largest number of goroutines that were between the sections at one time.\<close>

record checked =
  cs_check :: BehaviorCheck
  cs_stage :: "nat \<Rightarrow> bc_stage"
  cs_peak :: nat

definition inside :: "bc_stage \<Rightarrow> bool" where
  "inside st \<longleftrightarrow> (case st of InRunFunc _ \<Rightarrow> True | Leaving _ _ \<Rightarrow> True | _ \<Rightarrow> False)"

definition entered :: "bc_stage \<Rightarrow> bool" where
  "entered st \<longleftrightarrow> (case st of NotStarted \<Rightarrow> False | Starting _ \<Rightarrow> False | _ \<Rightarrow> True)"

definition erred :: "bc_stage \<Rightarrow> bool" where
  "erred st \<longleftrightarrow> (case st of Finished failed _ \<Rightarrow> failed | _ \<Rightarrow> False)"

definition how_many :: "nat \<Rightarrow> (bc_stage \<Rightarrow> bool) \<Rightarrow> (nat \<Rightarrow> bc_stage) \<Rightarrow> nat" where
  "how_many n P f = card {i. i < n \<and> P (f i)}"

inductive bc_step :: "nat \<Rightarrow> checked \<Rightarrow> checked \<Rightarrow> bool" for n where
  bc_starts: "i < n \<Longrightarrow> cs_stage s i = NotStarted \<Longrightarrow> bc_step n s (s\<lparr>cs_stage := (cs_stage s)(i := Starting start)\<rparr>)"
| bc_enters: "i < n \<Longrightarrow> cs_stage s i = Starting start \<Longrightarrow> f = (cs_stage s)(i := InRunFunc start) \<Longrightarrow>
    bc_step n s \<lparr>cs_check = bc_enter (cs_check s), cs_stage = f, cs_peak = max (cs_peak s) (how_many n inside f)\<rparr>"
| bc_returns: "i < n \<Longrightarrow> cs_stage s i = InRunFunc start \<Longrightarrow> thisRun = time_Sub fin start \<Longrightarrow>
    bc_step n s (s\<lparr>cs_stage := (cs_stage s)(i := Leaving failed thisRun)\<rparr>)"
| bc_leaves: "i < n \<Longrightarrow> cs_stage s i = Leaving failed thisRun \<Longrightarrow>
    bc_step n s (s\<lparr>cs_check := bc_leave failed thisRun (cs_check s), cs_stage := (cs_stage s)(i := Finished failed thisRun)\<rparr>)"

definition bc_start :: checked where
  "bc_start = \<lparr>cs_check = zero_BehaviorCheck, cs_stage = (\<lambda>_. NotStarted), cs_peak = 0\<rparr>"

inductive bc_reach :: "nat \<Rightarrow> checked \<Rightarrow> bool" for n where
  bc_init: "bc_reach n bc_start"
| bc_more: "bc_reach n s \<Longrightarrow> bc_step n s s' \<Longrightarrow> bc_reach n s'"

lemma how_many_le: "how_many n P f \<le> n"
  using card_mono [of "{..<n}" "{i. i < n \<and> P (f i)}"] by (auto simp: how_many_def)

lemma how_many_split:
  assumes "i < n"
  shows "how_many n P f = card {j. j < n \<and> j \<noteq> i \<and> P (f j)} + (if P (f i) then 1 else 0)"
proof -
  have "{j. j < n \<and> P (f j)} = (if P (f i) then insert i {j. j < n \<and> j \<noteq> i \<and> P (f j)} else {j. j < n \<and> j \<noteq> i \<and> P (f j)})"
    using assms by auto
  then show ?thesis by (simp add: how_many_def)
qed

lemma others_update: "{j. j < n \<and> j \<noteq> i \<and> P ((f(i := st)) j)} = {j. j < n \<and> j \<noteq> i \<and> P (f j)}"
  by auto

lemma how_many_same: "i < n \<Longrightarrow> P st = P (f i) \<Longrightarrow> how_many n P (f(i := st)) = how_many n P f"
  and how_many_in: "i < n \<Longrightarrow> P st \<Longrightarrow> \<not> P (f i) \<Longrightarrow> how_many n P (f(i := st)) = Suc (how_many n P f)"
  and how_many_out: "i < n \<Longrightarrow> \<not> P st \<Longrightarrow> P (f i) \<Longrightarrow> how_many n P f = Suc (how_many n P (f(i := st)))"
  unfolding how_many_split [of i n P f] how_many_split [of i n P "f(i := st)"] others_update by simp_all

lemmas stage_tests = inside_def entered_def erred_def

definition bc_counts :: "nat \<Rightarrow> checked \<Rightarrow> bool" where
  "bc_counts n s \<longleftrightarrow> (let b = cs_check s; f = cs_stage s in
     bc_TotalRuns b = int (how_many n entered f) \<and> bc_totalErrors b = int (how_many n erred f) \<and>
     bc_currentConcurrent b = int (how_many n inside f) \<and> bc_MostConcurrent b = int (cs_peak s))"

text \<open>The longest duration is that of a finished call, and none is longer; it is 0 before a call takes time.\<close>

definition finished_durations :: "nat \<Rightarrow> (nat \<Rightarrow> bc_stage) \<Rightarrow> duration set" where
  "finished_durations n f = {d. \<exists>i < n. \<exists>failed. f i = Finished failed d}"

definition bc_longest :: "nat \<Rightarrow> checked \<Rightarrow> bool" where
  "bc_longest n s \<longleftrightarrow> bc_LongestRunDuration (cs_check s) \<in> insert 0 (finished_durations n (cs_stage s)) \<and>
     (\<forall>d \<in> insert 0 (finished_durations n (cs_stage s)). d \<le> bc_LongestRunDuration (cs_check s))"

lemma finished_durations_same:
  assumes "i < n" "\<And>failed d. st \<noteq> Finished failed d" "\<And>failed d. f i \<noteq> Finished failed d"
  shows "finished_durations n (f(i := st)) = finished_durations n f"
  using assms by (auto simp: finished_durations_def) metis

lemma finished_durations_more:
  assumes "i < n" "\<And>failed d. f i \<noteq> Finished failed d"
  shows "finished_durations n (f(i := Finished failed d)) = insert d (finished_durations n f)"
  using assms by (auto simp: finished_durations_def) metis

lemma how_many_in64: "int n \<le> max_int64 \<Longrightarrow> in_int64 (int (how_many n P f))"
  using how_many_le [of n P f] by (simp add: in_int64_def min_int64_def)

lemma bc_counts_step:
  assumes inv: "bc_counts n s" and small: "int n \<le> max_int64" and step: "bc_step n s s'"
  shows "bc_counts n s'"
  using step
proof cases
  case (bc_starts i start)
  then show ?thesis
    using inv by (simp add: bc_counts_def Let_def how_many_same stage_tests del: fun_upd_apply)
next
  case (bc_enters i start f)
  note in64 = how_many_in64 [OF small, of _ f]
  have "how_many n entered f = Suc (how_many n entered (cs_stage s))" "how_many n inside f = Suc (how_many n inside (cs_stage s))"
    "how_many n erred f = how_many n erred (cs_stage s)"
    unfolding bc_enters by (simp_all add: bc_enters how_many_in how_many_same stage_tests del: fun_upd_apply)
  then show ?thesis
    using inv in64 [of entered] in64 [of inside]
    by (auto simp: bc_counts_def Let_def bc_enter_def bc_enters(1) add64_exact add.commute)
next
  case (bc_returns i start thisRun fin failed)
  then show ?thesis
    using inv by (simp add: bc_counts_def Let_def how_many_same stage_tests del: fun_upd_apply)
next
  case (bc_leaves i failed thisRun)
  let ?f = "(cs_stage s)(i := Finished failed thisRun)"
  have i: "i < n" "cs_stage s i = Leaving failed thisRun" using bc_leaves by simp_all
  have c: "how_many n entered ?f = how_many n entered (cs_stage s)"
    "how_many n inside (cs_stage s) = Suc (how_many n inside ?f)"
    "how_many n erred ?f = how_many n erred (cs_stage s) + (if failed then 1 else 0)"
    using i how_many_out [OF i(1), of inside "Finished failed thisRun" "cs_stage s"]
    by (simp_all add: how_many_in how_many_same stage_tests del: fun_upd_apply)
  then show ?thesis
    using inv how_many_in64 [OF small, of inside ?f] how_many_in64 [OF small, of erred ?f]
    by (auto simp: bc_counts_def Let_def bc_leave_def bc_leaves(1) add64_exact add.commute)
qed

lemma bc_longest_step:
  assumes inv: "bc_longest n s" and step: "bc_step n s s'"
  shows "bc_longest n s'"
  using step
proof cases
  case (bc_leaves i failed thisRun)
  then have "finished_durations n ((cs_stage s)(i := Finished failed thisRun)) = insert thisRun (finished_durations n (cs_stage s))"
    by (intro finished_durations_more) auto
  then show ?thesis
    using inv by (auto simp: bc_longest_def bc_leave_def bc_leaves(1) Let_def simp del: fun_upd_apply)
qed (use inv in \<open>auto simp: bc_longest_def bc_enter_def Let_def finished_durations_same simp del: fun_upd_apply\<close>)

lemma bc_reach_inv:
  assumes "bc_reach n s" "int n \<le> max_int64"
  shows "bc_counts n s \<and> bc_longest n s"
  using assms(1)
proof induction
  case bc_init
  then show ?case
    by (simp add: bc_start_def bc_counts_def bc_longest_def finished_durations_def zero_BehaviorCheck_def how_many_def stage_tests)
qed (use bc_counts_step bc_longest_step assms(2) in blast)

text \<open>
  What a check reports, in every interleaving of the calls: how many calls entered, how many of those that are
  over gave an error, how many are under way, the largest number that ever were, and the longest duration of
  the calls that are over, 0 when there is none.
\<close>

theorem behavior_check_reports:
  assumes "bc_reach n s" "int n \<le> max_int64"
  shows "bc_TotalRuns (cs_check s) = int (how_many n entered (cs_stage s)) \<and>
    bc_totalErrors (cs_check s) = int (how_many n erred (cs_stage s)) \<and>
    bc_currentConcurrent (cs_check s) = int (how_many n inside (cs_stage s)) \<and>
    bc_MostConcurrent (cs_check s) = int (cs_peak s) \<and>
    bc_LongestRunDuration (cs_check s) = Max (insert 0 (finished_durations n (cs_stage s)))"
proof -
  have "finished_durations n (cs_stage s) \<subseteq>
      (\<lambda>i. case cs_stage s i of Finished failed d \<Rightarrow> d | _ \<Rightarrow> 0) ` {..<n}"
    by (force simp: finished_durations_def image_iff split: bc_stage.splits)
  then have "finite (finished_durations n (cs_stage s))" by (rule finite_subset) simp
  then have "bc_LongestRunDuration (cs_check s) = Max (insert 0 (finished_durations n (cs_stage s)))"
    using bc_reach_inv [OF assms] by (intro Max_eqI [symmetric]) (auto simp: bc_longest_def)
  then show ?thesis using bc_reach_inv [OF assms] by (simp add: bc_counts_def Let_def)
qed

end
