(* ===== verification/ExampleProgram.thy ===== *)
theory ExampleProgram
  imports CircuitCalls HystrixCircuit Manager MetricEventStream
begin

text \<open>
  Model of \<^verbatim>\<open>example/main.go\<close>: the circuits of the example program and what its goroutines do with them.

  A setup is a circuit, the call a goroutine makes on every tick, and what it does with the result.
  Random choices and waiting are parameters: \<open>slept\<close> says whether a sleep ends before the context does,
  \<open>passes\<close> is the flag of the floppy circuit, which another goroutine turns, and \<open>awaited ctx n\<close> is the reading at
  which a wait for the end of \<open>ctx\<close> that begins at \<open>n\<close> is over. The HTTP server, the flags and the ticker are I/O.
  The ticks of a setup come one after another: the goroutines that \<^verbatim>\<open>main.go\<close> runs at the same time on the floppy circuit (ten) and the
  throttled circuit (a hundred) are taken in turn, so that the limit of the latter is not reached by others; the
  limit under concurrency is the subject of \<open>Throttle\<close>.
\<close>

type_synonym ('a) xgo = "('a, (Opener, Closer) Circuit) go"

record example_setup =
  ex_name :: string
  ex_config :: "(Opener, Closer) Config"
  ex_ctx :: ctx
  ex_run :: "(Opener, Closer) runFunc"
  ex_fallback :: "(Opener, Closer) fallbackFunc option"
  ex_check :: "err option \<Rightarrow> unit xgo"

definition errors_New :: "string \<Rightarrow> err" where
  "errors_New msg = OtherErr msg None NoAs NoUnwrap"

definition mustFail :: "err option \<Rightarrow> unit xgo" where
  "mustFail err = (if err = None then gpanic (UserPanic ''Expected a failure'') else greturn ())"

definition mustPass :: "err option \<Rightarrow> unit xgo" where
  "mustPass err = (case err of None \<Rightarrow> greturn () | Some e \<Rightarrow> gpanic (UserPanic (Error e)))"

definition hystrix_general :: "clock \<Rightarrow> ConfigureCloser \<Rightarrow> ConfigureOpener \<Rightarrow> (Opener, Closer) Config" where
  "hystrix_general wall cc oc = zero_Config\<lparr>cf_General := zero_GeneralConfig\<lparr>
     gc_OpenToClosedFactory := Some (CloserFactory cc), gc_ClosedToOpenFactory := Some (OpenerFactory wall oc)\<rparr>\<rparr>"

definition setupAlwaysFails :: "clock \<Rightarrow> example_setup" where
  "setupAlwaysFails wall = \<lparr>ex_name = ''always-fails'',
     ex_config = hystrix_general wall zero_ConfigureCloser zero_ConfigureOpener, ex_ctx = ctx_Background,
     ex_run = (\<lambda>ctx. greturn (Some (errors_New ''a failure''))), ex_fallback = None, ex_check = mustFail\<rparr>"

definition setupBadRequest :: "clock \<Rightarrow> example_setup" where
  "setupBadRequest wall = \<lparr>ex_name = ''always-fails-bad-request'',
     ex_config = hystrix_general wall zero_ConfigureCloser zero_ConfigureOpener, ex_ctx = ctx_Background,
     ex_run = (\<lambda>ctx. greturn (Some (SimpleBadRequest (Some (errors_New ''bad user input''))))),
     ex_fallback = None, ex_check = mustFail\<rparr>"

text \<open>\<^verbatim>\<open>context.WithCancel\<close>, cancelled before the call.\<close>

definition cancelled_context :: ctx where
  "cancelled_context = ctx_Background\<lparr>ctx_Err := (\<lambda>_. Some err_Canceled)\<rparr>"

definition setupFailsOriginalContext :: "clock \<Rightarrow> example_setup" where
  "setupFailsOriginalContext wall = \<lparr>ex_name = ''always-fails-original-context'',
     ex_config = hystrix_general wall zero_ConfigureCloser zero_ConfigureOpener, ex_ctx = cancelled_context,
     ex_run = (\<lambda>ctx. greturn (Some (errors_New ''a failure, but it's not my fault''))),
     ex_fallback = None, ex_check = mustFail\<rparr>"

definition setupAlwaysPasses :: example_setup where
  "setupAlwaysPasses = \<lparr>ex_name = ''always-passes'', ex_config = zero_Config, ex_ctx = ctx_Background,
     ex_run = (\<lambda>ctx. greturn None), ex_fallback = None, ex_check = mustPass\<rparr>"

definition setupTimesOut :: "(ctx \<Rightarrow> nat \<Rightarrow> nat) \<Rightarrow> example_setup" where
  "setupTimesOut awaited = \<lparr>ex_name = ''always-times-out'',
     ex_config = zero_Config\<lparr>cf_Execution := zero_ExecutionConfig\<lparr>ec_Timeout := millisecond\<rparr>\<rparr>, ex_ctx = ctx_Background,
     ex_run = (\<lambda>ctx c. let n = awaited ctx (c_readings c) in (Returns (ctx_Err ctx n), c\<lparr>c_readings := Suc n\<rparr>)),
     ex_fallback = None, ex_check = mustFail\<rparr>"

definition setupFallsBack :: example_setup where
  "setupFallsBack = \<lparr>ex_name = ''always-falls-back'',
     ex_config = zero_Config\<lparr>cf_Execution := zero_ExecutionConfig\<lparr>ec_Timeout := millisecond\<rparr>\<rparr>, ex_ctx = ctx_Background,
     ex_run = (\<lambda>ctx. greturn (Some (errors_New ''a failure''))), ex_fallback = Some (\<lambda>ctx e. greturn None),
     ex_check = mustPass\<rparr>"

definition sleeping_run :: "(nat \<Rightarrow> bool) \<Rightarrow> (Opener, Closer) runFunc" where
  "sleeping_run slept = (\<lambda>ctx. gbind (gget c_readings) (\<lambda>n. if slept n then greturn None else ask_Err ctx))"

definition setupRandomExecutionTime :: "(nat \<Rightarrow> bool) \<Rightarrow> example_setup" where
  "setupRandomExecutionTime slept = \<lparr>ex_name = ''random-execution-time'',
     ex_config = zero_Config\<lparr>cf_Execution := zero_ExecutionConfig\<rparr>, ex_ctx = ctx_Background,
     ex_run = sleeping_run slept, ex_fallback = Some (\<lambda>ctx e. greturn None), ex_check = mustPass\<rparr>"

text \<open>The last two only count the errors.\<close>

definition setupFloppyCircuit :: "clock \<Rightarrow> (nat \<Rightarrow> bool) \<Rightarrow> example_setup" where
  "setupFloppyCircuit wall passes = \<lparr>ex_name = ''floppy-circuit'',
     ex_config = hystrix_general wall (zero_ConfigureCloser\<lparr>ccl_SleepWindow := 10 * millisecond\<rparr>)
       (zero_ConfigureOpener\<lparr>cop_RequestVolumeThreshold := 2\<rparr>), ex_ctx = ctx_Background,
     ex_run = (\<lambda>ctx. gbind (gget c_readings) (\<lambda>n. if passes n then greturn None
       else greturn (Some (errors_New ''i'm failing now'')))),
     ex_fallback = Some (\<lambda>ctx e. greturn None), ex_check = (\<lambda>_. greturn ())\<rparr>"

definition setupThrottledCircuit :: "(nat \<Rightarrow> bool) \<Rightarrow> example_setup" where
  "setupThrottledCircuit slept = \<lparr>ex_name = ''throttled-circuit'',
     ex_config = zero_Config\<lparr>cf_Execution := zero_ExecutionConfig\<lparr>ec_MaxConcurrentRequests := 2\<rparr>\<rparr>, ex_ctx = ctx_Background,
     ex_run = sleeping_run slept, ex_fallback = None, ex_check = (\<lambda>_. greturn ())\<rparr>"

definition example_setups :: "clock \<Rightarrow> (ctx \<Rightarrow> nat \<Rightarrow> nat) \<Rightarrow> (nat \<Rightarrow> bool) \<Rightarrow> (nat \<Rightarrow> bool) \<Rightarrow> example_setup list" where
  "example_setups wall awaited slept passes = [setupAlwaysFails wall, setupBadRequest wall, setupFailsOriginalContext wall,
     setupAlwaysPasses, setupTimesOut awaited, setupFallsBack, setupRandomExecutionTime slept,
     setupFloppyCircuit wall passes, setupThrottledCircuit slept]"

text \<open>Each setup creates its circuit; the goroutines then run for themselves.\<close>

definition createBackgroundCircuits ::
  "clock \<Rightarrow> Opener \<Rightarrow> Closer \<Rightarrow> (Opener, Closer) constructors \<Rightarrow> example_setup list \<Rightarrow> (unit, Opener, Closer) mgo" where
  "createBackgroundCircuits wall u v ctor =
     gforeach (\<lambda>s. gseq (MustCreateCircuit wall u v ctor (ex_name s) [ex_config s]) (greturn ()))"

text \<open>
  \<^verbatim>\<open>newHandler\<close>: the manager has one constructor, number 0, the \<^verbatim>\<open>CreateConfig\<close> of a \<^verbatim>\<open>StatFactory\<close>. The state has the names
  published by \<^verbatim>\<open>expvar\<close>, where publishing a name twice panics, and the manager made; the result is the routes of the
  handler. The event stream of the first route has this manager and the zero tick.
\<close>

datatype example_route = StreamRoute MetricEventStream | VarsRoute

definition expvar_Publish :: "string \<Rightarrow> (unit, string list) go" where
  "expvar_Publish nm = (\<lambda>vs. if nm \<in> set vs then (Panics (UserPanic (''Reuse of exported var name: '' @ nm)), vs)
     else (Returns (), vs @ [nm]))"

definition newHandler ::
  "clock \<Rightarrow> Opener \<Rightarrow> Closer \<Rightarrow> (Opener, Closer) constructors \<Rightarrow> example_setup list \<Rightarrow>
   ((string \<times> example_route) list, string list \<times> (Opener, Closer) Manager) go" where
  "newHandler wall u v ctor setups =
     gseq (gmodify (\<lambda>(vs, _). (vs, zero_Manager\<lparr>mg_DefaultCircuitProperties := [0]\<rparr>)))
     (gbind (gget fst) (\<lambda>published.
      gseq (gwhen (''hystrix'' \<notin> set published) (gzoom fst (\<lambda>vs (_, m). (vs, m)) (expvar_Publish ''hystrix'')))
     (gseq (gzoom snd (\<lambda>m (vs, _). (vs, m)) (createBackgroundCircuits wall u v ctor setups))
     (greturn [(''/hystrix.stream'', StreamRoute (zero_stream 0)), (''/debug/vars'', VarsRoute)]))))"

definition example_tick :: "nat \<Rightarrow> (Opener, Closer) Env \<Rightarrow> example_setup \<Rightarrow> unit xgo" where
  "example_tick fuel env s =
     gbind (Execute fuel env (ex_ctx s) (Some (ex_run s)) (ex_fallback s)) (ex_check s)"

subsection \<open>The configurations in force\<close>

text \<open>The manager's constructor only adds collectors, as \<^verbatim>\<open>StatFactory.CreateConfig\<close> does.\<close>

definition collectors_config :: "MetricsCollectors \<Rightarrow> (Opener, Closer) Config" where
  "collectors_config ms = zero_Config\<lparr>cf_Metrics := ms\<rparr>"

definition in_force :: "clock \<Rightarrow> Opener \<Rightarrow> Closer \<Rightarrow> MetricsCollectors \<Rightarrow> example_setup \<Rightarrow> (Opener, Closer) Config" where
  "in_force wall u v ms s = Config_Merge (foldl Config_Merge zero_Config [ex_config s, collectors_config ms])
     (defaultCommandProperties wall u v)"

lemmas config_eval = in_force_def collectors_config_def hystrix_general_def zero_Config_def zero_GeneralConfig_def
  zero_ExecutionConfig_def zero_FallbackConfig_def defaultCommandProperties_def defaultGoSpecificConfig_def
  defaultExecutionConfig_def defaultFallbackConfig_def Config_Merge_def gc_merge_def ec_merge_def fc_merge_def
  mc_merge_def tk_merge_def mergeCustomConfig_def ac_reset_def zero_atomicCircuitConfig_def Let_def

lemmas setup_defs = setupAlwaysFails_def setupBadRequest_def setupFailsOriginalContext_def setupAlwaysPasses_def
  setupTimesOut_def setupFallsBack_def setupRandomExecutionTime_def setupFloppyCircuit_def setupThrottledCircuit_def

lemma hystrix_factories_of:
  assumes "op_fits (op_effective wall oc)"
  shows "logic_factories Opener_vt op_ok Closer_vt (\<lambda>_. True) (OpenerFactory wall oc) (CloserFactory cc)"
proof
  show "\<exists>p n'. OpenerFactory wall oc n = (Returns (Opener_vt, p), n') \<and> op_ok p" for n
    using OpenerFactory_ok [OF assms, of n] by metis
  show "\<exists>q n'. CloserFactory cc n = (Returns (Closer_vt, q), n') \<and> True" for n
    by (simp add: CloserFactory_run)
qed

text \<open>
  A setup that works: its configuration gives a circuit with a logic that keeps its contract, and a tick on such a
  circuit, with nobody else in it, does not panic and leaves it as it was.
\<close>

definition setup_works :: "clock \<Rightarrow> Opener \<Rightarrow> Closer \<Rightarrow> nat \<Rightarrow> (Opener, Closer) Env \<Rightarrow> example_setup \<Rightarrow> bool" where
  "setup_works wall u v fuel env s \<longleftrightarrow> (\<exists>cvt cok ovt ook cfac ofac stays.
     logic_factories cvt cok ovt ook cfac ofac \<and>
     (\<forall>ms. logic_factories.uses_factories cfac ofac (in_force wall u v ms s) \<and>
        (let calm = calm_circuit cvt cok ovt ook stays (ac_reset (in_force wall u v ms s) zero_atomicCircuitConfig) 0 0
         in does calm (example_tick fuel env s) (\<lambda>_. calm))))"

lemma zero_counts: "in_int64 0" "add64 0 1 = 1"
  by (simp_all add: add64_exact in_int64_def min_int64_def max_int64_def)

lemma setup_worksI:
  assumes lf: "logic_factories cvt cok ovt ook cfac ofac"
    and uses: "\<And>ms. logic_factories.uses_factories cfac ofac (in_force wall u v ms s)"
    and q: "quiet env" "3 \<le> fuel" and never: "stays \<Longrightarrow> keeps_closed cvt cok"
    and rf: "\<And>ctx' ms T k. T = ac_reset (in_force wall u v ms s) zero_atomicCircuitConfig \<Longrightarrow> given_ctx (env_wall env) T (ex_ctx s) ctx' \<Longrightarrow>
      does (calm_circuit cvt cok ovt ook stays T k 0) (ex_run s ctx') (\<lambda>r c. calm_circuit cvt cok ovt ook stays T k 0 c \<and> R r)"
    and fb: "\<And>f. ex_fallback s = Some f \<Longrightarrow> f = (\<lambda>_ _. greturn None)"
    and check: "\<And>ms T r. T = ac_reset (in_force wall u v ms s) zero_atomicCircuitConfig \<Longrightarrow>
      call_result stays T 0 0 R (map_option (\<lambda>_ r. r = None) (ex_fallback s)) r \<Longrightarrow> ex_check s r = greturn ()"
  shows "setup_works wall u v fuel env s"
proof -
  have "circuit_logic cvt cok ovt ook" using lf by (simp add: logic_factories_def)
  note exec = circuit_logic.does_Execute [OF this q never zero_counts(1) zero_counts(1)]
  have "does (calm_circuit cvt cok ovt ook stays T 0 0) (example_tick fuel env s) (\<lambda>_. calm_circuit cvt cok ovt ook stays T 0 0)"
    if T: "T = ac_reset (in_force wall u v ms s) zero_atomicCircuitConfig" for T ms
  proof -
    let ?C = "calm_circuit cvt cok ovt ook stays T"
    have "does (?C 0 0) (Execute fuel env (ex_ctx s) (Some (ex_run s)) (ex_fallback s))
        (\<lambda>r c. ?C 0 0 c \<and> call_result stays T 0 0 R (map_option (\<lambda>_ r. r = None) (ex_fallback s)) r)"
      by (rule exec) (use rf [OF T] fb in \<open>auto simp: zero_counts intro: does_greturn\<close>)
    moreover have "does (\<lambda>c. ?C 0 0 c \<and> call_result stays T 0 0 R (map_option (\<lambda>_ r. r = None) (ex_fallback s)) r)
        (ex_check s r) (\<lambda>_. ?C 0 0)" for r
      by (rule does_pre) (use check [OF T] in \<open>auto intro: does_greturn\<close>)
    ultimately show ?thesis unfolding example_tick_def by (rule does_gbind)
  qed
  then show ?thesis unfolding setup_works_def Let_def using lf uses by blast
qed

subsection \<open>Every setup works\<close>

text \<open>What the checks of the example accept.\<close>

lemma must_fail:
  assumes "call_result stays T k j R None r" "\<not> R None"
  shows "mustFail r = greturn ()"
  using assms by (auto simp: call_result_def admitted_or_refused_def mustFail_def split: if_splits)

lemma must_pass:
  assumes "call_result stays T k j R (Some (\<lambda>r. r = None)) r" "\<And>e. R e \<Longrightarrow> \<not> IsBadRequest e"
    and "\<not> ac_Disabled T" "\<not> ac_FallbackDisabled T" "add64 j 1 \<le> ac_FallbackMaxConcurrentRequests T"
  shows "mustPass r = greturn ()"
proof -
  have "\<not> IsBadRequest (Some errCircuitOpen)" "\<not> IsBadRequest (Some errThrottledConcurrentCommands)"
    by (simp_all add: errCircuitOpen_def errThrottledConcurrentCommands_def IsBadRequest.simps)
  then have "r = None"
    using assms by (auto simp: call_result_def admitted_or_refused_def fallback_result_def split: if_splits)
  then show ?thesis by (simp add: mustPass_def)
qed

lemma does_sleeping_run:
  assumes "circuit_logic cvt cok ovt ook" "\<And>n. R (ctx_Err ctx n)" "R None"
  shows "does (calm_circuit cvt cok ovt ook stays T k j) (sleeping_run slept ctx)
    (\<lambda>r c. calm_circuit cvt cok ovt ook stays T k j c \<and> R r)"
  using assms by (auto simp: sleeping_run_def does_def gbind_run go_run ask_Err_def circuit_logic.calm_readings)

lemmas default_setup = setup_worksI [OF default_factories.logic_factories_axioms _ _ _ neverOpens_keeps_closed,
  where stays = True]
lemmas hystrix_setup = setup_worksI [OF hystrix_factories_of, where stays = False]

lemmas default_uses = default_factories.uses_factories_def config_eval setup_defs
lemmas hystrix_uses = logic_factories.uses_factories_def [OF hystrix_factories_of [OF op_fits_default]] config_eval setup_defs
lemmas no_bad_request = errors_New_def err_Canceled_def err_DeadlineExceeded_def IsBadRequest.simps

text \<open>The circuits with the default logic.\<close>

lemma setupAlwaysPasses_works:
  assumes "quiet env" "3 \<le> fuel"
  shows "setup_works wall u v fuel env setupAlwaysPasses"
  by (rule default_setup [OF _ assms, where R = "\<lambda>r. r = None"])
    (auto simp: default_uses does_greturn call_result_def
      admitted_or_refused_def add64_exact in_int64_def min_int64_def max_int64_def mustPass_def)

lemma setupTimesOut_works:
  assumes "quiet env" "3 \<le> fuel"
    and waits: "\<And>d n. ctx_Err (WithDeadline (env_wall env) ctx_Background d) (awaited (WithDeadline (env_wall env) ctx_Background d) n) \<noteq> None"
  shows "setup_works wall u v fuel env (setupTimesOut awaited)"
proof (rule default_setup [OF _ assms(1,2), where R = "\<lambda>r. r \<noteq> None"])
  fix ctx' ms T k
  assume T: "T = ac_reset (in_force wall u v ms (setupTimesOut awaited)) zero_atomicCircuitConfig"
    and g: "given_ctx (env_wall env) T (ex_ctx (setupTimesOut awaited)) ctx'"
  have "\<exists>d. ctx' = WithDeadline (env_wall env) ctx_Background d"
    using g by (simp add: T default_uses given_ctx_def)
  then show "does (calm_circuit neverOpens (\<lambda>_. True) neverCloses (\<lambda>_. True) True T k 0) (ex_run (setupTimesOut awaited) ctx')
      (\<lambda>r c. calm_circuit neverOpens (\<lambda>_. True) neverCloses (\<lambda>_. True) True T k 0 c \<and> r \<noteq> None)"
    using waits by (auto simp: setupTimesOut_def does_def Let_def circuit_logic.calm_readings [OF default_logic.circuit_logic_axioms])
qed (use must_fail in \<open>auto simp: default_uses\<close>)

lemma setupFallsBack_works:
  assumes "quiet env" "3 \<le> fuel"
  shows "setup_works wall u v fuel env setupFallsBack"
  by (rule default_setup [OF _ assms, where R = "\<lambda>r. r = Some (errors_New ''a failure'')"])
    (auto simp: default_uses does_greturn no_bad_request add64_exact in_int64_def min_int64_def max_int64_def elim!: must_pass)

lemma given_deadline:
  "given_ctx wall T ctx_Background ctx' \<Longrightarrow> ctx_Err ctx' n = None \<or> ctx_Err ctx' n = Some err_DeadlineExceeded"
  by (auto simp: given_ctx_def WithDeadline_def ctx_Background_def split: if_splits)

lemma setupRandomExecutionTime_works:
  assumes "quiet env" "3 \<le> fuel"
  shows "setup_works wall u v fuel env (setupRandomExecutionTime slept)"
  by (rule default_setup [OF _ assms, where R = "\<lambda>r. r = None \<or> r = Some err_DeadlineExceeded"])
    (auto simp: default_uses no_bad_request add64_exact in_int64_def min_int64_def max_int64_def
      intro!: does_sleeping_run [OF default_logic.circuit_logic_axioms] dest: given_deadline elim!: must_pass)

lemma setupThrottledCircuit_works:
  assumes "quiet env" "3 \<le> fuel"
  shows "setup_works wall u v fuel env (setupThrottledCircuit slept)"
  by (rule default_setup [OF _ assms, where R = "\<lambda>_. True"])
    (use does_sleeping_run [OF default_logic.circuit_logic_axioms, where R = "\<lambda>_. True"] in \<open>auto simp: default_uses\<close>)

text \<open>The circuits with the hystrix logic.\<close>

lemma setupAlwaysFails_works:
  assumes "quiet env" "3 \<le> fuel"
  shows "setup_works wall u v fuel env (setupAlwaysFails wall)"
  by (rule hystrix_setup [OF op_fits_default _ assms, where R = "\<lambda>r. r \<noteq> None"])
    (use must_fail in \<open>auto simp: hystrix_uses does_greturn\<close>)

lemma setupBadRequest_works:
  assumes "quiet env" "3 \<le> fuel"
  shows "setup_works wall u v fuel env (setupBadRequest wall)"
  by (rule hystrix_setup [OF op_fits_default _ assms, where R = "\<lambda>r. r \<noteq> None"])
    (use must_fail in \<open>auto simp: hystrix_uses does_greturn\<close>)

lemma setupFailsOriginalContext_works:
  assumes "quiet env" "3 \<le> fuel"
  shows "setup_works wall u v fuel env (setupFailsOriginalContext wall)"
  by (rule hystrix_setup [OF op_fits_default _ assms, where R = "\<lambda>r. r \<noteq> None"])
    (use must_fail in \<open>auto simp: hystrix_uses does_greturn\<close>)

lemma op_fits_floppy: "op_fits (op_effective wall (zero_ConfigureOpener\<lparr>cop_RequestVolumeThreshold := 2\<rparr>))"
  by (simp add: op_fits_def op_effective_def cop_Merge_def defaultConfigureOpener_def zero_ConfigureOpener_def
      Let_def max_int64_def)

lemma setupFloppyCircuit_works:
  assumes "quiet env" "3 \<le> fuel"
  shows "setup_works wall u v fuel env (setupFloppyCircuit wall passes)"
  by (rule hystrix_setup [OF op_fits_floppy _ assms, where R = "\<lambda>_. True"])
    (auto simp: logic_factories.uses_factories_def [OF hystrix_factories_of [OF op_fits_floppy]] config_eval setup_defs
      does_def gbind_run go_run)

lemmas setups_work = setupAlwaysPasses_works setupFallsBack_works setupRandomExecutionTime_works setupThrottledCircuit_works
  setupAlwaysFails_works setupBadRequest_works setupFailsOriginalContext_works setupFloppyCircuit_works

subsection \<open>The whole program\<close>

text \<open>A circuit on which the ticks of a setup work, as often as they come.\<close>

definition ticking :: "nat \<Rightarrow> (Opener, Closer) Env \<Rightarrow> example_setup \<Rightarrow> (Opener, Closer) Circuit \<Rightarrow> bool" where
  "ticking fuel env s c \<longleftrightarrow> (\<exists>C. C c \<and> does C (example_tick fuel env s) (\<lambda>_. C))"

lemma ticking_runs:
  assumes "ticking fuel env s c"
  shows "\<exists>c'. gforeach (\<lambda>_. example_tick fuel env s) xs c = (Returns (), c')"
proof -
  obtain C where C: "C c" "does C (example_tick fuel env s) (\<lambda>_. C)" using assms by (auto simp: ticking_def)
  have "\<exists>c'. gforeach (\<lambda>_. example_tick fuel env s) xs c = (Returns (), c') \<and> C c'"
    by (rule gforeach_invariant) (use C doesD in fastforce)+
  then show ?thesis by blast
qed

text \<open>The names of a setup's circuit, and of those made before it.\<close>

definition running_setup :: "nat \<Rightarrow> (Opener, Closer) Env \<Rightarrow> (Opener, Closer) Manager \<Rightarrow> example_setup \<Rightarrow> bool" where
  "running_setup fuel env m s \<longleftrightarrow> (\<exists>p < length (mg_circuits m). GetCircuit (Some m) (ex_name s) = Some p \<and>
     c_name (mg_circuits m ! p) = ex_name s \<and> ticking fuel env s (mg_circuits m ! p))"

lemma setup_creates:
  fixes ctor :: "(Opener, Closer) constructors"
  assumes works: "setup_works wall u v fuel env s" and ctor: "\<And>k n m. ctor k n m = (Returns (collectors_config (ms k n)), m)"
    and m: "\<not> mg_createMu m" "mg_DefaultCircuitProperties m = [k]" "GetCircuit (Some m) (ex_name s) = None"
  shows "\<exists>p c m'. MustCreateCircuit wall u v ctor (ex_name s) [ex_config s] m = (Returns p, m') \<and>
    mg_circuits m' = mg_circuits m @ [c] \<and> mg_entries m' = mg_entries m @ [(ex_name s, length (mg_circuits m))] \<and>
    \<not> mg_createMu m' \<and> mg_DefaultCircuitProperties m' = [k] \<and> c_name c = ex_name s \<and> ticking fuel env s c"
proof -
  let ?cfg = "in_force wall u v (ms k (ex_name s)) s"
  obtain cvt cok ovt ook cfac ofac stays where lf: "logic_factories cvt cok ovt ook cfac ofac"
    "logic_factories.uses_factories cfac ofac ?cfg"
    and ticks: "does (calm_circuit cvt cok ovt ook stays (ac_reset ?cfg zero_atomicCircuitConfig) 0 0) (example_tick fuel env s)
      (\<lambda>_. calm_circuit cvt cok ovt ook stays (ac_reset ?cfg zero_atomicCircuitConfig) 0 0)"
    using works unfolding setup_works_def Let_def by blast
  have "?cfg = Config_Merge (foldl Config_Merge zero_Config
      ([ex_config s] @ map (\<lambda>k. collectors_config (ms k (ex_name s))) (rev (mg_DefaultCircuitProperties m))))
      (defaultCommandProperties wall u v)"
    by (simp add: in_force_def m(2))
  from CreateCircuit_run [where ctor = ctor and cfg = "\<lambda>k n. collectors_config (ms k n)" and nm = "ex_name s",
      OF lf(1) ctor m(1,3) this lf(2)]
  obtain c m' where c: "CreateCircuit wall u v ctor (ex_name s) [ex_config s] m = (Returns (Some (length (mg_circuits m)), None), m')"
    "mg_circuits m' = mg_circuits m @ [c]" "mg_entries m' = mg_entries m @ [(ex_name s, length (mg_circuits m))]"
    "\<not> mg_createMu m'" "mg_DefaultCircuitProperties m' = mg_DefaultCircuitProperties m" "logic_ready cvt cok ovt ook c"
    and core: "core c = core ((configured ?cfg (zero_Circuit\<lparr>c_name := ex_name s\<rparr>))\<lparr>c_readings := c_readings c\<rparr>)"
    by blast
  note f = core_fields [OF core]
  have "calm_circuit cvt cok ovt ook stays (ac_reset ?cfg zero_atomicCircuitConfig) 0 0 c"
    using c(6) f by (simp add: calm_circuit_def configured_def zero_Circuit_def)
  then have "ticking fuel env s c" using ticks by (auto simp: ticking_def)
  moreover have "c_name c = ex_name s" using f by (simp add: configured_def)
  moreover have "MustCreateCircuit wall u v ctor (ex_name s) [ex_config s] m = (Returns (Some (length (mg_circuits m))), m')"
    using c(1) by (simp add: MustCreateCircuit_def gbind_run go_run)
  ultimately show ?thesis using c(2-5) m(2) by auto
qed

lemma running_setup_later:
  assumes "running_setup fuel env m s" "mg_circuits m' = mg_circuits m @ cs" "mg_entries m' = mg_entries m @ es"
  shows "running_setup fuel env m' s"
proof -
  obtain p where p: "p < length (mg_circuits m)" "GetCircuit (Some m) (ex_name s) = Some p"
    "c_name (mg_circuits m ! p) = ex_name s" "ticking fuel env s (mg_circuits m ! p)"
    using assms(1) by (auto simp: running_setup_def)
  have "mg_circuits m' ! p = mg_circuits m ! p" "p < length (mg_circuits m')" using p(1) assms(2) by (simp_all add: nth_append)
  moreover have "GetCircuit (Some m') (ex_name s) = Some p"
    using p(2) assms(3) by (simp add: GetCircuit_def map_add_def split: option.splits)
  ultimately show ?thesis using p(3,4) unfolding running_setup_def by metis
qed

lemma setups_create:
  fixes ctor :: "(Opener, Closer) constructors"
  assumes ctor: "\<And>k n m. ctor k n m = (Returns (collectors_config (ms k n)), m)"
  shows "(\<And>s. s \<in> set ss \<Longrightarrow> setup_works wall u v fuel env s) \<Longrightarrow> distinct (map ex_name ss) \<Longrightarrow>
    (\<And>s. s \<in> set ss \<Longrightarrow> GetCircuit (Some m) (ex_name s) = None) \<Longrightarrow> \<not> mg_createMu m \<Longrightarrow> mg_DefaultCircuitProperties m = [k] \<Longrightarrow>
    \<exists>m' cs es. createBackgroundCircuits wall u v ctor ss m = (Returns (), m') \<and> mg_circuits m' = mg_circuits m @ cs \<and>
      mg_entries m' = mg_entries m @ es \<and> length cs = length ss \<and> (\<forall>s \<in> set ss. running_setup fuel env m' s)"
proof (induction ss arbitrary: m)
  case Nil
  then show ?case by (simp add: createBackgroundCircuits_def go_simps)
next
  case (Cons s ss)
  have w: "setup_works wall u v fuel env s" "GetCircuit (Some m) (ex_name s) = None" using Cons.prems(1,3) by simp_all
  obtain p c m1 where m1: "MustCreateCircuit wall u v ctor (ex_name s) [ex_config s] m = (Returns p, m1)"
    "mg_circuits m1 = mg_circuits m @ [c]" "mg_entries m1 = mg_entries m @ [(ex_name s, length (mg_circuits m))]"
    "\<not> mg_createMu m1" "mg_DefaultCircuitProperties m1 = [k]" "c_name c = ex_name s" "ticking fuel env s c"
    using setup_creates [where ctor = ctor and ms = ms and s = s, OF w(1) ctor Cons.prems(4,5) w(2)] by blast
  have look: "GetCircuit (Some m1) nm = (if nm = ex_name s then Some (length (mg_circuits m)) else GetCircuit (Some m) nm)" for nm
    using Cons.prems(3) [of s] by (auto simp: GetCircuit_def m1(3) map_add_def split: option.splits)
  have s: "running_setup fuel env m1 s" using m1 look unfolding running_setup_def by (intro exI [of _ "length (mg_circuits m)"]) simp
  have "GetCircuit (Some m1) (ex_name s') = None" if "s' \<in> set ss" for s'
    using Cons.prems(2,3) that look by (auto simp: image_iff)
  from Cons.IH [OF _ _ this m1(4,5)] Cons.prems(1,2)
  obtain m' cs es where m': "createBackgroundCircuits wall u v ctor ss m1 = (Returns (), m')"
    "mg_circuits m' = mg_circuits m1 @ cs" "mg_entries m' = mg_entries m1 @ es" "length cs = length ss"
    "\<forall>s \<in> set ss. running_setup fuel env m' s" by auto
  have "createBackgroundCircuits wall u v ctor (s # ss) m = (Returns (), m')"
    using m1(1) m'(1) by (simp add: createBackgroundCircuits_def go_simps)
  moreover have "running_setup fuel env m' s" using running_setup_later [OF s m'(2,3)] .
  ultimately show ?case using m1(2,3) m'(2-5) by (intro exI [of _ m'] exI [of _ "c # cs"]) simp
qed

text \<open>C36: The example program does not die. With collectors that return, \<^verbatim>\<open>newHandler\<close> returns its two routes, however often it
  is called; each of its nine circuits is found under its name, and whatever the random sleeps, the wall clock
  and the floppy flag do, every tick of a setup on its circuit passes its check, \<^verbatim>\<open>mustFail\<close> or \<^verbatim>\<open>mustPass\<close>: no tick
  panics or hangs, for any number of them one after another.\<close>

theorem example_never_panics:
  fixes ctor :: "(Opener, Closer) constructors"
  assumes "quiet env" "3 \<le> fuel" "\<And>k n m. ctor k n m = (Returns (collectors_config (ms k n)), m)"
    and "\<And>d n. ctx_Err (WithDeadline (env_wall env) ctx_Background d)
      (awaited (WithDeadline (env_wall env) ctx_Background d) n) \<noteq> None"
  shows "\<exists>routes vs' m'. newHandler wall u v ctor (example_setups wall awaited slept passes) (vs, m) = (Returns routes, (vs', m')) \<and>
    map fst routes = [''/hystrix.stream'', ''/debug/vars''] \<and> ''hystrix'' \<in> set vs' \<and>
    (\<forall>s \<in> set (example_setups wall awaited slept passes). \<exists>p < length (mg_circuits m').
      GetCircuit (Some m') (ex_name s) = Some p \<and> c_name (mg_circuits m' ! p) = ex_name s \<and>
      (\<forall>n. \<exists>c'. gforeach (\<lambda>_. example_tick fuel env s) [0..<n] (mg_circuits m' ! p) = (Returns (), c')))"
proof -
  let ?ss = "example_setups wall awaited slept passes" and ?m = "zero_Manager\<lparr>mg_DefaultCircuitProperties := [0]\<rparr>"
  have works: "setup_works wall u v fuel env s" if "s \<in> set ?ss" for s
    using that setups_work [OF assms(1,2)] setupTimesOut_works [OF assms(1,2,4)] by (auto simp: example_setups_def)
  have "distinct (map ex_name ?ss)" by (simp add: example_setups_def setup_defs)
  then obtain m' where m': "createBackgroundCircuits wall u v ctor ?ss ?m = (Returns (), m')" "\<forall>s \<in> set ?ss. running_setup fuel env m' s"
    using setups_create [where ctor = ctor and ms = ms, OF assms(3) works, of ?ss ?m 0]
    by (auto simp: zero_Manager_def GetCircuit_def mg_entries_def)
  have "\<exists>p < length (mg_circuits m'). GetCircuit (Some m') (ex_name s) = Some p \<and> c_name (mg_circuits m' ! p) = ex_name s \<and>
      (\<forall>n. \<exists>c'. gforeach (\<lambda>_. example_tick fuel env s) [0..<n] (mg_circuits m' ! p) = (Returns (), c'))"
    if "running_setup fuel env m' s" for s
    using that ticking_runs unfolding running_setup_def by metis
  then have "\<forall>s \<in> set ?ss. \<exists>p < length (mg_circuits m'). GetCircuit (Some m') (ex_name s) = Some p \<and>
      c_name (mg_circuits m' ! p) = ex_name s \<and>
      (\<forall>n. \<exists>c'. gforeach (\<lambda>_. example_tick fuel env s) [0..<n] (mg_circuits m' ! p) = (Returns (), c'))"
    using m'(2) by blast
  moreover have "newHandler wall u v ctor ?ss (vs, m) =
    (Returns [(''/hystrix.stream'', StreamRoute (zero_stream 0)), (''/debug/vars'', VarsRoute)],
      (if ''hystrix'' \<in> set vs then vs else vs @ [''hystrix''], m'))"
    using m'(1) by (simp add: newHandler_def expvar_Publish_def gbind_run gseq_run gzoom_run gwhen_run go_run)
  ultimately show ?thesis by simp
qed

theorem example_never_panics_witness:
  "\<exists>routes vs' m'. newHandler int zero_Opener zero_Closer
      (\<lambda>k n. greturn (collectors_config \<lparr>mc_Run = [0], mc_Fallback = [0], mc_Circuit = []\<rparr>))
      (example_setups int (\<lambda>ctx n. n + nat (the (ctx_Deadline ctx))) even (\<lambda>n. n mod 3 = 0))
      ([''memstats''], zero_Manager) = (Returns routes, (vs', m')) \<and>
    (\<exists>p c'. GetCircuit (Some m') ''floppy-circuit'' = Some p \<and>
      gforeach (\<lambda>_. example_tick 3 (quiet_env int) (setupFloppyCircuit int (\<lambda>n. n mod 3 = 0))) [0..<1000] (mg_circuits m' ! p) = (Returns (), c'))"
proof -
  have "ctx_Err (WithDeadline (env_wall (quiet_env int)) ctx_Background d)
      (n + nat (the (ctx_Deadline (WithDeadline (env_wall (quiet_env int)) ctx_Background d)))) \<noteq> None" for d n
    by (simp add: WithDeadline_def ctx_Background_def quiet_env_def)
  from example_never_panics [where ctor = "\<lambda>k n. greturn (collectors_config \<lparr>mc_Run = [0], mc_Fallback = [0], mc_Circuit = []\<rparr>)" and
      env = "quiet_env int" and fuel = 3 and awaited = "\<lambda>ctx n. n + nat (the (ctx_Deadline ctx))" and vs = "[''memstats'']" and
      m = zero_Manager and slept = even and passes = "\<lambda>n. n mod 3 = 0" and wall = int and u = zero_Opener and v = zero_Closer,
      OF _ _ _ this]
  show ?thesis by (fastforce simp: example_setups_def setupFloppyCircuit_def greturn_def)
qed

end
