(* ===== verification/Spec2Isabelle.thy ===== *)
theory Spec2Isabelle
  imports CircuitExecution CircuitTransitions HystrixFactory SimpleLogic RollingPercentile Manager GoWrapper StatFactory
    ResponseTimeSLO MetricEventStream MockClock TransitionRace Throttle HystrixCircuit BucketRace
    StreamRace TimedCheckRace CloserRace CircuitCalls Atomics Formatting Expvar HystrixJSON TestHelpers ExampleProgram
begin

text \<open>
  A verification development for the Go circuit breaker library \<^verbatim>\<open>github.com/cep21/circuit\<close>.

  \<^bold>\<open>The program.\<close> A circuit (\<^verbatim>\<open>circuit.go\<close>) wraps calls of user code. It counts the running commands, asks its
  logic whether a call may run, classifies how the call ended, tells its collectors, and opens or closes
  when its logic asks for it. The logic is pluggable (\<^verbatim>\<open>closers.go\<close>): a closed to open part decides when to
  open, an open to closed part which probes to let through and when to close. The library brings two
  kinds of logic (\<^verbatim>\<open>closers/hystrix\<close>, \<^verbatim>\<open>closers/simplelogic\<close>), built on windows of time (\<^verbatim>\<open>faststats\<close>), a registry of
  circuits (\<^verbatim>\<open>manager.go\<close>), collectors (\<^verbatim>\<open>metrics\<close>) and a stream of what they collected
  (\<^verbatim>\<open>metriceventstream\<close>).

  \<^bold>\<open>How Go is modelled.\<close> \<open>Go_Prelude\<close> holds the language: an \<^verbatim>\<open>int64\<close> is an \<open>int\<close> on which every operation that may
  leave 64 bits is wrapped (\<open>wrap64\<close>, \<open>add64\<close>, \<open>mul64\<close>), an instant is a number of nanoseconds, and a call is a function
  of its state, \<open>('a, 's) go\<close>, that returns, panics or never returns (\<open>Returns\<close>, \<open>Panics\<close>, \<open>Blocks\<close>); \<open>gdefer\<close> is
  \<^verbatim>\<open>defer\<close>. \<open>Go_Context\<close> has clocks and contexts, whose answer depends on how often the world was asked.
  \<open>Float64\<close> has the rounding of \<^verbatim>\<open>float64\<close>, with the locale \<open>float_rounding\<close> of what clients may rely on. A struct is a
  record, an interface value a table of methods with a receiver, a pointer that may be nil an option.

  \<^bold>\<open>The windows, bottom up.\<close>
  \<^item> \<open>RollingBuckets\<close> (\<^verbatim>\<open>faststats/rolling_bucket.go\<close>): \<open>Advance\<close>, \<open>rollForward\<close>. The interface to the owner of the
    buckets is the locale \<open>bucket_array\<close>; what advancing clears is proved inside it.
  \<^item> \<open>RollingCounter\<close> (\<^verbatim>\<open>rolling_counter.go\<close>) and \<open>RollingPercentile\<close> (\<^verbatim>\<open>rolling_percentile.go\<close>) interpret it (\<open>rcb\<close>, \<open>rpb\<close>). Each
    is refined to the list of everything recorded, with its window (\<open>window_spec\<close>, \<open>sample_window\<close>), for
    every history of operations. Percentiles are the float interpolation of the code (\<open>sd_Percentile\<close>).
  \<^item> \<open>BucketRace\<close>: goroutines that count (\<^verbatim>\<open>Inc\<close>) at the same time, one step for each atomic access; readers and resets
    at the same time are not in it.
  \<^item> \<open>TimedCheck\<close> (\<^verbatim>\<open>timedcheck.go\<close>): the sleep window with its timers, by version; \<open>TimedCheckRace\<close>: goroutines that
    check and start sleeps at the same time, with timers that run late.

  \<^bold>\<open>The logic.\<close>
  \<^item> \<open>Interfaces\<close> (\<^verbatim>\<open>closers.go\<close>, interfaces of \<^verbatim>\<open>metrics.go\<close>): the method tables and their contracts, the locales
    \<open>state_machine\<close>, \<open>closed_to_open\<close> and \<open>open_to_closed\<close>; the default logic interprets them.
  \<^item> \<open>HystrixOpener\<close>, \<open>HystrixCloser\<close>, \<open>HystrixFactory\<close> (\<^verbatim>\<open>closers/hystrix\<close>), \<open>SimpleLogic\<close> (\<^verbatim>\<open>closers/simplelogic\<close>): every
    method, and an interpretation of the contract (\<open>hystrix_opener\<close>, \<open>hystrix_closer\<close>, \<open>consecutive\<close>).
  \<^item> \<open>CloserRace\<close>: openings, closings, questions and results of one closer at the same time.

  \<^bold>\<open>The circuit.\<close>
  \<^item> \<open>Errors\<close> (\<^verbatim>\<open>errors.go\<close>), \<open>CircuitConfig\<close> (\<^verbatim>\<open>config.go\<close>), \<open>Circuit\<close> (\<^verbatim>\<open>circuit.go\<close>, collections of \<^verbatim>\<open>metrics.go\<close>): the
    definitions, one for each function of the code; user code is a parameter.
  \<^item> \<open>CircuitLaws\<close>: the locale \<open>circuit_logic\<close>, which joins the two contracts of the logic, and what every step of
    the circuit does under it; the invariants that hold for any user code.
  \<^item> \<open>CircuitExecution\<close> (admission, verdicts, fallback, counters), \<open>CircuitTransitions\<close> (opening, closing, telling
    listeners that may panic), \<open>CircuitSetup\<close> (construction, the locale \<open>logic_factories\<close>).
  \<^item> \<open>HystrixCircuit\<close>: a circuit with the hystrix logic is refined to an abstract breaker, through the
    interpretations \<open>hystrix_logic\<close> and \<open>hystrix_factories\<close>.
  \<^item> \<open>CircuitCalls\<close>: whole calls, one after another. \<open>does P m Q\<close> is total correctness of a call: with
    listeners that leave the circuit alone, a call whose run function and fallback return and leave the circuit as they
    found it comes back (\<open>calls_come_back\<close>); a listener that keeps flipping the circuit may keep it for ever.
  \<^item> \<open>TransitionRace\<close>, \<open>Throttle\<close>: goroutines that open, close and use one circuit at the same time, as step
    relations over every interleaving. \<open>GoWrapper\<close> (\<^verbatim>\<open>gowrapper.go\<close>, \<^verbatim>\<open>Circuit.Go\<close>): the goroutines and
    channels of one wrapped call, and \<open>Go\<close> as the circuit sees it.

  \<^bold>\<open>Around the circuit.\<close>
  \<^item> \<open>Manager\<close> (\<^verbatim>\<open>manager.go\<close>): names, constructors that may call the manager again, the lock on creations.
  \<^item> \<open>RollingStats\<close>, \<open>StatFactory\<close> (\<^verbatim>\<open>metrics/rolling\<close>), \<open>ResponseTimeSLO\<close> (\<^verbatim>\<open>metrics/responsetimeslo\<close>): the collectors and their
    factories. The objective is stated as its documentation has it; the interrupts that the code counts as failures all
    the same are left out of it, and shown in \<open>slow_interrupt_fails\<close>.
  \<^item> \<open>MetricEventStream\<close> (\<^verbatim>\<open>metriceventstream\<close>): the event made of a circuit, and how events reach the listeners;
    \<open>StreamRace\<close>: requests, ticks and closings at the same time, as a step relation.
  \<^item> \<open>MockClock\<close> (\<^verbatim>\<open>internal/clock\<close>): the clock of the tests, refined to a queue of timers.
  \<^item> \<open>Atomics\<close>, \<open>Formatting\<close> (\<^verbatim>\<open>faststats/atomic.go\<close>, the methods \<^verbatim>\<open>String\<close> of \<^verbatim>\<open>faststats\<close>), \<open>Expvar\<close> (\<^verbatim>\<open>internal/evar\<close>, the methods \<^verbatim>\<open>Var\<close>),
    \<open>HystrixJSON\<close>: what the parts print and expose.
  \<^item> \<open>TestHelpers\<close> (\<^verbatim>\<open>internal/testhelp\<close>) and \<open>ExampleProgram\<close> (\<^verbatim>\<open>example/main.go\<close>), whose nine circuits are put together
    from the manager, the hystrix factories and \<open>CircuitCalls\<close>.

  \<^bold>\<open>Loops.\<close> \<open>deliver_loop\<close> and \<open>deliverPendingTransitions\<close> run for ever when a listener keeps causing transitions, and
  \<open>TickUntil\<close>, \<open>till_loop\<close> when their condition never holds: they have fuel, and out of fuel they do not return. When the listeners
  cause no transitions, the number of transitions that wait plus two rounds is enough, whether or not
  listeners panic (\<open>enough\<close>, \<open>quiet_deliver\<close>); a call adds at most one transition, so that the theorems about calls ask for
  \<open>3 \<le> fuel\<close>. A clock that moves by \<open>d\<close> reaches \<open>T\<close> in no more rounds than \<open>TickUntil_returns\<close> says,
  and \<open>till_loop\<close> ends with the first reading that is late enough (\<open>DoTillTime_returns\<close>). Every other loop is
  over data or has a measure.

  \<^bold>\<open>Bounds.\<close> The windows are those the constructors make (\<open>rb_inv\<close>, \<open>sane_window\<close>): a positive number of buckets of
  positive width, and absolute indices that do not overflow. Sums wrap at 64 bits where the code's do.
  A theorem that needs a clock which does not run backwards says so.

  \<^bold>\<open>Not modelled.\<close> The network: the headers and the bytes of \<^verbatim>\<open>ServeHTTP\<close>, of which the model has only whether a write works. Real time: a sleep has no
  duration, a reading of a clock is whatever the clock says. The mutexes that guard a single access
  of a configuration, and data races of the setters that are documented as not thread safe.
  \<^verbatim>\<open>TimedCheck.String\<close>, which formats a time, and the flags, the HTTP server and the log of the example program; its
  ticks come one after another, while the program runs ten and a hundred goroutines on two of its circuits.
\<close>

end
